(* ===== verification/Prelude.thy ===== *)
theory Prelude
  imports Main "HOL-Library.Word" "HOL-Library.Monad_Syntax"
begin

text \<open>
  Shared vocabulary of the development: the kernel's integer types at their
  widths, the outcome of a call, and the generic facts on options, lists and
  words the components use.

  A C function of the kernel either returns to its caller or it does not: a
  failed \<^verbatim>\<open>assert\<close>, a \<^verbatim>\<open>panic\<close> or a \<^verbatim>\<open>TODO\<close> ends in the function
  \<^verbatim>\<open>__panic\<close> of \<^verbatim>\<open>panic.c\<close>, which is declared \<^verbatim>\<open>[[noreturn]]\<close> and halts the machine, and
  a dereference of a pointer to nothing traps.  So a function that can stop is
  modelled with result type \<open>'a option\<close>: \<open>Some x\<close> is a normal return with \<open>x\<close>,
  \<open>None\<close> is a call that never returns to its caller.  Ordinary error results
  of the code (\<^verbatim>\<open>false\<close>, \<^verbatim>\<open>nullptr\<close>) are ordinary values under \<open>Some\<close>.
\<close>

unbundle bit_operations_syntax

named_theorems outcome_simps \<open>unfolding of calls that may stop\<close>
named_theorems paddr_simps \<open>the arithmetic of physical addresses\<close>
named_theorems mem_simps \<open>reads over writes of byte memory\<close>

section \<open>Integer types\<close>

type_synonym u8 = "8 word"
type_synonym u16 = "16 word"
type_synonym u32 = "32 word"
type_synonym u64 = "64 word"
type_synonym usize = "64 word"
type_synonym uaddr = "64 word"

section \<open>Calls that may stop\<close>

definition assert_that :: "bool \<Rightarrow> unit option" where
  "assert_that P = (if P then Some () else None)"

lemma assert_that_True [simp, outcome_simps]: "P \<Longrightarrow> assert_that P = Some ()"
  by (simp add: assert_that_def)

lemma assert_that_False [simp, outcome_simps]: "\<not> P \<Longrightarrow> assert_that P = None"
  by (simp add: assert_that_def)

lemma assert_that_eq_Some [simp]: "assert_that P = Some u \<longleftrightarrow> P"
  by (simp add: assert_that_def)

lemma assert_that_eq_None [simp]: "assert_that P = None \<longleftrightarrow> \<not> P"
  by (simp add: assert_that_def)

lemma bind_assert_Some [outcome_simps]:
  "Option.bind (assert_that P) f = Some y \<longleftrightarrow> P \<and> f () = Some y"
  by (simp add: assert_that_def)

lemma bind_eq_Some [outcome_simps]:
  "Option.bind m f = Some y \<longleftrightarrow> (\<exists>x. m = Some x \<and> f x = Some y)"
  by (rule Option.bind_eq_Some_conv)

lemma bind_someE:
  assumes "Option.bind m f = Some y"
  obtains x where "m = Some x" "f x = Some y"
  using assms by (cases m) auto

text \<open>A sequence of calls on a state, one per element, that stops at the first failure.\<close>

primrec each_call :: "('s \<Rightarrow> 'v \<Rightarrow> 's option) \<Rightarrow> 's \<Rightarrow> 'v list \<Rightarrow> 's option" where
  "each_call f s [] = Some s"
| "each_call f s (v # vs) = do { s \<leftarrow> f s v; each_call f s vs }"

section \<open>Lists\<close>

lemma nth_eq_iff_distinct:
  "distinct xs \<Longrightarrow> i < length xs \<Longrightarrow> j < length xs \<Longrightarrow> xs ! i = xs ! j \<longleftrightarrow> i = j"
  by (rule nth_eq_iff_index_eq)

lemma distinct_middle:
  "distinct (xs @ x # ys) \<longleftrightarrow> distinct (xs @ ys) \<and> x \<notin> set xs \<and> x \<notin> set ys"
  by auto

section \<open>Words\<close>

lemma unat_of_nat_small [simp]:
  "n < 2 ^ LENGTH('a) \<Longrightarrow> unat (of_nat n :: 'a::len word) = n"
  by (simp add: unat_of_nat take_bit_nat_eq_self)

lemma unat_u64_less: "unat (w :: u64) < 2 ^ 64"
proof -
  have "unat w < 2 ^ LENGTH(64)" by (rule unsigned_less)
  then show ?thesis by simp
qed

lemma unat_plus_small:
  "unat a + unat b < 2 ^ LENGTH('a) \<Longrightarrow> unat (a + b :: 'a::len word) = unat a + unat b"
  by (simp add: unat_word_ariths)

lemma unat_minus_small: "b \<le> a \<Longrightarrow> unat (a - b :: 'a::len word) = unat a - unat b"
  by (rule unat_sub)

lemma and_not_mask_shift:
  "(a :: 'a::len word) AND NOT (mask n) = push_bit n (drop_bit n a)"
  by (rule bit_word_eqI) (auto simp: bit_simps)

lemma unat_and_not_mask:
  "unat ((a :: 'a::len word) AND NOT (mask n)) = unat a div 2 ^ n * 2 ^ n"
proof -
  have "unat a div 2 ^ n * 2 ^ n \<le> unat a" by simp
  also have "unat a < 2 ^ LENGTH('a)" by simp
  finally have "unat a div 2 ^ n * 2 ^ n < 2 ^ LENGTH('a)" .
  then show ?thesis
    by (simp add: and_not_mask_shift unsigned_push_bit_eq unsigned_drop_bit_eq
        push_bit_eq_mult [where 'a = nat] drop_bit_eq_div [where 'a = nat] take_bit_nat_eq_self)
qed

lemma push_bit_one_minus: "push_bit n 1 - 1 = (mask n :: 'a::len word)"
  by (simp add: mask_eq_exp_minus_1)

text \<open>\<^verbatim>\<open>stdc_trailing_zeros\<close> and \<^verbatim>\<open>stdc_first_trailing_one\<close> of \<^verbatim>\<open><stdbit.h>\<close>.\<close>

definition trailing_zeros :: "'a::len word \<Rightarrow> nat" where
  "trailing_zeros w = length (takeWhile (\<lambda>i. \<not> bit w i) [0..<LENGTH('a)])"

definition first_trailing_one :: "'a::len word \<Rightarrow> nat" where
  "first_trailing_one w = (if w = 0 then 0 else trailing_zeros w + 1)"

lemma trailing_zeros_bit:
  assumes "(w :: 'a::len word) \<noteq> 0"
  shows "trailing_zeros w < LENGTH('a)" "bit w (trailing_zeros w)"
    "i < trailing_zeros w \<Longrightarrow> \<not> bit w i"
proof -
  let ?t = "takeWhile (\<lambda>i. \<not> bit w i) [0..<LENGTH('a)]"
  obtain k where k: "bit w k"
    using assms by (metis bit_eqI bit_0_eq bot_apply bot_bool_def)
  then have kl: "k < LENGTH('a)" by (rule bit_imp_le_length)
  have "length ?t < length [0..<LENGTH('a)]"
  proof (rule ccontr)
    assume "\<not> ?thesis"
    then have "length ?t = length [0..<LENGTH('a)]"
      using length_takeWhile_le [of "\<lambda>i. \<not> bit w i" "[0..<LENGTH('a)]"] by simp
    then have "?t = [0..<LENGTH('a)]"
      by (metis takeWhile_eq_take take_all_iff order_refl)
    then have "\<forall>i \<in> set [0..<LENGTH('a)]. \<not> bit w i"
      by (metis set_takeWhileD)
    with k kl show False by simp
  qed
  then show len: "trailing_zeros w < LENGTH('a)" by (simp add: trailing_zeros_def)
  show "bit w (trailing_zeros w)"
    using nth_length_takeWhile [of "\<lambda>i. \<not> bit w i" "[0..<LENGTH('a)]"] len
    by (simp add: trailing_zeros_def)
  show "\<not> bit w i" if "i < trailing_zeros w"
  proof -
    have "?t ! i \<in> set ?t" using that by (simp add: trailing_zeros_def)
    then have "\<not> bit w (?t ! i)" by (metis set_takeWhileD)
    moreover have "?t ! i = i"
      using takeWhile_nth [of i "\<lambda>i. \<not> bit w i" "[0..<LENGTH('a)]"] that len
      by (simp add: trailing_zeros_def)
    ultimately show ?thesis by simp
  qed
qed

end
