(* ===== verification/Machine.thy ===== *)
theory Machine
  imports Prelude
begin

text \<open>
  The machine layer of the kernel's headers: alignment of addresses
  (\<^verbatim>\<open>include/align.h\<close>), the layout of integers in memory and the byte swaps of
  \<^verbatim>\<open>include/endian.h\<close> on the little-endian RISC-V target, and the bit-field
  struct \<^verbatim>\<open>paddr\<close> of \<^verbatim>\<open>include/types.h\<close> with the checked operations of
  \<^verbatim>\<open>include/physical.h\<close>.
\<close>

section \<open>Alignment\<close>

definition align_down_uaddr :: "uaddr \<Rightarrow> nat \<Rightarrow> uaddr" where
  "align_down_uaddr addr bits =
     (let low_mask = push_bit bits 1 - 1 in addr AND NOT low_mask)"

definition align_up_uaddr :: "uaddr \<Rightarrow> nat \<Rightarrow> uaddr" where
  "align_up_uaddr addr bits = align_down_uaddr (addr + (push_bit bits 1 - 1)) bits"

definition is_aligned_uaddr :: "uaddr \<Rightarrow> nat \<Rightarrow> bool" where
  "is_aligned_uaddr addr bits \<longleftrightarrow> align_down_uaddr addr bits = addr"

lemma align_down_mask: "align_down_uaddr a n = a AND NOT (mask n)"
  by (simp add: align_down_uaddr_def mask_eq_exp_minus_1)

lemma unat_align_down: "unat (align_down_uaddr a n) = unat a div 2 ^ n * 2 ^ n"
  by (simp add: align_down_mask unat_and_not_mask)

lemma is_aligned_iff_dvd: "is_aligned_uaddr a n \<longleftrightarrow> 2 ^ n dvd unat a"
proof -
  have "is_aligned_uaddr a n \<longleftrightarrow> unat (align_down_uaddr a n) = unat a"
    by (simp only: is_aligned_uaddr_def word_unat_eq_iff)
  also have "\<dots> \<longleftrightarrow> 2 ^ n dvd unat a"
    by (metis dvd_div_mult_self dvd_triv_right unat_align_down)
  finally show ?thesis .
qed

lemma align_down_le: "unat (align_down_uaddr a n) \<le> unat a"
  by (simp add: unat_align_down)

lemma align_down_aligned: "is_aligned_uaddr (align_down_uaddr a n) n"
  by (simp add: is_aligned_iff_dvd unat_align_down)

lemma unat_mask_small:
  assumes "n \<le> 64"
  shows "unat (mask n :: uaddr) = 2 ^ n - 1"
proof -
  have "(mask n :: uaddr) = of_nat (mask n)" by (simp add: of_nat_mask_eq)
  then have "unat (mask n :: uaddr) = take_bit LENGTH(64) (mask n)"
    by (simp only: unat_of_nat take_bit_eq_mod)
  also have "\<dots> = mask (min LENGTH(64) n)" by (rule take_bit_of_mask)
  also have "\<dots> = mask n" using assms by (simp add: min_def)
  finally show ?thesis by (simp add: mask_eq_exp_minus_1)
qed

lemma unat_align_up:
  assumes "n \<le> 64" and "unat a + 2 ^ n \<le> 2 ^ 64"
  shows "unat (align_up_uaddr a n) = (unat a + 2 ^ n - 1) div 2 ^ n * 2 ^ n"
proof -
  have "unat a + (2 ^ n - 1) < 2 ^ 64"
  proof -
    have "(0::nat) < 2 ^ n" by simp
    with assms(2) show ?thesis by linarith
  qed
  then have "unat (a + mask n) = unat a + (2 ^ n - 1)"
    using unat_plus_small [of a "mask n"] assms by (simp add: unat_mask_small)
  then show ?thesis
    by (simp add: align_up_uaddr_def unat_align_down mask_eq_exp_minus_1)
qed

lemma align_up_aligned: "is_aligned_uaddr (align_up_uaddr a n) n"
  by (simp add: align_up_uaddr_def align_down_aligned)

lemma round_up_bounds:
  fixes a :: nat
  shows "a \<le> (a + 2 ^ n - 1) div 2 ^ n * 2 ^ n" "(a + 2 ^ n - 1) div 2 ^ n * 2 ^ n < a + 2 ^ n"
proof -
  let ?k = "2 ^ n :: nat" and ?q = "(a + 2 ^ n - 1) div 2 ^ n :: nat"
  have k: "?k > 0" by simp
  have "(a + ?k - 1) mod ?k < ?k" by simp
  moreover have "?q * ?k + (a + ?k - 1) mod ?k = a + ?k - 1" by (rule div_mult_mod_eq)
  ultimately show "a \<le> ?q * ?k" "?q * ?k < a + ?k" using k by linarith+
qed

section \<open>Integers in memory\<close>

text \<open>
  \<open>le_bytes w\<close> is the memory image of a native integer on a little-endian
  machine, \<open>word_of_le\<close> the integer a \<^verbatim>\<open>memcpy\<close> out of memory produces.
\<close>

definition le_bytes :: "'a::len word \<Rightarrow> u8 list" where
  "le_bytes w = map (\<lambda>i. ucast (drop_bit (8 * i) w)) [0..<LENGTH('a) div 8]"

fun word_of_le :: "u8 list \<Rightarrow> 'a::len word" where
  "word_of_le [] = 0"
| "word_of_le (b # bs) = ucast b OR push_bit 8 (word_of_le bs)"

text \<open>\<^verbatim>\<open>__builtin_bswap16/32/64\<close>, behind the macro \<^verbatim>\<open>bswap\<close> of \<^verbatim>\<open>compiler.h\<close>.\<close>

definition bswap :: "'a::len word \<Rightarrow> 'a word" where
  "bswap w = word_of_le (rev (le_bytes w))"

definition little_to_native :: "'a::len word \<Rightarrow> 'a word" where
  "little_to_native value = value"

definition big_to_native :: "'a::len word \<Rightarrow> 'a word" where
  "big_to_native value = bswap value"

definition native_to_little :: "'a::len word \<Rightarrow> 'a word" where
  "native_to_little value = value"

definition native_to_big :: "'a::len word \<Rightarrow> 'a word" where
  "native_to_big value = bswap value"

lemma length_le_bytes [simp]: "length (le_bytes (w :: 'a::len word)) = LENGTH('a) div 8"
  by (simp add: le_bytes_def)

lemma bit_word_of_le:
  "bit (word_of_le bs :: 'a::len word) n \<longleftrightarrow>
     n < LENGTH('a) \<and> n div 8 < length bs \<and> bit (bs ! (n div 8)) (n mod 8)"
proof (induction bs arbitrary: n)
  case Nil
  then show ?case by simp
next
  case (Cons b bs)
  show ?case
  proof (cases "n < 8")
    case True
    then show ?thesis by (simp add: bit_simps)
  next
    case False
    then obtain k where k: "n = k + 8" by (metis le_add_diff_inverse2 not_less)
    have "bit (ucast b :: 'a word) n = False"
      using bit_imp_le_length [of b n] k by (auto simp: bit_simps)
    moreover have "(k + 8) div 8 = Suc (k div 8)" by simp
    ultimately show ?thesis
      using Cons.IH [of k] k by (auto simp: bit_simps)
  qed
qed

lemma bit_le_bytes_nth:
  "i < LENGTH('a) div 8 \<Longrightarrow> bit (le_bytes (w :: 'a::len word) ! i) n \<longleftrightarrow> n < 8 \<and> bit w (8 * i + n)"
  by (auto simp: le_bytes_def bit_simps)

lemma word_of_le_bytes [simp]:
  assumes "8 dvd LENGTH('a)"
  shows "word_of_le (le_bytes (w :: 'a::len word)) = w"
proof (rule bit_word_eqI)
  fix n assume n: "n < LENGTH('a)"
  then have "n div 8 < LENGTH('a) div 8" using assms by (auto elim!: dvdE)
  then show "bit (word_of_le (le_bytes w) :: 'a word) n = bit w n"
    using n by (simp add: bit_word_of_le bit_le_bytes_nth)
qed

lemma le_bytes_word_of_le [simp]:
  assumes "length bs = LENGTH('a) div 8"
  shows "le_bytes (word_of_le bs :: 'a::len word) = bs"
proof (rule nth_equalityI)
  fix i assume i: "i < length (le_bytes (word_of_le bs :: 'a word))"
  show "le_bytes (word_of_le bs :: 'a word) ! i = bs ! i"
  proof (rule bit_word_eqI)
    fix n assume n: "n < LENGTH(8)"
    have "8 * i + n < LENGTH('a)" using i n by simp
    then show "bit (le_bytes (word_of_le bs :: 'a word) ! i) n = bit (bs ! i) n"
      using i n assms by (simp add: bit_le_bytes_nth bit_word_of_le)
  qed
qed (use assms in simp)

lemma bswap_bswap [simp]: "8 dvd LENGTH('a) \<Longrightarrow> bswap (bswap (w :: 'a::len word)) = w"
  by (simp add: bswap_def)

lemma le_bytes_bswap: "8 dvd LENGTH('a) \<Longrightarrow> le_bytes (bswap (w :: 'a::len word)) = rev (le_bytes w)"
  by (simp add: bswap_def)

lemma le_bytes_inject [simp]:
  "8 dvd LENGTH('a) \<Longrightarrow> le_bytes (v :: 'a::len word) = le_bytes w \<longleftrightarrow> v = w"
  by (metis word_of_le_bytes)

text \<open>
  Byte order: swapping the bytes of an integer of 16, 32 or 64 bits twice
  gives it back, so \<^verbatim>\<open>big_to_native\<close> undoes \<^verbatim>\<open>native_to_big\<close>; and the bytes that
  \<^verbatim>\<open>native_to_big\<close> leaves in memory are the native ones in reverse.
\<close>

theorem big_endian_round_trip:
  "big_to_native (native_to_big (a :: u16)) = a \<and>
   big_to_native (native_to_big (b :: u32)) = b \<and>
   big_to_native (native_to_big (c :: u64)) = c \<and>
   le_bytes (native_to_big c) = rev (le_bytes c)"
  by (simp_all add: big_to_native_def native_to_big_def le_bytes_bswap)

section \<open>Physical addresses\<close>

text \<open>The bit-fields of \<^verbatim>\<open>paddr\<close>, from the low bit up.\<close>

record paddr =
  offset :: "12 word"
  ppn :: "44 word"
  rsvd :: "8 word"

text \<open>The two directions of the \<^verbatim>\<open>union { uaddr bits; paddr paddr; }\<close>.\<close>

definition paddr_of_raw :: "uaddr \<Rightarrow> paddr" where
  "paddr_of_raw bits =
     \<lparr>offset = ucast bits, ppn = ucast (drop_bit 12 bits), rsvd = ucast (drop_bit 56 bits)\<rparr>"

definition raw_of_paddr :: "paddr \<Rightarrow> uaddr" where
  "raw_of_paddr p =
     ucast (offset p) OR push_bit 12 (ucast (ppn p)) OR push_bit 56 (ucast (rsvd p))"

definition paddr_of_bits :: "uaddr \<Rightarrow> paddr option" where
  "paddr_of_bits bits = do {
     let p = paddr_of_raw bits;
     assert_that (rsvd p = 0);
     Some p
   }"

definition bits_of_paddr :: "paddr \<Rightarrow> uaddr option" where
  "bits_of_paddr addr = do {
     assert_that (rsvd addr = 0);
     Some (raw_of_paddr addr)
   }"

definition paddr_diff :: "paddr \<Rightarrow> paddr \<Rightarrow> usize option" where
  "paddr_diff end start = do {
     e \<leftarrow> bits_of_paddr end;
     s \<leftarrow> bits_of_paddr start;
     Some (e - s)
   }"

definition paddr_in_range :: "paddr \<Rightarrow> paddr \<Rightarrow> paddr \<Rightarrow> bool option" where
  "paddr_in_range addr lo hi = do {
     l \<leftarrow> bits_of_paddr lo;
     a \<leftarrow> bits_of_paddr addr;
     if l \<le> a then do {
       h \<leftarrow> bits_of_paddr hi;
       Some (a < h)
     } else Some False
   }"

text \<open>\<^verbatim>\<open>ckd_add\<close> is the compiler's overflow-checked addition.\<close>

definition ckd_add :: "'a::len word \<Rightarrow> 'a word \<Rightarrow> bool \<times> 'a word" where
  "ckd_add a b = (2 ^ LENGTH('a) \<le> unat a + unat b, a + b)"

definition paddr_offset :: "paddr \<Rightarrow> usize \<Rightarrow> paddr option" where
  "paddr_offset p off = do {
     addr \<leftarrow> bits_of_paddr p;
     let (overflow, addr) = ckd_add addr off;
     assert_that (\<not> overflow);
     paddr_of_bits addr
   }"

definition align_down_paddr :: "paddr \<Rightarrow> nat \<Rightarrow> paddr option" where
  "align_down_paddr p bits = do {
     let low_mask = push_bit bits 1 - 1;
     b \<leftarrow> bits_of_paddr p;
     paddr_of_bits (b AND NOT low_mask)
   }"

definition align_up_paddr :: "paddr \<Rightarrow> nat \<Rightarrow> paddr option" where
  "align_up_paddr p bits = do {
     q \<leftarrow> paddr_offset p (push_bit bits 1 - 1);
     align_down_paddr q bits
   }"

definition is_aligned_paddr :: "paddr \<Rightarrow> nat \<Rightarrow> bool option" where
  "is_aligned_paddr addr bits = do {
     d \<leftarrow> align_down_paddr addr bits;
     db \<leftarrow> bits_of_paddr d;
     ab \<leftarrow> bits_of_paddr addr;
     Some (db = ab)
   }"

text \<open>
  The numeric view of a physical address, and the address with a given number.
  The lemmas compute every checked operation on addresses \<open>paddr_at n\<close> with
  \<open>n < 2 ^ 56\<close>, which are all the addresses that pass the checks.
\<close>

definition paddr_nat :: "paddr \<Rightarrow> nat" where
  "paddr_nat p = unat (raw_of_paddr p)"

definition paddr_at :: "nat \<Rightarrow> paddr" where
  "paddr_at n = paddr_of_raw (of_nat n)"

lemma raw_of_paddr_of_raw [simp]: "raw_of_paddr (paddr_of_raw b) = b"
proof (rule bit_word_eqI)
  fix n assume "n < LENGTH(64)"
  then show "bit (raw_of_paddr (paddr_of_raw b)) n = bit b n"
    by (cases "n < 56") (auto simp: raw_of_paddr_def paddr_of_raw_def bit_simps)
qed

lemma paddr_of_raw_of_paddr [simp]: "paddr_of_raw (raw_of_paddr p) = p"
proof -
  have "ucast (raw_of_paddr p) = offset p"
  proof (rule bit_word_eqI)
    fix n assume "n < LENGTH(12)"
    then show "bit (ucast (raw_of_paddr p) :: 12 word) n = bit (offset p) n"
      by (auto simp: raw_of_paddr_def bit_simps)
  qed
  moreover have "ucast (drop_bit 12 (raw_of_paddr p)) = ppn p"
  proof (rule bit_word_eqI)
    fix n assume "n < LENGTH(44)"
    then show "bit (ucast (drop_bit 12 (raw_of_paddr p)) :: 44 word) n = bit (ppn p) n"
      using bit_imp_le_length [of "offset p" "n + 12"]
      by (auto simp: raw_of_paddr_def bit_simps add.commute)
  qed
  moreover have "ucast (drop_bit 56 (raw_of_paddr p)) = rsvd p"
  proof (rule bit_word_eqI)
    fix n assume "n < LENGTH(8)"
    then show "bit (ucast (drop_bit 56 (raw_of_paddr p)) :: 8 word) n = bit (rsvd p) n"
      using bit_imp_le_length [of "offset p" "n + 56"] bit_imp_le_length [of "ppn p" "n + 44"]
      by (auto simp: raw_of_paddr_def bit_simps add.commute)
  qed
  ultimately show ?thesis by (simp add: paddr_of_raw_def)
qed

lemma take_bit_unat_64: "take_bit 64 (unat (b :: u64)) = unat b"
  using unat_u64_less [of b] by (simp add: take_bit_nat_eq_self)

lemma rsvd_zero_iff: "rsvd (paddr_of_raw b) = 0 \<longleftrightarrow> unat b < 2 ^ 56"
proof -
  have "unat (rsvd (paddr_of_raw b)) = take_bit 8 (unat b div 2 ^ 56)"
    by (simp add: paddr_of_raw_def unsigned_ucast_eq unsigned_drop_bit_eq
        drop_bit_eq_div [where 'a = nat] take_bit_unat_64)
  moreover have "unat b div 2 ^ 56 < 2 ^ 8"
    using unat_u64_less [of b] by (simp add: less_mult_imp_div_less)
  ultimately have "unat (rsvd (paddr_of_raw b)) = unat b div 2 ^ 56"
    by (simp add: take_bit_nat_eq_self)
  then have "rsvd (paddr_of_raw b) = 0 \<longleftrightarrow> unat b div 2 ^ 56 = 0"
    by (metis unat_eq_zero)
  then show ?thesis by (simp add: div_eq_0_iff)
qed

lemma paddr_of_bits_eq:
  "paddr_of_bits b = (if unat b < 2 ^ 56 then Some (paddr_of_raw b) else None)"
  by (simp add: paddr_of_bits_def rsvd_zero_iff)

lemma bits_of_paddr_Some: "bits_of_paddr p = Some b \<longleftrightarrow> rsvd p = 0 \<and> b = raw_of_paddr p"
  by (auto simp: bits_of_paddr_def outcome_simps)

lemma rsvd_zero_nat: "rsvd p = 0 \<longleftrightarrow> paddr_nat p < 2 ^ 56"
  using rsvd_zero_iff [of "raw_of_paddr p"] by (simp add: paddr_nat_def)

lemma paddr_at_nat [simp]: "paddr_at (paddr_nat p) = p"
  by (simp add: paddr_at_def paddr_nat_def)

lemma paddr_nat_at [simp]: "n < 2 ^ 64 \<Longrightarrow> paddr_nat (paddr_at n) = n"
  by (simp add: paddr_at_def paddr_nat_def)

lemma paddr_nat_inject [simp]: "paddr_nat p = paddr_nat q \<longleftrightarrow> p = q"
  by (metis paddr_at_nat)

lemma paddr_nat_bound: "paddr_nat p < 2 ^ 64"
  using unat_u64_less [of "raw_of_paddr p"] by (simp add: paddr_nat_def)

lemma rsvd_paddr_at [simp]: "n < 2 ^ 56 \<Longrightarrow> rsvd (paddr_at n) = 0"
  by (simp add: rsvd_zero_nat)

lemma paddr_at_inject: "m < 2 ^ 64 \<Longrightarrow> n < 2 ^ 64 \<Longrightarrow> paddr_at m = paddr_at n \<longleftrightarrow> m = n"
  by (metis paddr_nat_at)

lemma of_nat_le_iff_small:
  "m < 2 ^ 64 \<Longrightarrow> n < 2 ^ 64 \<Longrightarrow> (of_nat m :: u64) \<le> of_nat n \<longleftrightarrow> m \<le> n"
  by (simp add: word_le_nat_alt)

lemma of_nat_less_iff_small:
  "m < 2 ^ 64 \<Longrightarrow> n < 2 ^ 64 \<Longrightarrow> (of_nat m :: u64) < of_nat n \<longleftrightarrow> m < n"
  by (simp add: word_less_nat_alt)

lemma of_nat_eq_iff_small:
  "m < 2 ^ 64 \<Longrightarrow> n < 2 ^ 64 \<Longrightarrow> (of_nat m :: u64) = of_nat n \<longleftrightarrow> m = n"
  by (simp add: word_unat_eq_iff)

lemma bits_of_paddr_at [paddr_simps]:
  "n < 2 ^ 56 \<Longrightarrow> bits_of_paddr (paddr_at n) = Some (of_nat n)"
  by (simp add: bits_of_paddr_def paddr_at_def rsvd_zero_iff)

lemma paddr_of_bits_at [paddr_simps]:
  "n < 2 ^ 56 \<Longrightarrow> paddr_of_bits (of_nat n) = Some (paddr_at n)"
  by (simp add: paddr_of_bits_eq paddr_at_def)

lemma paddr_diff_at [paddr_simps]:
  assumes "s \<le> e" "e < 2 ^ 56"
  shows "paddr_diff (paddr_at e) (paddr_at s) = Some (of_nat (e - s))"
  using assms by (simp add: paddr_diff_def paddr_simps of_nat_diff)

lemma paddr_in_range_at [paddr_simps]:
  assumes "a < 2 ^ 56" "l < 2 ^ 56" "h < 2 ^ 56"
  shows "paddr_in_range (paddr_at a) (paddr_at l) (paddr_at h) = Some (l \<le> a \<and> a < h)"
  using assms by (simp add: paddr_in_range_def paddr_simps of_nat_le_iff_small of_nat_less_iff_small)

lemma paddr_offset_at [paddr_simps]:
  assumes n: "n < 2 ^ 56"
  shows "paddr_offset (paddr_at n) k =
    (if n + unat k < 2 ^ 56 then Some (paddr_at (n + unat k)) else None)"
proof -
  have sum: "of_nat n + k = (of_nat (n + unat k) :: u64)" by simp
  show ?thesis
  proof (cases "n + unat k < 2 ^ 64")
    case True
    then have "paddr_offset (paddr_at n) k = paddr_of_bits (of_nat (n + unat k))"
      using n by (simp add: paddr_offset_def paddr_simps ckd_add_def sum del: of_nat_add)
    then show ?thesis using True by (simp add: paddr_of_bits_eq paddr_at_def del: of_nat_add)
  next
    case False
    then show ?thesis using n by (simp add: paddr_offset_def paddr_simps ckd_add_def)
  qed
qed

lemma align_down_nat_word:
  "n < 2 ^ 64 \<Longrightarrow> (of_nat n :: u64) AND NOT (mask k) = of_nat (n div 2 ^ k * 2 ^ k)"
proof (rule word_unat_eq_iff [THEN iffD2])
  assume n: "n < 2 ^ 64"
  have "n div 2 ^ k * 2 ^ k < 2 ^ 64"
    using n div_times_less_eq_dividend le_less_trans by blast
  with n show "unat ((of_nat n :: u64) AND NOT (mask k)) = unat (of_nat (n div 2 ^ k * 2 ^ k) :: u64)"
    by (simp add: unat_and_not_mask del: of_nat_mult of_nat_power)
qed

lemma align_down_paddr_at [paddr_simps]:
  assumes n: "n < 2 ^ 56"
  shows "align_down_paddr (paddr_at n) k = Some (paddr_at (n div 2 ^ k * 2 ^ k))"
proof -
  have "n div 2 ^ k * 2 ^ k < 2 ^ 56"
    using n div_times_less_eq_dividend le_less_trans by blast
  moreover have "push_bit k 1 - 1 = (mask k :: u64)" by (simp add: mask_eq_exp_minus_1)
  ultimately show ?thesis
    using n by (simp add: align_down_paddr_def paddr_simps align_down_nat_word
        del: of_nat_mult of_nat_power push_bit_of_1)
qed

lemma align_up_paddr_at [paddr_simps]:
  assumes n: "n < 2 ^ 56" and k: "k < 56"
  shows "align_up_paddr (paddr_at n) k =
    (if n + (2 ^ k - 1) < 2 ^ 56 then Some (paddr_at ((n + (2 ^ k - 1)) div 2 ^ k * 2 ^ k)) else None)"
proof -
  have "push_bit k 1 - 1 = (mask k :: u64)" by (simp add: mask_eq_exp_minus_1)
  moreover have "unat (mask k :: u64) = 2 ^ k - 1" using k by (simp add: unat_mask_small)
  ultimately show ?thesis
    using n by (simp add: align_up_paddr_def paddr_simps del: push_bit_of_1)
qed

lemma is_aligned_paddr_at [paddr_simps]:
  assumes n: "n < 2 ^ 56"
  shows "is_aligned_paddr (paddr_at n) k = Some (2 ^ k dvd n)"
proof -
  have lt: "n div 2 ^ k * 2 ^ k < 2 ^ 56"
    using n div_times_less_eq_dividend le_less_trans by blast
  have "(of_nat (n div 2 ^ k * 2 ^ k) :: u64) = of_nat n \<longleftrightarrow> n div 2 ^ k * 2 ^ k = n"
    using n lt by (intro of_nat_eq_iff_small) simp_all
  also have "\<dots> \<longleftrightarrow> 2 ^ k dvd n" by (metis dvd_div_mult_self dvd_triv_right)
  finally show ?thesis
    using n lt by (simp add: is_aligned_paddr_def paddr_simps del: of_nat_mult of_nat_power)
qed

lemma ppn_paddr_at: "n < 2 ^ 56 \<Longrightarrow> unat (ppn (paddr_at n)) = n div 4096"
proof -
  assume n: "n < 2 ^ 56"
  then have "n div 4096 < 2 ^ 44" by (simp add: less_mult_imp_div_less)
  moreover have "unat (ppn (paddr_at n)) = take_bit 44 (n div 4096)"
    using n by (simp add: paddr_at_def paddr_of_raw_def unsigned_ucast_eq unsigned_drop_bit_eq
        drop_bit_eq_div [where 'a = nat] take_bit_nat_eq_self [of n 64])
  ultimately show ?thesis by (simp add: take_bit_nat_eq_self)
qed

end
