(* ===== verification/Physical.thy ===== *)
theory Physical
  imports Machine
begin

text \<open>
  Access to physical memory, \<^verbatim>\<open>arch/riscv64/physical.c\<close>.  The kernel maps the
  first 128 GiB of physical memory at \<^verbatim>\<open>physical_map_start\<close>; every access goes
  through \<^verbatim>\<open>ptr_of_paddr\<close>, which checks its bounds.  Memory is a function from
  the byte's index in that window to the byte; the pointer \<^verbatim>\<open>ptr_of_paddr\<close> makes
  is that index.
\<close>

type_synonym pmem = "nat \<Rightarrow> u8"

definition physical_map_start :: uaddr where
  "physical_map_start = 0xffffffc000000000"

definition physical_map_end :: uaddr where
  "physical_map_end = 0xffffffe000000000"

definition ptr_of_paddr :: "paddr \<Rightarrow> usize \<Rightarrow> nat option" where
  "ptr_of_paddr p len = do {
     e \<leftarrow> paddr_offset p len;
     eb \<leftarrow> bits_of_paddr e;
     assert_that (eb \<le> physical_map_end - physical_map_start);
     b \<leftarrow> bits_of_paddr p;
     Some (unat b)
   }"

text \<open>The loops of \<^verbatim>\<open>memcpy\<close> and \<^verbatim>\<open>bzero\<close> on a byte memory.\<close>

definition read_bytes :: "pmem \<Rightarrow> nat \<Rightarrow> nat \<Rightarrow> u8 list" where
  "read_bytes m a n = map m [a..<a + n]"

definition write_bytes :: "pmem \<Rightarrow> nat \<Rightarrow> u8 list \<Rightarrow> pmem" where
  "write_bytes m a bs = (\<lambda>i. if a \<le> i \<and> i < a + length bs then bs ! (i - a) else m i)"

definition copy_from_physical :: "pmem \<Rightarrow> paddr \<Rightarrow> usize \<Rightarrow> u8 list option" where
  "copy_from_physical m src len = do {
     a \<leftarrow> ptr_of_paddr src len;
     Some (read_bytes m a (unat len))
   }"

definition copy_to_physical :: "pmem \<Rightarrow> paddr \<Rightarrow> u8 list \<Rightarrow> pmem option" where
  "copy_to_physical m dst src = do {
     a \<leftarrow> ptr_of_paddr dst (of_nat (length src));
     Some (write_bytes m a src)
   }"

definition bzero_physical :: "pmem \<Rightarrow> paddr \<Rightarrow> usize \<Rightarrow> pmem option" where
  "bzero_physical m dst len = do {
     a \<leftarrow> ptr_of_paddr dst len;
     Some (write_bytes m a (replicate (unat len) 0))
   }"

definition physical_read_u8 :: "pmem \<Rightarrow> paddr \<Rightarrow> u8 option" where
  "physical_read_u8 m p = do {
     bs \<leftarrow> copy_from_physical m p 1;
     Some (hd bs)
   }"

definition physical_write_u8 :: "pmem \<Rightarrow> paddr \<Rightarrow> u8 \<Rightarrow> pmem option" where
  "physical_write_u8 m p value = copy_to_physical m p [value]"

text \<open>
  The macro \<^verbatim>\<open>DEFINE_PHYSICAL_RW(BITS)\<close>, expanded in the source for 16, 32 and 64
  bits, is one definition here, over the width of the word type.
\<close>

definition check_access :: "'a::len word itself \<Rightarrow> paddr \<Rightarrow> unit option" where
  "check_access T addr = do {
     ok \<leftarrow> is_aligned_paddr addr (trailing_zeros (of_nat (LENGTH('a) div 8) :: usize));
     assert_that ok
   }"

definition physical_read_le :: "pmem \<Rightarrow> paddr \<Rightarrow> ('a::len word) option" where
  "physical_read_le m addr = do {
     check_access TYPE('a word) addr;
     out \<leftarrow> copy_from_physical m addr (of_nat (LENGTH('a) div 8));
     Some (little_to_native (word_of_le out))
   }"

definition physical_read_be :: "pmem \<Rightarrow> paddr \<Rightarrow> ('a::len word) option" where
  "physical_read_be m addr = do {
     check_access TYPE('a word) addr;
     out \<leftarrow> copy_from_physical m addr (of_nat (LENGTH('a) div 8));
     Some (big_to_native (word_of_le out))
   }"

definition physical_write_le :: "pmem \<Rightarrow> paddr \<Rightarrow> 'a::len word \<Rightarrow> pmem option" where
  "physical_write_le m addr value = do {
     check_access TYPE('a word) addr;
     copy_to_physical m addr (le_bytes (native_to_little value))
   }"

definition physical_write_be :: "pmem \<Rightarrow> paddr \<Rightarrow> 'a::len word \<Rightarrow> pmem option" where
  "physical_write_be m addr value = do {
     check_access TYPE('a word) addr;
     copy_to_physical m addr (le_bytes (native_to_big value))
   }"

section \<open>Reads and writes of byte memory\<close>

text \<open>\<open>2 ^ 37\<close> is the size of the window.\<close>

definition window :: nat where
  "window = 2 ^ 37"

lemma window_le_map: "unat (physical_map_end - physical_map_start) = window"
  by (simp add: physical_map_end_def physical_map_start_def window_def)

lemma window_less: "n \<le> window \<Longrightarrow> n < 2 ^ 56" "n \<le> window \<Longrightarrow> n < 2 ^ 64"
  by (simp_all add: window_def)

lemma length_read_bytes [simp]: "length (read_bytes m a n) = n"
  by (simp add: read_bytes_def)

lemma read_bytes_0 [simp]: "read_bytes m a 0 = []"
  by (simp add: read_bytes_def)

lemma read_bytes_nth [simp]: "i < n \<Longrightarrow> read_bytes m a n ! i = m (a + i)"
  by (simp add: read_bytes_def)

lemma read_bytes_cong:
  "(\<And>i. a \<le> i \<Longrightarrow> i < a + n \<Longrightarrow> m i = m' i) \<Longrightarrow> read_bytes m a n = read_bytes m' a n"
  by (auto simp: read_bytes_def)

lemma read_write_same [simp, mem_simps]:
  "n = length bs \<Longrightarrow> read_bytes (write_bytes m a bs) a n = bs"
  by (rule nth_equalityI) (simp_all add: write_bytes_def)

lemma read_write_disjoint [mem_simps]:
  "a + n \<le> b \<or> b + length bs \<le> a \<Longrightarrow> read_bytes (write_bytes m b bs) a n = read_bytes m a n"
  by (rule read_bytes_cong) (auto simp: write_bytes_def)

lemma read_write_within:
  assumes "b \<le> a" "a + n \<le> b + length bs"
  shows "read_bytes (write_bytes m b bs) a n = take n (drop (a - b) bs)"
proof (rule nth_equalityI)
  show "length (read_bytes (write_bytes m b bs) a n) = length (take n (drop (a - b) bs))"
    using assms by simp
next
  fix i assume "i < length (read_bytes (write_bytes m b bs) a n)"
  then show "read_bytes (write_bytes m b bs) a n ! i = take n (drop (a - b) bs) ! i"
    using assms by (simp add: write_bytes_def)
qed

lemma write_bytes_outside: "i < a \<or> a + length bs \<le> i \<Longrightarrow> write_bytes m a bs i = m i"
  by (auto simp: write_bytes_def)

lemma ptr_of_paddr_at [paddr_simps]:
  assumes "n < 2 ^ 56"
  shows "ptr_of_paddr (paddr_at n) len = (if n + unat len \<le> window then Some n else None)"
proof (cases "n + unat len < 2 ^ 56")
  case True
  have "(of_nat (n + unat len) :: u64) \<le> physical_map_end - physical_map_start
      \<longleftrightarrow> n + unat len \<le> window"
    using True by (simp add: word_le_nat_alt window_le_map del: of_nat_add)
  then show ?thesis
    using True assms by (simp add: ptr_of_paddr_def paddr_simps assert_that_def del: of_nat_add)
next
  case False
  then show ?thesis
    using assms by (simp add: ptr_of_paddr_def paddr_simps window_def)
qed

lemma copy_from_physical_at [paddr_simps]:
  assumes "n < 2 ^ 56"
  shows "copy_from_physical m (paddr_at n) len =
    (if n + unat len \<le> window then Some (read_bytes m n (unat len)) else None)"
  using assms by (simp add: copy_from_physical_def paddr_simps)

lemma copy_to_physical_at [paddr_simps]:
  assumes "n < 2 ^ 56" "length bs < 2 ^ 64"
  shows "copy_to_physical m (paddr_at n) bs =
    (if n + length bs \<le> window then Some (write_bytes m n bs) else None)"
  using assms by (simp add: copy_to_physical_def paddr_simps)

lemma bzero_physical_at [paddr_simps]:
  assumes "n < 2 ^ 56"
  shows "bzero_physical m (paddr_at n) len =
    (if n + unat len \<le> window then Some (write_bytes m n (replicate (unat len) 0)) else None)"
  using assms by (simp add: bzero_physical_def paddr_simps)

lemma ptr_of_paddr_cases:
  "ptr_of_paddr p len = (if paddr_nat p + unat len \<le> window then Some (paddr_nat p) else None)"
proof (cases "paddr_nat p < 2 ^ 56")
  case True
  then show ?thesis using ptr_of_paddr_at [of "paddr_nat p" len] by simp
next
  case False
  then have "rsvd p \<noteq> 0" by (simp add: rsvd_zero_nat)
  then have "bits_of_paddr p = None" by (simp add: bits_of_paddr_def)
  then show ?thesis using False
    by (simp add: ptr_of_paddr_def paddr_offset_def window_def)
qed

lemma copy_from_physical_Some:
  "copy_from_physical m p len = Some bs \<longleftrightarrow>
     paddr_nat p + unat len \<le> window \<and> bs = read_bytes m (paddr_nat p) (unat len)"
  by (auto simp: copy_from_physical_def ptr_of_paddr_cases)

lemma copy_to_physical_Some:
  assumes "length bs < 2 ^ 64"
  shows "copy_to_physical m p bs = Some m' \<longleftrightarrow>
     paddr_nat p + length bs \<le> window \<and> m' = write_bytes m (paddr_nat p) bs"
  using assms by (auto simp: copy_to_physical_def ptr_of_paddr_cases)

section \<open>Round trips through memory\<close>

lemma check_access_cases:
  "check_access T p = Some () \<or> check_access T p = None"
  by (cases "check_access T p") auto

lemma access_round_trip:
  fixes w :: "'a::len word"
  assumes dvd: "8 dvd LENGTH('a)" and small: "LENGTH('a) < 2 ^ 64"
  shows "physical_write_le m p w = Some m' \<Longrightarrow> physical_read_le m' p = Some w"
    and "physical_write_be m p w = Some m' \<Longrightarrow> physical_read_be m' p = Some w"
    and "physical_write_be m p w = Some m' \<Longrightarrow> physical_read_le m' p = Some (bswap w)"
  using small check_access_cases [of "TYPE('a word)" p]
  by (auto simp: physical_write_le_def physical_read_le_def physical_write_be_def
      physical_read_be_def copy_to_physical_Some copy_from_physical_def ptr_of_paddr_cases
      little_to_native_def native_to_little_def big_to_native_def native_to_big_def dvd
      less_imp_diff_less div_less_dividend split: if_splits)

lemma write_then_read:
  fixes w :: "'a::len word"
  assumes "8 dvd LENGTH('a)" "LENGTH('a) < 2 ^ 64"
  shows "Option.bind (physical_write_le m p w) (\<lambda>m'. physical_read_le m' p) =
      map_option (\<lambda>_. w) (physical_write_le m p w)"
    and "Option.bind (physical_write_be m p w) (\<lambda>m'. physical_read_be m' p) =
      map_option (\<lambda>_. w) (physical_write_be m p w)"
proof -
  note rt = access_round_trip [OF assms]
  show "Option.bind (physical_write_le m p w) (\<lambda>m'. physical_read_le m' p) =
      map_option (\<lambda>_. w) (physical_write_le m p w)"
    by (cases "physical_write_le m p w") (simp_all add: rt)
  show "Option.bind (physical_write_be m p w) (\<lambda>m'. physical_read_be m' p) =
      map_option (\<lambda>_. w) (physical_write_be m p w)"
    by (cases "physical_write_be m p w") (simp_all add: rt)
qed

text \<open>
  What a 16, 32 or 64-bit write to physical memory stores, in either byte order,
  the read of the same width and order at that address returns; the read stops exactly
  when the write did (the address is misaligned or outside the mapped window).
\<close>
theorem physical_rw_round_trip:
  "Option.bind (physical_write_le m p a) (\<lambda>m'. physical_read_le m' p) = map_option (\<lambda>_. a :: u16) (physical_write_le m p a) \<and>
    Option.bind (physical_write_be m p a) (\<lambda>m'. physical_read_be m' p) = map_option (\<lambda>_. a :: u16) (physical_write_be m p a) \<and>
    Option.bind (physical_write_le m p b) (\<lambda>m'. physical_read_le m' p) = map_option (\<lambda>_. b :: u32) (physical_write_le m p b) \<and>
    Option.bind (physical_write_be m p b) (\<lambda>m'. physical_read_be m' p) = map_option (\<lambda>_. b :: u32) (physical_write_be m p b) \<and>
    Option.bind (physical_write_le m p c) (\<lambda>m'. physical_read_le m' p) = map_option (\<lambda>_. c :: u64) (physical_write_le m p c) \<and>
    Option.bind (physical_write_be m p c) (\<lambda>m'. physical_read_be m' p) = map_option (\<lambda>_. c :: u64) (physical_write_be m p c)"
  by (simp_all add: write_then_read)

end
