(* ===== verification/Lists.thy ===== *)
theory Lists
  imports Prelude
begin

text \<open>
  The intrusive doubly linked lists of \<^verbatim>\<open>include/list.h\<close>.  A store maps the
  address of each \<^verbatim>\<open>struct list_head\<close> to its two links; the operations are the
  functions of the header, statement by statement, and a dereference of an
  address with no node stops.  \<open>is_list\<close> relates a store to the sequence of
  nodes it links in a circle around an owner.
\<close>

record 'p list_head =
  lprev :: 'p
  lnext :: 'p

type_synonym 'p links = "'p \<rightharpoonup> 'p list_head"

definition LIST_INIT :: "'p \<Rightarrow> 'p list_head" where
  "LIST_INIT p = \<lparr>lprev = p, lnext = p\<rparr>"

definition set_prev :: "'p links \<Rightarrow> 'p \<Rightarrow> 'p \<Rightarrow> 'p links option" where
  "set_prev h p v = do { n \<leftarrow> h p; Some (h(p \<mapsto> n\<lparr>lprev := v\<rparr>)) }"

definition set_next :: "'p links \<Rightarrow> 'p \<Rightarrow> 'p \<Rightarrow> 'p links option" where
  "set_next h p v = do { n \<leftarrow> h p; Some (h(p \<mapsto> n\<lparr>lnext := v\<rparr>)) }"

definition list_is_empty :: "'p links \<Rightarrow> 'p \<Rightarrow> bool option" where
  "list_is_empty h list = do {
     l \<leftarrow> h list;
     if list = lprev l then do {
       assert_that (list = lnext l);
       Some True
     } else if list = lnext l then do {
       assert_that (list = lprev l);
       Some True
     } else Some False
   }"

definition list_unshift :: "'p links \<Rightarrow> 'p \<Rightarrow> 'p \<Rightarrow> 'p links option" where
  "list_unshift h list elem = do {
     e \<leftarrow> h elem;
     assert_that (elem = lprev e \<and> elem = lnext e);
     h \<leftarrow> set_prev h elem list;
     l \<leftarrow> h list;
     h \<leftarrow> set_next h elem (lnext l);
     e \<leftarrow> h elem;
     h \<leftarrow> set_next h (lprev e) elem;
     e \<leftarrow> h elem;
     set_prev h (lnext e) elem
   }"

definition list_push :: "'p links \<Rightarrow> 'p \<Rightarrow> 'p \<Rightarrow> 'p links option" where
  "list_push h list elem = do {
     e \<leftarrow> h elem;
     assert_that (elem = lprev e \<and> elem = lnext e);
     l \<leftarrow> h list;
     h \<leftarrow> set_prev h elem (lprev l);
     h \<leftarrow> set_next h elem list;
     e \<leftarrow> h elem;
     h \<leftarrow> set_next h (lprev e) elem;
     e \<leftarrow> h elem;
     set_prev h (lnext e) elem
   }"

definition list_shift :: "'p links \<Rightarrow> 'p \<Rightarrow> ('p \<times> 'p links) option" where
  "list_shift h list = do {
     l \<leftarrow> h list;
     assert_that (list \<noteq> lprev l \<and> list \<noteq> lnext l);
     let out = lnext l;
     o' \<leftarrow> h out;
     h \<leftarrow> set_next h list (lnext o');
     l \<leftarrow> h list;
     h \<leftarrow> set_prev h (lnext l) list;
     Some (out, h(out \<mapsto> LIST_INIT out))
   }"

definition list_pop :: "'p links \<Rightarrow> 'p \<Rightarrow> ('p \<times> 'p links) option" where
  "list_pop h list = do {
     l \<leftarrow> h list;
     assert_that (list \<noteq> lprev l \<and> list \<noteq> lnext l);
     let out = lprev l;
     o' \<leftarrow> h out;
     h \<leftarrow> set_prev h list (lprev o');
     l \<leftarrow> h list;
     h \<leftarrow> set_next h (lprev l) list;
     Some (out, h(out \<mapsto> LIST_INIT out))
   }"

definition list_remove :: "'p links \<Rightarrow> 'p \<Rightarrow> 'p links option" where
  "list_remove h elem = do {
     e \<leftarrow> h elem;
     assert_that (elem \<noteq> lprev e \<and> elem \<noteq> lnext e);
     h \<leftarrow> set_next h (lprev e) (lnext e);
     e \<leftarrow> h elem;
     h \<leftarrow> set_prev h (lnext e) (lprev e);
     Some (h(elem \<mapsto> LIST_INIT elem))
   }"

section \<open>The sequence a store links\<close>

fun linked :: "'p links \<Rightarrow> 'p list \<Rightarrow> bool" where
  "linked h (a # b # ys) \<longleftrightarrow>
     map_option lnext (h a) = Some b \<and> map_option lprev (h b) = Some a \<and> linked h (b # ys)"
| "linked h ys \<longleftrightarrow> True"

definition is_list :: "'p links \<Rightarrow> 'p \<Rightarrow> 'p list \<Rightarrow> bool" where
  "is_list h l xs \<longleftrightarrow> distinct (l # xs) \<and> linked h (l # xs @ [l])"

definition self_linked :: "'p links \<Rightarrow> 'p \<Rightarrow> bool" where
  "self_linked h e \<longleftrightarrow> h e = Some (LIST_INIT e)"

lemma linked_append:
  "linked h (xs @ a # ys) \<longleftrightarrow> linked h (xs @ [a]) \<and> linked h (a # ys)"
  by (induction h xs rule: linked.induct) (cases ys; auto)+

lemma linked_Cons:
  "ys \<noteq> [] \<Longrightarrow> linked h (a # ys) \<longleftrightarrow>
     map_option lnext (h a) = Some (hd ys) \<and> map_option lprev (h (hd ys)) = Some a \<and> linked h ys"
  by (cases ys) auto

lemma linked_cong:
  assumes "\<And>a. a \<in> set (butlast ys) \<Longrightarrow> map_option lnext (h' a) = map_option lnext (h a)"
    and "\<And>a. a \<in> set (tl ys) \<Longrightarrow> map_option lprev (h' a) = map_option lprev (h a)"
  shows "linked h' ys = linked h ys"
  using assms by (induction h ys rule: linked.induct) auto

lemma is_list_distinct: "is_list h l xs \<Longrightarrow> distinct (l # xs)"
  by (simp add: is_list_def)

lemma is_list_Nil: "is_list h l [] \<longleftrightarrow> h l = Some (LIST_INIT l)"
  by (cases "h l") (auto simp: is_list_def LIST_INIT_def intro: list_head.equality)

lemma linked_dom: "linked h ys \<Longrightarrow> length ys > 1 \<Longrightarrow> set ys \<subseteq> dom h"
proof (induction h ys rule: linked.induct)
  case (1 h a b ys)
  then show ?case by (cases ys) (auto simp: dom_def)
qed auto

lemma is_list_dom: "is_list h l xs \<Longrightarrow> set (l # xs) \<subseteq> dom h"
  using linked_dom [of h "l # xs @ [l]"] by (auto simp: is_list_def)

text \<open>The owner is only a place in the circle: any node can be read as the owner.\<close>

lemma is_list_rotate: "is_list h l (xs @ p # ys) \<longleftrightarrow> is_list h p (ys @ l # xs)"
proof -
  have "linked h (l # xs @ p # ys @ [l]) \<longleftrightarrow> linked h (p # ys @ l # xs @ [p])"
    using linked_append [of h "l # xs" p "ys @ [l]"] linked_append [of h "p # ys" l "xs @ [p]"]
    by auto
  then show ?thesis by (auto simp: is_list_def)
qed

lemma is_list_cong:
  assumes "\<And>a. a \<in> set (l # xs) \<Longrightarrow> h' a = h a"
  shows "is_list h' l xs = is_list h l xs"
  unfolding is_list_def
  by (rule conj_cong [OF refl], rule linked_cong) (use assms in \<open>auto dest: in_set_butlastD\<close>)

lemma is_list_end: "is_list h l xs \<Longrightarrow> \<exists>n. h l = Some n \<and> lnext n = hd (xs @ [l]) \<and> lprev n = last (l # xs)"
proof -
  assume l: "is_list h l xs"
  then obtain n where n: "h l = Some n" using is_list_dom by fastforce
  from l have fwd: "map_option lnext (h l) = Some (hd (xs @ [l]))"
    using linked_Cons [of "xs @ [l]" h l] by (auto simp: is_list_def)
  have "map_option lprev (h l) = Some (last (l # xs))"
  proof (cases xs rule: rev_cases)
    case Nil
    with l show ?thesis by (simp add: is_list_def)
  next
    case (snoc ys y)
    with l show ?thesis using linked_append [of h "l # ys" y "[l]"] by (simp add: is_list_def)
  qed
  with n fwd show ?thesis by auto
qed

section \<open>What the operations do to the sequence\<close>

text \<open>
  Both insertions put a node between two neighbours \<open>a\<close> and \<open>b\<close>; the lemma is
  about the links that leaves.
\<close>

lemma linked_insert:
  assumes "linked h (a # ys)" "ys \<noteq> []" "hd ys = b" "distinct ys" "distinct (butlast (a # ys))"
    and "e \<notin> set (a # ys)"
    and "h' = (\<lambda>p. if p = e then Some \<lparr>lprev = a, lnext = b\<rparr>
        else if p = a then map_option (\<lambda>n. if a = b then \<lparr>lprev = e, lnext = e\<rparr> else n\<lparr>lnext := e\<rparr>) (h p)
        else if p = b then map_option (\<lambda>n. n\<lparr>lprev := e\<rparr>) (h p) else h p)"
  shows "linked h' (a # e # ys)"
proof -
  obtain zs where ys: "ys = b # zs" using assms by (cases ys) auto
  have "linked h (b # zs)" using assms ys by simp
  moreover have "a \<notin> set (butlast (b # zs))" "b \<notin> set zs"
    using assms(4,5) ys by auto
  ultimately have "linked h' (b # zs)"
    using assms(6) ys by (subst linked_cong [of _ h' h])
      (auto simp: assms(7) map_option_case dest: in_set_butlastD split: option.splits if_splits)
  then show ?thesis using assms ys by (auto simp: map_option_case split: option.splits)
qed

lemma list_unshift_spec:
  assumes l: "is_list h l xs" and e: "self_linked h e" "e \<notin> set (l # xs)"
  shows "\<exists>h'. list_unshift h l e = Some h' \<and> is_list h' l (e # xs) \<and>
    dom h' = dom h \<and> (\<forall>p. p \<notin> set (l # e # xs) \<longrightarrow> h' p = h p)"
proof -
  define b where "b = hd (xs @ [l])"
  obtain n where n: "h l = Some n" "lnext n = b" using is_list_end [OF l] b_def by auto
  have bin: "b \<in> set (l # xs)" unfolding b_def by (cases xs) auto
  then obtain m where m: "h b = Some m" using is_list_dom [OF l] by auto
  have be: "b \<noteq> e" using bin e by auto
  define h' where "h' = (\<lambda>p. if p = e then Some \<lparr>lprev = l, lnext = b\<rparr>
        else if p = l then map_option (\<lambda>n. if l = b then \<lparr>lprev = e, lnext = e\<rparr> else n\<lparr>lnext := e\<rparr>) (h p)
        else if p = b then map_option (\<lambda>n. n\<lparr>lprev := e\<rparr>) (h p) else h p)"
  have "list_unshift h l e = Some h'"
    using e n m be
    by (auto simp: list_unshift_def set_prev_def set_next_def self_linked_def LIST_INIT_def
        h'_def fun_eq_iff)
  moreover have "linked h' (l # e # xs @ [l])"
    by (rule linked_insert [of h l "xs @ [l]" b])
      (use l e b_def h'_def in \<open>auto simp: is_list_def butlast_append\<close>)
  moreover have "dom h' = dom h" using e n m by (auto simp: h'_def self_linked_def split: if_splits)
  moreover have "\<forall>p. p \<notin> set (l # e # xs) \<longrightarrow> h' p = h p"
    using bin by (auto simp: h'_def)
  ultimately show ?thesis using l e by (auto simp: is_list_def)
qed

lemma list_unshift_at:
  assumes l: "is_list h l (xs @ p # ys)" and e: "self_linked h e" "e \<notin> set (l # xs @ p # ys)"
  shows "\<exists>h'. list_unshift h p e = Some h' \<and> is_list h' l (xs @ p # e # ys) \<and>
    dom h' = dom h \<and> (\<forall>q. q \<notin> set (l # xs @ p # e # ys) \<longrightarrow> h' q = h q)"
proof -
  have "is_list h p (ys @ l # xs)" using l is_list_rotate by metis
  from list_unshift_spec [OF this e(1)] e(2) obtain h' where
    h': "list_unshift h p e = Some h'" "is_list h' p (e # ys @ l # xs)"
    "dom h' = dom h" "\<forall>q. q \<notin> set (p # e # ys @ l # xs) \<longrightarrow> h' q = h q" by auto
  have "is_list h' l (xs @ p # e # ys)"
    using h'(2) is_list_rotate [of h' l xs p "e # ys"] by simp
  with h' show ?thesis by auto
qed

lemma list_push_eq_unshift:
  assumes l: "is_list h l xs" and e: "self_linked h e" "e \<notin> set (l # xs)"
  shows "list_push h l e = list_unshift h (last (l # xs)) e"
proof -
  let ?a = "last (l # xs)"
  obtain n where n: "h l = Some n" "lprev n = ?a" using is_list_end [OF l] by auto
  obtain m where m: "h ?a = Some m" "lnext m = l"
  proof (cases xs rule: rev_cases)
    case Nil
    with l show ?thesis by (intro that [of n]) (auto simp: is_list_Nil n LIST_INIT_def)
  next
    case (snoc zs a)
    with l have "is_list h a (l # zs)" using is_list_rotate [of h l zs a "[]"] by simp
    from is_list_end [OF this] snoc that show ?thesis by auto
  qed
  have ae: "?a \<noteq> e" "l \<noteq> e" using e(2) by (auto simp: last_in_set)
  show ?thesis
    using e n m ae
    by (auto simp: list_unshift_def list_push_def set_prev_def set_next_def self_linked_def
        LIST_INIT_def fun_eq_iff)
qed

lemma list_push_spec:
  assumes l: "is_list h l xs" and e: "self_linked h e" "e \<notin> set (l # xs)"
  shows "\<exists>h'. list_push h l e = Some h' \<and> is_list h' l (xs @ [e]) \<and>
    dom h' = dom h \<and> (\<forall>p. p \<notin> set (l # e # xs) \<longrightarrow> h' p = h p)"
proof (cases xs rule: rev_cases)
  case Nil
  with list_unshift_spec [OF l e] list_push_eq_unshift [OF l e] show ?thesis by simp
next
  case (snoc zs a)
  with list_unshift_at [of h l zs a "[]" e] list_push_eq_unshift [OF l e] l e
  show ?thesis by auto
qed

lemma linked_unlink:
  assumes "linked h (e # c @ [e])" "c \<noteq> []" "distinct (e # c)"
    and "\<And>p. p \<noteq> e \<Longrightarrow> map_option lnext (h' p) =
        (if p = last c then Some (hd c) else map_option lnext (h p))"
    and "\<And>p. p \<noteq> e \<Longrightarrow> map_option lprev (h' p) =
        (if p = hd c then Some (last c) else map_option lprev (h p))"
  shows "linked h' (c @ [hd c])"
proof -
  obtain zs a where c: "c = zs @ [a]" using assms(2) by (metis rev_exhaust)
  have "linked h c" using assms(1) c linked_append [of h "e # zs" a "[e]"]
    by (cases zs) auto
  moreover have "linked h' c = linked h c"
  proof (rule linked_cong)
    fix q assume "q \<in> set (butlast c)"
    then have "q \<noteq> e" "q \<noteq> last c" using c assms(3) by auto
    then show "map_option lnext (h' q) = map_option lnext (h q)" by (simp add: assms(4))
  next
    fix q assume "q \<in> set (tl c)"
    then have "q \<noteq> e" "q \<noteq> hd c" using assms(2,3) by (cases c; auto)+
    then show "map_option lprev (h' q) = map_option lprev (h q)" by (simp add: assms(5))
  qed
  moreover have "a \<noteq> e" "hd c \<noteq> e" "last c = a" using assms(2,3) c by (cases zs; auto)+
  then have "linked h' [a, hd c]" using assms(4) [of a] assms(5) [of "hd c"] by simp
  ultimately show ?thesis using linked_append [of h' zs a "[hd c]"] c by simp
qed

lemma is_list_linked_circle:
  assumes "linked h (c @ [hd c])" "c = ys @ l # xs" "distinct c"
  shows "is_list h l (xs @ ys)"
proof (cases ys)
  case Nil
  with assms show ?thesis by (simp add: is_list_def)
next
  case (Cons y zs)
  with assms have "is_list h y (zs @ l # xs)" by (simp add: is_list_def)
  with Cons show ?thesis using is_list_rotate [of h l xs y zs] by simp
qed

lemma list_remove_spec:
  assumes l: "is_list h l (xs @ e # ys)"
  shows "\<exists>h'. list_remove h e = Some h' \<and> is_list h' l (xs @ ys) \<and> self_linked h' e \<and>
    dom h' = dom h \<and> (\<forall>p. p \<notin> set (l # xs @ e # ys) \<longrightarrow> h' p = h p)"
proof -
  define c where "c = ys @ l # xs"
  have le: "is_list h e c" using l is_list_rotate c_def by metis
  have c: "c \<noteq> []" "distinct (e # c)" using c_def is_list_distinct [OF le] by simp_all
  obtain n where n: "h e = Some n" "lnext n = hd c" "lprev n = last c"
    using is_list_end [OF le] c by auto
  have ne: "hd c \<noteq> e" "last c \<noteq> e" "hd c \<in> set c" "last c \<in> set c" using c by auto
  obtain ma where ma: "h (last c) = Some ma" using is_list_dom [OF le] ne by auto
  obtain mb where mb: "h (hd c) = Some mb" using is_list_dom [OF le] ne by auto
  define h1 where "h1 = h(last c \<mapsto> ma\<lparr>lnext := hd c\<rparr>)"
  obtain mc where mc: "h1 (hd c) = Some mc"
    using mb by (cases "hd c = last c") (auto simp: h1_def)
  define h' where "h' = h1(hd c \<mapsto> mc\<lparr>lprev := last c\<rparr>, e \<mapsto> LIST_INIT e)"
  have ex: "list_remove h e = Some h'"
    using n ma mc ne by (auto simp: list_remove_def set_next_def set_prev_def h'_def h1_def)
  have "linked h' (c @ [hd c])"
  proof (rule linked_unlink [OF _ c])
    show "linked h (e # c @ [e])" using le by (simp add: is_list_def)
  qed (use ne mc ma in \<open>auto simp: h'_def h1_def split: if_splits\<close>)
  then have "is_list h' l (xs @ ys)"
    by (rule is_list_linked_circle [OF _ c_def]) (use c in auto)
  moreover have "dom h' = dom h" using ma mb n by (auto simp: h'_def h1_def)
  moreover have "\<forall>p. p \<notin> set (l # xs @ e # ys) \<longrightarrow> h' p = h p"
    using ne c_def by (auto simp: h'_def h1_def)
  ultimately show ?thesis using ex by (auto simp: self_linked_def h'_def)
qed

lemma list_shift_eq_remove:
  assumes l: "is_list h l (x # xs)"
  shows "list_shift h l = map_option (\<lambda>h'. (x, h')) (list_remove h x)"
proof -
  obtain n where n: "h l = Some n" "lnext n = x" "lprev n = last (x # xs)"
    using is_list_end [OF l] by auto
  have "is_list h x (xs @ [l])" using l is_list_rotate [of h l "[]" x xs] by simp
  then obtain m where m: "h x = Some m" "lprev m = l" "lnext m = hd (xs @ [l])"
    using is_list_end [of h x "xs @ [l]"] by (cases xs) auto
  have d: "distinct (l # x # xs)" using is_list_distinct [OF l] .
  have b: "hd (xs @ [l]) \<in> set (l # xs)" by (cases xs) auto
  then obtain k where k: "h (hd (xs @ [l])) = Some k" using is_list_dom [OF l] by auto
  have ne: "l \<noteq> last (x # xs)" "x \<noteq> hd (xs @ [l])" "x \<noteq> l" using d b by auto
  show ?thesis
    using n m k ne
    by (auto simp: list_shift_def list_remove_def set_prev_def set_next_def LIST_INIT_def fun_eq_iff)
qed

lemma list_pop_eq_remove:
  assumes l: "is_list h l (xs @ [x])"
  shows "list_pop h l = map_option (\<lambda>h'. (x, h')) (list_remove h x)"
proof -
  obtain n where n: "h l = Some n" "lnext n = hd (xs @ [x])" "lprev n = x"
    using is_list_end [OF l] by (cases xs) auto
  have "is_list h x (l # xs)" using l is_list_rotate [of h l xs x "[]"] by simp
  then obtain m where m: "h x = Some m" "lnext m = l" "lprev m = last (l # xs)"
    using is_list_end [of h x "l # xs"] by auto
  have d: "distinct (l # xs @ [x])" using is_list_distinct [OF l] .
  have b: "last (l # xs) \<in> set (l # xs)" by auto
  then obtain k where k: "h (last (l # xs)) = Some k" using is_list_dom [OF l] by auto
  have ne: "l \<noteq> hd (xs @ [x])" "x \<noteq> last (l # xs)" "x \<noteq> l" using d b by (auto simp: hd_append)
  show ?thesis
    using n m k ne
    by (auto simp: list_pop_def list_remove_def set_prev_def set_next_def LIST_INIT_def fun_eq_iff)
qed

lemma list_is_empty_spec: "is_list h l xs \<Longrightarrow> list_is_empty h l = Some (xs = [])"
proof -
  assume l: "is_list h l xs"
  obtain n where n: "h l = Some n" "lnext n = hd (xs @ [l])" "lprev n = last (l # xs)"
    using is_list_end [OF l] by auto
  have d: "distinct (l # xs)" using is_list_distinct [OF l] .
  have "xs \<noteq> [] \<Longrightarrow> l \<noteq> hd (xs @ [l]) \<and> l \<noteq> last (l # xs)" using d by auto
  then show ?thesis using n by (auto simp: list_is_empty_def)
qed

lemma list_shift_empty: "is_list h l [] \<Longrightarrow> list_shift h l = None"
  by (auto simp: is_list_Nil list_shift_def LIST_INIT_def)

lemma list_pop_empty: "is_list h l [] \<Longrightarrow> list_pop h l = None"
  by (auto simp: is_list_Nil list_pop_def LIST_INIT_def)

lemma list_remove_alone: "self_linked h e \<Longrightarrow> list_remove h e = None"
  by (auto simp: self_linked_def list_remove_def LIST_INIT_def)

section \<open>The interface the rest of the kernel uses\<close>

text \<open>
  What the clients of \<^verbatim>\<open>list.h\<close> rely on: each operation acts on the sequence
  \<open>abs h l xs\<close> an owner \<open>l\<close> holds as the obvious operation on \<open>xs\<close>, an
  unlinked node (\<open>free\<close>) can be inserted, a removed node is unlinked again, and
  every node outside the list is left as it was (\<open>same\<close>).
\<close>

fun push_all :: "('h \<Rightarrow> 'p \<Rightarrow> 'p \<Rightarrow> 'h option) \<Rightarrow> 'h \<Rightarrow> 'p \<Rightarrow> 'p list \<Rightarrow> 'h option" where
  "push_all push h l [] = Some h"
| "push_all push h l (e # es) = do { h \<leftarrow> push h l e; push_all push h l es }"

fun take_out :: "('h \<Rightarrow> 'p \<Rightarrow> ('p \<times> 'h) option) \<Rightarrow> 'h \<Rightarrow> 'p \<Rightarrow> nat \<Rightarrow> ('p list \<times> 'h) option" where
  "take_out out h l 0 = Some ([], h)"
| "take_out out h l (Suc n) = do {
     (e, h) \<leftarrow> out h l;
     (es, h) \<leftarrow> take_out out h l n;
     Some (e # es, h)
   }"

locale intrusive_list =
  fixes abs :: "'h \<Rightarrow> 'p \<Rightarrow> 'p list \<Rightarrow> bool"
    and free :: "'h \<Rightarrow> 'p \<Rightarrow> bool"
    and same :: "'h \<Rightarrow> 'h \<Rightarrow> 'p \<Rightarrow> bool"
    and unshift :: "'h \<Rightarrow> 'p \<Rightarrow> 'p \<Rightarrow> 'h option"
    and push :: "'h \<Rightarrow> 'p \<Rightarrow> 'p \<Rightarrow> 'h option"
    and remove :: "'h \<Rightarrow> 'p \<Rightarrow> 'h option"
    and shift :: "'h \<Rightarrow> 'p \<Rightarrow> ('p \<times> 'h) option"
    and pop :: "'h \<Rightarrow> 'p \<Rightarrow> ('p \<times> 'h) option"
  assumes unshift_at: "abs h l (xs @ p # ys) \<Longrightarrow> free h e \<Longrightarrow> e \<notin> set (l # xs @ p # ys) \<Longrightarrow>
      \<exists>h'. unshift h p e = Some h' \<and> abs h' l (xs @ p # e # ys) \<and>
        (\<forall>q. q \<notin> set (l # xs @ p # e # ys) \<longrightarrow> same h h' q)"
    and unshift: "abs h l xs \<Longrightarrow> free h e \<Longrightarrow> e \<notin> set (l # xs) \<Longrightarrow>
      \<exists>h'. unshift h l e = Some h' \<and> abs h' l (e # xs) \<and>
        (\<forall>q. q \<notin> set (l # e # xs) \<longrightarrow> same h h' q)"
    and push: "abs h l xs \<Longrightarrow> free h e \<Longrightarrow> e \<notin> set (l # xs) \<Longrightarrow>
      \<exists>h'. push h l e = Some h' \<and> abs h' l (xs @ [e]) \<and>
        (\<forall>q. q \<notin> set (l # e # xs) \<longrightarrow> same h h' q)"
    and remove: "abs h l (xs @ e # ys) \<Longrightarrow>
      \<exists>h'. remove h e = Some h' \<and> abs h' l (xs @ ys) \<and> free h' e \<and>
        (\<forall>q. q \<notin> set (l # xs @ e # ys) \<longrightarrow> same h h' q)"
    and shift: "abs h l (e # xs) \<Longrightarrow> shift h l = map_option (\<lambda>h'. (e, h')) (remove h e)"
    and pop: "abs h l (xs @ [e]) \<Longrightarrow> pop h l = map_option (\<lambda>h'. (e, h')) (remove h e)"
    and free_same: "same h h' q \<Longrightarrow> free h q \<Longrightarrow> free h' q"
    and distinct_abs: "abs h l xs \<Longrightarrow> distinct (l # xs)"
begin

lemma push_all_appends:
  "abs h l xs \<Longrightarrow> \<forall>e \<in> set es. free h e \<Longrightarrow> distinct (l # xs @ es) \<Longrightarrow>
    \<exists>h'. push_all push h l es = Some h' \<and> abs h' l (xs @ es)"
proof (induction es arbitrary: h xs)
  case Nil
  then show ?case by simp
next
  case (Cons e es)
  from Cons.prems push [of h l xs e] obtain h1 where
    h1: "push h l e = Some h1" "abs h1 l (xs @ [e])" "\<forall>q. q \<notin> set (l # e # xs) \<longrightarrow> same h h1 q"
    by auto
  have "\<forall>q \<in> set es. free h1 q" using Cons.prems h1(3) free_same by fastforce
  with Cons.IH [OF h1(2)] Cons.prems obtain h' where
    "push_all push h1 l es = Some h'" "abs h' l (xs @ e # es)" by auto
  with h1 show ?case by auto
qed

lemma shift_removes_first:
  assumes "abs h l (e # xs)"
  shows "\<exists>h'. shift h l = Some (e, h') \<and> abs h' l xs \<and> free h' e \<and>
    (\<forall>q. q \<notin> set (l # e # xs) \<longrightarrow> same h h' q)"
  using shift [OF assms] remove [of h l "[]" e xs] assms by auto

lemma pop_removes_last:
  assumes "abs h l (xs @ [e])"
  shows "\<exists>h'. pop h l = Some (e, h') \<and> abs h' l xs \<and> free h' e \<and>
    (\<forall>q. q \<notin> set (l # e # xs) \<longrightarrow> same h h' q)"
  using pop [OF assms] remove [of h l xs e "[]"] assms by auto

lemma take_out_keeps:
  "abs h l (es @ xs) \<Longrightarrow> take_out shift h l (length es) = Some (rs, h') \<Longrightarrow>
    q \<notin> set (l # es @ xs) \<Longrightarrow> free h q \<Longrightarrow> free h' q"
proof (induction es arbitrary: h rs)
  case Nil
  then show ?case by simp
next
  case (Cons e es)
  from shift_removes_first [of h l e "es @ xs"] Cons.prems obtain h1 where
    h1: "shift h l = Some (e, h1)" "abs h1 l (es @ xs)"
      "\<forall>q. q \<notin> set (l # e # es @ xs) \<longrightarrow> same h h1 q" by auto
  from Cons.prems h1(1) obtain rs' where "take_out shift h1 l (length es) = Some (rs', h')"
    by (auto simp: outcome_simps)
  moreover have "free h1 q" using h1(3) Cons.prems free_same by auto
  ultimately show ?case using Cons.IH [OF h1(2)] Cons.prems by auto
qed

lemma take_out_shift:
  "abs h l (es @ xs) \<Longrightarrow>
    \<exists>h'. take_out shift h l (length es) = Some (es, h') \<and> abs h' l xs \<and> (\<forall>e \<in> set es. free h' e)"
proof (induction es arbitrary: h)
  case Nil
  then show ?case by simp
next
  case (Cons e es)
  from shift_removes_first [of h l e "es @ xs"] Cons.prems obtain h1 where
    h1: "shift h l = Some (e, h1)" "abs h1 l (es @ xs)" "free h1 e" by auto
  have d: "e \<notin> set (l # es @ xs)" using distinct_abs [OF Cons.prems] by auto
  from Cons.IH [OF h1(2)] obtain h2 where
    h2: "take_out shift h1 l (length es) = Some (es, h2)" "abs h2 l xs" "\<forall>e \<in> set es. free h2 e"
    by auto
  have "free h2 e" using take_out_keeps [OF h1(2) h2(1) d h1(3)] by simp
  with h1 h2 show ?case by auto
qed

end

interpretation links: intrusive_list is_list self_linked "\<lambda>h h' q. h' q = h q"
    list_unshift list_push list_remove list_shift list_pop
proof unfold_locales
  show "\<exists>h'. list_unshift h p e = Some h' \<and> is_list h' l (xs @ p # e # ys) \<and>
      (\<forall>q. q \<notin> set (l # xs @ p # e # ys) \<longrightarrow> h' q = h q)"
    if "is_list h l (xs @ p # ys)" "self_linked h e" "e \<notin> set (l # xs @ p # ys)"
    for h :: "'a links" and l xs p ys e
    using list_unshift_at [OF that] by blast
  show "\<exists>h'. list_remove h e = Some h' \<and> is_list h' l (xs @ ys) \<and> self_linked h' e \<and>
      (\<forall>q. q \<notin> set (l # xs @ e # ys) \<longrightarrow> h' q = h q)"
    if "is_list h l (xs @ e # ys)" for h :: "'a links" and l xs e ys
    using list_remove_spec [OF that] by blast
  show "\<exists>h'. list_unshift h l e = Some h' \<and> is_list h' l (e # xs) \<and>
      (\<forall>q. q \<notin> set (l # e # xs) \<longrightarrow> h' q = h q)"
    if "is_list h l xs" "self_linked h e" "e \<notin> set (l # xs)" for h :: "'a links" and l xs e
    using list_unshift_spec [OF that] by blast
  show "\<exists>h'. list_push h l e = Some h' \<and> is_list h' l (xs @ [e]) \<and>
      (\<forall>q. q \<notin> set (l # e # xs) \<longrightarrow> h' q = h q)"
    if "is_list h l xs" "self_linked h e" "e \<notin> set (l # xs)" for h :: "'a links" and l xs e
    using list_push_spec [OF that] by blast
qed (auto simp: list_shift_eq_remove list_pop_eq_remove self_linked_def is_list_distinct
    dest: is_list_distinct)

section \<open>Properties\<close>



text \<open>
  \<open>C7\<close>. Removal from an intrusive list.  Removing a node that is anywhere in a
  list, or the first (\<^verbatim>\<open>list_shift\<close>) or the last one (\<^verbatim>\<open>list_pop\<close>), never stops,
  takes exactly that node out of the sequence, leaves it unlinked (ready to be
  inserted again), and touches nothing outside the list.
\<close>

theorem list_remove_refines:
  assumes "is_list h l xs" and "xs = as @ e # bs"
  shows "(\<exists>h'. list_remove h e = Some h' \<and> is_list h' l (as @ bs) \<and> self_linked h' e \<and>
      (\<forall>q. q \<notin> set (l # xs) \<longrightarrow> h' q = h q)) \<and>
    (\<exists>h'. list_shift h l = Some (hd xs, h') \<and> is_list h' l (tl xs) \<and> self_linked h' (hd xs) \<and>
      (\<forall>q. q \<notin> set (l # xs) \<longrightarrow> h' q = h q)) \<and>
    (\<exists>h'. list_pop h l = Some (last xs, h') \<and> is_list h' l (butlast xs) \<and>
      self_linked h' (last xs) \<and> (\<forall>q. q \<notin> set (l # xs) \<longrightarrow> h' q = h q))"
proof (intro conjI)
  show "\<exists>h'. list_remove h e = Some h' \<and> is_list h' l (as @ bs) \<and> self_linked h' e \<and>
      (\<forall>q. q \<notin> set (l # xs) \<longrightarrow> h' q = h q)"
    using links.remove [of h l as e bs] assms by simp
  have "xs \<noteq> []" using assms(2) by simp
  then obtain y ys where y: "xs = y # ys" by (auto simp: neq_Nil_conv)
  then show "\<exists>h'. list_shift h l = Some (hd xs, h') \<and> is_list h' l (tl xs) \<and>
      self_linked h' (hd xs) \<and> (\<forall>q. q \<notin> set (l # xs) \<longrightarrow> h' q = h q)"
    using links.shift_removes_first [of h l y ys] assms(1) by simp
  obtain z zs where "xs = zs @ [z]" using y by (metis list.distinct(1) rev_exhaust)
  then show "\<exists>h'. list_pop h l = Some (last xs, h') \<and> is_list h' l (butlast xs) \<and>
      self_linked h' (last xs) \<and> (\<forall>q. q \<notin> set (l # xs) \<longrightarrow> h' q = h q)"
    using links.pop_removes_last [of h l zs z] assms(1) by auto
qed

theorem list_remove_refines_witness:
  "\<exists>h'. list_remove [0 \<mapsto> \<lparr>lprev = 2, lnext = 1\<rparr>, 1 \<mapsto> \<lparr>lprev = 0, lnext = 2\<rparr>,
      2 \<mapsto> \<lparr>lprev = 1, lnext = (0::nat)\<rparr>] 1 = Some h' \<and> is_list h' 0 [2] \<and> self_linked h' 1"
proof -
  let ?h = "[0 \<mapsto> \<lparr>lprev = 2, lnext = 1\<rparr>, 1 \<mapsto> \<lparr>lprev = 0, lnext = 2\<rparr>,
      2 \<mapsto> \<lparr>lprev = 1, lnext = (0::nat)\<rparr>]"
  have "is_list ?h 0 [1, 2]" by (simp add: is_list_def)
  from list_remove_refines [OF this, of "[]" 1 "[2]"] show ?thesis by auto
qed

text \<open>
  A list is a queue: nodes pushed onto an empty list and shifted off again
  come back in the order they went in, and the list is empty afterwards.
\<close>

theorem list_push_shift_fifo:
  assumes "is_list h l []" and "\<forall>e \<in> set es. self_linked h e" and "distinct (l # es)"
  shows "\<exists>h1 h2. push_all list_push h l es = Some h1 \<and>
    take_out list_shift h1 l (length es) = Some (es, h2) \<and>
    list_is_empty h2 l = Some True \<and> (\<forall>e \<in> set es. self_linked h2 e)"
proof -
  from links.push_all_appends [OF assms(1,2)] assms(3) obtain h1 where
    h1: "push_all list_push h l es = Some h1" "is_list h1 l (es @ [])" by auto
  from links.take_out_shift [OF h1(2)] obtain h2 where
    h2: "take_out list_shift h1 l (length es) = Some (es, h2)" "is_list h2 l []"
      "\<forall>e \<in> set es. self_linked h2 e" by auto
  show ?thesis using h1(1) h2(1,3) list_is_empty_spec [OF h2(2)] by auto
qed

theorem list_push_shift_fifo_witness:
  "\<exists>h1 h2. push_all list_push (\<lambda>p. Some (LIST_INIT p)) 0 [2, 1, (5::nat)] = Some h1 \<and>
    take_out list_shift h1 0 3 = Some ([2, 1, 5], h2)"
proof -
  let ?h = "\<lambda>p. Some (LIST_INIT (p :: nat))"
  have "is_list ?h 0 []" by (simp add: is_list_Nil)
  from list_push_shift_fifo [OF this, of "[2, 1, 5]"] show ?thesis
    by (auto simp: self_linked_def eval_nat_numeral)
qed

end
