(* ===== verification/Physical_Alloc.thy ===== *)
theory Physical_Alloc
  imports Physical
begin

text \<open>
  The physical memory allocator, \<^verbatim>\<open>mm/physical_alloc.c\<close>: two free lists of chunks
  of page frames, one for memory above 4 GiB and one for memory below, whose
  links are stored in the first frame of each chunk.  The state is the byte
  memory and the two list heads (the file's two static variables).  The
  \<^verbatim>\<open>print\<close> calls are output only and are left out.
\<close>

record pstate =
  memory :: pmem
  free_list_head_above_4g :: paddr
  free_list_head_below_4g :: paddr

text \<open>Which of the two static variables a \<^verbatim>\<open>paddr *free_list_head\<close> argument points to.\<close>

datatype which_list = Above_4G | Below_4G

fun get_head :: "which_list \<Rightarrow> pstate \<Rightarrow> paddr" where
  "get_head Above_4G s = free_list_head_above_4g s"
| "get_head Below_4G s = free_list_head_below_4g s"

fun set_head :: "which_list \<Rightarrow> paddr \<Rightarrow> pstate \<Rightarrow> pstate" where
  "set_head Above_4G p s = s\<lparr>free_list_head_above_4g := p\<rparr>"
| "set_head Below_4G p s = s\<lparr>free_list_head_below_4g := p\<rparr>"

record physical_free_list =
  link_next :: paddr
  link_length :: usize

text \<open>The memory image of the struct: two little-endian 64-bit fields.\<close>

definition link_bytes :: "physical_free_list \<Rightarrow> u8 list" where
  "link_bytes l = le_bytes (raw_of_paddr (link_next l)) @ le_bytes (link_length l)"

definition link_of_bytes :: "u8 list \<Rightarrow> physical_free_list" where
  "link_of_bytes bs =
     \<lparr>link_next = paddr_of_raw (word_of_le (take 8 bs)), link_length = word_of_le (drop 8 bs)\<rparr>"

definition PAGE_BITS :: nat where
  "PAGE_BITS = 12"

definition PAGE_SIZE :: usize where
  "PAGE_SIZE = push_bit PAGE_BITS 1"

definition physical_free_list_push :: "pstate \<Rightarrow> usize \<Rightarrow> paddr \<Rightarrow> which_list \<Rightarrow> pstate option" where
  "physical_free_list_push s len start w = do {
     let link = \<lparr>link_next = get_head w s, link_length = len\<rparr>;
     m \<leftarrow> copy_to_physical (memory s) start (link_bytes link);
     Some (set_head w start (s\<lparr>memory := m\<rparr>))
   }"

text \<open>The result is the returned flag and the value stored through \<^verbatim>\<open>out\<close>.\<close>

definition physical_free_list_pop :: "pstate \<Rightarrow> which_list \<Rightarrow> ((bool \<times> paddr) \<times> pstate) option" where
  "physical_free_list_pop s w = do {
     let out = get_head w s;
     b \<leftarrow> bits_of_paddr out;
     if b = 0 then Some ((False, out), s)
     else do {
       bs \<leftarrow> copy_from_physical (memory s) (get_head w s) 16;
       let link = link_of_bytes bs;
       assert_that (link_length link > 0);
       if link_length link = 1 then
         Some ((True, out), set_head w (link_next link) s)
       else do {
         h \<leftarrow> paddr_offset (get_head w s) PAGE_SIZE;
         let link = link\<lparr>link_length := link_length link - 1\<rparr>;
         m \<leftarrow> copy_to_physical (memory s) h (link_bytes link);
         Some ((True, out), (set_head w h s)\<lparr>memory := m\<rparr>)
       }
     }
   }"

definition add_physical_chunk :: "pstate \<Rightarrow> paddr \<Rightarrow> paddr \<Rightarrow> pstate option" where
  "add_physical_chunk s lo hi = do {
     start \<leftarrow> align_up_paddr lo 12;
     end \<leftarrow> align_down_paddr hi 12;
     sb \<leftarrow> bits_of_paddr start;
     eb \<leftarrow> bits_of_paddr end;
     if eb \<le> sb then Some s
     else if push_bit 32 1 \<le> sb then do {
       d \<leftarrow> paddr_diff end start;
       physical_free_list_push s (drop_bit 12 d) start Above_4G
     } else if sb < push_bit 32 1 \<and> push_bit 32 1 \<le> eb then do {
       let old_end = end;
       end \<leftarrow> paddr_of_bits (push_bit 32 1);
       d \<leftarrow> paddr_diff end start;
       s \<leftarrow> physical_free_list_push s (drop_bit 12 d) start Below_4G;
       let start = end;
       let end = old_end;
       d \<leftarrow> paddr_diff end start;
       physical_free_list_push s (drop_bit 12 d) start Above_4G
     } else do {
       d \<leftarrow> paddr_diff end start;
       physical_free_list_push s (drop_bit 12 d) start Below_4G
     }
   }"

record memory_reservation =
  res_start :: paddr
  res_end :: paddr

text \<open>
  \<^verbatim>\<open>consider_physical_memory\<close> is two \<^verbatim>\<open>goto\<close> loops around the label
  \<^verbatim>\<open>bump_up_start\<close>.  The inner one bumps \<^verbatim>\<open>start\<close> out of reservations: each
  round scans the array from its beginning for one that contains \<^verbatim>\<open>start\<close>.
\<close>

fun reservation_around :: "memory_reservation list \<Rightarrow> paddr \<Rightarrow> paddr option option" where
  "reservation_around [] start = Some None"
| "reservation_around (r # rs) start = do {
     inside \<leftarrow> paddr_in_range start (res_start r) (res_end r);
     if inside then Some (Some (res_end r)) else reservation_around rs start
   }"

partial_function (option) bump_up_start :: "memory_reservation list \<Rightarrow> paddr \<Rightarrow> paddr option" where
  "bump_up_start rs start = do {
     r \<leftarrow> reservation_around rs start;
     case r of None \<Rightarrow> Some start | Some e \<Rightarrow> bump_up_start rs e
   }"

text \<open>The loop after the comment "Find the lowest reservation address that now overlaps".\<close>

fun overlap_top :: "memory_reservation list \<Rightarrow> paddr \<Rightarrow> paddr \<Rightarrow> paddr \<Rightarrow> paddr option" where
  "overlap_top [] start end lowest = Some lowest"
| "overlap_top (r # rs) start end lowest = do {
     inside \<leftarrow> paddr_in_range (res_start r) start end;
     overlap_top rs start end (if inside then res_start r else lowest)
   }"

partial_function (option) consider_from ::
    "memory_reservation list \<Rightarrow> pstate \<Rightarrow> paddr \<Rightarrow> paddr \<Rightarrow> pstate option" where
  "consider_from rs s start end = do {
     start \<leftarrow> bump_up_start rs start;
     sb \<leftarrow> bits_of_paddr start;
     eb \<leftarrow> bits_of_paddr end;
     if eb \<le> sb then Some s
     else do {
       tp \<leftarrow> overlap_top rs start end end;
       s \<leftarrow> add_physical_chunk s start tp;
       consider_from rs s tp end
     }
   }"

definition consider_physical_memory ::
    "pstate \<Rightarrow> paddr \<Rightarrow> usize \<Rightarrow> memory_reservation list \<Rightarrow> pstate option" where
  "consider_physical_memory s addr len reservations = do {
     end \<leftarrow> paddr_offset addr len;
     consider_from reservations s addr end
   }"

text \<open>\<^verbatim>\<open>enum physical_alloc_flags\<close>, a set of bits.\<close>

definition PHYSICAL_ALLOC_DEFAULT :: u32 where
  "PHYSICAL_ALLOC_DEFAULT = 0"

definition PHYSICAL_ALLOC_BELOW_4G :: u32 where
  "PHYSICAL_ALLOC_BELOW_4G = 1"

definition mm_alloc_physical :: "pstate \<Rightarrow> u32 \<Rightarrow> ((bool \<times> paddr) \<times> pstate) option" where
  "mm_alloc_physical s flags =
     (if flags AND PHYSICAL_ALLOC_BELOW_4G = 0 then do {
        ((ok, out), s) \<leftarrow> physical_free_list_pop s Above_4G;
        if ok then Some ((True, out), s) else physical_free_list_pop s Below_4G
      } else physical_free_list_pop s Below_4G)"

definition mm_free_physical :: "pstate \<Rightarrow> paddr \<Rightarrow> pstate option" where
  "mm_free_physical s frame = do {
     b \<leftarrow> bits_of_paddr frame;
     assert_that (b \<noteq> 0);
     if push_bit 32 1 \<le> b then physical_free_list_push s 1 frame Above_4G
     else physical_free_list_push s 1 frame Below_4G
   }"

section \<open>What the free lists hold\<close>

text \<open>
  A chunk is a start address and a number of frames.  \<open>free_list m cs\<close> says that
  the memory \<open>m\<close> holds the links of the chunks \<open>cs\<close>, in this order.
\<close>

type_synonym chunk = "nat \<times> nat"

fun chunk_frames :: "chunk \<Rightarrow> nat list" where
  "chunk_frames (a, n) = map (\<lambda>i. a + i * 4096) [0..<n]"

definition frames :: "chunk list \<Rightarrow> nat list" where
  "frames cs = concat (map chunk_frames cs)"

fun next_addr :: "chunk list \<Rightarrow> nat" where
  "next_addr [] = 0"
| "next_addr ((a, n) # cs) = a"

fun chunk_ok :: "chunk \<Rightarrow> bool" where
  "chunk_ok (a, n) \<longleftrightarrow> 0 < a \<and> 4096 dvd a \<and> 0 < n \<and> a + n * 4096 \<le> window"

fun free_list :: "pmem \<Rightarrow> chunk list \<Rightarrow> bool" where
  "free_list m [] \<longleftrightarrow> True"
| "free_list m ((a, n) # cs) \<longleftrightarrow> chunk_ok (a, n) \<and>
     read_bytes m a 16 =
       link_bytes \<lparr>link_next = paddr_at (next_addr cs), link_length = of_nat n\<rparr> \<and>
     free_list m cs"

fun in_half :: "which_list \<Rightarrow> nat \<Rightarrow> bool" where
  "in_half Above_4G f \<longleftrightarrow> 2 ^ 32 \<le> f"
| "in_half Below_4G f \<longleftrightarrow> f < 2 ^ 32"

definition all_frames :: "(which_list \<Rightarrow> chunk list) \<Rightarrow> nat list" where
  "all_frames cs = frames (cs Above_4G) @ frames (cs Below_4G)"

definition phys_rel :: "pstate \<Rightarrow> (which_list \<Rightarrow> chunk list) \<Rightarrow> bool" where
  "phys_rel s cs \<longleftrightarrow>
     (\<forall>w. get_head w s = paddr_at (next_addr (cs w)) \<and> free_list (memory s) (cs w) \<and>
          (\<forall>f \<in> set (frames (cs w)). in_half w f)) \<and>
     distinct (all_frames cs)"

text \<open>The abstract state: the set of free frames, each named by its address.\<close>

definition phys_inv :: "pstate \<Rightarrow> nat set \<Rightarrow> bool" where
  "phys_inv s F \<longleftrightarrow> (\<exists>cs. phys_rel s cs \<and> F = set (all_frames cs))"

definition pages :: "nat set \<Rightarrow> nat set" where
  "pages F = {i. \<exists>f \<in> F. f \<le> i \<and> i < f + 4096}"

definition frame_ok :: "nat \<Rightarrow> bool" where
  "frame_ok f \<longleftrightarrow> 0 < f \<and> 4096 dvd f \<and> f + 4096 \<le> window"

lemma frames_simps [simp]:
  "frames [] = []" "frames (c # cs) = chunk_frames c @ frames cs"
  by (simp_all add: frames_def)

lemma set_chunk_frames: "set (chunk_frames (a, n)) = {f. \<exists>i < n. f = a + i * 4096}"
  by auto

lemma chunk_frames_Suc: "chunk_frames (a, Suc n) = a # chunk_frames (a + 4096, n)"
  by (simp add: upt_conv_Cons map_Suc_upt [symmetric] del: upt_Suc map_Suc_upt)

lemma distinct_chunk_frames: "distinct (chunk_frames c)"
  by (cases c) (simp add: distinct_map inj_on_def)

lemma chunk_frames_ok: "chunk_ok (a, n) \<Longrightarrow> f \<in> set (chunk_frames (a, n)) \<Longrightarrow> frame_ok f"
  by (auto simp: frame_ok_def)

lemma free_list_frames_ok: "free_list m cs \<Longrightarrow> f \<in> set (frames cs) \<Longrightarrow> frame_ok f"
  by (induction m cs rule: free_list.induct) (use chunk_frames_ok in auto)

lemma chunk_start_mem: "0 < n \<Longrightarrow> a \<in> set (chunk_frames (a, n))"
  by force

lemma page_disjoint:
  fixes a b :: nat
  assumes "4096 dvd a" "4096 dvd b" "a \<noteq> b" "k \<le> 4096" "l \<le> 4096"
  shows "a + k \<le> b \<or> b + l \<le> a"
  using assms by (elim dvdE) (simp, arith)

lemma length_link_bytes [simp]: "length (link_bytes l) = 16"
  by (simp add: link_bytes_def)

lemma link_of_link_bytes [simp]: "link_of_bytes (link_bytes l) = l"
  by (simp add: link_of_bytes_def link_bytes_def)

text \<open>A write into a page that starts no chunk of the list leaves the list alone.\<close>

lemma free_list_write:
  assumes "free_list m cs" "\<And>i. i \<in> pages (set (frames cs)) \<Longrightarrow> m' i = m i"
  shows "free_list m' cs"
  using assms
proof (induction m cs rule: free_list.induct)
  case (1 m)
  then show ?case by simp
next
  case (2 m a n cs)
  have "read_bytes m' a 16 = read_bytes m a 16"
  proof (rule read_bytes_cong)
    fix i assume "a \<le> i" "i < a + 16"
    moreover have "a \<in> set (chunk_frames (a, n))" using 2(2) by (intro chunk_start_mem) simp
    ultimately show "m' i = m i" by (intro 2(3)) (auto simp: pages_def simp del: chunk_frames.simps)
  qed
  moreover have "free_list m' cs"
  proof (rule 2(1))
    show "free_list m cs" using 2(2) by simp
    show "m' i = m i" if "i \<in> pages (set (frames cs))" for i
      using that by (intro 2(3)) (auto simp: pages_def)
  qed
  ultimately show ?case using 2(2) by simp
qed

lemma write_outside_pages:
  assumes "frame_ok a" "a \<notin> F" "\<forall>f \<in> F. frame_ok f" "length bs \<le> 4096" "i \<in> pages F"
  shows "write_bytes m a bs i = m i"
proof -
  from assms(5) obtain f where f: "f \<in> F" "f \<le> i" "i < f + 4096" by (auto simp: pages_def)
  then have "f + 4096 \<le> a \<or> a + length bs \<le> f"
    using assms(1-4) by (intro page_disjoint) (auto simp: frame_ok_def)
  with f show ?thesis by (intro write_bytes_outside) linarith
qed

lemma phys_rel_frames_ok: "phys_rel s cs \<Longrightarrow> f \<in> set (all_frames cs) \<Longrightarrow> frame_ok f"
  by (auto simp: phys_rel_def all_frames_def dest: free_list_frames_ok)

lemma phys_inv_frame_ok: "phys_inv s F \<Longrightarrow> f \<in> F \<Longrightarrow> frame_ok f"
  by (auto simp: phys_inv_def dest: phys_rel_frames_ok)

lemma phys_inv_finite: "phys_inv s F \<Longrightarrow> finite F"
  by (auto simp: phys_inv_def)

lemma all_frames_upd:
  "set (all_frames (cs(w := xs))) = set (frames xs) \<union> set (frames (cs (case w of Above_4G \<Rightarrow> Below_4G | Below_4G \<Rightarrow> Above_4G)))"
  "set (all_frames cs) = set (frames (cs w)) \<union> set (frames (cs (case w of Above_4G \<Rightarrow> Below_4G | Below_4G \<Rightarrow> Above_4G)))"
  "distinct (all_frames (cs(w := xs))) \<longleftrightarrow> distinct (frames xs) \<and>
     distinct (frames (cs (case w of Above_4G \<Rightarrow> Below_4G | Below_4G \<Rightarrow> Above_4G))) \<and>
     set (frames xs) \<inter> set (frames (cs (case w of Above_4G \<Rightarrow> Below_4G | Below_4G \<Rightarrow> Above_4G))) = {}"
  "distinct (all_frames cs) \<longleftrightarrow> distinct (frames (cs w)) \<and>
     distinct (frames (cs (case w of Above_4G \<Rightarrow> Below_4G | Below_4G \<Rightarrow> Above_4G))) \<and>
     set (frames (cs w)) \<inter> set (frames (cs (case w of Above_4G \<Rightarrow> Below_4G | Below_4G \<Rightarrow> Above_4G))) = {}"
  by (cases w; auto simp: all_frames_def)+

lemma get_set_head [simp]:
  "get_head w (set_head v p s) = (if w = v then p else get_head w s)"
  "memory (set_head v p s) = memory s"
  by (cases w; cases v; simp)+

lemma get_head_memory [simp]: "get_head w (s\<lparr>memory := m\<rparr>) = get_head w s"
  by (cases w) simp_all

text \<open>The two list operations on the chunks.\<close>

lemma push_chunk:
  assumes rel: "phys_rel s cs" and c: "chunk_ok (a, n)"
    and new: "set (chunk_frames (a, n)) \<inter> set (all_frames cs) = {}"
    and half: "\<forall>f \<in> set (chunk_frames (a, n)). in_half w f"
  shows "\<exists>s'. physical_free_list_push s (of_nat n) (paddr_at a) w = Some s' \<and>
    phys_rel s' (cs(w := (a, n) # cs w)) \<and>
    (\<forall>i. \<not> (a \<le> i \<and> i < a + 16) \<longrightarrow> memory s' i = memory s i)"
proof -
  define l where "l = \<lparr>link_next = paddr_at (next_addr (cs w)), link_length = of_nat n\<rparr>"
  define m where "m = write_bytes (memory s) a (link_bytes l)"
  have a: "a < 2 ^ 56" "a + 16 \<le> window" "frame_ok a" "a \<in> set (chunk_frames (a, n))"
    using c chunk_start_mem [of n a] chunk_frames_ok [of a n a] by (auto simp: window_def)
  have head: "get_head w s = paddr_at (next_addr (cs w))" using rel by (auto simp: phys_rel_def)
  have push: "physical_free_list_push s (of_nat n) (paddr_at a) w = Some (set_head w (paddr_at a) (s\<lparr>memory := m\<rparr>))"
    using a head by (simp add: physical_free_list_push_def paddr_simps m_def l_def [symmetric])
  have fl: "free_list m (cs v)" for v
  proof (rule free_list_write)
    show "free_list (memory s) (cs v)" using rel by (simp add: phys_rel_def)
    fix i assume i: "i \<in> pages (set (frames (cs v)))"
    have "set (frames (cs v)) \<subseteq> set (all_frames cs)" using all_frames_upd(2) [of cs v] by auto
    then show "m i = memory s i"
      unfolding m_def using i a(3) new a(4) phys_rel_frames_ok [OF rel]
      by (intro write_outside_pages [where F = "set (frames (cs v))"]) auto
  qed
  have "phys_rel (set_head w (paddr_at a) (s\<lparr>memory := m\<rparr>)) (cs(w := (a, n) # cs w))"
    using rel fl c half new distinct_chunk_frames [of "(a, n)"] all_frames_upd(2,4) [of cs w]
    unfolding phys_rel_def all_frames_upd(3)
    by (auto simp: m_def l_def simp del: chunk_frames.simps)
  with push show ?thesis
    by (intro exI [of _ "set_head w (paddr_at a) (s\<lparr>memory := m\<rparr>)"])
      (auto simp: m_def intro: write_bytes_outside)
qed

lemma pop_no_chunk:
  assumes rel: "phys_rel s cs" and "cs w = []"
  shows "physical_free_list_pop s w = Some ((False, paddr_at 0), s)"
  using assms by (simp add: phys_rel_def physical_free_list_pop_def paddr_simps)

definition rest_chunks :: "chunk list \<Rightarrow> chunk list" where
  "rest_chunks cs = (case cs of [] \<Rightarrow> [] | (a, n) # r \<Rightarrow> if n = 1 then r else (a + 4096, n - 1) # r)"

lemma frames_rest_chunks: "0 < n \<Longrightarrow> frames ((a, n) # r) = a # frames (rest_chunks ((a, n) # r))"
  by (cases n) (auto simp: rest_chunks_def chunk_frames_Suc simp del: chunk_frames.simps
      simp: chunk_frames.simps(1) [of _ 0])

lemma page_size_nat [simp]: "unat PAGE_SIZE = 4096"
  by (simp add: PAGE_SIZE_def PAGE_BITS_def)

lemma pop_chunk:
  assumes rel: "phys_rel s cs" and c: "cs w = (a, n) # r"
  shows "\<exists>s'. physical_free_list_pop s w = Some ((True, paddr_at a), s') \<and>
    phys_rel s' (cs(w := rest_chunks (cs w))) \<and>
    (\<forall>i. i \<notin> pages (set (all_frames cs) - {a}) \<longrightarrow> memory s' i = memory s i)"
proof -
  have ok: "chunk_ok (a, n)" and fl: "free_list (memory s) ((a, n) # r)"
    and head: "get_head w s = paddr_at a"
    using rel c by (auto simp: phys_rel_def dest: spec [of _ w])
  have a: "0 < a" "a < 2 ^ 56" "a + 16 \<le> window" "0 < n" "n < 2 ^ 64" "a + n * 4096 \<le> window"
    using ok by (auto simp: window_def)
  have b0: "(of_nat a :: u64) \<noteq> 0"
    using a of_nat_eq_iff_small [of a 0] by simp
  have n0: "(of_nat n :: u64) > 0" "(of_nat n :: u64) = 1 \<longleftrightarrow> n = 1"
    using a of_nat_less_iff_small [of 0 n] of_nat_eq_iff_small [of n 1] by simp_all
  have dist: "distinct (all_frames cs)" using rel by (simp add: phys_rel_def)
  have fr: "frames (cs w) = a # frames (rest_chunks (cs w))"
    using frames_rest_chunks a(4) c by metis
  have rest: "distinct (all_frames (cs(w := rest_chunks (cs w))))"
      "\<forall>v. \<forall>f \<in> set (frames ((cs(w := rest_chunks (cs w))) v)). in_half v f"
    using rel fr all_frames_upd(3,4) [of cs w] by (auto simp: phys_rel_def)
  have pop: "physical_free_list_pop s w = (if n = 1 then
      Some ((True, paddr_at a), set_head w (paddr_at (next_addr r)) s)
    else do {
      h \<leftarrow> paddr_offset (paddr_at a) PAGE_SIZE;
      m \<leftarrow> copy_to_physical (memory s) h (link_bytes \<lparr>link_next = paddr_at (next_addr r), link_length = of_nat n - 1\<rparr>);
      Some ((True, paddr_at a), (set_head w h s)\<lparr>memory := m\<rparr>) })"
    using fl a b0 n0 by (simp add: physical_free_list_pop_def head paddr_simps)
  show ?thesis
  proof (cases "n = 1")
    case True
    have "phys_rel (set_head w (paddr_at (next_addr r)) s) (cs(w := rest_chunks (cs w)))"
      using rel c rest True by (auto simp: phys_rel_def rest_chunks_def dest: spec [of _ w])
    then show ?thesis using pop True by auto
  next
    case False
    define l where "l = \<lparr>link_next = paddr_at (next_addr r), link_length = of_nat (n - 1)\<rparr>"
    define m where "m = write_bytes (memory s) (a + 4096) (link_bytes l)"
    define s' where "s' = (set_head w (paddr_at (a + 4096)) s)\<lparr>memory := m\<rparr>"
    have n2: "2 \<le> n" using False a(4) by linarith
    have a2: "a + 4096 + 16 \<le> window" "a + 4096 < 2 ^ 56" using a(6) n2 by (auto simp: window_def)
    have rc: "rest_chunks (cs w) = (a + 4096, n - 1) # r" using False c by (simp add: rest_chunks_def)
    have "(of_nat n :: u64) - 1 = of_nat (n - 1)" using a(4) by (simp add: of_nat_diff)
    then have pop': "physical_free_list_pop s w = Some ((True, paddr_at a), s')"
      using pop False a(2) a2 by (simp add: paddr_simps m_def s'_def l_def)
    have cok: "chunk_ok (a + 4096, n - 1)"
      using ok n2 by (auto simp: algebra_simps)
    have in_rest: "a + 4096 \<in> set (frames (rest_chunks (cs w)))"
      using rc n2 chunk_start_mem [of "n - 1" "a + 4096"] by (simp del: chunk_frames.simps)
    have fok: "frame_ok (a + 4096)" using cok chunk_frames_ok chunk_start_mem n2
      by (metis diff_is_0_eq gr_zeroI not_less_eq_eq numeral_2_eq_2 One_nat_def)
    have untouched: "m i = memory s i" if "i \<in> pages G" "G \<subseteq> set (all_frames cs)" "a + 4096 \<notin> G" for i G
      unfolding m_def using that fok phys_rel_frames_ok [OF rel]
      by (intro write_outside_pages [where F = G]) auto
    have flr: "free_list m r"
    proof (rule free_list_write)
      show "free_list (memory s) r" using fl by simp
      have "a + 4096 \<notin> set (frames r)" "set (frames r) \<subseteq> set (all_frames cs)"
        using dist all_frames_upd(2,4) [of cs w] fr in_rest rc chunk_start_mem [of "n - 1" "a + 4096"] n2
        by (auto simp del: chunk_frames.simps)
      then show "m i = memory s i" if "i \<in> pages (set (frames r))" for i
        using untouched [OF that] by simp
    qed
    have flv: "free_list m (cs v)" if "v \<noteq> w" for v
    proof (rule free_list_write)
      show "free_list (memory s) (cs v)" using rel by (simp add: phys_rel_def)
      have "a + 4096 \<notin> set (frames (cs v))" "set (frames (cs v)) \<subseteq> set (all_frames cs)"
        using dist that fr in_rest by (cases v; cases w; auto simp: all_frames_def)+
      then show "m i = memory s i" if "i \<in> pages (set (frames (cs v)))" for i
        using untouched [OF that] by simp
    qed
    have "phys_rel s' (cs(w := rest_chunks (cs w)))"
      using rel rest flr flv cok n2 unfolding phys_rel_def rc
      by (auto simp: s'_def m_def l_def simp del: chunk_frames.simps)
    moreover have "memory s' i = memory s i" if "i \<notin> pages (set (all_frames cs) - {a})" for i
    proof -
      have "a + 4096 \<in> set (all_frames cs) - {a}" using in_rest fr all_frames_upd(2) [of cs w] by auto
      then have "\<not> (a + 4096 \<le> i \<and> i < a + 4096 + 4096)" using that by (auto simp: pages_def)
      then show ?thesis unfolding s'_def m_def by (simp, intro write_bytes_outside) auto
    qed
    ultimately show ?thesis using pop' by blast
  qed
qed

section \<open>Allocating and freeing a frame\<close>

lemma pop_cases:
  assumes rel: "phys_rel s cs"
  obtains (empty) "cs w = []" "physical_free_list_pop s w = Some ((False, paddr_at 0), s)"
  | (frame) a s' where "physical_free_list_pop s w = Some ((True, paddr_at a), s')"
      "phys_rel s' (cs(w := rest_chunks (cs w)))" "frames (cs w) = a # frames (rest_chunks (cs w))"
      "\<forall>i. i \<notin> pages (set (all_frames cs) - {a}) \<longrightarrow> memory s' i = memory s i"
proof (cases "cs w")
  case Nil
  with pop_no_chunk [of s cs w] rel show ?thesis by (intro empty) auto
next
  case (Cons c r)
  obtain a n where c: "c = (a, n)" by (cases c)
  then have "0 < n" using rel Cons by (auto simp: phys_rel_def dest: spec [of _ w])
  then have "frames (cs w) = a # frames (rest_chunks (cs w))"
    using frames_rest_chunks Cons c by metis
  with pop_chunk [of s cs w a n r] rel Cons c show ?thesis by (auto intro: frame)
qed

lemma remove_frame:
  assumes "distinct (all_frames cs)" "frames (cs w) = a # frames xs"
  shows "set (all_frames (cs(w := xs))) = set (all_frames cs) - {a}"
  using assms all_frames_upd(1) [of cs w xs] all_frames_upd(2,4) [of cs w] by auto

text \<open>The frames an allocation with the given flags may return.\<close>

definition eligible :: "u32 \<Rightarrow> nat \<Rightarrow> bool" where
  "eligible flags f \<longleftrightarrow> flags AND PHYSICAL_ALLOC_BELOW_4G = 0 \<or> f < 2 ^ 32"

lemma in_half_frames:
  "phys_rel s cs \<Longrightarrow> f \<in> set (all_frames cs) \<Longrightarrow> f \<in> set (frames (cs w)) \<longleftrightarrow> in_half w f"
proof -
  assume rel: "phys_rel s cs" and f: "f \<in> set (all_frames cs)"
  have "\<forall>f \<in> set (frames (cs v)). in_half v f" for v using rel by (simp add: phys_rel_def)
  from this [of Above_4G] this [of Below_4G] f show ?thesis
    by (cases w) (fastforce simp: all_frames_def)+
qed

lemma alloc_from:
  assumes rel: "phys_rel s cs"
  obtains (empty) "{f \<in> set (all_frames cs). in_half w f} = {}"
      "physical_free_list_pop s w = Some ((False, paddr_at 0), s)"
  | (frame) a s' where "physical_free_list_pop s w = Some ((True, paddr_at a), s')"
      "a \<in> set (all_frames cs)" "in_half w a" "phys_inv s' (set (all_frames cs) - {a})"
      "\<forall>i. i \<notin> pages (set (all_frames cs) - {a}) \<longrightarrow> memory s' i = memory s i"
proof (rule pop_cases [OF rel, of w])
  assume "cs w = []" "physical_free_list_pop s w = Some ((False, paddr_at 0), s)"
  then show ?thesis using in_half_frames [OF rel, of _ w] by (intro empty) auto
next
  fix a s'
  assume a: "physical_free_list_pop s w = Some ((True, paddr_at a), s')"
    "phys_rel s' (cs(w := rest_chunks (cs w)))" "frames (cs w) = a # frames (rest_chunks (cs w))"
    "\<forall>i. i \<notin> pages (set (all_frames cs) - {a}) \<longrightarrow> memory s' i = memory s i"
  have dist: "distinct (all_frames cs)" using rel by (simp add: phys_rel_def)
  have aw: "a \<in> set (frames (cs w))" using a(3) by simp
  then have "a \<in> set (all_frames cs)" using all_frames_upd(2) [of cs w] by blast
  moreover from this aw have "in_half w a" using in_half_frames [OF rel] by blast
  moreover have "phys_inv s' (set (all_frames cs) - {a})"
    unfolding phys_inv_def using a(2) remove_frame [OF dist a(3)] by metis
  ultimately show ?thesis by (rule frame [OF a(1) _ _ _ a(4)])
qed

lemma mm_alloc_physical_spec:
  assumes inv: "phys_inv s F"
  obtains (empty) out where "\<forall>f \<in> F. \<not> eligible flags f"
      "mm_alloc_physical s flags = Some ((False, out), s)"
  | (frame) a s' where "mm_alloc_physical s flags = Some ((True, paddr_at a), s')"
      "a \<in> F" "eligible flags a" "phys_inv s' (F - {a})"
      "\<forall>i. i \<notin> pages (F - {a}) \<longrightarrow> memory s' i = memory s i"
proof -
  obtain cs where rel: "phys_rel s cs" and F: "F = set (all_frames cs)"
    using inv by (auto simp: phys_inv_def)
  show ?thesis
  proof (cases "flags AND PHYSICAL_ALLOC_BELOW_4G = 0")
    case False
    then have m: "mm_alloc_physical s flags = physical_free_list_pop s Below_4G"
      by (simp add: mm_alloc_physical_def)
    show ?thesis
    proof (rule alloc_from [OF rel, of Below_4G])
      assume "{f \<in> set (all_frames cs). in_half Below_4G f} = {}"
        "physical_free_list_pop s Below_4G = Some ((False, paddr_at 0), s)"
      then show ?thesis using m False F by (intro empty) (auto simp: eligible_def)
    next
      fix a s'
      assume "physical_free_list_pop s Below_4G = Some ((True, paddr_at a), s')"
        "a \<in> set (all_frames cs)" "in_half Below_4G a" "phys_inv s' (set (all_frames cs) - {a})"
        "\<forall>i. i \<notin> pages (set (all_frames cs) - {a}) \<longrightarrow> memory s' i = memory s i"
      then show ?thesis using m F by (intro frame [of a s']) (simp_all add: eligible_def)
    qed
  next
    case True
    show ?thesis
    proof (rule alloc_from [OF rel, of Above_4G])
      assume e: "{f \<in> set (all_frames cs). in_half Above_4G f} = {}"
        "physical_free_list_pop s Above_4G = Some ((False, paddr_at 0), s)"
      then have m: "mm_alloc_physical s flags = physical_free_list_pop s Below_4G"
        using True by (simp add: mm_alloc_physical_def)
      show ?thesis
      proof (rule alloc_from [OF rel, of Below_4G])
        assume b: "{f \<in> set (all_frames cs). in_half Below_4G f} = {}"
          "physical_free_list_pop s Below_4G = Some ((False, paddr_at 0), s)"
        then have "F = {}" using e(1) F by (auto simp: not_le)
        with b(2) show ?thesis using m by (intro empty) auto
      next
        fix a s'
        assume "physical_free_list_pop s Below_4G = Some ((True, paddr_at a), s')"
          "a \<in> set (all_frames cs)" "phys_inv s' (set (all_frames cs) - {a})"
          "\<forall>i. i \<notin> pages (set (all_frames cs) - {a}) \<longrightarrow> memory s' i = memory s i"
        then show ?thesis using m F True by (intro frame [of a s']) (simp_all add: eligible_def)
      qed
    next
      fix a s'
      assume "physical_free_list_pop s Above_4G = Some ((True, paddr_at a), s')"
        and a: "a \<in> set (all_frames cs)" "phys_inv s' (set (all_frames cs) - {a})"
        "\<forall>i. i \<notin> pages (set (all_frames cs) - {a}) \<longrightarrow> memory s' i = memory s i"
      then have "mm_alloc_physical s flags = Some ((True, paddr_at a), s')"
        using True by (simp add: mm_alloc_physical_def)
      then show ?thesis using a True F by (intro frame [of a s']) (simp_all add: eligible_def)
    qed
  qed
qed

lemma push_frames:
  assumes inv: "phys_inv s F" and c: "chunk_ok (a, n)"
    and new: "set (chunk_frames (a, n)) \<inter> F = {}"
    and half: "\<forall>f \<in> set (chunk_frames (a, n)). in_half w f"
  shows "\<exists>s'. physical_free_list_push s (of_nat n) (paddr_at a) w = Some s' \<and>
    phys_inv s' (set (chunk_frames (a, n)) \<union> F) \<and>
    (\<forall>i. i \<notin> pages (set (chunk_frames (a, n))) \<longrightarrow> memory s' i = memory s i)"
proof -
  obtain cs where rel: "phys_rel s cs" and F: "F = set (all_frames cs)"
    using inv by (auto simp: phys_inv_def)
  from push_chunk [OF rel c new [unfolded F] half] obtain s' where
    s': "physical_free_list_push s (of_nat n) (paddr_at a) w = Some s'"
      "phys_rel s' (cs(w := (a, n) # cs w))"
      "\<forall>i. \<not> (a \<le> i \<and> i < a + 16) \<longrightarrow> memory s' i = memory s i" by blast
  have "set (all_frames (cs(w := (a, n) # cs w))) = set (chunk_frames (a, n)) \<union> F"
    using all_frames_upd(1) [of cs w "(a, n) # cs w"] all_frames_upd(2) [of cs w] F
    by (auto simp del: chunk_frames.simps)
  moreover have "a \<in> set (chunk_frames (a, n))" using c chunk_start_mem by simp
  ultimately show ?thesis
    using s' by (intro exI [of _ s']) (fastforce simp: phys_inv_def pages_def simp del: chunk_frames.simps)
qed

lemma push_bit_4g:
  assumes "n < 2 ^ 64"
  shows "push_bit 32 1 \<le> (of_nat n :: u64) \<longleftrightarrow> 2 ^ 32 \<le> n"
    "4294967296 \<le> (of_nat n :: u64) \<longleftrightarrow> 2 ^ 32 \<le> n"
    "(of_nat n :: u64) < 4294967296 \<longleftrightarrow> n < 2 ^ 32"
  using assms by (simp_all add: word_le_nat_alt word_less_nat_alt)

lemma mm_free_physical_spec:
  assumes inv: "phys_inv s F" and f: "frame_ok f" "f \<notin> F"
  shows "\<exists>s'. mm_free_physical s (paddr_at f) = Some s' \<and> phys_inv s' (insert f F) \<and>
    (\<forall>i. i \<notin> pages {f} \<longrightarrow> memory s' i = memory s i)"
proof -
  have f': "f < 2 ^ 56" "f < 2 ^ 64" "0 < f" using f(1) by (auto simp: frame_ok_def window_def)
  have nz: "(of_nat f :: u64) \<noteq> 0" using f' of_nat_eq_iff_small [of f 0] by simp
  define w where "w = (if 2 ^ 32 \<le> f then Above_4G else Below_4G)"
  have "mm_free_physical s (paddr_at f) = physical_free_list_push s 1 (paddr_at f) w"
    using f' nz push_bit_4g [of f] by (simp add: mm_free_physical_def paddr_simps w_def)
  moreover have "chunk_frames (f, 1) = [f]" by simp
  moreover have "chunk_ok (f, 1)" using f(1) by (simp add: frame_ok_def)
  ultimately show ?thesis
    using push_frames [OF inv, of f 1 w] f(2) by (simp add: w_def)
qed

section \<open>Adding the memory the firmware reports\<close>

text \<open>The frames that lie entirely between two addresses.\<close>

definition frames_between :: "nat \<Rightarrow> nat \<Rightarrow> nat set" where
  "frames_between lo hi = {f. 4096 dvd f \<and> lo \<le> f \<and> f + 4096 \<le> hi}"

lemma chunk_frames_between:
  assumes "4096 dvd a"
  shows "set (chunk_frames (a, n)) = frames_between a (a + n * 4096)"
proof
  show "set (chunk_frames (a, n)) \<subseteq> frames_between a (a + n * 4096)"
    using assms by (auto simp: frames_between_def)
  show "frames_between a (a + n * 4096) \<subseteq> set (chunk_frames (a, n))"
  proof
    fix f assume f: "f \<in> frames_between a (a + n * 4096)"
    then obtain i where "f = a + i * 4096"
      using assms by (auto simp: frames_between_def elim!: dvdE)
        (metis le_add_diff_inverse diff_mult_distrib2 mult.commute mult_le_cancel1)
    with f show "f \<in> set (chunk_frames (a, n))"
      by (auto simp: frames_between_def)
  qed
qed

lemma page_round:
  fixes k :: nat
  shows "4096 * k + 4096 \<le> hi div 4096 * 4096 \<longleftrightarrow> 4096 * k + 4096 \<le> hi"
    and "(lo + 4095) div 4096 * 4096 \<le> 4096 * k \<longleftrightarrow> lo \<le> 4096 * k"
proof -
  have "4096 * k + 4096 \<le> hi \<longleftrightarrow> Suc k \<le> hi div 4096"
    by (simp add: less_eq_div_iff_mult_less_eq algebra_simps)
  then show "4096 * k + 4096 \<le> hi div 4096 * 4096 \<longleftrightarrow> 4096 * k + 4096 \<le> hi" by linarith
  have "lo \<le> 4096 * k \<longleftrightarrow> (lo + 4095) div 4096 < Suc k"
    by (simp add: div_less_iff_less_mult algebra_simps; linarith)
  then show "(lo + 4095) div 4096 * 4096 \<le> 4096 * k \<longleftrightarrow> lo \<le> 4096 * k" by linarith
qed

lemma frames_between_round:
  "frames_between lo hi = frames_between ((lo + 4095) div 4096 * 4096) (hi div 4096 * 4096)"
  by (auto simp: frames_between_def page_round elim!: dvdE)

lemma frames_between_empty: "hi < lo + 4096 \<Longrightarrow> frames_between lo hi = {}"
  by (auto simp: frames_between_def)

lemma frames_between_split:
  assumes "4096 dvd c" "lo \<le> c" "c \<le> hi"
  shows "frames_between lo hi = frames_between lo c \<union> frames_between c hi"
  using assms by (auto simp: frames_between_def elim!: dvdE)

lemma frames_between_disjoint: "frames_between lo c \<inter> frames_between c hi = {}"
  by (auto simp: frames_between_def)

lemma push_range:
  assumes inv: "phys_inv s F" and a: "0 < a" "4096 dvd a" "4096 dvd b" "a < b" "b \<le> window"
    and new: "frames_between a b \<inter> F = {}"
    and half: "w = Above_4G \<and> 2 ^ 32 \<le> a \<or> w = Below_4G \<and> b \<le> 2 ^ 32"
  shows "\<exists>d s'. paddr_diff (paddr_at b) (paddr_at a) = Some d \<and>
    physical_free_list_push s (drop_bit 12 d) (paddr_at a) w = Some s' \<and>
    phys_inv s' (frames_between a b \<union> F)"
proof -
  define n where "n = (b - a) div 4096"
  have n: "b = a + n * 4096" "0 < n" using a by (auto simp: n_def elim!: dvdE)
  have fr: "set (chunk_frames (a, n)) = frames_between a b"
    using chunk_frames_between a(2) n by simp
  have b: "b < 2 ^ 56" "n < 2 ^ 64" using a(5) n by (auto simp: window_def)
  have d: "paddr_diff (paddr_at b) (paddr_at a) = Some (of_nat (b - a))"
    using a b by (intro paddr_diff_at) auto
  have "unat (of_nat (b - a) :: u64) = b - a" using b(1) by (simp del: of_nat_diff)
  then have "unat (drop_bit 12 (of_nat (b - a) :: u64)) = n"
    using b(1) by (simp add: unsigned_drop_bit_eq n_def drop_bit_eq_div [where 'a = nat]
        take_bit_nat_eq_self del: of_nat_diff)
  then have "drop_bit 12 (of_nat (b - a) :: u64) = of_nat n" using b
    by (simp add: word_unat_eq_iff del: of_nat_diff)
  moreover have "chunk_ok (a, n)" using a n by simp
  moreover have "\<forall>f \<in> set (chunk_frames (a, n)). in_half w f"
    unfolding fr using half by (auto simp: frames_between_def)
  ultimately show ?thesis using push_frames [OF inv, of a n w] new d unfolding fr by auto
qed

text \<open>
  A region whose rounded end is exactly 4 GiB makes the code link an empty chunk
  at 4 GiB, so it is excluded here and treated on its own below.
\<close>

definition ends_at_4g :: "nat \<Rightarrow> bool" where
  "ends_at_4g hi \<longleftrightarrow> hi div 4096 * 4096 = 2 ^ 32"

lemma add_physical_chunk_pages:
  assumes inv: "phys_inv s F" and a: "0 < a" "4096 dvd a" "4096 dvd b" "a \<le> 2 ^ 38" "b \<le> window"
    and b: "b \<noteq> 4294967296"
    and up: "align_up_paddr lo 12 = Some (paddr_at a)"
    and down: "align_down_paddr hi 12 = Some (paddr_at b)"
    and new: "frames_between a b \<inter> F = {}"
  shows "\<exists>s'. add_physical_chunk s lo hi = Some s' \<and> phys_inv s' (frames_between a b \<union> F)"
proof -
  have lt: "a < 2 ^ 64" "b < 2 ^ 64" "a < 2 ^ 56" "b < 2 ^ 56"
    using a(4,5) by (simp_all add: window_def)
  have cmp: "(of_nat b :: u64) \<le> of_nat a \<longleftrightarrow> b \<le> a" using lt by (intro of_nat_le_iff_small)
  note run = add_physical_chunk_def up down cmp push_bit_4g(2,3) [OF lt(1)] push_bit_4g(2,3) [OF lt(2)]
    bits_of_paddr_at [OF lt(3)] bits_of_paddr_at [OF lt(4)]
  have c: "4096 dvd (4294967296 :: nat)" "4294967296 \<le> window"
    "paddr_of_bits 4294967296 = Some (paddr_at 4294967296)"
    using paddr_of_bits_at [of 4294967296] by (simp_all add: window_def)
  consider "b \<le> a" | "a < b" "4294967296 \<le> a" | "a < 4294967296" "4294967296 < b" | "a < b" "b < 4294967296"
    using b by linarith
  then show ?thesis
  proof cases
    case 1
    have "add_physical_chunk s lo hi = Some s" using 1 by (simp add: run)
    moreover have "frames_between a b = {}" using 1 frames_between_empty [of b a] by simp
    ultimately show ?thesis using inv by simp
  next
    case 2
    have "Above_4G = Above_4G \<and> 2 ^ 32 \<le> a \<or> Above_4G = Below_4G \<and> b \<le> 2 ^ 32" using 2 by simp
    from push_range [OF inv a(1,2,3) 2(1) a(5) new this] obtain d s' where
      "paddr_diff (paddr_at b) (paddr_at a) = Some d"
      "physical_free_list_push s (drop_bit 12 d) (paddr_at a) Above_4G = Some s'"
      "phys_inv s' (frames_between a b \<union> F)" by blast
    moreover have "\<not> b \<le> a" using 2 by simp
    ultimately show ?thesis using 2(2) by (simp add: run)
  next
    case 3
    have sp: "frames_between a b = frames_between a 4294967296 \<union> frames_between 4294967296 b"
      using 3 c(1) by (intro frames_between_split) simp_all
    have "Below_4G = Above_4G \<and> 2 ^ 32 \<le> a \<or> Below_4G = Below_4G \<and> 4294967296 \<le> (2 :: nat) ^ 32" by simp
    from push_range [OF inv a(1,2) c(1) 3(1) c(2) _ this] new sp obtain d s1 where
      s1: "paddr_diff (paddr_at 4294967296) (paddr_at a) = Some d"
      "physical_free_list_push s (drop_bit 12 d) (paddr_at a) Below_4G = Some s1"
      "phys_inv s1 (frames_between a 4294967296 \<union> F)" by blast
    have new2: "frames_between 4294967296 b \<inter> (frames_between a 4294967296 \<union> F) = {}"
      using new sp frames_between_disjoint [of a 4294967296 b] by blast
    have "Above_4G = Above_4G \<and> 2 ^ 32 \<le> (4294967296 :: nat) \<or> Above_4G = Below_4G \<and> b \<le> 2 ^ 32" by simp
    from push_range [OF s1(3) _ c(1) a(3) 3(2) a(5) new2 this] obtain d' s' where
      "paddr_diff (paddr_at b) (paddr_at 4294967296) = Some d'"
      "physical_free_list_push s1 (drop_bit 12 d') (paddr_at 4294967296) Above_4G = Some s'"
      "phys_inv s' (frames_between 4294967296 b \<union> (frames_between a 4294967296 \<union> F))" by auto
    moreover have "\<not> 4294967296 \<le> a" "4294967296 \<le> b" "\<not> b \<le> a" using 3 by simp_all
    ultimately show ?thesis using 3(1) c(3) s1 sp by (simp add: run Un_ac del: of_nat_numeral)
  next
    case 4
    have "Below_4G = Above_4G \<and> 2 ^ 32 \<le> a \<or> Below_4G = Below_4G \<and> b \<le> 2 ^ 32" using 4 by simp
    from push_range [OF inv a(1,2,3) 4(1) a(5) new this] obtain d s' where
      "paddr_diff (paddr_at b) (paddr_at a) = Some d"
      "physical_free_list_push s (drop_bit 12 d) (paddr_at a) Below_4G = Some s'"
      "phys_inv s' (frames_between a b \<union> F)" by blast
    moreover have "\<not> b \<le> a" "\<not> 4294967296 \<le> a" "\<not> 4294967296 \<le> b" using 4 by simp_all
    ultimately show ?thesis by (simp add: run)
  qed
qed

lemma add_physical_chunk_spec:
  assumes inv: "phys_inv s F" and lo: "0 < lo" "lo \<le> window" and hi: "hi \<le> window" "\<not> ends_at_4g hi"
    and new: "frames_between lo hi \<inter> F = {}"
  shows "\<exists>s'. add_physical_chunk s (paddr_at lo) (paddr_at hi) = Some s' \<and>
    phys_inv s' (frames_between lo hi \<union> F)"
proof -
  have up: "align_up_paddr (paddr_at lo) 12 = Some (paddr_at ((lo + 4095) div 4096 * 4096))"
    using lo by (simp add: paddr_simps window_def)
  have down: "align_down_paddr (paddr_at hi) 12 = Some (paddr_at (hi div 4096 * 4096))"
    using hi by (simp add: paddr_simps window_def)
  show ?thesis
    using add_physical_chunk_pages [OF inv _ _ _ _ _ _ up down] lo hi new
    by (simp add: frames_between_round [of lo hi] window_def ends_at_4g_def)
qed

section \<open>Splitting a region around the reservations\<close>

text \<open>
  A region and its reservations are read as numbers: \<open>reserved rs\<close> are the
  addresses some reservation holds, \<open>usable rs lo hi\<close> the page frames between two
  addresses that touch none of them.
\<close>

definition reservation_at :: "nat \<times> nat \<Rightarrow> memory_reservation" where
  "reservation_at r = \<lparr>res_start = paddr_at (fst r), res_end = paddr_at (snd r)\<rparr>"

definition reserved :: "(nat \<times> nat) list \<Rightarrow> nat set" where
  "reserved rs = {x. \<exists>r \<in> set rs. fst r \<le> x \<and> x < snd r}"

definition usable :: "(nat \<times> nat) list \<Rightarrow> nat \<Rightarrow> nat \<Rightarrow> nat set" where
  "usable rs lo hi = {f \<in> frames_between lo hi. {f..<f + 4096} \<inter> reserved rs = {}}"

definition reservations_ok :: "(nat \<times> nat) list \<Rightarrow> bool" where
  "reservations_ok rs \<longleftrightarrow> (\<forall>r \<in> set rs. fst r < snd r \<and> snd r \<le> window \<and> \<not> ends_at_4g (fst r))
     \<and> sorted_wrt (\<lambda>r r'. fst r' \<le> fst r) rs"

lemma reserved_simps [simp]:
  "reserved [] = {}" "x \<in> reserved (r # rs) \<longleftrightarrow> fst r \<le> x \<and> x < snd r \<or> x \<in> reserved rs"
  by (auto simp: reserved_def)

lemma window_small: "n \<le> window \<Longrightarrow> n < 2 ^ 56"
  by (simp add: window_def)

lemma reservation_around_at:
  assumes "\<forall>r \<in> set rs. fst r < snd r \<and> snd r \<le> window" "x \<le> window"
  shows "\<exists>r. reservation_around (map reservation_at rs) (paddr_at x) = Some r \<and>
    (case r of None \<Rightarrow> x \<notin> reserved rs
     | Some e \<Rightarrow> \<exists>q \<in> set rs. fst q \<le> x \<and> x < snd q \<and> e = paddr_at (snd q))"
  using assms
proof (induction rs)
  case (Cons q rs)
  then have "fst q \<le> window" "snd q \<le> window" by auto
  then have "fst q < 2 ^ 56" "snd q < 2 ^ 56" "x < 2 ^ 56"
    using Cons.prems(2) by (simp_all only: window_small)
  then have step: "reservation_around (map reservation_at (q # rs)) (paddr_at x) =
      (if fst q \<le> x \<and> x < snd q then Some (Some (paddr_at (snd q)))
       else reservation_around (map reservation_at rs) (paddr_at x))"
    by (simp add: reservation_at_def paddr_in_range_at)
  from Cons obtain r where r: "reservation_around (map reservation_at rs) (paddr_at x) = Some r"
    "case r of None \<Rightarrow> x \<notin> reserved rs
     | Some e \<Rightarrow> \<exists>q \<in> set rs. fst q \<le> x \<and> x < snd q \<and> e = paddr_at (snd q)" by auto
  then show ?case unfolding step
    by (cases "fst q \<le> x \<and> x < snd q") (auto split: option.splits)
qed simp

lemma usable_skip:
  assumes "q \<in> set rs" "fst q \<le> x" "x < snd q"
  shows "usable rs x hi = usable rs (snd q) hi"
proof -
  have "snd q \<le> f" if "f \<in> usable rs x hi" for f
  proof (rule ccontr)
    assume "\<not> snd q \<le> f"
    then have "f \<in> reserved rs" using assms that
      by (auto simp: reserved_def usable_def frames_between_def intro!: bexI [of _ q])
    moreover have "f \<in> {f..<f + 4096}" by simp
    ultimately show False using that by (auto simp: usable_def simp del: atLeastLessThan_iff)
  qed
  then show ?thesis using assms by (fastforce simp: usable_def frames_between_def)
qed

text \<open>The inner loop ends, outside every reservation, having skipped only reserved memory.\<close>

lemma bump_up_start_at:
  assumes "\<forall>r \<in> set rs. fst r < snd r \<and> snd r \<le> window" "x \<le> window"
  shows "\<exists>y. bump_up_start (map reservation_at rs) (paddr_at x) = Some (paddr_at y) \<and>
    x \<le> y \<and> y \<le> window \<and> y \<notin> reserved rs \<and> (\<forall>hi. usable rs x hi = usable rs y hi)"
  using assms(2)
proof (induction "window - x" arbitrary: x rule: less_induct)
  case less
  obtain r where r: "reservation_around (map reservation_at rs) (paddr_at x) = Some r"
    "case r of None \<Rightarrow> x \<notin> reserved rs
     | Some e \<Rightarrow> \<exists>q \<in> set rs. fst q \<le> x \<and> x < snd q \<and> e = paddr_at (snd q)"
    using reservation_around_at [OF assms(1) less.prems] by blast
  show ?case
  proof (cases r)
    case None
    then show ?thesis using r less.prems
      by (intro exI [of _ x]) (simp add: bump_up_start.simps)
  next
    case (Some e)
    with r obtain q where q: "q \<in> set rs" "fst q \<le> x" "x < snd q" "e = paddr_at (snd q)" by auto
    have "snd q \<le> window" using assms(1) q(1) by auto
    then obtain y where "bump_up_start (map reservation_at rs) (paddr_at (snd q)) = Some (paddr_at y)"
      "snd q \<le> y \<and> y \<le> window \<and> y \<notin> reserved rs" "\<forall>hi. usable rs (snd q) hi = usable rs y hi"
      using less.hyps [of "snd q"] q(3) by (metis diff_less_mono2 less_le_trans)
    then show ?thesis using r Some q usable_skip [OF q(1-3)]
      by (intro exI [of _ y]) (subst bump_up_start.simps, simp)
  qed
qed

text \<open>With the reservations in descending order the last match is the lowest one.\<close>

lemma overlap_top_at:
  assumes "\<forall>r \<in> set rs. fst r \<le> window" "x \<le> window" "hi \<le> window"
    and "sorted_wrt (\<lambda>r r'. fst r' \<le> fst r) rs" "\<forall>r \<in> set rs. t0 = hi \<or> fst r \<le> t0" "t0 = hi \<or> x \<le> t0 \<and> t0 < hi"
  shows "\<exists>t. overlap_top (map reservation_at rs) (paddr_at x) (paddr_at hi) (paddr_at t0) = Some (paddr_at t) \<and>
    (t = t0 \<or> x \<le> t \<and> t < hi \<and> t \<in> fst ` set rs) \<and>
    (\<forall>r \<in> set rs. x \<le> fst r \<and> fst r < hi \<longrightarrow> t \<le> fst r)"
  using assms
proof (induction rs arbitrary: t0)
  case (Cons q rs)
  then have "fst q \<le> window" by auto
  then have "fst q < 2 ^ 56" "x < 2 ^ 56" "hi < 2 ^ 56"
    using Cons.prems(2,3) by (simp_all only: window_small)
  then have step: "overlap_top (map reservation_at (q # rs)) (paddr_at x) (paddr_at hi) (paddr_at t0) =
      overlap_top (map reservation_at rs) (paddr_at x) (paddr_at hi)
        (paddr_at (if x \<le> fst q \<and> fst q < hi then fst q else t0))"
    by (simp add: reservation_at_def paddr_in_range_at)
  show ?case
  proof (cases "x \<le> fst q \<and> fst q < hi")
    case True
    have le: "\<forall>r \<in> set rs. fst r \<le> fst q" using Cons.prems(4) by auto
    obtain t where "overlap_top (map reservation_at rs) (paddr_at x) (paddr_at hi) (paddr_at (fst q)) = Some (paddr_at t)"
      "t = fst q \<or> x \<le> t \<and> t < hi \<and> t \<in> fst ` set rs"
      "\<forall>r \<in> set rs. x \<le> fst r \<and> fst r < hi \<longrightarrow> t \<le> fst r"
      using Cons.IH [of "fst q"] Cons.prems(1-4) True by auto
    then show ?thesis unfolding step using True le by auto
  next
    case False
    obtain t where "overlap_top (map reservation_at rs) (paddr_at x) (paddr_at hi) (paddr_at t0) = Some (paddr_at t)"
      "t = t0 \<or> x \<le> t \<and> t < hi \<and> t \<in> fst ` set rs"
      "\<forall>r \<in> set rs. x \<le> fst r \<and> fst r < hi \<longrightarrow> t \<le> fst r"
      using Cons.IH [of t0] Cons.prems by auto
    then show ?thesis unfolding step using False by auto
  qed
qed simp


lemma usable_split:
  assumes y: "y \<notin> reserved rs" and t: "y \<le> t" "t \<le> hi"
    and lowest: "\<forall>r \<in> set rs. y \<le> fst r \<and> fst r < hi \<longrightarrow> t \<le> fst r"
    and edge: "t = hi \<or> t \<in> reserved rs"
  shows "usable rs y hi = frames_between y t \<union> usable rs t hi"
proof
  show "usable rs y hi \<subseteq> frames_between y t \<union> usable rs t hi"
  proof
    fix f assume f: "f \<in> usable rs y hi"
    show "f \<in> frames_between y t \<union> usable rs t hi"
    proof (cases "t \<le> f")
      case True
      with f show ?thesis by (auto simp: usable_def frames_between_def)
    next
      case False
      have "f + 4096 \<le> t"
      proof (rule ccontr)
        assume "\<not> f + 4096 \<le> t"
        with False f have "t \<in> {f..<f + 4096} \<inter> {f..<f + 4096}" "t \<noteq> hi"
          by (auto simp: usable_def frames_between_def)
        with edge f show False unfolding usable_def by blast
      qed
      with f show ?thesis by (auto simp: usable_def frames_between_def)
    qed
  qed
  have "x \<notin> reserved rs" if x: "y \<le> x" "x < t" for x
  proof
    assume "x \<in> reserved rs"
    then obtain r where r: "r \<in> set rs" "fst r \<le> x" "x < snd r" by (auto simp: reserved_def)
    have "\<not> y \<le> fst r" using lowest r(1,2) x t by (metis le_trans not_less order.strict_trans2)
    then have "y \<in> reserved rs" using r x by (auto simp: reserved_def intro!: bexI [of _ r])
    with y show False ..
  qed
  then have "frames_between y t \<subseteq> usable rs y hi"
    using t by (fastforce simp: usable_def frames_between_def)
  moreover have "usable rs t hi \<subseteq> usable rs y hi"
    using t by (auto simp: usable_def frames_between_def)
  ultimately show "frames_between y t \<union> usable rs t hi \<subseteq> usable rs y hi" by simp
qed

lemma consider_from_at:
  assumes rs: "reservations_ok rs" and hi: "hi \<le> window" "\<not> ends_at_4g hi"
    and inv: "phys_inv s F" and x: "0 < x" "x \<le> window"
    and new: "usable rs x hi \<inter> F = {}"
  shows "\<exists>s'. consider_from (map reservation_at rs) s (paddr_at x) (paddr_at hi) = Some s' \<and>
    phys_inv s' (usable rs x hi \<union> F)"
  using inv x new
proof (induction "hi - x" arbitrary: x s F rule: less_induct)
  case less
  have ok: "\<forall>r \<in> set rs. fst r < snd r \<and> snd r \<le> window" using rs by (simp add: reservations_ok_def)
  obtain y where y: "bump_up_start (map reservation_at rs) (paddr_at x) = Some (paddr_at y)"
    "x \<le> y" "y \<le> window" "y \<notin> reserved rs" "usable rs x hi = usable rs y hi"
    using bump_up_start_at [OF ok less.prems(3)] by blast
  note small = window_small [OF y(3)] window_small [OF hi(1)]
  have cmp: "(of_nat hi :: u64) \<le> of_nat y \<longleftrightarrow> hi \<le> y"
    using small by (intro of_nat_le_iff_small) (simp_all del: of_nat_diff)
  note run = bits_of_paddr_at [OF small(1)] bits_of_paddr_at [OF small(2)] cmp y(1)
  show ?case
  proof (cases "hi \<le> y")
    case True
    then have "usable rs y hi = {}" by (auto simp: usable_def frames_between_def)
    then show ?thesis using True less.prems y(5)
      by (subst consider_from.simps) (simp add: run)
  next
    case False
    have starts: "\<forall>r \<in> set rs. fst r \<le> window" using ok by (meson less_imp_le order_trans)
    have sorted: "sorted_wrt (\<lambda>r r'. fst r' \<le> fst r) rs" using rs by (simp add: reservations_ok_def)
    obtain t where t: "overlap_top (map reservation_at rs) (paddr_at y) (paddr_at hi) (paddr_at hi) = Some (paddr_at t)"
      "t = hi \<or> y \<le> t \<and> t < hi \<and> t \<in> fst ` set rs"
      "\<forall>r \<in> set rs. y \<le> fst r \<and> fst r < hi \<longrightarrow> t \<le> fst r"
      using overlap_top_at [OF starts y(3) hi(1) sorted, of hi] by auto
    have edge: "t = hi \<or> t \<in> reserved rs"
    proof (cases "t = hi")
      case False
      then obtain r where "r \<in> set rs" "t = fst r" using t(2) by auto
      then show ?thesis using ok unfolding reserved_def by blast
    qed simp
    have "y \<noteq> t" using edge y(4) False by auto
    then have yt: "y < t" "t \<le> hi" using t(2) False by auto
    have tw: "t \<le> window" "\<not> ends_at_4g t"
      using t(2) hi rs yt by (auto simp: reservations_ok_def)
    have split: "usable rs y hi = frames_between y t \<union> usable rs t hi"
      using usable_split [OF y(4) _ yt(2) t(3) edge] yt by simp
    then have "frames_between y t \<inter> F = {}" using less.prems(4) y(5) by auto
    then obtain s1 where s1: "add_physical_chunk s (paddr_at y) (paddr_at t) = Some s1"
      "phys_inv s1 (frames_between y t \<union> F)"
      using add_physical_chunk_spec [OF less.prems(1) _ y(3) tw] less.prems(2) y(2) by auto
    have "usable rs t hi \<inter> frames_between y t = {}"
      using frames_between_disjoint [of y t hi] by (auto simp: usable_def)
    then have "usable rs t hi \<inter> (frames_between y t \<union> F) = {}"
      using less.prems(4) y(5) split by blast
    moreover have "hi - t < hi - x" using yt y(2) by linarith
    ultimately obtain s' where
      "consider_from (map reservation_at rs) s1 (paddr_at t) (paddr_at hi) = Some s'"
      "phys_inv s' (usable rs t hi \<union> (frames_between y t \<union> F))"
      using less.hyps [of t s1 "frames_between y t \<union> F"] s1(2) yt y(2) less.prems(2) tw by auto
    moreover have "usable rs t hi \<union> (frames_between y t \<union> F) = usable rs x hi \<union> F"
      using split y(5) by auto
    ultimately show ?thesis using False s1 t(1)
      by (subst consider_from.simps) (simp add: run)
  qed
qed


section \<open>The allocator as an interface\<close>

text \<open>Repeated allocation, until the count is reached or the allocator reports failure.\<close>

fun alloc_many :: "('s \<Rightarrow> u32 \<Rightarrow> ((bool \<times> paddr) \<times> 's) option) \<Rightarrow>
    nat \<Rightarrow> u32 \<Rightarrow> 's \<Rightarrow> (paddr list \<times> 's) option" where
  "alloc_many alloc 0 fl s = Some ([], s)"
| "alloc_many alloc (Suc n) fl s = do {
     ((ok, p), s) \<leftarrow> alloc s fl;
     if ok then do { (ps, s) \<leftarrow> alloc_many alloc n fl s; Some (p # ps, s) } else Some ([], s)
   }"

text \<open>
  What a client of the frame allocator relies on: the state keeps a set of free
  frames, an allocation takes one of them (or reports that no eligible one is
  left), a free gives one back, and neither writes memory outside the frames
  that are free.
\<close>

locale frame_allocator =
  fixes inv :: "'s \<Rightarrow> nat set \<Rightarrow> bool"
    and alloc :: "'s \<Rightarrow> u32 \<Rightarrow> ((bool \<times> paddr) \<times> 's) option"
    and give_back :: "'s \<Rightarrow> paddr \<Rightarrow> 's option"
    and mem :: "'s \<Rightarrow> pmem"
    and eligible_for :: "u32 \<Rightarrow> nat \<Rightarrow> bool"
  assumes alloc_law: "inv s F \<Longrightarrow>
      (\<forall>f \<in> F. \<not> eligible_for fl f) \<and> (\<exists>out. alloc s fl = Some ((False, out), s)) \<or>
      (\<exists>a s'. alloc s fl = Some ((True, paddr_at a), s') \<and> a \<in> F \<and> eligible_for fl a \<and>
        inv s' (F - {a}) \<and> (\<forall>i. i \<notin> pages (F - {a}) \<longrightarrow> mem s' i = mem s i))"
    and give_back_law: "inv s F \<Longrightarrow> frame_ok f \<Longrightarrow> f \<notin> F \<Longrightarrow>
      \<exists>s'. give_back s (paddr_at f) = Some s' \<and> inv s' (insert f F) \<and>
        (\<forall>i. i \<notin> pages {f} \<longrightarrow> mem s' i = mem s i)"
    and frames_law: "inv s F \<Longrightarrow> f \<in> F \<Longrightarrow> frame_ok f"
    and finite_law: "inv s F \<Longrightarrow> finite F"
begin

lemma alloc_total: "inv s F \<Longrightarrow> alloc s fl \<noteq> None"
  using alloc_law [of s F fl] by auto

lemma alloc_frame_ok:
  "inv s F \<Longrightarrow> alloc s fl = Some ((True, p), s') \<Longrightarrow> \<exists>a. p = paddr_at a \<and> frame_ok a \<and> a \<in> F \<and> inv s' (F - {a})"
  using alloc_law [of s F fl] frames_law by auto

text \<open>A frame that was allocated can be given back; then the free set is what it was.\<close>

lemma give_back_restores:
  assumes "inv s F" "alloc s fl = Some ((True, p), s1)"
  shows "\<exists>s2. give_back s1 p = Some s2 \<and> inv s2 F"
proof -
  obtain a where a: "p = paddr_at a" "frame_ok a" "a \<in> F" "inv s1 (F - {a})"
    using alloc_frame_ok [OF assms] by blast
  show ?thesis
    using give_back_law [OF a(4,2)] a(1,3) by (auto simp: insert_absorb)
qed

lemma alloc_many_spec:
  assumes "inv s F"
  shows "\<exists>fs s'. alloc_many alloc n fl s = Some (map paddr_at fs, s') \<and> distinct fs \<and>
    set fs \<subseteq> {f \<in> F. eligible_for fl f} \<and> inv s' (F - set fs) \<and>
    length fs = min n (card {f \<in> F. eligible_for fl f})"
  using assms
proof (induction n arbitrary: s F)
  case (Suc n)
  let ?E = "\<lambda>F. {f \<in> F. eligible_for fl f}"
  from alloc_law [OF Suc.prems, of fl] show ?case
  proof (elim disjE conjE exE)
    fix out assume none: "\<forall>f \<in> F. \<not> eligible_for fl f" and a: "alloc s fl = Some ((False, out), s)"
    have "?E F = {}" using none by auto
    then show ?thesis using a Suc.prems by (intro exI [of _ "[]"] exI [of _ s]) (simp del: Collect_empty_eq)
  next
    fix a s1 assume a: "alloc s fl = Some ((True, paddr_at a), s1)" "a \<in> F" "eligible_for fl a"
      "inv s1 (F - {a})"
    obtain fs s' where fs: "alloc_many alloc n fl s1 = Some (map paddr_at fs, s')" "distinct fs"
      "set fs \<subseteq> ?E (F - {a})" "inv s' (F - {a} - set fs)" "length fs = min n (card (?E (F - {a})))"
      using Suc.IH [OF a(4)] by blast
    have "?E F = insert a (?E (F - {a}))" using a by auto
    then have "card (?E F) = Suc (card (?E (F - {a})))"
      using finite_law [OF Suc.prems] by simp
    moreover have "F - set (a # fs) = F - {a} - set fs" by auto
    ultimately show ?thesis using a fs
      by (intro exI [of _ "a # fs"] exI [of _ s']) auto
  qed
qed simp

end

interpretation frames: frame_allocator phys_inv mm_alloc_physical mm_free_physical memory eligible
proof unfold_locales
  fix s F fl assume inv: "phys_inv s F"
  show "(\<forall>f \<in> F. \<not> eligible fl f) \<and> (\<exists>out. mm_alloc_physical s fl = Some ((False, out), s)) \<or>
      (\<exists>a s'. mm_alloc_physical s fl = Some ((True, paddr_at a), s') \<and> a \<in> F \<and> eligible fl a \<and>
        phys_inv s' (F - {a}) \<and> (\<forall>i. i \<notin> pages (F - {a}) \<longrightarrow> memory s' i = memory s i))"
    by (rule mm_alloc_physical_spec [OF inv, of fl]) blast+
next
  fix s F f assume "phys_inv s F" "f \<in> F"
  then show "frame_ok f" by (rule phys_inv_frame_ok)
next
  fix s F assume "phys_inv s F"
  then show "finite F" by (auto simp: phys_inv_def)
qed (rule mm_free_physical_spec)


section \<open>What the allocator promises\<close>

text \<open>The state at boot: no free memory.\<close>

definition boot_state :: pstate where
  "boot_state = \<lparr>memory = (\<lambda>_. 0), free_list_head_above_4g = paddr_at 0,
     free_list_head_below_4g = paddr_at 0\<rparr>"

lemma boot_heads:
  "get_head w \<lparr>memory = m, free_list_head_above_4g = p, free_list_head_below_4g = p\<rparr> = p"
  by (cases w) simp_all

lemma boot_inv: "phys_inv boot_state {}"
  unfolding phys_inv_def
  by (rule exI [of _ "\<lambda>_. []"])
    (simp add: phys_rel_def boot_state_def all_frames_def boot_heads)

text \<open>
  \<open>C1\<close>.  An allocation returns an eligible free frame, which then is no longer free, and
  changes memory only inside the frames that stay free; it returns \<^verbatim>\<open>false\<close>, and changes
  nothing, exactly when no free frame is eligible.
\<close>
theorem mm_alloc_physical_correct:
  assumes "phys_inv s F"
  shows "if \<exists>f \<in> F. eligible flags f
    then \<exists>a s'. mm_alloc_physical s flags = Some ((True, paddr_at a), s') \<and> a \<in> F \<and>
      eligible flags a \<and> phys_inv s' (F - {a}) \<and>
      (\<forall>i. i \<notin> pages (F - {a}) \<longrightarrow> memory s' i = memory s i)
    else \<exists>out. mm_alloc_physical s flags = Some ((False, out), s)"
  using frames.alloc_law [OF assms, of flags] by (auto simp del: Pair_inject)

lemma some_state: "frame_ok f \<Longrightarrow> \<exists>s. phys_inv s {f}"
  using frames.give_back_law [OF boot_inv] by blast

lemma mm_alloc_physical_correct_witness:
  "\<exists>s a s'. phys_inv s {2147483648} \<and>
    mm_alloc_physical s PHYSICAL_ALLOC_BELOW_4G = Some ((True, paddr_at a), s') \<and> a = 2147483648"
proof -
  obtain s where s: "phys_inv s {2147483648}"
    using some_state [of 2147483648] by (auto simp: frame_ok_def window_def)
  have "eligible PHYSICAL_ALLOC_BELOW_4G 2147483648" by (simp add: eligible_def)
  then show ?thesis
    using mm_alloc_physical_correct [OF s, of PHYSICAL_ALLOC_BELOW_4G] s by auto
qed

text \<open>
  \<open>C8\<close>.  Giving back a frame that is not free makes it free and writes inside
  that frame only, whichever side of 4 GiB it lies on.
\<close>
theorem mm_free_physical_correct:
  assumes "phys_inv s F" "frame_ok f" "f \<notin> F"
  shows "\<exists>s'. mm_free_physical s (paddr_at f) = Some s' \<and> phys_inv s' (insert f F) \<and>
    (\<forall>i. i \<notin> pages {f} \<longrightarrow> memory s' i = memory s i)"
  by (rule frames.give_back_law [OF assms])

lemma mm_free_physical_correct_witness:
  "\<exists>s'. mm_free_physical boot_state (paddr_at 8589934592) = Some s' \<and> phys_inv s' {8589934592}"
  using mm_free_physical_correct [OF boot_inv, of 8589934592] by (auto simp: frame_ok_def window_def)

text \<open>
  \<open>C9\<close>.  A client that asks for \<open>n\<close> frames gets as many distinct free frames as there
  are eligible ones, up to \<open>n\<close>, and then the rest is still free: no frame is
  handed out twice and none is lost.
\<close>
theorem alloc_many_physical:
  assumes "phys_inv s F"
  shows "\<exists>fs s'. alloc_many mm_alloc_physical n flags s = Some (map paddr_at fs, s') \<and>
    distinct fs \<and> set fs \<subseteq> {f \<in> F. eligible flags f} \<and> phys_inv s' (F - set fs) \<and>
    length fs = min n (card {f \<in> F. eligible flags f})"
  by (rule frames.alloc_many_spec [OF assms])

lemma alloc_many_physical_witness:
  "\<exists>s s'. phys_inv s {8589934592} \<and>
    alloc_many mm_alloc_physical 3 PHYSICAL_ALLOC_DEFAULT s = Some ([paddr_at 8589934592], s')"
proof -
  obtain s where s: "phys_inv s {8589934592}"
    using some_state [of 8589934592] by (auto simp: frame_ok_def window_def)
  have "{f \<in> {8589934592}. eligible PHYSICAL_ALLOC_DEFAULT f} = {8589934592}"
    by (auto simp: eligible_def PHYSICAL_ALLOC_DEFAULT_def)
  then obtain fs s' where "alloc_many mm_alloc_physical 3 PHYSICAL_ALLOC_DEFAULT s = Some (map paddr_at fs, s')"
    "set fs \<subseteq> {8589934592}" "length fs = 1"
    using alloc_many_physical [OF s, of 3 PHYSICAL_ALLOC_DEFAULT] by auto
  then show ?thesis using s by (cases fs) auto
qed

lemma consider_physical_memory_spec:
  assumes "phys_inv s F" "reservations_ok rs"
    and "0 < lo" "lo + unat len \<le> window" "\<not> ends_at_4g (lo + unat len)"
    and "usable rs lo (lo + unat len) \<inter> F = {}"
  shows "\<exists>s'. consider_physical_memory s (paddr_at lo) len (map reservation_at rs) = Some s' \<and>
    phys_inv s' (usable rs lo (lo + unat len) \<union> F)"
proof -
  have "lo < 2 ^ 56" "lo + unat len < 2 ^ 56" "lo \<le> window"
    using assms(4) by (simp_all add: window_small window_def)
  then show ?thesis
    using consider_from_at [OF assms(2,4,5,1,3) _ assms(6)]
    by (simp add: consider_physical_memory_def paddr_offset_at)
qed

text \<open>
  With the reservations in descending order of address, considering a region of
  memory frees exactly the page frames that lie in the region and touch no reservation.
\<close>
theorem consider_physical_memory_correct:
  assumes "phys_inv s F" "reservations_ok rs"
    and "0 < lo" "lo + unat len \<le> window" "\<not> ends_at_4g (lo + unat len)"
    and "usable rs lo (lo + unat len) \<inter> F = {}"
  shows "\<exists>s'. consider_physical_memory s (paddr_at lo) len (map reservation_at rs) = Some s' \<and>
    phys_inv s' (usable rs lo (lo + unat len) \<union> F)"
  by (rule consider_physical_memory_spec [OF assms])

lemma consider_physical_memory_correct_witness:
  "\<exists>s'. consider_physical_memory boot_state (paddr_at 4096) 28672
      (map reservation_at [(20480, 24576), (12288, 16384)]) = Some s' \<and>
    phys_inv s' (usable [(20480, 24576), (12288, 16384)] 4096 32768)"
  using consider_physical_memory_correct [OF boot_inv,
      of "[(20480, 24576), (12288, 16384)]" 4096 28672]
  by (simp add: reservations_ok_def ends_at_4g_def window_def)

section \<open>Where the code departs from its comments\<close>

text \<open>
  The loop that the comment says finds the lowest reservation finds the last one in
  the array.  With the same two reservations in ascending order the frame at 0x3000,
  which is reserved, ends up free.
\<close>

lemma ascending_reservations_free_reserved_memory:
  "\<exists>s' F. consider_physical_memory boot_state (paddr_at 4096) 28672
      (map reservation_at [(12288, 16384), (20480, 24576)]) = Some s' \<and>
    phys_inv s' F \<and> 12288 \<in> F \<and> 12288 \<in> reserved [(12288, 16384), (20480, 24576)]"
proof -
  define rs where "rs = map reservation_at [(12288, 16384), (20480, 24576)]"
  obtain s1 where s1: "add_physical_chunk boot_state (paddr_at 4096) (paddr_at 20480) = Some s1"
    "phys_inv s1 (frames_between 4096 20480)"
    using add_physical_chunk_spec [OF boot_inv, of 4096 20480] by (auto simp: window_def ends_at_4g_def)
  have "frames_between 24576 32768 \<inter> frames_between 4096 20480 = {}"
    by (auto simp: frames_between_def)
  then obtain s2 where s2: "add_physical_chunk s1 (paddr_at 24576) (paddr_at 32768) = Some s2"
    "phys_inv s2 (frames_between 24576 32768 \<union> frames_between 4096 20480)"
    using add_physical_chunk_spec [OF s1(2), of 24576 32768] by (auto simp: window_def ends_at_4g_def)
  have b: "bump_up_start rs (paddr_at 4096) = Some (paddr_at 4096)"
    "bump_up_start rs (paddr_at 20480) = Some (paddr_at 24576)"
    "bump_up_start rs (paddr_at 32768) = Some (paddr_at 32768)"
    by (subst bump_up_start.simps, simp add: rs_def reservation_at_def paddr_simps bump_up_start.simps)+
  have o: "overlap_top rs (paddr_at 4096) (paddr_at 32768) (paddr_at 32768) = Some (paddr_at 20480)"
    "overlap_top rs (paddr_at 24576) (paddr_at 32768) (paddr_at 32768) = Some (paddr_at 32768)"
    by (simp_all add: rs_def reservation_at_def paddr_simps)
  have "consider_from rs s2 (paddr_at 32768) (paddr_at 32768) = Some s2"
    by (subst consider_from.simps) (simp add: b paddr_simps)
  then have "consider_from rs s1 (paddr_at 20480) (paddr_at 32768) = Some s2"
    by (subst consider_from.simps) (simp add: b o s2 paddr_simps)
  then have "consider_from rs boot_state (paddr_at 4096) (paddr_at 32768) = Some s2"
    by (subst consider_from.simps) (simp add: b o s1 paddr_simps)
  then have "consider_physical_memory boot_state (paddr_at 4096) 28672 rs = Some s2"
    by (simp add: consider_physical_memory_def paddr_simps)
  moreover have "12288 \<in> frames_between 24576 32768 \<union> frames_between 4096 20480"
    by (simp add: frames_between_def)
  moreover have "12288 \<in> reserved [(12288, 16384), (20480, 24576)]" by simp
  ultimately show ?thesis using s2(2) unfolding rs_def by blast
qed

text \<open>
  A reservation of no bytes inside the region stops the loop from making progress:
  the call never returns.
\<close>

lemma empty_reservation_never_returns:
  "consider_physical_memory s (paddr_at 4096) 8192 [reservation_at (8192, 8192)] = None"
proof -
  let ?r = "reservation_at (8192, 8192)"
  have b: "bump_up_start [?r] (paddr_at n) = Some (paddr_at n)" if "n < 2 ^ 56" for n
    using that by (subst bump_up_start.simps) (auto simp: reservation_at_def paddr_in_range_at)
  have stuck: "x = paddr_at 8192 \<longrightarrow> rs = [?r] \<longrightarrow> end = paddr_at 12288 \<longrightarrow> False"
    if "consider_from rs s x end = Some y" for rs s x "end" y
  proof (rule consider_from.raw_induct [OF _ that], goal_cases)
    case (1 consider_from rs s x "end" y)
    show ?case
    proof (intro impI)
      assume a: "x = paddr_at 8192" "rs = [?r]" "end = paddr_at 12288"
      have "overlap_top [?r] (paddr_at 8192) (paddr_at 12288) (paddr_at 12288) = Some (paddr_at 8192)"
        by (simp add: reservation_at_def paddr_simps)
      with 1(2) obtain s' where "consider_from [?r] s' (paddr_at 8192) (paddr_at 12288) = Some y"
        unfolding a by (auto simp: b paddr_simps bind_eq_Some)
      then show False using 1(1) by blast
    qed
  qed
  have o: "overlap_top [?r] (paddr_at 4096) (paddr_at 12288) (paddr_at 12288) = Some (paddr_at 8192)"
    by (simp add: reservation_at_def paddr_simps)
  have "consider_from [?r] s' (paddr_at 8192) (paddr_at 12288) = None" for s'
    using stuck [of "[?r]" s' "paddr_at 8192" "paddr_at 12288"]
    by (cases "consider_from [?r] s' (paddr_at 8192) (paddr_at 12288)") simp_all
  then have "consider_from [?r] s (paddr_at 4096) (paddr_at 12288) = None"
    by (subst consider_from.simps)
      (cases "add_physical_chunk s (paddr_at 4096) (paddr_at 8192)";
       simp add: b o paddr_simps del: overlap_top.simps)
  then show ?thesis by (simp add: consider_physical_memory_def paddr_simps)
qed

text \<open>
  A region that ends at 4 GiB leaves an empty chunk at the head of the upper list,
  and the first allocation that looks there fails the assertion that no chunk is empty.
\<close>

lemma empty_chunk_stops_pop:
  assumes "0 < a" "a + 16 \<le> window" "physical_free_list_push s 0 (paddr_at a) w = Some s'"
  shows "physical_free_list_pop s' w = None"
proof -
  have "a < 2 ^ 56" "(of_nat a :: u64) \<noteq> 0"
    using assms(1,2) of_nat_eq_iff_small [of a 0] by (simp_all add: window_def)
  then show ?thesis
    using assms by (auto simp: physical_free_list_push_def physical_free_list_pop_def paddr_simps)
qed

lemma region_up_to_4g_breaks_allocation:
  "\<exists>s'. add_physical_chunk boot_state (paddr_at 4294963200) (paddr_at 4294967296) = Some s' \<and>
    mm_alloc_physical s' PHYSICAL_ALLOC_DEFAULT = None"
proof -
  obtain s1 where s1: "physical_free_list_push boot_state 1 (paddr_at 4294963200) Below_4G = Some s1"
    by (simp add: physical_free_list_push_def paddr_simps window_def)
  obtain s2 where s2: "physical_free_list_push s1 0 (paddr_at 4294967296) Above_4G = Some s2"
    by (simp add: physical_free_list_push_def paddr_simps window_def)
  have p: "paddr_of_bits 4294967296 = Some (paddr_at 4294967296)"
    using paddr_of_bits_at [of 4294967296] by simp
  have d: "drop_bit 12 (4096 :: u64) = 1" by code_simp
  have "add_physical_chunk boot_state (paddr_at 4294963200) (paddr_at 4294967296) = Some s2"
    using s1 s2 by (simp add: add_physical_chunk_def paddr_simps p d)
  moreover have "physical_free_list_pop s2 Above_4G = None"
    using empty_chunk_stops_pop [OF _ _ s2] by (simp add: window_def)
  ultimately show ?thesis by (simp add: mm_alloc_physical_def PHYSICAL_ALLOC_DEFAULT_def)
qed

end
