(* ===== verification/Paging.thy ===== *)
theory Paging
  imports Physical_Alloc
begin

text \<open>
  The Sv39 page tables, \<^verbatim>\<open>arch/riscv64/paging.c\<close>: \<^verbatim>\<open>mm_paging_walk\<close>,
  \<^verbatim>\<open>mm_paging_map\<close> and \<^verbatim>\<open>mm_paging_unmap\<close>.  The state is the physical allocator's
  state, whose memory holds the tables, and the SATP register.  The mapping a
  state holds is the partial function \<open>leaf\<close> from the three table indices to the
  leaf entry; the root and the middle tables may also have large pages (the kernel's root has
  128 of one gigabyte), \<open>large\<close>, which the code neither makes nor changes.
  \<open>sv39_access\<close> is what the hardware does with the same tables.
\<close>

section \<open>Page table entries\<close>

text \<open>The bit-fields of \<^verbatim>\<open>struct pte\<close>, from the low bit up.\<close>

record pte =
  valid :: bool
  readable :: bool
  writable :: bool
  executable :: bool
  user :: bool
  global :: bool
  accessed :: bool
  dirty :: bool
  rsvd1 :: "2 word"
  pte_ppn :: "44 word"
  rsvd0 :: "10 word"

text \<open>The initializer \<^verbatim>\<open>(struct pte){0}\<close>.\<close>

definition pte_zero :: pte where
  "pte_zero = \<lparr>valid = False, readable = False, writable = False, executable = False,
     user = False, global = False, accessed = False, dirty = False,
     rsvd1 = 0, pte_ppn = 0, rsvd0 = 0\<rparr>"

definition pte_of_raw :: "u64 \<Rightarrow> pte" where
  "pte_of_raw w = \<lparr>valid = bit w 0, readable = bit w 1, writable = bit w 2, executable = bit w 3,
     user = bit w 4, global = bit w 5, accessed = bit w 6, dirty = bit w 7,
     rsvd1 = ucast (drop_bit 8 w), pte_ppn = ucast (drop_bit 10 w), rsvd0 = ucast (drop_bit 54 w)\<rparr>"

definition raw_of_pte :: "pte \<Rightarrow> u64" where
  "raw_of_pte p = of_bool (valid p) OR push_bit 1 (of_bool (readable p)) OR
     push_bit 2 (of_bool (writable p)) OR push_bit 3 (of_bool (executable p)) OR
     push_bit 4 (of_bool (user p)) OR push_bit 5 (of_bool (global p)) OR
     push_bit 6 (of_bool (accessed p)) OR push_bit 7 (of_bool (dirty p)) OR
     push_bit 8 (ucast (rsvd1 p)) OR push_bit 10 (ucast (pte_ppn p)) OR push_bit 54 (ucast (rsvd0 p))"

definition pte_bytes :: "pte \<Rightarrow> u8 list" where
  "pte_bytes p = le_bytes (raw_of_pte p)"

definition pte_of_bytes :: "u8 list \<Rightarrow> pte" where
  "pte_of_bytes bs = pte_of_raw (word_of_le bs)"

section \<open>The SATP register\<close>

definition SATP_MODE_SV39 :: "4 word" where
  "SATP_MODE_SV39 = 8"

record satp =
  satp_ppn :: "44 word"
  asid :: "16 word"
  mode :: "4 word"

record paging_state =
  phys :: pstate
  satp_csr :: u64

definition satp_of_raw :: "u64 \<Rightarrow> satp" where
  "satp_of_raw w =
     \<lparr>satp_ppn = ucast w, asid = ucast (drop_bit 44 w), mode = ucast (drop_bit 60 w)\<rparr>"

definition raw_of_satp :: "satp \<Rightarrow> u64" where
  "raw_of_satp s = ucast (satp_ppn s) OR push_bit 44 (ucast (asid s)) OR push_bit 60 (ucast (mode s))"

definition satp_read :: "paging_state \<Rightarrow> satp" where
  "satp_read s = satp_of_raw (satp_csr s)"

definition satp_write :: "paging_state \<Rightarrow> satp \<Rightarrow> paging_state" where
  "satp_write s v = s\<lparr>satp_csr := raw_of_satp v\<rparr>"

section \<open>Walking the tables\<close>

definition zero_paddr :: paddr where
  "zero_paddr = \<lparr>offset = 0, ppn = 0, rsvd = 0\<rparr>"

text \<open>\<^verbatim>\<open>(uaddr)(((iaddr)va >> 39) + 1) <= 1\<close>, with an arithmetic shift.\<close>

definition canonical :: "uaddr \<Rightarrow> bool" where
  "canonical va \<longleftrightarrow> signed_drop_bit 39 va + 1 \<le> 1"

text \<open>
  The two blocks of \<^verbatim>\<open>mm_paging_walk\<close> that follow (or, with \<^verbatim>\<open>alloc\<close>, create) the
  entry of a table are the same but for the names of their variables: from a table
  and an index, \<open>walk_step\<close> gives the table one level down.  \<open>None\<close> under
  \<open>Some\<close> is the code's \<^verbatim>\<open>return false\<close>.
\<close>

definition walk_step ::
    "pstate \<Rightarrow> paddr \<Rightarrow> usize \<Rightarrow> bool \<Rightarrow> (paddr option \<times> pstate) option" where
  "walk_step s pgtbl vpn alloc = do {
     pte_addr \<leftarrow> paddr_offset pgtbl (vpn * 8);
     bs \<leftarrow> copy_from_physical (memory s) pte_addr 8;
     let pte = pte_of_bytes bs;
     if \<not> valid pte then
       if \<not> alloc then Some (None, s)
       else do {
         ((ok, new), s) \<leftarrow> mm_alloc_physical s PHYSICAL_ALLOC_DEFAULT;
         if \<not> ok then Some (None, s)
         else do {
           m \<leftarrow> bzero_physical (memory s) new 4096;
           let pte = pte_zero\<lparr>valid := True, pte_ppn := ppn new\<rparr>;
           m \<leftarrow> copy_to_physical m pte_addr (pte_bytes pte);
           Some (Some (new\<lparr>ppn := pte_ppn pte\<rparr>), s\<lparr>memory := m\<rparr>)
         }
       }
     else Some (Some (zero_paddr\<lparr>ppn := pte_ppn pte\<rparr>), s)
   }"

text \<open>The result is the address stored through \<^verbatim>\<open>pte\<close>, or \<open>None\<close> for \<^verbatim>\<open>false\<close>.\<close>

definition mm_paging_walk ::
    "paging_state \<Rightarrow> uaddr \<Rightarrow> bool \<Rightarrow> (paddr option \<times> paging_state) option" where
  "mm_paging_walk s va alloc = do {
     assert_that (is_aligned_uaddr va PAGE_BITS);
     assert_that (canonical va);
     let vpn2 = drop_bit 30 va AND 0x1ff;
     let vpn1 = drop_bit 21 va AND 0x1ff;
     let vpn0 = drop_bit 12 va AND 0x1ff;
     let satp = satp_read s;
     assert_that (mode satp = SATP_MODE_SV39);
     let pgtbl2 = zero_paddr\<lparr>ppn := satp_ppn satp\<rparr>;
     (r1, p) \<leftarrow> walk_step (phys s) pgtbl2 vpn2 alloc;
     case r1 of None \<Rightarrow> Some (None, s\<lparr>phys := p\<rparr>)
     | Some pgtbl1 \<Rightarrow> do {
         (r0, p) \<leftarrow> walk_step p pgtbl1 vpn1 alloc;
         case r0 of None \<Rightarrow> Some (None, s\<lparr>phys := p\<rparr>)
         | Some pgtbl0 \<Rightarrow> do {
             pte0_addr \<leftarrow> paddr_offset pgtbl0 (vpn0 * 8);
             Some (Some pte0_addr, s\<lparr>phys := p\<rparr>)
           }
       }
   }"

datatype page_permissions =
  PGPERM_KRO | PGPERM_KRW | PGPERM_KRX | PGPERM_URO | PGPERM_URW | PGPERM_URX

text \<open>The initializer of \<^verbatim>\<open>mm_paging_map\<close> followed by its \<^verbatim>\<open>switch\<close>.\<close>

definition leaf_pte :: "paddr \<Rightarrow> page_permissions \<Rightarrow> pte" where
  "leaf_pte pa perms = (
     let pte = pte_zero\<lparr>valid := True, readable := True, accessed := True, dirty := True, pte_ppn := ppn pa\<rparr>
     in case perms of
       PGPERM_KRO \<Rightarrow> pte\<lparr>global := True\<rparr>
     | PGPERM_KRW \<Rightarrow> pte\<lparr>writable := True, global := True\<rparr>
     | PGPERM_KRX \<Rightarrow> pte\<lparr>executable := True, global := True\<rparr>
     | PGPERM_URO \<Rightarrow> pte\<lparr>user := True\<rparr>
     | PGPERM_URW \<Rightarrow> pte\<lparr>writable := True, user := True\<rparr>
     | PGPERM_URX \<Rightarrow> pte\<lparr>executable := True, user := True\<rparr>)"

definition set_memory :: "paging_state \<Rightarrow> pmem \<Rightarrow> paging_state" where
  "set_memory s m = s\<lparr>phys := (phys s)\<lparr>memory := m\<rparr>\<rparr>"

definition mm_paging_map ::
    "paging_state \<Rightarrow> uaddr \<Rightarrow> paddr \<Rightarrow> page_permissions \<Rightarrow> (bool \<times> paging_state) option" where
  "mm_paging_map s va pa perms = do {
     assert_that (is_aligned_uaddr va PAGE_BITS);
     assert_that (canonical va);
     ok \<leftarrow> is_aligned_paddr pa PAGE_BITS;
     assert_that ok;
     (r, s) \<leftarrow> mm_paging_walk s va True;
     case r of None \<Rightarrow> Some (False, s)
     | Some pte_addr \<Rightarrow> do {
         bs \<leftarrow> copy_from_physical (memory (phys s)) pte_addr 8;
         assert_that (\<not> valid (pte_of_bytes bs));
         m \<leftarrow> copy_to_physical (memory (phys s)) pte_addr (pte_bytes (leaf_pte pa perms));
         Some (True, set_memory s m)
       }
   }"

text \<open>
  The result is the returned flag and the value stored through \<^verbatim>\<open>pa\<close>; a caller that
  passes \<^verbatim>\<open>nullptr\<close> ignores the second.
\<close>

definition mm_paging_unmap ::
    "paging_state \<Rightarrow> uaddr \<Rightarrow> ((bool \<times> paddr) \<times> paging_state) option" where
  "mm_paging_unmap s va = do {
     assert_that (is_aligned_uaddr va PAGE_BITS);
     assert_that (canonical va);
     pa \<leftarrow> paddr_of_bits 0;
     (r, s) \<leftarrow> mm_paging_walk s va False;
     case r of None \<Rightarrow> Some ((False, pa), s)
     | Some pte_addr \<Rightarrow> do {
         bs \<leftarrow> copy_from_physical (memory (phys s)) pte_addr 8;
         let pte = pte_of_bytes bs;
         if \<not> valid pte then Some ((False, pa), s)
         else do {
           m \<leftarrow> copy_to_physical (memory (phys s)) pte_addr (pte_bytes pte_zero);
           Some ((True, pa\<lparr>ppn := pte_ppn pte\<rparr>), set_memory s m)
         }
       }
   }"

section \<open>Entries in memory\<close>

lemma pte_round_trip [simp]: "pte_of_raw (raw_of_pte p) = p"
proof -
  have r1: "ucast (drop_bit 8 (raw_of_pte p)) = rsvd1 p"
    by (rule bit_word_eqI) (auto simp: raw_of_pte_def bit_simps)
  have r2: "ucast (drop_bit 10 (raw_of_pte p)) = pte_ppn p"
  proof (rule bit_word_eqI)
    fix n assume "n < LENGTH(44)"
    then show "bit (ucast (drop_bit 10 (raw_of_pte p)) :: 44 word) n = bit (pte_ppn p) n"
      using bit_imp_le_length [of "rsvd1 p" "n + 2"]
      by (auto simp: raw_of_pte_def bit_simps)
  qed
  have r3: "ucast (drop_bit 54 (raw_of_pte p)) = rsvd0 p"
  proof (rule bit_word_eqI)
    fix n assume "n < LENGTH(10)"
    then show "bit (ucast (drop_bit 54 (raw_of_pte p)) :: 10 word) n = bit (rsvd0 p) n"
      using bit_imp_le_length [of "rsvd1 p" "46 + n"] bit_imp_le_length [of "pte_ppn p" "44 + n"]
      by (auto simp: raw_of_pte_def bit_simps)
  qed
  have b: "bit (raw_of_pte p) 0 = valid p" "bit (raw_of_pte p) 1 = readable p"
    "bit (raw_of_pte p) 2 = writable p" "bit (raw_of_pte p) 3 = executable p"
    "bit (raw_of_pte p) 4 = user p" "bit (raw_of_pte p) 5 = global p"
    "bit (raw_of_pte p) 6 = accessed p" "bit (raw_of_pte p) 7 = dirty p"
    by (auto simp: raw_of_pte_def bit_simps)
  show ?thesis by (rule pte.equality) (simp_all add: pte_of_raw_def r1 r2 r3 b del: One_nat_def)
qed

lemma pte_of_pte_bytes [simp]: "pte_of_bytes (pte_bytes p) = p"
  by (simp add: pte_of_bytes_def pte_bytes_def)

lemma length_pte_bytes [simp]: "length (pte_bytes p) = 8"
  by (simp add: pte_bytes_def)

section \<open>The mapping a memory holds\<close>

definition pte_at :: "pmem \<Rightarrow> nat \<Rightarrow> pte" where
  "pte_at m a = pte_of_bytes (read_bytes m a 8)"

text \<open>
  An entry of the root or of a middle table is a pointer to a table when it has no
  permission and none of the bits that are reserved in a pointer.  Any other valid entry
  there is a large page: the root of the kernel has 128 of them, the gigabyte pages of the
  window on physical memory that \<^verbatim>\<open>generate_bootstub.py\<close> makes.
\<close>

definition non_leaf :: "pte \<Rightarrow> bool" where
  "non_leaf p \<longleftrightarrow> \<not> readable p \<and> \<not> writable p \<and> \<not> executable p \<and>
     \<not> user p \<and> \<not> accessed p \<and> \<not> dirty p \<and> rsvd0 p = 0"

definition table_of :: "pte \<Rightarrow> nat option" where
  "table_of p = (if valid p \<and> non_leaf p then Some (4096 * unat (pte_ppn p)) else None)"

definition large_of :: "pte \<Rightarrow> pte option" where
  "large_of p = (if valid p \<and> \<not> non_leaf p then Some p else None)"

text \<open>The table below entry \<open>i\<close> of a table, the tables of the two lower levels, the leaves.\<close>

definition next_table :: "pmem \<Rightarrow> nat \<Rightarrow> nat \<rightharpoonup> nat" where
  "next_table m t i = (if i < 512 then table_of (pte_at m (t + 8 * i)) else None)"

definition low :: "pmem \<Rightarrow> nat \<Rightarrow> nat \<times> nat \<rightharpoonup> nat" where
  "low m r = (\<lambda>(i, j). Option.bind (next_table m r i) (\<lambda>a. next_table m a j))"

definition leaf :: "pmem \<Rightarrow> nat \<Rightarrow> nat \<times> nat \<times> nat \<rightharpoonup> pte" where
  "leaf m r = (\<lambda>(i, j, k). Option.bind (low m r (i, j)) (\<lambda>b.
     if k < 512 \<and> valid (pte_at m (b + 8 * k)) then Some (pte_at m (b + 8 * k)) else None))"

text \<open>The large page at an entry of a table, and those of the root (level 2) and of the middle tables (level 1).\<close>

definition big :: "pmem \<Rightarrow> nat \<Rightarrow> nat \<rightharpoonup> pte" where
  "big m t i = (if i < 512 then large_of (pte_at m (t + 8 * i)) else None)"

definition large_at :: "pmem \<Rightarrow> nat \<Rightarrow> nat \<times> nat \<rightharpoonup> nat \<times> pte" where
  "large_at m r = (\<lambda>(i, j). case big m r i of Some e \<Rightarrow> Some (2, e)
     | None \<Rightarrow> Option.bind (next_table m r i) (\<lambda>a. map_option (Pair 1) (big m a j)))"

definition tables :: "pmem \<Rightarrow> nat \<Rightarrow> nat set" where
  "tables m r = insert r (ran (next_table m r) \<union> ran (low m r))"

text \<open>The tables form a tree of distinct frames.\<close>

definition tables_ok :: "pmem \<Rightarrow> nat \<Rightarrow> bool" where
  "tables_ok m r \<longleftrightarrow>
     (\<forall>t \<in> tables m r. frame_ok t) \<and>
     inj_on (next_table m r) (dom (next_table m r)) \<and> inj_on (low m r) (dom (low m r)) \<and>
     r \<notin> ran (next_table m r) \<and> r \<notin> ran (low m r) \<and> ran (next_table m r) \<inter> ran (low m r) = {}"

definition empty_table :: "pmem \<Rightarrow> nat \<Rightarrow> bool" where
  "empty_table m t \<longleftrightarrow> (\<forall>i < 512. \<not> valid (pte_at m (t + 8 * i)))"

lemma next_table_bound: "next_table m t i = Some a \<Longrightarrow> i < 512"
  by (simp add: next_table_def split: if_splits)

lemma low_Some: "low m r (i, j) = Some b \<longleftrightarrow> (\<exists>a. next_table m r i = Some a \<and> next_table m a j = Some b)"
  by (auto simp: low_def bind_eq_Some)

lemma pte_at_cong:
  assumes "\<And>x. x \<in> pages {t} \<Longrightarrow> m' x = m x" "i < 512"
  shows "pte_at m' (t + 8 * i) = pte_at m (t + 8 * i)"
proof -
  have "read_bytes m' (t + 8 * i) 8 = read_bytes m (t + 8 * i) 8"
    using assms by (intro read_bytes_cong) (auto simp: pages_def)
  then show ?thesis by (simp add: pte_at_def)
qed

lemma next_table_cong:
  assumes "\<And>x. x \<in> pages {t} \<Longrightarrow> m' x = m x"
  shows "next_table m' t = next_table m t"
proof
  show "next_table m' t i = next_table m t i" for i
    using pte_at_cong [of t m' m i] assms by (simp add: next_table_def)
qed

lemma big_cong:
  assumes "\<And>x. x \<in> pages {t} \<Longrightarrow> m' x = m x"
  shows "big m' t = big m t"
proof
  show "big m' t i = big m t i" for i
    using pte_at_cong [of t m' m i] assms by (simp add: big_def)
qed

text \<open>Large pages depend on the root and the middle tables only.\<close>

lemma large_at_cong:
  assumes "big m' r = big m r" "next_table m' r = next_table m r"
    and "\<And>i a. next_table m r i = Some a \<Longrightarrow> big m' a = big m a"
  shows "large_at m' r = large_at m r"
  unfolding large_at_def assms(1,2)
  by (rule ext) (auto simp: assms(3) split: option.split Option.bind_split)

lemma large_at_None: "large_at m r (i, j) = None \<longleftrightarrow>
    big m r i = None \<and> (\<forall>a. next_table m r i = Some a \<longrightarrow> big m a j = None)"
  by (auto simp: large_at_def split: option.split Option.bind_split)

lemma absent_entry:
  "i < 512 \<Longrightarrow> next_table m t i = None \<Longrightarrow> big m t i = None \<Longrightarrow> \<not> valid (pte_at m (t + 8 * i))"
  by (auto simp: next_table_def big_def table_of_def large_of_def split: if_splits)

lemma invalid_entry:
  "\<not> valid (pte_at m (t + 8 * i)) \<Longrightarrow> next_table m t i = None \<and> big m t i = None"
  by (simp add: next_table_def big_def table_of_def large_of_def)

lemma table_in: "next_table m r i = Some a \<Longrightarrow> a \<in> tables m r" "low m r ij = Some b \<Longrightarrow> b \<in> tables m r"
  "r \<in> tables m r"
  by (auto simp: tables_def intro: ranI)

lemma tables_okD:
  assumes "tables_ok m r"
  shows "frame_ok r"
    "next_table m r i = Some a \<Longrightarrow> frame_ok a" "next_table m r i = Some a \<Longrightarrow> a \<noteq> r"
    "low m r ij = Some b \<Longrightarrow> frame_ok b" "low m r ij = Some b \<Longrightarrow> b \<noteq> r"
    "next_table m r i = Some a \<Longrightarrow> low m r ij = Some b \<Longrightarrow> a \<noteq> b"
    "next_table m r i = Some a \<Longrightarrow> next_table m r i' = Some a \<Longrightarrow> i = i'"
    "low m r ij = Some b \<Longrightarrow> low m r ij' = Some b \<Longrightarrow> ij = ij'"
proof -
  show "frame_ok r" "next_table m r i = Some a \<Longrightarrow> frame_ok a" "low m r ij = Some b \<Longrightarrow> frame_ok b"
    using assms table_in by (auto simp: tables_ok_def)
  show "next_table m r i = Some a \<Longrightarrow> a \<noteq> r" "low m r ij = Some b \<Longrightarrow> b \<noteq> r"
    using assms unfolding tables_ok_def ran_def by blast+
  show "next_table m r i = Some a \<Longrightarrow> low m r ij = Some b \<Longrightarrow> a \<noteq> b"
    using assms unfolding tables_ok_def ran_def by blast
  show "next_table m r i = Some a \<Longrightarrow> next_table m r i' = Some a \<Longrightarrow> i = i'"
    "low m r ij = Some b \<Longrightarrow> low m r ij' = Some b \<Longrightarrow> ij = ij'"
    using assms unfolding tables_ok_def by (metis domI inj_onD)+
qed

text \<open>A change of memory outside the tables changes nothing here.\<close>

lemma outside_tables:
  assumes "\<And>x. x \<in> pages (tables m r) \<Longrightarrow> m' x = m x"
  shows "next_table m' r = next_table m r" "low m' r = low m r" "leaf m' r = leaf m r"
    "tables m' r = tables m r" "tables_ok m r \<Longrightarrow> tables_ok m' r" "large_at m' r = large_at m r"
proof -
  have same: "x \<in> pages {t} \<Longrightarrow> m' x = m x" if "t \<in> tables m r" for t x
    using assms that by (auto simp: pages_def)
  show n: "next_table m' r = next_table m r" using same [OF table_in(3)] by (rule next_table_cong)
  have a: "next_table m' a = next_table m a" if "next_table m r i = Some a" for i a
    using same [OF table_in(1) [OF that]] by (rule next_table_cong)
  show l: "low m' r = low m r"
    unfolding low_def n by (rule ext) (auto simp: a split: Option.bind_split)
  have "pte_at m' (b + 8 * k) = pte_at m (b + 8 * k)" if "low m r ij = Some b" "k < 512" for ij b k
    using same [OF table_in(2) [OF that(1)]] that(2) by (rule pte_at_cong)
  then show "leaf m' r = leaf m r"
    unfolding leaf_def l by (intro ext) (auto split: Option.bind_split)
  show t: "tables m' r = tables m r" by (simp add: tables_def n l)
  show "tables_ok m r \<Longrightarrow> tables_ok m' r"
    unfolding tables_ok_def t n l by simp
  show "large_at m' r = large_at m r"
    by (intro large_at_cong big_cong n) (use same table_in in blast)+
qed

section \<open>Writing an entry\<close>

definition put_pte :: "pmem \<Rightarrow> nat \<Rightarrow> nat \<Rightarrow> pte \<Rightarrow> pmem" where
  "put_pte m t i p = write_bytes m (t + 8 * i) (pte_bytes p)"

lemma entry_disjoint:
  assumes "frame_ok t" "frame_ok u" "i < 512" "j < 512" "t \<noteq> u \<or> i \<noteq> j"
  shows "u + 8 * j + 8 \<le> t + 8 * i \<or> t + 8 * i + 8 \<le> u + 8 * j"
proof (cases "t = u")
  case True
  then show ?thesis using assms(5) by linarith
next
  case False
  then have "t + 4096 \<le> u \<or> u + 4096 \<le> t"
    using assms(1,2) by (intro page_disjoint) (auto simp: frame_ok_def)
  then show ?thesis using assms(3,4) by linarith
qed

lemma pte_at_put:
  assumes "frame_ok t" "frame_ok u" "i < 512" "j < 512"
  shows "pte_at (put_pte m t i p) (u + 8 * j) = (if t = u \<and> i = j then p else pte_at m (u + 8 * j))"
proof (cases "t = u \<and> i = j")
  case True
  then show ?thesis by (simp add: pte_at_def put_pte_def)
next
  case False
  then have "u + 8 * j + 8 \<le> t + 8 * i \<or> t + 8 * i + length (pte_bytes p) \<le> u + 8 * j"
    using entry_disjoint [OF assms] by auto
  then show ?thesis using False
    by (auto simp: pte_at_def put_pte_def read_write_disjoint)
qed

lemma next_table_put:
  assumes "frame_ok t" "frame_ok u" "i < 512"
  shows "next_table (put_pte m t i p) u = (if t = u then (next_table m u)(i := table_of p) else next_table m u)"
  using assms by (auto simp: next_table_def pte_at_put)

lemma big_put:
  assumes "frame_ok t" "frame_ok u" "i < 512"
  shows "big (put_pte m t i p) u = (if t = u then (big m u)(i := large_of p) else big m u)"
  using assms by (auto simp: big_def pte_at_put)

lemma put_outside:
  assumes "i < 512" "x \<notin> pages {t}"
  shows "put_pte m t i p x = m x"
  unfolding put_pte_def by (rule write_bytes_outside) (use assms in \<open>auto simp: pages_def\<close>)

text \<open>An entry of the last level: the mapping changes at one place.\<close>

lemma put_leaf:
  fixes p :: pte
  assumes ok: "tables_ok m r" and b: "low m r (i, j) = Some b" and k: "k < 512"
  defines "m' \<equiv> put_pte m b k p"
  shows "next_table m' r = next_table m r" "low m' r = low m r" "tables m' r = tables m r"
    "leaf m' r = (leaf m r)((i, j, k) := if valid p then Some p else None)" "tables_ok m' r"
    "large_at m' r = large_at m r"
proof -
  note okD = tables_okD [OF ok]
  have f: "frame_ok r" "frame_ok b" using okD(1,4) b by auto
  have fa: "frame_ok a" "a \<noteq> b" if "next_table m r x = Some a" for x a
    using okD(2,6) b that by blast+
  have "b \<noteq> r" using okD(5) b by blast
  then show n: "next_table m' r = next_table m r"
    using f k by (simp add: m'_def next_table_put)
  have a: "next_table m' a = next_table m a" if "next_table m r x = Some a" for x a
    using fa [OF that] f k by (simp add: m'_def next_table_put)
  show l: "low m' r = low m r"
    unfolding low_def n by (rule ext) (auto simp: a split: Option.bind_split)
  show t: "tables m' r = tables m r" by (simp add: tables_def n l)
  have leafs: "pte_at m' (c + 8 * y) = (if c = b \<and> y = k then p else pte_at m (c + 8 * y))"
    if "low m r x = Some c" "y < 512" for x c y
  proof -
    have "frame_ok c" using okD(4) that(1) by blast
    then show ?thesis using f(2) k that(2) by (auto simp: m'_def pte_at_put)
  qed
  have inj: "x = (i, j)" if "low m r x = Some b" for x
    using okD(8) b that by blast
  show "leaf m' r = (leaf m r)((i, j, k) := if valid p then Some p else None)"
  proof (rule ext, clarify)
    fix x y z
    show "leaf m' r (x, y, z) = ((leaf m r)((i, j, k) := if valid p then Some p else None)) (x, y, z)"
      using leafs [of "(x, y)" _ z] inj [of "(x, y)"] b k
      by (cases "low m r (x, y)") (auto simp: leaf_def l)
  qed
  show "tables_ok m' r" using ok unfolding tables_ok_def t n l by simp
  show "large_at m' r = large_at m r"
    using \<open>b \<noteq> r\<close> f k fa by (intro large_at_cong n) (auto simp: m'_def big_put)
qed

lemma table_not_large: "table_of p = Some n \<Longrightarrow> large_of p = None"
  by (simp add: table_of_def large_of_def split: if_splits)

text \<open>A new last-level table, still empty, under an entry of the middle level.\<close>

lemma link_low:
  fixes p :: pte
  assumes ok: "tables_ok m r" and a: "next_table m r i = Some a" and j': "j < 512" "\<not> valid (pte_at m (a + 8 * j))"
    and n: "frame_ok n" "n \<notin> tables m r" "empty_table m n" and p: "table_of p = Some n"
  defines "m' \<equiv> put_pte m a j p"
  shows "next_table m' r = next_table m r" "low m' r = (low m r)((i, j) \<mapsto> n)"
    "tables m' r = insert n (tables m r)" "leaf m' r = leaf m r" "tables_ok m' r"
    "large_at m' r = large_at m r"
proof -
  note j = j'(1) invalid_entry [OF j'(2), THEN conjunct1] and jb = invalid_entry [OF j'(2), THEN conjunct2]
  note okD = tables_okD [OF ok]
  have f: "frame_ok r" "frame_ok a" "a \<noteq> r" using okD(1-3) a by auto
  have pt: "pte_at m' (t + 8 * y) = (if a = t \<and> j = y then p else pte_at m (t + 8 * y))"
    if "frame_ok t" "y < 512" for t y
    using f j that by (simp add: m'_def pte_at_put)
  show nt: "next_table m' r = next_table m r"
    using f j by (simp add: m'_def next_table_put)
  have na: "next_table m' b = (if a = b then (next_table m b)(j \<mapsto> n) else next_table m b)"
    if "next_table m r x = Some b" for x b
    using okD(2) [OF that] f j p by (simp add: m'_def next_table_put)
  have free: "low m r (i, j) = None" using a j by (simp add: low_def)
  show l: "low m' r = (low m r)((i, j) \<mapsto> n)"
  proof (rule ext, clarify)
    fix x y
    show "low m' r (x, y) = ((low m r)((i, j) \<mapsto> n)) (x, y)"
      using okD(7) [OF a, of x] a na [of x]
      by (cases "next_table m r x") (auto simp: low_def nt)
  qed
  show t: "tables m' r = insert n (tables m r)" by (simp add: tables_def nt l ran_map_upd [of "low m r", OF free] insert_commute)
  show "leaf m' r = leaf m r"
  proof (rule ext, clarify)
    fix x y z
    show "leaf m' r (x, y, z) = leaf m r (x, y, z)"
    proof (cases "(x, y) = (i, j)")
      case True
      have "a \<noteq> n" using n(2) a table_in(1) by blast
      then show ?thesis using True free n(3) pt [OF n(1)] by (auto simp: leaf_def l empty_table_def)
    next
      case False
      have "low m r (x, y) = Some b \<Longrightarrow> z < 512 \<Longrightarrow> pte_at m' (b + 8 * z) = pte_at m (b + 8 * z)" for b
        using okD(4) okD(6) [OF a] pt by auto
      then show ?thesis using False by (cases "low m r (x, y)") (auto simp: leaf_def l)
    qed
  qed
  have nn: "n \<notin> ran (next_table m r)" "n \<noteq> r" "n \<notin> ran (low m r)" using n(2) by (auto simp: tables_def)
  have inj: "inj_on (low m' r) (dom (low m' r))"
    unfolding l inj_on_def using nn(3) okD(8) by (auto simp: ran_def dest!: sym [of "Some n"])
  show "large_at m' r = large_at m r"
    using f j jb p okD(2) by (intro large_at_cong nt) (auto simp: m'_def big_put table_not_large)
  show "tables_ok m' r"
    using ok inj nn n(1) unfolding tables_ok_def t nt l ran_map_upd [of "low m r", OF free] by auto
qed

text \<open>A new middle table, still empty, under an entry of the root.\<close>

lemma link_mid:
  fixes p :: pte
  assumes ok: "tables_ok m r" and i': "i < 512" "\<not> valid (pte_at m (r + 8 * i))"
    and n: "frame_ok n" "n \<notin> tables m r" "empty_table m n" and p: "table_of p = Some n"
  defines "m' \<equiv> put_pte m r i p"
  shows "next_table m' r = (next_table m r)(i \<mapsto> n)" "low m' r = low m r"
    "tables m' r = insert n (tables m r)" "leaf m' r = leaf m r" "tables_ok m' r"
    "next_table m' n = Map.empty" "large_at m' r = large_at m r"
proof -
  note i = i'(1) invalid_entry [OF i'(2), THEN conjunct1] and ib = invalid_entry [OF i'(2), THEN conjunct2]
  note okD = tables_okD [OF ok]
  have nr: "r \<noteq> n" using n(2) table_in(3) by blast
  have pt: "pte_at m' (t + 8 * y) = (if r = t \<and> i = y then p else pte_at m (t + 8 * y))"
    if "frame_ok t" "y < 512" for t y
    using okD(1) i that by (simp add: m'_def pte_at_put)
  show nt: "next_table m' r = (next_table m r)(i \<mapsto> n)"
    using okD(1) i p by (simp add: m'_def next_table_put)
  show nn: "next_table m' n = Map.empty"
    using okD(1) i n(1,3) nr by (auto simp: m'_def next_table_put empty_table_def next_table_def table_of_def)
  have na: "next_table m' b = next_table m b" if "next_table m r x = Some b" for x b
    using okD(2,3) [OF that] okD(1) i by (simp add: m'_def next_table_put)
  show l: "low m' r = low m r"
  proof (rule ext, clarify)
    fix x y
    show "low m' r (x, y) = low m r (x, y)"
      using i(2) nn na [of x] by (cases "next_table m r x") (auto simp: low_def nt)
  qed
  show t: "tables m' r = insert n (tables m r)"
    by (simp add: tables_def nt l ran_map_upd [of "next_table m r", OF i(2)] insert_commute)
  show "leaf m' r = leaf m r"
  proof (rule ext, clarify)
    fix x y z
    have "low m r (x, y) = Some b \<Longrightarrow> z < 512 \<Longrightarrow> pte_at m' (b + 8 * z) = pte_at m (b + 8 * z)" for b
      using okD(4) [of "(x, y)"] okD(5) [of "(x, y)"] pt [of b z] by auto
    then show "leaf m' r (x, y, z) = leaf m r (x, y, z)"
      by (cases "low m r (x, y)") (auto simp: leaf_def l)
  qed
  have nn': "n \<notin> ran (next_table m r)" "n \<notin> ran (low m r)" using n(2) by (auto simp: tables_def)
  have inj: "inj_on (next_table m' r) (dom (next_table m' r))"
    unfolding nt inj_on_def using nn'(1) okD(7) by (auto simp: ran_def dest!: sym [of "Some n"])
  have br: "big m' r = big m r"
    using okD(1) i(1) ib p by (simp add: m'_def big_put table_not_large fun_upd_idem)
  have bn: "big m' n = Map.empty"
    using okD(1) i n(1,3) nr by (auto simp: m'_def big_put empty_table_def big_def large_of_def)
  have ba: "big m' b = big m b" if "next_table m r x = Some b" for x b
    using okD(2,3) [OF that] okD(1) i by (simp add: m'_def big_put)
  show "large_at m' r = large_at m r"
  proof (rule ext, clarify)
    fix x y
    show "large_at m' r (x, y) = large_at m r (x, y)"
      using i(2) bn ba [of x] by (cases "next_table m r x") (auto simp: large_at_def br nt split: option.split)
  qed
  show "tables_ok m' r"
    using ok inj nn' nr n(1) unfolding tables_ok_def t l
    by (auto simp: nt ran_map_upd [of "next_table m r", OF i(2)])
qed


section \<open>One step of the walk\<close>

lemma phys_inv_write:
  assumes "phys_inv s F" "\<And>x. x \<in> pages F \<Longrightarrow> m x = memory s x"
  shows "phys_inv (s\<lparr>memory := m\<rparr>) F"
proof -
  obtain cs where cs: "phys_rel s cs" "F = set (all_frames cs)" using assms(1) by (auto simp: phys_inv_def)
  have "free_list m (cs w)" for w
  proof (rule free_list_write)
    show "free_list (memory s) (cs w)" using cs(1) by (simp add: phys_rel_def)
    have "set (frames (cs w)) \<subseteq> F" using cs(2) all_frames_upd(2) [of cs w] by simp
    then show "m i = memory s i" if "i \<in> pages (set (frames (cs w)))" for i
      using that assms(2) [of i] by (auto simp: pages_def)
  qed
  then show ?thesis using cs unfolding phys_inv_def phys_rel_def by (intro exI [of _ cs]) auto
qed

lemma page_not_in: "frame_ok t \<Longrightarrow> t \<notin> F \<Longrightarrow> \<forall>f \<in> F. frame_ok f \<Longrightarrow> pages {t} \<inter> pages F = {}"
proof -
  assume t: "frame_ok t" "t \<notin> F" "\<forall>f \<in> F. frame_ok f"
  have "t + 4096 \<le> f \<or> f + 4096 \<le> t" if "f \<in> F" for f
    using t that by (intro page_disjoint) (auto simp: frame_ok_def)
  then show ?thesis by (fastforce simp: pages_def)
qed

lemma zero_ppn [simp]: "zero_paddr\<lparr>ppn := p\<rparr> = paddr_at (4096 * unat p)"
proof -
  have u: "unat p < 17592186044416"
    using unsigned_less [of p, where 'a = nat] by simp
  then have n: "unat (of_nat (4096 * unat p) :: u64) = 4096 * unat p"
    using u by (intro unat_of_nat_small) simp
  have w: "(of_nat (4096 * unat p) :: u64) = push_bit 12 (ucast p)"
  proof -
    have "unat (push_bit 12 (ucast p :: u64)) = 4096 * unat p"
      using u
      by (simp add: unsigned_push_bit_eq unsigned_ucast_eq push_bit_eq_mult [where 'a = nat] take_bit_nat_eq_self mult.commute)
    then show ?thesis using n by (simp add: word_unat_eq_iff)
  qed
  have "ucast (push_bit 12 (ucast p :: u64)) = (0 :: 12 word)"
    by (rule bit_word_eqI) (auto simp: bit_simps)
  moreover have "ucast (drop_bit 12 (push_bit 12 (ucast p :: u64))) = p"
    by (rule bit_word_eqI) (auto simp: bit_simps)
  moreover have "ucast (drop_bit 56 (push_bit 12 (ucast p :: u64))) = (0 :: 8 word)"
    by (rule bit_word_eqI) (auto simp: bit_simps dest: bit_imp_le_length)
  ultimately show ?thesis
    unfolding paddr_at_def w zero_paddr_def paddr_of_raw_def by simp
qed

lemma ppn_frame:
  assumes "frame_ok n"
  shows "table_of (pte_zero\<lparr>valid := True, pte_ppn := ppn (paddr_at n)\<rparr>) = Some n"
proof -
  have n: "n < 2 ^ 56" "4096 dvd n" using assms by (auto simp: frame_ok_def window_def)
  have "unat (ppn (paddr_at n)) = n div 4096"
    using n(1) by (simp add: paddr_at_def paddr_of_raw_def unsigned_ucast_eq unsigned_drop_bit_eq
        drop_bit_eq_div [where 'a = nat] take_bit_nat_eq_self less_mult_imp_div_less)
  then show ?thesis using n(2) by (simp add: table_of_def non_leaf_def pte_zero_def)
qed

lemma zeroed_table:
  assumes "\<And>x. x \<in> pages {n} \<Longrightarrow> m x = 0"
  shows "empty_table m n"
proof -
  have "read_bytes m (n + 8 * i) 8 = replicate 8 0" if "i < 512" for i
    using assms that by (intro nth_equalityI) (auto simp: pages_def)
  then have "pte_at m (n + 8 * i) = pte_zero" if "i < 512" for i
    using that by (simp add: pte_at_def) code_simp
  then show ?thesis by (simp add: empty_table_def pte_zero_def)
qed

text \<open>The addresses a step computes are those of the entries of its table.\<close>

lemma entry_addr:
  assumes "frame_ok t" "unat v < 512"
  shows "paddr_offset (paddr_at t) (v * 8) = Some (paddr_at (t + 8 * unat v))"
    "copy_from_physical m (paddr_at (t + 8 * unat v)) 8 = Some (read_bytes m (t + 8 * unat v) 8)"
    "copy_to_physical m (paddr_at (t + 8 * unat v)) (pte_bytes p) = Some (put_pte m t (unat v) p)"
proof -
  have t: "t + 8 * unat v + 8 \<le> window" "t < 2 ^ 56" "t + 8 * unat v < 2 ^ 56"
    using assms by (auto simp: frame_ok_def window_def)
  have "unat (v * 8) = 8 * unat v" using assms(2) by (simp add: unat_word_ariths take_bit_nat_eq_self)
  then show "paddr_offset (paddr_at t) (v * 8) = Some (paddr_at (t + 8 * unat v))"
    using t by (simp add: paddr_offset_at)
  show "copy_from_physical m (paddr_at (t + 8 * unat v)) 8 = Some (read_bytes m (t + 8 * unat v) 8)"
    using t by (simp add: copy_from_physical_at)
  show "copy_to_physical m (paddr_at (t + 8 * unat v)) (pte_bytes p) = Some (put_pte m t (unat v) p)"
    using t by (simp add: copy_to_physical_at put_pte_def)
qed

lemma walk_step_present:
  assumes "frame_ok t" "next_table (memory s) t (unat v) = Some a" 
  shows "walk_step s (paddr_at t) v alloc = Some (Some (paddr_at a), s)"
proof -
  have "unat v < 512" using next_table_bound assms(2) by blast
  with assms show ?thesis
    by (simp add: walk_step_def entry_addr next_table_def table_of_def pte_at_def split: if_splits)
qed

lemma walk_step_absent:
  assumes "frame_ok t" "unat v < 512" "\<not> valid (pte_at (memory s) (t + 8 * unat v))"
  shows "walk_step s (paddr_at t) v False = Some (None, s)"
  using assms by (simp add: walk_step_def entry_addr pte_at_def)

text \<open>
  The code does not ask whether a valid entry is a leaf: below a large page it takes the
  frame of the page for a table.
\<close>

lemma walk_step_large:
  assumes "frame_ok t" "big (memory s) t (unat v) = Some e"
  shows "walk_step s (paddr_at t) v alloc = Some (Some (paddr_at (4096 * unat (pte_ppn e))), s)"
proof -
  have "unat v < 512" using assms(2) by (simp add: big_def split: if_splits)
  with assms show ?thesis
    by (simp add: walk_step_def entry_addr big_def large_of_def pte_at_def split: if_splits)
qed

lemma walk_step_alloc:
  assumes t: "frame_ok t" "t \<notin> F" and v: "unat v < 512" "\<not> valid (pte_at (memory s) (t + 8 * unat v))"
    and inv: "phys_inv s F"
  obtains (exhausted) "F = {}" "walk_step s (paddr_at t) v True = Some (None, s)"
  | (linked) n s' m p where "n \<in> F" "walk_step s (paddr_at t) v True = Some (Some (paddr_at n), s')"
      "phys_inv s' (F - {n})" "memory s' = put_pte m t (unat v) p" "empty_table m n"
      "\<And>x. x \<notin> pages F \<Longrightarrow> m x = memory s x" "table_of p = Some n"
proof -
  have el: "eligible PHYSICAL_ALLOC_DEFAULT f" for f by (simp add: eligible_def PHYSICAL_ALLOC_DEFAULT_def)
  have pt: "\<not> valid (pte_of_bytes (read_bytes (memory s) (t + 8 * unat v) 8))"
    using v by (simp add: pte_at_def)
  from frames.alloc_law [OF inv, of PHYSICAL_ALLOC_DEFAULT] show thesis
  proof (elim disjE conjE exE)
    fix out assume none: "\<forall>f \<in> F. \<not> eligible PHYSICAL_ALLOC_DEFAULT f"
      and "mm_alloc_physical s PHYSICAL_ALLOC_DEFAULT = Some ((False, out), s)"
    then have "walk_step s (paddr_at t) v True = Some (None, s)"
      using t v pt by (simp add: walk_step_def entry_addr)
    moreover have "F = {}" using none el by auto
    ultimately show thesis using exhausted by blast
  next
    fix n s1 assume al: "mm_alloc_physical s PHYSICAL_ALLOC_DEFAULT = Some ((True, paddr_at n), s1)"
      and n: "n \<in> F" and inv1: "phys_inv s1 (F - {n})"
      and same: "\<forall>x. x \<notin> pages (F - {n}) \<longrightarrow> memory s1 x = memory s x"
    have ok: "frame_ok n" "\<forall>f \<in> F. frame_ok f" using frames.frames_law [OF inv] n by auto
    define m where "m = write_bytes (memory s1) n (replicate 4096 0)"
    define p where "p = pte_zero\<lparr>valid := True, pte_ppn := ppn (paddr_at n)\<rparr>"
    have bz: "bzero_physical (memory s1) (paddr_at n) 4096 = Some m"
      using ok(1) by (simp add: bzero_physical_at m_def frame_ok_def window_def)
    have outside: "m x = memory s x" if "x \<notin> pages F" for x
      using that n same by (auto simp: m_def write_bytes_def pages_def)
    have run: "walk_step s (paddr_at t) v True =
        Some (Some (paddr_at n), s1\<lparr>memory := put_pte m t (unat v) p\<rparr>)"
      using t v pt al bz by (simp add: walk_step_def entry_addr p_def)
    have d: "pages {t} \<inter> pages (F - {n}) = {}" "pages {n} \<inter> pages (F - {n}) = {}"
      using t ok by (intro page_not_in; simp)+
    have "phys_inv (s1\<lparr>memory := put_pte m t (unat v) p\<rparr>) (F - {n})"
    proof (rule phys_inv_write [OF inv1])
      fix x assume "x \<in> pages (F - {n})"
      then have "x \<notin> pages {t}" "x \<notin> pages {n}" using d by auto
      then show "put_pte m t (unat v) p x = memory s1 x"
        using v(1) by (auto simp: put_outside m_def write_bytes_def pages_def)
    qed
    moreover have "empty_table m n"
      by (rule zeroed_table) (auto simp: m_def write_bytes_def pages_def)
    moreover have "table_of p = Some n" unfolding p_def by (rule ppn_frame [OF ok(1)])
    ultimately show thesis using linked [OF n run] outside by simp
  qed
qed

section \<open>The invariant of the mapping\<close>

text \<open>
  \<open>paging_inv s F\<close>: Sv39 is on, \<open>F\<close> are the free frames of the allocator, and SATP
  points to a well-formed tree of tables outside \<open>F\<close>.
\<close>

definition root :: "paging_state \<Rightarrow> nat" where
  "root s = 4096 * unat (satp_ppn (satp_read s))"

definition mem_of :: "paging_state \<Rightarrow> pmem" where
  "mem_of s = memory (phys s)"

definition mapping :: "paging_state \<Rightarrow> nat \<times> nat \<times> nat \<rightharpoonup> pte" where
  "mapping s = leaf (mem_of s) (root s)"

definition large :: "paging_state \<Rightarrow> nat \<times> nat \<rightharpoonup> nat \<times> pte" where
  "large s = large_at (mem_of s) (root s)"

definition table_frames :: "paging_state \<Rightarrow> nat set" where
  "table_frames s = tables (mem_of s) (root s)"

definition paging_inv :: "paging_state \<Rightarrow> nat set \<Rightarrow> bool" where
  "paging_inv s F \<longleftrightarrow> mode (satp_read s) = SATP_MODE_SV39 \<and> phys_inv (phys s) F \<and>
     tables_ok (mem_of s) (root s) \<and> table_frames s \<inter> F = {}"

definition vpn :: "nat \<Rightarrow> uaddr \<Rightarrow> nat" where
  "vpn level va = unat (drop_bit (12 + 9 * level) va AND 0x1ff)"

text \<open>The address lies in no large page.\<close>

definition small_page :: "paging_state \<Rightarrow> uaddr \<Rightarrow> bool" where
  "small_page s va \<longleftrightarrow> large s (vpn 2 va, vpn 1 va) = None"

definition indices :: "uaddr \<Rightarrow> nat \<times> nat \<times> nat" where
  "indices va = (vpn 2 va, vpn 1 va, vpn 0 va)"

text \<open>A later state with the same mapping, whose tables grew out of the free frames only.\<close>

definition grown :: "paging_state \<Rightarrow> nat set \<Rightarrow> paging_state \<Rightarrow> nat set \<Rightarrow> bool" where
  "grown s F s' F' \<longleftrightarrow> paging_inv s' F' \<and> satp_csr s' = satp_csr s \<and> mapping s' = mapping s \<and>
     large s' = large s \<and> F' \<subseteq> F \<and> F' \<union> table_frames s' = F \<union> table_frames s"

lemma grown_refl: "paging_inv s F \<Longrightarrow> grown s F s F"
  by (simp add: grown_def)

lemma grown_trans: "grown s F s1 F1 \<Longrightarrow> grown s1 F1 s2 F2 \<Longrightarrow> grown s F s2 F2"
  by (auto simp: grown_def)

lemma root_cong: "satp_csr s' = satp_csr s \<Longrightarrow> root s' = root s \<and> satp_read s' = satp_read s"
  by (simp add: root_def satp_read_def)

lemma index_bound: "unat ((w :: u64) AND 0x1ff) < 512"
proof -
  have "w AND 0x1ff = take_bit 9 w" by (simp add: take_bit_eq_mask mask_eq_exp_minus_1)
  then show ?thesis by (simp add: unsigned_take_bit_eq take_bit_nat_less_exp [where n = 9, simplified])
qed

lemma vpn_bound: "vpn l va < 512"
  by (simp add: vpn_def index_bound)

text \<open>The common case of a state whose allocator part changes.\<close>

lemma grown_phys:
  assumes inv: "paging_inv s F" and p: "phys_inv p (F - {n})" and n: "n \<in> F"
    and t: "tables_ok (memory p) (root s)" "leaf (memory p) (root s) = mapping s"
      "tables (memory p) (root s) = insert n (table_frames s)" "large_at (memory p) (root s) = large s"
  shows "grown s F (s\<lparr>phys := p\<rparr>) (F - {n})"
proof -
  have r: "root (s\<lparr>phys := p\<rparr>) = root s" "satp_read (s\<lparr>phys := p\<rparr>) = satp_read s"
    using root_cong [of "s\<lparr>phys := p\<rparr>" s] by simp_all
  show ?thesis
    using assms by (auto simp: grown_def paging_inv_def r mapping_def large_def table_frames_def mem_of_def)
qed

lemma paging_inv_tables:
  assumes "paging_inv s F"
  shows "tables_ok (mem_of s) (root s)" "phys_inv (phys s) F" "frame_ok (root s)"
    "t \<in> table_frames s \<Longrightarrow> frame_ok t" "t \<in> table_frames s \<Longrightarrow> t \<notin> F" "f \<in> F \<Longrightarrow> frame_ok f"
proof -
  show ok: "tables_ok (mem_of s) (root s)" "phys_inv (phys s) F" using assms by (simp_all add: paging_inv_def)
  show "frame_ok (root s)" using ok(1) by (rule tables_okD(1))
  show "t \<in> table_frames s \<Longrightarrow> frame_ok t" using ok(1) by (auto simp: tables_ok_def table_frames_def)
  show "t \<in> table_frames s \<Longrightarrow> t \<notin> F" using assms by (auto simp: paging_inv_def)
  show "f \<in> F \<Longrightarrow> frame_ok f" using frames.frames_law [OF ok(2)] by blast
qed

text \<open>A memory that differs from the state's in free frames only holds the same tables.\<close>

lemma fresh_memory:
  assumes inv: "paging_inv s F" and n: "n \<in> F" and out: "\<forall>x. x \<notin> pages F \<longrightarrow> m x = mem_of s x"
  shows "next_table m (root s) = next_table (mem_of s) (root s)" "low m (root s) = low (mem_of s) (root s)"
    "leaf m (root s) = mapping s" "tables m (root s) = table_frames s" "tables_ok m (root s)"
    "n \<notin> tables m (root s)" "frame_ok n"
    "t \<in> table_frames s \<Longrightarrow> next_table m t = next_table (mem_of s) t"
    "t \<in> table_frames s \<Longrightarrow> i < 512 \<Longrightarrow> pte_at m (t + 8 * i) = pte_at (mem_of s) (t + 8 * i)"
    "large_at m (root s) = large s"
proof -
  note invD = paging_inv_tables [OF inv]
  have pg: "m x = mem_of s x" if "t \<in> table_frames s" "x \<in> pages {t}" for t x
    using page_not_in [of t F] invD(4-6) that by (intro out [rule_format]) blast
  have same: "m x = mem_of s x" if "x \<in> pages (tables (mem_of s) (root s))" for x
    using that pg by (auto simp: pages_def table_frames_def)
  note o = outside_tables [of "mem_of s" "root s" m, OF same]
  show "next_table m (root s) = next_table (mem_of s) (root s)" "low m (root s) = low (mem_of s) (root s)"
    "leaf m (root s) = mapping s" "tables_ok m (root s)" "frame_ok n"
    using o invD(1,6) n by (simp_all add: mapping_def)
  show "large_at m (root s) = large s" using o by (simp add: large_def)
  show "t \<in> table_frames s \<Longrightarrow> i < 512 \<Longrightarrow> pte_at m (t + 8 * i) = pte_at (mem_of s) (t + 8 * i)"
    using pg by (intro pte_at_cong)
  show t: "tables m (root s) = table_frames s" using o by (simp add: table_frames_def)
  show "n \<notin> tables m (root s)" using invD(5) n t by auto
  show "t \<in> table_frames s \<Longrightarrow> next_table m t = next_table (mem_of s) t"
    using pg by (intro next_table_cong)
qed

lemma step_mid:
  assumes inv: "paging_inv s F" and v: "unat v < 512" and nb: "big (mem_of s) (root s) (unat v) = None"
  obtains (exhausted) "F = {}" "walk_step (phys s) (paddr_at (root s)) v True = Some (None, phys s)"
  | (found) a p F' where "walk_step (phys s) (paddr_at (root s)) v True = Some (Some (paddr_at a), p)"
      "grown s F (s\<lparr>phys := p\<rparr>) F'" "next_table (memory p) (root s) (unat v) = Some a" "F - {a} \<subseteq> F'"
proof (cases "next_table (mem_of s) (root s) (unat v)")
  case (Some a)
  from walk_step_present [OF paging_inv_tables(3) [OF inv]] Some show thesis
    using found [of a "phys s" F] grown_refl [OF inv] by (simp add: mem_of_def)
next
  case None
  note invD = paging_inv_tables [OF inv]
  have r: "root s \<notin> F" "root s \<in> table_frames s" using invD(5) table_in(3) by (auto simp: table_frames_def)
  note absent = absent_entry [OF v None nb]
  show thesis
  proof (rule walk_step_alloc [OF invD(3) r(1) v _ invD(2)])
    show "\<not> valid (pte_at (memory (phys s)) (root s + 8 * unat v))" using absent by (simp add: mem_of_def)
  next
    assume "F = {}" "walk_step (phys s) (paddr_at (root s)) v True = Some (None, phys s)"
    then show thesis by (rule exhausted)
  next
    fix n p m q
    assume n: "n \<in> F" and run: "walk_step (phys s) (paddr_at (root s)) v True = Some (Some (paddr_at n), p)"
      and p: "phys_inv p (F - {n})" "memory p = put_pte m (root s) (unat v) q"
      and e: "empty_table m n" and out: "\<And>x. x \<notin> pages F \<Longrightarrow> m x = memory (phys s) x"
      and q: "table_of q = Some n"
    have "\<forall>x. x \<notin> pages F \<longrightarrow> m x = mem_of s x" using out by (simp add: mem_of_def)
    note o = fresh_memory [OF inv n this]
    have none: "\<not> valid (pte_at m (root s + 8 * unat v))" using absent by (simp add: o(9) [OF r(2) v])
    note l = link_mid [OF o(5) v none o(7,6) e q]
    have "grown s F (s\<lparr>phys := p\<rparr>) (F - {n})"
      using l by (intro grown_phys [OF inv p(1) n]) (simp_all add: p(2) o)
    then show thesis using found [OF run] l(1) p(2) by simp
  qed
qed

lemma step_low:
  assumes inv: "paging_inv s F" and a: "next_table (mem_of s) (root s) i = Some a" and v: "unat v < 512"
    and nb: "big (mem_of s) a (unat v) = None"
  obtains (exhausted) "F = {}" "walk_step (phys s) (paddr_at a) v True = Some (None, phys s)"
  | (found) b p F' where "walk_step (phys s) (paddr_at a) v True = Some (Some (paddr_at b), p)"
      "grown s F (s\<lparr>phys := p\<rparr>) F'" "low (memory p) (root s) (i, unat v) = Some b" "F - {b} \<subseteq> F'"
proof -
  note invD = paging_inv_tables [OF inv]
  have at: "a \<in> table_frames s" using table_in(1) [OF a] by (simp add: table_frames_def)
  show thesis
  proof (cases "next_table (mem_of s) a (unat v)")
    case (Some b)
    from walk_step_present [OF invD(4) [OF at]] Some show thesis
      using found [of b "phys s" F] grown_refl [OF inv] a by (simp add: mem_of_def low_def)
  next
    case None
    note absent = absent_entry [OF v None nb]
    show thesis
    proof (rule walk_step_alloc [OF invD(4) [OF at] invD(5) [OF at] v _ invD(2)])
      show "\<not> valid (pte_at (memory (phys s)) (a + 8 * unat v))" using absent by (simp add: mem_of_def)
    next
      assume "F = {}" "walk_step (phys s) (paddr_at a) v True = Some (None, phys s)"
      then show thesis by (rule exhausted)
    next
      fix n p m q
      assume n: "n \<in> F" and run: "walk_step (phys s) (paddr_at a) v True = Some (Some (paddr_at n), p)"
        and p: "phys_inv p (F - {n})" "memory p = put_pte m a (unat v) q"
        and e: "empty_table m n" and out: "\<And>x. x \<notin> pages F \<Longrightarrow> m x = memory (phys s) x"
        and q: "table_of q = Some n"
      have "\<forall>x. x \<notin> pages F \<longrightarrow> m x = mem_of s x" using out by (simp add: mem_of_def)
      note o = fresh_memory [OF inv n this]
      have a': "next_table m (root s) i = Some a" using a by (simp add: o)
      have none: "\<not> valid (pte_at m (a + 8 * unat v))" using absent by (simp add: o(9) [OF at v])
      note l = link_low [OF o(5) a' v none o(7,6) e q]
      have "grown s F (s\<lparr>phys := p\<rparr>) (F - {n})"
        using l by (intro grown_phys [OF inv p(1) n]) (simp_all add: p(2) o)
      then show thesis using found [OF run] l(2) p(2) by simp
    qed
  qed
qed

section \<open>The walk\<close>

definition walkable :: "uaddr \<Rightarrow> bool" where
  "walkable va \<longleftrightarrow> is_aligned_uaddr va PAGE_BITS \<and> canonical va"

lemma vpn_simps:
  "unat (drop_bit 30 va AND 0x1ff) = vpn 2 va" "unat (drop_bit 21 va AND 0x1ff) = vpn 1 va"
  "unat (drop_bit 12 va AND 0x1ff) = vpn 0 va"
  by (simp_all add: vpn_def)

lemma mm_paging_walk_alloc:
  assumes inv: "paging_inv s F" and va: "walkable va" and sm: "small_page s va"
  obtains (exhausted) s' where "mm_paging_walk s va True = Some (None, s')" "grown s F s' {}" "card F \<le> 1"
  | (entry) s' F' b where "mm_paging_walk s va True = Some (Some (paddr_at (b + 8 * vpn 0 va)), s')"
      "grown s F s' F'" "low (mem_of s') (root s) (vpn 2 va, vpn 1 va) = Some b" "card F \<le> card F' + 2"
proof -
  have m: "mode (satp_read s) = SATP_MODE_SV39" using inv by (simp add: paging_inv_def)
  note run = mm_paging_walk_def va [unfolded walkable_def] m root_def [symmetric]
  note b = index_bound
  have nb: "big (mem_of s) (root s) (unat (drop_bit 30 va AND 0x1ff)) = None"
    using sm by (simp add: small_page_def large_def large_at_None vpn_simps)
  show thesis
  proof (rule step_mid [OF inv b [of "drop_bit 30 va"] nb])
    assume "F = {}" "walk_step (phys s) (paddr_at (root s)) (drop_bit 30 va AND 0x1ff) True = Some (None, phys s)"
    then show thesis using grown_refl [OF inv] by (intro exhausted [of s]) (simp_all add: run)
  next
    fix a p F1
    assume w1: "walk_step (phys s) (paddr_at (root s)) (drop_bit 30 va AND 0x1ff) True = Some (Some (paddr_at a), p)"
      and g1: "grown s F (s\<lparr>phys := p\<rparr>) F1" "F - {a} \<subseteq> F1" and a: "next_table (memory p) (root s) (unat (drop_bit 30 va AND 0x1ff)) = Some a"
    define s1 where "s1 = s\<lparr>phys := p\<rparr>"
    have r: "root s1 = root s" using root_cong [of s1 s] by (simp add: s1_def)
    have inv1: "paging_inv s1 F1" using g1 by (simp add: grown_def s1_def)
    have a': "next_table (mem_of s1) (root s1) (vpn 2 va) = Some a"
      using a by (simp add: r vpn_simps) (simp add: s1_def mem_of_def)
    have "large s1 = large s" using g1(1) by (simp add: grown_def s1_def)
    then have "large_at (mem_of s1) (root s1) (vpn 2 va, vpn 1 va) = None"
      using sm by (simp add: small_page_def large_def)
    then have nb1: "big (mem_of s1) a (unat (drop_bit 21 va AND 0x1ff)) = None"
      unfolding large_at_None vpn_simps using a' by blast
    show thesis
    proof (rule step_low [OF inv1 a' b [of "drop_bit 21 va"] nb1])
      assume "F1 = {}" "walk_step (phys s1) (paddr_at a) (drop_bit 21 va AND 0x1ff) True = Some (None, phys s1)"
      moreover have "card F \<le> 1" if "F1 = {}"
        using g1(2) that card_mono [of "{a}" F] by simp
      ultimately show thesis using w1 g1 by (intro exhausted [of s1]) (simp_all add: run s1_def)
    next
      fix c p2 F2
      assume w2: "walk_step (phys s1) (paddr_at a) (drop_bit 21 va AND 0x1ff) True = Some (Some (paddr_at c), p2)"
        and g2: "grown s1 F1 (s1\<lparr>phys := p2\<rparr>) F2" "F1 - {c} \<subseteq> F2"
        and c: "low (memory p2) (root s1) (vpn 2 va, unat (drop_bit 21 va AND 0x1ff)) = Some c"
      have inv2: "paging_inv (s1\<lparr>phys := p2\<rparr>) F2" using g2(1) by (simp add: grown_def)
      have "card F \<le> card F2 + 2"
      proof (cases "finite F")
        case True
        have sub: "F - {a, c} \<subseteq> F2" using g1(2) g2(2) by blast
        have "F2 \<subseteq> F" using g1(1) g2(1) by (auto simp: grown_def)
        then have "card (F - {a, c}) \<le> card F2" using card_mono [OF finite_subset [OF _ True] sub] by blast
        moreover have "card F - card {a, c} \<le> card (F - {a, c})" by (rule diff_card_le_card_Diff) simp
        moreover have "card {a, c} \<le> 2" by (simp add: card_insert_if)
        ultimately show ?thesis by linarith
      qed simp
      moreover
      have c': "low (mem_of (s1\<lparr>phys := p2\<rparr>)) (root s) (vpn 2 va, vpn 1 va) = Some c"
        using c by (simp add: r vpn_simps mem_of_def)
      have fc: "frame_ok c"
        using tables_okD(4) [OF paging_inv_tables(1) [OF inv2]] c' root_cong [of "s1\<lparr>phys := p2\<rparr>" s1] r by simp
      have "mm_paging_walk s va True = Some (Some (paddr_at (c + 8 * vpn 0 va)), s1\<lparr>phys := p2\<rparr>)"
        using w1 w2 entry_addr(1) [OF fc b [of "drop_bit 12 va"]] by (simp add: run s1_def vpn_simps)
      ultimately show thesis using c' grown_trans [OF _ g2(1)] g1
        by (intro entry [of c "s1\<lparr>phys := p2\<rparr>" F2]) (simp_all add: s1_def)
    qed
  qed
qed

lemma mm_paging_walk_find:
  assumes inv: "paging_inv s F" and va: "walkable va" and sm: "small_page s va"
  shows "mm_paging_walk s va False =
    Some (map_option (\<lambda>b. paddr_at (b + 8 * vpn 0 va)) (low (mem_of s) (root s) (vpn 2 va, vpn 1 va)), s)"
proof -
  have m: "mode (satp_read s) = SATP_MODE_SV39" using inv by (simp add: paging_inv_def)
  note invD = paging_inv_tables [OF inv]
  note run = mm_paging_walk_def va [unfolded walkable_def] m root_def [symmetric]
  note b = index_bound and st = tables_okD [OF invD(1)]
  have nb: "big (mem_of s) (root s) (vpn 2 va) = None"
    using sm by (simp add: small_page_def large_def large_at_None)
  show ?thesis
  proof (cases "next_table (mem_of s) (root s) (vpn 2 va)")
    case None
    then show ?thesis
      using walk_step_absent [OF invD(3) b [of "drop_bit 30 va"], of "phys s"] nb absent_entry [OF vpn_bound None nb]
      by (simp add: run vpn_simps mem_of_def low_def)
  next
    case (Some a)
    then have w1: "walk_step (phys s) (paddr_at (root s)) (drop_bit 30 va AND 0x1ff) False = Some (Some (paddr_at a), phys s)"
      by (intro walk_step_present [OF invD(3)]) (simp add: vpn_simps mem_of_def)
    have fa: "frame_ok a" using st(2) Some by blast
    show ?thesis
    proof (cases "next_table (mem_of s) a (vpn 1 va)")
      case None
      have "big (mem_of s) a (vpn 1 va) = None"
        using sm Some by (simp add: small_page_def large_def large_at_None)
      from absent_entry [OF vpn_bound None this] show ?thesis
        using walk_step_absent [OF fa b [of "drop_bit 21 va"], of "phys s"] w1 Some None
        by (simp add: run vpn_simps mem_of_def low_def)
    next
      case (Some c)
      then have w2: "walk_step (phys s) (paddr_at a) (drop_bit 21 va AND 0x1ff) False = Some (Some (paddr_at c), phys s)"
        by (intro walk_step_present [OF fa]) (simp add: vpn_simps mem_of_def)
      have l: "low (mem_of s) (root s) (vpn 2 va, vpn 1 va) = Some c"
        using Some \<open>next_table (mem_of s) (root s) (vpn 2 va) = Some a\<close> by (simp add: low_def)
      then have fc: "frame_ok c" using st(4) by blast
      show ?thesis
        using l w1 w2 entry_addr(1) [OF fc b [of "drop_bit 12 va"]] by (simp add: run vpn_simps)
    qed
  qed
qed


section \<open>Mapping and unmapping a page\<close>

lemma indices_low: "mapping s (indices va) =
    Option.bind (low (mem_of s) (root s) (vpn 2 va, vpn 1 va))
      (\<lambda>b. let p = pte_at (mem_of s) (b + 8 * vpn 0 va) in if valid p then Some p else None)"
  using vpn_bound [of 0 va] by (simp add: mapping_def leaf_def indices_def Let_def)

text \<open>Writing the entry the walk found.\<close>

lemma write_entry:
  fixes p :: pte
  assumes inv: "paging_inv s F" and b: "low (mem_of s) (root s) (vpn 2 va, vpn 1 va) = Some b"
  defines "s' \<equiv> set_memory s (put_pte (mem_of s) b (vpn 0 va) p)"
  shows "copy_to_physical (mem_of s) (paddr_at (b + 8 * vpn 0 va)) (pte_bytes p) = Some (put_pte (mem_of s) b (vpn 0 va) p)"
    "copy_from_physical (mem_of s) (paddr_at (b + 8 * vpn 0 va)) 8 = Some (read_bytes (mem_of s) (b + 8 * vpn 0 va) 8)"
    "paging_inv s' F" "mapping s' = (mapping s)(indices va := if valid p then Some p else None)"
    "table_frames s' = table_frames s" "satp_csr s' = satp_csr s" "large s' = large s"
proof -
  note invD = paging_inv_tables [OF inv]
  have bt: "b \<in> table_frames s" using table_in(2) [OF b] by (simp add: table_frames_def)
  note e = entry_addr [OF invD(4) [OF bt], of "drop_bit 12 va AND 0x1ff", unfolded vpn_simps, OF vpn_bound]
  show "copy_to_physical (mem_of s) (paddr_at (b + 8 * vpn 0 va)) (pte_bytes p) = Some (put_pte (mem_of s) b (vpn 0 va) p)"
    "copy_from_physical (mem_of s) (paddr_at (b + 8 * vpn 0 va)) 8 = Some (read_bytes (mem_of s) (b + 8 * vpn 0 va) 8)"
    by (rule e)+
  note l = put_leaf [OF invD(1) b vpn_bound [of 0 va], of p]
  have m: "mem_of s' = put_pte (mem_of s) b (vpn 0 va) p" "satp_csr s' = satp_csr s"
    by (simp_all add: s'_def set_memory_def mem_of_def)
  note r = root_cong [OF m(2)]
  show "satp_csr s' = satp_csr s" by (rule m)
  show mp: "mapping s' = (mapping s)(indices va := if valid p then Some p else None)"
    using l(4) by (simp add: mapping_def m r indices_def)
  show t: "table_frames s' = table_frames s" using l(3) by (simp add: table_frames_def m r)
  show "large s' = large s" using l(6) by (simp add: large_def m r)
  have "pages {b} \<inter> pages F = {}" using invD bt by (intro page_not_in) auto
  then have "phys_inv (phys s') F"
    using invD(2) vpn_bound [of 0 va] unfolding s'_def set_memory_def
    by (auto simp: mem_of_def intro!: phys_inv_write put_outside)
  then show "paging_inv s' F" using inv l(5) t by (simp add: paging_inv_def m r)
qed

definition page_paddr :: "nat \<Rightarrow> bool" where
  "page_paddr q \<longleftrightarrow> 4096 dvd q \<and> q < 2 ^ 56"

lemma leaf_pte_simps [simp]:
  "valid (leaf_pte pa perms)" "readable (leaf_pte pa perms)" "pte_ppn (leaf_pte pa perms) = ppn pa"
  by (cases perms; simp add: leaf_pte_def)+

lemma page_paddr_checks:
  assumes "page_paddr q"
  shows "is_aligned_paddr (paddr_at q) PAGE_BITS = Some True" "4096 * unat (ppn (paddr_at q)) = q"
  using assms by (simp_all add: page_paddr_def is_aligned_paddr_at PAGE_BITS_def ppn_paddr_at)

text \<open>The entry a page is to have, bit by bit.\<close>

definition page_entry :: "nat \<Rightarrow> page_permissions \<Rightarrow> pte" where
  "page_entry q perms = \<lparr>valid = True, readable = True,
     writable = (perms \<in> {PGPERM_KRW, PGPERM_URW}), executable = (perms \<in> {PGPERM_KRX, PGPERM_URX}),
     user = (perms \<in> {PGPERM_URO, PGPERM_URW, PGPERM_URX}), global = (perms \<in> {PGPERM_KRO, PGPERM_KRW, PGPERM_KRX}),
     accessed = True, dirty = True, rsvd1 = 0, pte_ppn = of_nat (q div 4096), rsvd0 = 0\<rparr>"

lemma page_entry_simps [simp]:
  "valid (page_entry q perms)" "readable (page_entry q perms)" "accessed (page_entry q perms)" "dirty (page_entry q perms)"
  "rsvd0 (page_entry q perms) = 0"
  by (simp_all add: page_entry_def)

lemma page_entry_ppn [simp]:
  assumes "page_paddr q"
  shows "4096 * unat (pte_ppn (page_entry q perms)) = q"
proof -
  have "unat (of_nat (q div 4096) :: 44 word) = q div 4096"
    using assms by (intro unat_of_nat_small) (auto simp: page_paddr_def less_mult_imp_div_less)
  then show ?thesis using assms by (simp add: page_entry_def page_paddr_def)
qed

lemma leaf_pte_entry:
  assumes "page_paddr q"
  shows "leaf_pte (paddr_at q) perms = page_entry q perms"
proof -
  have "ppn (paddr_at q) = of_nat (q div 4096)"
    using page_paddr_checks(2) [OF assms] by (metis nonzero_mult_div_cancel_left of_nat_unat ucast_id zero_neq_numeral)
  then show ?thesis by (cases perms) (simp_all add: leaf_pte_def page_entry_def pte_zero_def)
qed

lemma mm_paging_map_cases:
  assumes inv: "paging_inv s F" and va: "walkable va" and sm: "small_page s va" and q: "page_paddr q"
    and new: "mapping s (indices va) = None"
  shows "(\<exists>s'. mm_paging_map s va (paddr_at q) perms = Some (False, s') \<and> grown s F s' {} \<and> card F \<le> 1) \<or>
    (\<exists>s' F'. mm_paging_map s va (paddr_at q) perms = Some (True, s') \<and> paging_inv s' F' \<and>
      mapping s' = (mapping s)(indices va \<mapsto> page_entry q perms) \<and> large s' = large s \<and>
      F' \<subseteq> F \<and> F' \<union> table_frames s' = F \<union> table_frames s \<and> card F \<le> card F' + 2)"
proof -
  note run = mm_paging_map_def va [unfolded walkable_def] page_paddr_checks(1) [OF q]
  show ?thesis
  proof (rule mm_paging_walk_alloc [OF inv va sm])
    fix s1 assume "mm_paging_walk s va True = Some (None, s1)" "grown s F s1 {}" "card F \<le> 1"
    then show ?thesis by (simp add: run)
  next
    fix s1 F1 b
    assume w: "mm_paging_walk s va True = Some (Some (paddr_at (b + 8 * vpn 0 va)), s1)"
      and g: "grown s F s1 F1" and b: "low (mem_of s1) (root s) (vpn 2 va, vpn 1 va) = Some b"
      and c: "card F \<le> card F1 + 2"
    have r: "root s1 = root s" using g root_cong [of s1 s] by (simp add: grown_def)
    have inv1: "paging_inv s1 F1" using g by (simp add: grown_def)
    note e = write_entry [OF inv1 b [folded r]]
    have "mapping s1 (indices va) = None" using new g by (simp add: grown_def)
    then have "\<not> valid (pte_at (mem_of s1) (b + 8 * vpn 0 va))"
      using b r by (simp add: indices_low Let_def split: if_splits)
    then have "mm_paging_map s va (paddr_at q) perms =
        Some (True, set_memory s1 (put_pte (mem_of s1) b (vpn 0 va) (page_entry q perms)))"
      using e(1,2) by (simp add: run w mem_of_def pte_at_def leaf_pte_entry [OF q])
    then show ?thesis using e(3-5,7) g c
      by (auto simp: grown_def)
  qed
qed

lemma mm_paging_unmap_cases:
  assumes inv: "paging_inv s F" and va: "walkable va" and sm: "small_page s va"
  shows "case mapping s (indices va) of
      None \<Rightarrow> mm_paging_unmap s va = Some ((False, paddr_at 0), s)
    | Some p \<Rightarrow> \<exists>s'. mm_paging_unmap s va = Some ((True, paddr_at (4096 * unat (pte_ppn p))), s') \<and>
        paging_inv s' F \<and> mapping s' = (mapping s)(indices va := None) \<and> large s' = large s \<and> table_frames s' = table_frames s"
proof -
  have z: "paddr_of_bits 0 = Some (paddr_at 0)" using paddr_of_bits_at [of 0] by simp
  have z': "(paddr_at 0)\<lparr>ppn := p\<rparr> = paddr_at (4096 * unat p)" for p
  proof -
    have "paddr_at 0 = zero_paddr" by (simp add: zero_paddr_def paddr_at_def paddr_of_raw_def)
    then show ?thesis by simp
  qed
  note run = mm_paging_unmap_def va [unfolded walkable_def] mm_paging_walk_find [OF inv va sm] z
  show ?thesis
  proof (cases "low (mem_of s) (root s) (vpn 2 va, vpn 1 va)")
    case None
    then show ?thesis by (simp add: run indices_low)
  next
    case (Some b)
    note e = write_entry [OF inv Some]
    show ?thesis
      using e(1-5,7) Some by (auto simp: run indices_low Let_def mem_of_def pte_at_def z' pte_zero_def)
  qed
qed

text \<open>
  \<open>C2\<close>.  Mapping an aligned page at an address that is not mapped and lies in no large page either
  succeeds, and then the mapping gains exactly that page, with an entry that is writable, executable,
  open to user mode and global exactly if the permissions say so, or returns \<^verbatim>\<open>false\<close>
  because no frame is left (there was at most one), and then the mapping is unchanged; in both cases the
  large pages are the same and every frame taken from the allocator is a page table of the new state.
\<close>
theorem mm_paging_map_correct:
  assumes inv: "paging_inv s F" and va: "walkable va" and sm: "small_page s va" and q: "page_paddr q"
    and new: "mapping s (indices va) = None"
  shows "(\<exists>s'. mm_paging_map s va (paddr_at q) perms = Some (False, s') \<and> grown s F s' {} \<and> card F \<le> 1) \<or>
    (\<exists>s' F'. mm_paging_map s va (paddr_at q) perms = Some (True, s') \<and> paging_inv s' F' \<and>
      mapping s' = (mapping s)(indices va \<mapsto> page_entry q perms) \<and> large s' = large s \<and>
      F' \<subseteq> F \<and> F' \<union> table_frames s' = F \<union> table_frames s)"
  using mm_paging_map_cases [OF assms, of perms] by blast

text \<open>
  \<open>C10\<close>.  Unmapping a mapped page returns its physical address and removes exactly that
  page from the mapping; unmapping an address that is not mapped returns \<^verbatim>\<open>false\<close> and
  changes nothing.
\<close>
theorem mm_paging_unmap_correct:
  assumes inv: "paging_inv s F" and va: "walkable va" and sm: "small_page s va"
  shows "case mapping s (indices va) of
      None \<Rightarrow> mm_paging_unmap s va = Some ((False, paddr_at 0), s)
    | Some p \<Rightarrow> \<exists>s'. mm_paging_unmap s va = Some ((True, paddr_at (4096 * unat (pte_ppn p))), s') \<and>
        paging_inv s' F \<and> mapping s' = (mapping s)(indices va := None) \<and> large s' = large s \<and> table_frames s' = table_frames s"
  by (rule mm_paging_unmap_cases [OF assms])

section \<open>The translation of the hardware\<close>

text \<open>
  The Sv39 address translation of the RISC-V privileged specification, on the tables
  in memory: an address whose bits 38 to 63 are not all equal faults; the walk stops at the
  first leaf, on any level, whose frame has to be aligned to the size of the page; reserved
  bits fault.
\<close>

definition sv39_canonical :: "uaddr \<Rightarrow> bool" where
  "sv39_canonical va \<longleftrightarrow> signed_drop_bit 38 va + 1 \<le> 1"

fun sv39_walk :: "pmem \<Rightarrow> nat \<Rightarrow> nat \<Rightarrow> uaddr \<Rightarrow> (nat \<times> pte) option" where
  "sv39_walk m a level va = (
     let p = pte_at m (a + 8 * vpn level va); pa = 4096 * unat (pte_ppn p) in
     if \<not> valid p \<or> (\<not> readable p \<and> writable p) \<or> rsvd0 p \<noteq> 0 then None
     else if readable p \<or> executable p then
       (if 2 ^ (12 + 9 * level) dvd pa then Some (pa + unat va mod 2 ^ (12 + 9 * level), p) else None)
     else if user p \<or> accessed p \<or> dirty p then None
     else case level of 0 \<Rightarrow> None | Suc l \<Rightarrow> sv39_walk m pa l va)"

declare sv39_walk.simps [simp del]

definition sv39_translate :: "pmem \<Rightarrow> nat \<Rightarrow> uaddr \<Rightarrow> (nat \<times> pte) option" where
  "sv39_translate m r va = (if sv39_canonical va then sv39_walk m r 2 va else None)"

text \<open>
  The access that is made with the entry found, from user mode or, with the bits SUM and MXR clear,
  from supervisor mode.  The accessed and dirty bits have to be set beforehand.
\<close>

datatype access_kind = Load | Store | Fetch

definition pte_allows :: "pte \<Rightarrow> access_kind \<Rightarrow> bool \<Rightarrow> bool" where
  "pte_allows p k user_mode \<longleftrightarrow> user p = user_mode \<and> accessed p \<and>
     (case k of Load \<Rightarrow> readable p | Store \<Rightarrow> writable p \<and> dirty p | Fetch \<Rightarrow> executable p)"

definition sv39_access :: "pmem \<Rightarrow> nat \<Rightarrow> uaddr \<Rightarrow> access_kind \<Rightarrow> bool \<Rightarrow> nat option" where
  "sv39_access m r va k user_mode =
     Option.bind (sv39_translate m r va) (\<lambda>(pa, p). if pte_allows p k user_mode then Some pa else None)"

text \<open>What a name of \<^verbatim>\<open>enum page_permissions\<close> says: who may use the page, and for what.\<close>

definition permits :: "page_permissions \<Rightarrow> access_kind \<Rightarrow> bool \<Rightarrow> bool" where
  "permits perms k user_mode \<longleftrightarrow>
     user_mode = (perms \<in> {PGPERM_URO, PGPERM_URW, PGPERM_URX}) \<and>
     (case k of Load \<Rightarrow> True | Store \<Rightarrow> perms \<in> {PGPERM_KRW, PGPERM_URW}
      | Fetch \<Rightarrow> perms \<in> {PGPERM_KRX, PGPERM_URX})"

lemma page_entry_allows: "pte_allows (page_entry q perms) k user_mode \<longleftrightarrow> permits perms k user_mode"
  by (auto simp: pte_allows_def permits_def page_entry_def split: access_kind.split)

text \<open>The result of the walk at a leaf of a level.\<close>

definition leaf_access :: "nat \<Rightarrow> uaddr \<Rightarrow> pte \<Rightarrow> (nat \<times> pte) option" where
  "leaf_access level va p = (
     if (\<not> readable p \<and> writable p) \<or> \<not> (readable p \<or> executable p) \<or> rsvd0 p \<noteq> 0 \<or>
       \<not> 2 ^ (12 + 9 * level) dvd 4096 * unat (pte_ppn p) then None
     else Some (4096 * unat (pte_ppn p) + unat va mod 2 ^ (12 + 9 * level), p))"

lemma sv39_descend:
  assumes "next_table m t (vpn (Suc l) va) = Some a"
  shows "sv39_walk m t (Suc l) va = sv39_walk m a l va"
  using assms
  by (subst sv39_walk.simps)
    (simp add: next_table_def table_of_def non_leaf_def Let_def split: if_splits)

lemma sv39_large:
  assumes "big m t (vpn l va) = Some p"
  shows "sv39_walk m t l va = leaf_access l va p"
  using assms
  by (subst sv39_walk.simps)
    (auto simp: big_def large_of_def non_leaf_def leaf_access_def Let_def split: if_splits)

lemma sv39_fault:
  assumes "next_table m t (vpn l va) = None" "big m t (vpn l va) = None"
  shows "sv39_walk m t l va = None"
  using absent_entry [OF vpn_bound assms] by (subst sv39_walk.simps) simp

lemma sv39_mapping:
  "sv39_walk (mem_of s) (root s) 2 va = (case large s (vpn 2 va, vpn 1 va) of
     Some (l, p) \<Rightarrow> leaf_access l va p
   | None \<Rightarrow> Option.bind (mapping s (indices va)) (leaf_access 0 va))"
proof (cases "big (mem_of s) (root s) (vpn 2 va)")
  case (Some p)
  then show ?thesis using sv39_large [of "mem_of s" "root s" 2 va p] by (simp add: large_def large_at_def)
next
  case nb: None
  show ?thesis
  proof (cases "next_table (mem_of s) (root s) (vpn 2 va)")
    case None
    then show ?thesis using nb by (simp add: sv39_fault indices_low low_def large_def large_at_def)
  next
    case a: (Some a)
    then have d: "sv39_walk (mem_of s) (root s) 2 va = sv39_walk (mem_of s) a 1 va"
      using sv39_descend [of "mem_of s" "root s" 1 va a] by (simp add: numeral_2_eq_2)
    show ?thesis
    proof (cases "big (mem_of s) a (vpn 1 va)")
      case (Some p)
      then show ?thesis using sv39_large [of "mem_of s" a 1 va p] a nb d by (simp add: large_def large_at_def)
    next
      case na: None
      then have la: "large s (vpn 2 va, vpn 1 va) = None" using nb a by (simp add: large_def large_at_def)
      show ?thesis
      proof (cases "next_table (mem_of s) a (vpn 1 va)")
        case None
        then show ?thesis using na d a la by (simp add: sv39_fault indices_low low_def)
      next
        case (Some b)
        have "sv39_walk (mem_of s) a 1 va = sv39_walk (mem_of s) b 0 va"
          using sv39_descend [of "mem_of s" a 0 va b] Some by simp
        also have "\<dots> = Option.bind (mapping s (indices va)) (leaf_access 0 va)"
          using Some a by (subst sv39_walk.simps) (auto simp: indices_low low_def leaf_access_def Let_def)
        finally show ?thesis using d la by simp
      qed
    qed
  qed
qed

lemma sv39_access_mapping:
  "sv39_access (mem_of s) (root s) va k user_mode = (if sv39_canonical va
     then Option.bind (case large s (vpn 2 va, vpn 1 va) of Some (l, p) \<Rightarrow> leaf_access l va p
         | None \<Rightarrow> Option.bind (mapping s (indices va)) (leaf_access 0 va))
       (\<lambda>(pa, p). if pte_allows p k user_mode then Some pa else None)
     else None)"
  by (simp add: sv39_access_def sv39_translate_def sv39_mapping)

text \<open>
  \<open>C11\<close>.  After a successful map an access of the hardware to an address of the page reaches the
  byte at the same offset of the physical page exactly if the permissions allow that access (loads always,
  stores and fetches only with W or X, in user mode exactly for the U permissions) and the address is one
  that Sv39 accepts; every other access, permitted or faulting, has the result it had before.
\<close>
theorem mapped_page_translates:
  assumes "paging_inv s F" "walkable va" "small_page s va" "page_paddr q" "mapping s (indices va) = None"
    and "mm_paging_map s va (paddr_at q) perms = Some (True, s')"
  shows "sv39_access (mem_of s') (root s') va' k user_mode =
    (if sv39_canonical va' \<and> indices va' = indices va
     then (if permits perms k user_mode then Some (q + unat va' mod 4096) else None)
     else sv39_access (mem_of s) (root s) va' k user_mode)"
proof -
  obtain F' where s': "mapping s' = (mapping s)(indices va \<mapsto> page_entry q perms)" "large s' = large s"
    using mm_paging_map_cases [OF assms(1-5), of perms] assms(6) by auto
  have "large s (vpn 2 va', vpn 1 va') = None" if "indices va' = indices va"
    using assms(3) that by (simp add: small_page_def indices_def)
  note sm = this
  have q: "4096 dvd q" using assms(4) by (simp add: page_paddr_def)
  show ?thesis
  proof (cases "indices va' = indices va")
    case True
    then have "large s (vpn 2 va', vpn 1 va') = None" by (rule sm)
    then show ?thesis
      unfolding sv39_access_mapping s' using True q page_entry_ppn [OF assms(4), of perms]
      by (simp add: leaf_access_def page_entry_allows)
  next
    case False
    then have "mapping s' (indices va') = mapping s (indices va')" by (simp add: s'(1))
    then show ?thesis using False unfolding sv39_access_mapping s'(2) by (simp only: simp_thms if_False)
  qed
qed

section \<open>A state with tables, and addresses on the edge\<close>

text \<open>
  The state the witnesses use: the root table is the frame at 0x80000000, with the gigabyte pages
  that map the first 128 GiB of physical memory at 0xffffffc000000000 as in the tables
  \<^verbatim>\<open>generate_bootstub.py\<close> builds, and the frames after it are given to the allocator one by one.
\<close>

definition window_entry :: "nat \<Rightarrow> pte" where
  "window_entry i = (if 256 \<le> i \<and> i < 384
     then \<lparr>valid = True, readable = True, writable = True, executable = False, user = False, global = True,
       accessed = True, dirty = True, rsvd1 = 0, pte_ppn = of_nat (2 ^ 18 * (i - 256)), rsvd0 = 0\<rparr>
     else pte_zero)"

definition window_root :: pmem where
  "window_root x = (if x \<in> pages {2147483648}
     then pte_bytes (window_entry ((x - 2147483648) div 8)) ! ((x - 2147483648) mod 8) else 0)"

definition window_pages :: "nat \<times> nat \<rightharpoonup> nat \<times> pte" where
  "window_pages = (\<lambda>(i, j). if 256 \<le> i \<and> i < 384 then Some (2, window_entry i) else None)"

lemma window_root_pte:
  assumes "i < 512"
  shows "pte_at window_root (2147483648 + 8 * i) = window_entry i"
proof -
  have "window_root (2147483648 + 8 * i + k) = pte_bytes (window_entry i) ! k" if "k < 8" for k
  proof -
    have "2147483648 + 8 * i + k - 2147483648 = k + 8 * i" by simp
    moreover have "(k + 8 * i) div 8 = i" "(k + 8 * i) mod 8 = k" using that by simp_all
    ultimately show ?thesis using assms that by (auto simp: window_root_def pages_def)
  qed
  then have "read_bytes window_root (2147483648 + 8 * i) 8 = pte_bytes (window_entry i)"
    by (intro nth_equalityI) (auto simp: read_bytes_def)
  then show ?thesis by (simp add: pte_at_def)
qed

lemma empty_paging_state:
  assumes "finite F" "\<forall>f \<in> F. frame_ok f \<and> f \<noteq> 2147483648"
  shows "\<exists>s. paging_inv s F \<and> mapping s = Map.empty \<and> large s = window_pages"
proof -
  have "\<exists>p. phys_inv p F \<and> (\<forall>x \<in> pages {2147483648}. memory p x = window_root x)"
    using assms
  proof (induction rule: finite_induct)
    case empty
    have "phys_inv (boot_state\<lparr>memory := window_root\<rparr>) {}"
      by (rule phys_inv_write [OF boot_inv]) (simp add: pages_def)
    then show ?case by (intro exI [of _ "boot_state\<lparr>memory := window_root\<rparr>"]) simp
  next
    case (insert f F)
    then obtain p where p: "phys_inv p F" "\<forall>x \<in> pages {2147483648}. memory p x = window_root x" by auto
    then obtain p' where p': "phys_inv p' (insert f F)" "\<forall>i. i \<notin> pages {f} \<longrightarrow> memory p' i = memory p i"
      using frames.give_back_law [OF p(1)] insert by blast
    have "pages {f} \<inter> pages {2147483648} = {}"
      using insert.prems by (intro page_not_in) (auto simp: frame_ok_def window_def)
    then show ?case using p' p(2) by (metis disjoint_iff)
  qed
  then obtain p where p: "phys_inv p F" "\<forall>x \<in> pages {2147483648}. memory p x = window_root x" by blast
  define s where "s = \<lparr>phys = p, satp_csr = raw_of_satp \<lparr>satp_ppn = 0x80000, asid = 0, mode = SATP_MODE_SV39\<rparr>\<rparr>"
  have "satp_of_raw (raw_of_satp \<lparr>satp_ppn = 0x80000, asid = 0, mode = SATP_MODE_SV39\<rparr>) =
      \<lparr>satp_ppn = 0x80000, asid = 0, mode = SATP_MODE_SV39\<rparr>"
    by code_simp
  then have r: "root s = 2147483648" "mode (satp_read s) = SATP_MODE_SV39"
    by (simp_all add: root_def satp_read_def s_def)
  have e: "pte_at (mem_of s) (root s + 8 * i) = window_entry i" if "i < 512" for i
    using pte_at_cong [of 2147483648 "mem_of s" window_root i] window_root_pte [OF that] p(2) that
    by (simp add: r(1)) (simp add: s_def mem_of_def)
  have n: "next_table (mem_of s) (root s) = Map.empty"
    by (auto simp: next_table_def table_of_def e window_entry_def non_leaf_def pte_zero_def)
  have b: "big (mem_of s) (root s) = (\<lambda>i. if 256 \<le> i \<and> i < 384 then Some (window_entry i) else None)"
    by (auto simp: big_def large_of_def e window_entry_def non_leaf_def pte_zero_def)
  have w: "large s = window_pages"
    by (rule ext) (auto simp: large_def large_at_def n b window_pages_def)
  have l: "low (mem_of s) (root s) = Map.empty" by (auto simp: low_def n)
  have t: "table_frames s = {root s}" by (simp add: table_frames_def tables_def n l)
  have "tables_ok (mem_of s) (root s)"
    using t unfolding tables_ok_def table_frames_def [symmetric]
    by (simp add: n l) (simp add: r frame_ok_def window_def)
  moreover have "table_frames s \<inter> F = {}" using t r assms(2) by auto
  ultimately have "paging_inv s F" using p(1) r(2) by (simp add: paging_inv_def) (simp add: s_def)
  moreover have "mapping s = Map.empty" by (auto simp: mapping_def leaf_def l)
  ultimately show ?thesis using w by blast
qed

text \<open>The pages of the examples, in the first 16 of the address space, lie below entry 0 of the root.\<close>

lemma window_small_page: "large s = window_pages \<Longrightarrow> vpn 2 va < 256 \<Longrightarrow> small_page s va"
  by (simp add: small_page_def window_pages_def)

lemma example_paging_state:
  "\<exists>s. paging_inv s {2147487744, 2147491840, 2147495936} \<and> mapping s = Map.empty \<and> large s = window_pages"
  by (rule empty_paging_state) (auto simp: frame_ok_def window_def)

lemma walkable_example: "walkable 0x1000" "vpn 2 0x1000 < 256" "page_paddr 4096"
  by (code_simp, code_simp, simp add: page_paddr_def)

lemma mm_paging_map_correct_witness:
  "\<exists>s s' F'. mapping s = Map.empty \<and> large s = window_pages \<and>
    mm_paging_map s 0x1000 (paddr_at 4096) PGPERM_KRW = Some (True, s') \<and>
    mapping s' = [indices 0x1000 \<mapsto> page_entry 4096 PGPERM_KRW] \<and> large s' = window_pages \<and> paging_inv s' F'"
proof -
  obtain s where s: "paging_inv s {2147487744, 2147491840, 2147495936}" "mapping s = Map.empty" "large s = window_pages"
    using example_paging_state by blast
  then show ?thesis
    using mm_paging_map_correct [OF s(1) walkable_example(1) window_small_page [OF s(3) walkable_example(2)]
        walkable_example(3), of PGPERM_KRW] by auto
qed

lemma mm_paging_unmap_correct_witness:
  "\<exists>s F. paging_inv s F \<and> large s = window_pages \<and> mm_paging_unmap s 0x1000 = Some ((False, paddr_at 0), s)"
proof -
  obtain s where s: "paging_inv s {2147487744, 2147491840, 2147495936}" "mapping s = Map.empty" "large s = window_pages"
    using example_paging_state by blast
  then show ?thesis
    using mm_paging_unmap_correct [OF s(1) walkable_example(1) window_small_page [OF s(3) walkable_example(2)]] by auto
qed

lemma example_mapped_state:
  "\<exists>s s'. paging_inv s {2147487744, 2147491840, 2147495936} \<and> mapping s (indices 0x1000) = None \<and> large s = window_pages \<and>
    mm_paging_map s 0x1000 (paddr_at 4096) PGPERM_KRW = Some (True, s')"
proof -
  obtain s where s: "paging_inv s {2147487744, 2147491840, 2147495936}" "mapping s = Map.empty" "large s = window_pages"
    using example_paging_state by blast
  then show ?thesis
    using mm_paging_map_cases [OF s(1) walkable_example(1) window_small_page [OF s(3) walkable_example(2)]
        walkable_example(3), of PGPERM_KRW] by auto
qed

text \<open>In the mapped state a store of the kernel goes through, a fetch and a load of user mode fault.\<close>

lemma mapped_page_translates_witness:
  "\<exists>s. sv39_access (mem_of s) (root s) 0x1234 Store False = Some (4096 + 0x234) \<and>
     sv39_access (mem_of s) (root s) 0x1234 Fetch False = None \<and> sv39_access (mem_of s) (root s) 0x1234 Load True = None"
proof -
  obtain s s' where s: "paging_inv s {2147487744, 2147491840, 2147495936}" "mapping s (indices 0x1000) = None"
    "large s = window_pages" "mm_paging_map s 0x1000 (paddr_at 4096) PGPERM_KRW = Some (True, s')"
    using example_mapped_state by blast
  have "indices 0x1234 = indices 0x1000" "sv39_canonical 0x1234" by code_simp+
  then show ?thesis
    using mapped_page_translates [OF s(1) walkable_example(1) window_small_page [OF s(3) walkable_example(2)]
        walkable_example(3) s(2,4), where va' = "0x1234"]
    by (intro exI [of _ s']) (simp add: permits_def)
qed

text \<open>
  The check of the address keeps bits 39 to 63 equal, but an Sv39 address must also
  agree with them in bit 38.  The lower half of the address space is therefore twice as
  large for the code as for the hardware: 0x4000000000, which the hardware rejects,
  passes, and selects the same entries as 0xffffffc000000000.
\<close>

lemma noncanonical_address_is_walkable:
  "walkable 0x4000000000" "\<not> sv39_canonical 0x4000000000" "indices 0x4000000000 = indices 0xffffffc000000000"
  by code_simp+

end
