(* ===== verification/Treap.thy ===== *)
theory Treap
  imports Prelude "HOL-Library.Tree" "HOL-Library.Stream"
begin

text \<open>
  The treaps of \<^verbatim>\<open>mm/virtual_alloc.c\<close>: trees linked by parent and child pointers
  through the \<^verbatim>\<open>struct treap_head\<close>s inside the VMAs.  The arrays \<^verbatim>\<open>vma->treaps[2]\<close>
  and \<^verbatim>\<open>allocator->roots[2]\<close> are read by columns: a \<open>treap_store\<close> holds, for one
  \<^verbatim>\<open>enum which_treap\<close>, the head of every VMA and the root pointer.  Draws of
  \<^verbatim>\<open>random_u32\<close> are the elements of a stream.
\<close>

type_synonym vptr = nat

datatype which_child = LEFT_CHILD | RIGHT_CHILD

text \<open>The expression \<^verbatim>\<open>!which_child\<close>.\<close>

fun other :: "which_child \<Rightarrow> which_child" where
  "other LEFT_CHILD = RIGHT_CHILD"
| "other RIGHT_CHILD = LEFT_CHILD"

record treap_head =
  tvalue :: u32
  which_child :: which_child
  priority :: "31 word"
  parent :: "vptr option"
  children :: "which_child \<Rightarrow> vptr option"

record treap_store =
  heads :: "vptr \<rightharpoonup> treap_head"
  treap_root :: "vptr option"

definition modify :: "treap_store \<Rightarrow> vptr \<Rightarrow> (treap_head \<Rightarrow> treap_head) \<Rightarrow> treap_store option" where
  "modify s v f = do { n \<leftarrow> heads s v; Some (s\<lparr>heads := (heads s)(v \<mapsto> f n)\<rparr>) }"

definition set_child :: "treap_store \<Rightarrow> vptr \<Rightarrow> which_child \<Rightarrow> vptr option \<Rightarrow> treap_store option" where
  "set_child s v d q = modify s v (\<lambda>n. n\<lparr>children := (children n)(d := q)\<rparr>)"

definition set_parent :: "treap_store \<Rightarrow> vptr \<Rightarrow> vptr option \<Rightarrow> treap_store option" where
  "set_parent s v p = modify s v (\<lambda>n. n\<lparr>parent := p\<rparr>)"

definition set_which :: "treap_store \<Rightarrow> vptr \<Rightarrow> which_child \<Rightarrow> treap_store option" where
  "set_which s v d = modify s v (\<lambda>n. n\<lparr>which_child := d\<rparr>)"

definition treap_init :: "u32 \<Rightarrow> treap_head" where
  "treap_init v = \<lparr>tvalue = v, which_child = LEFT_CHILD, priority = 0, parent = None,
     children = (\<lambda>_. None)\<rparr>"

definition treap_rotate :: "treap_store \<Rightarrow> vptr \<Rightarrow> which_child \<Rightarrow> treap_store option" where
  "treap_rotate s d_b side = do {
     d_b_treap \<leftarrow> heads s d_b;
     b_d \<leftarrow> children d_b_treap side;
     b_d_treap \<leftarrow> heads s b_d;
     let p = parent d_b_treap;
     let c = children b_d_treap (other side);
     s \<leftarrow> set_child s d_b side c;
     s \<leftarrow> (case c of None \<Rightarrow> Some s
       | Some c \<Rightarrow> do { s \<leftarrow> set_parent s c (Some d_b); set_which s c side });
     s \<leftarrow> set_child s b_d (other side) (Some d_b);
     s \<leftarrow> set_parent s b_d p;
     d_b_treap \<leftarrow> heads s d_b;
     s \<leftarrow> set_which s b_d (which_child d_b_treap);
     s \<leftarrow> set_parent s d_b (Some b_d);
     s \<leftarrow> set_which s d_b (other side);
     b_d_treap \<leftarrow> heads s b_d;
     case p of Some p \<Rightarrow> set_child s p (which_child b_d_treap) (Some b_d)
     | None \<Rightarrow> Some (s\<lparr>treap_root := Some b_d\<rparr>)
   }"

text \<open>The three loops of \<^verbatim>\<open>treap_insert\<close>: draw, descend, restore the heap order.\<close>

partial_function (option) random_nonzero :: "u32 stream \<Rightarrow> (u32 \<times> u32 stream) option" where
  "random_nonzero rs = (if shd rs = 0 then random_nonzero (stl rs) else Some (shd rs, stl rs))"

partial_function (option) find_leaf ::
    "treap_store \<Rightarrow> u32 \<Rightarrow> vptr \<Rightarrow> (vptr \<times> which_child) option" where
  "find_leaf s v up = do {
     parent_treap \<leftarrow> heads s up;
     let side = (if v \<le> tvalue parent_treap then LEFT_CHILD else RIGHT_CHILD);
     case children parent_treap side of None \<Rightarrow> Some (up, side)
     | Some q \<Rightarrow> find_leaf s v q
   }"

partial_function (option) sift_up ::
    "treap_store \<Rightarrow> vptr \<Rightarrow> vptr \<Rightarrow> which_child \<Rightarrow> treap_store option" where
  "sift_up s vma up side = do {
     parent_treap \<leftarrow> heads s up;
     treap \<leftarrow> heads s vma;
     if priority treap \<le> priority parent_treap then Some s
     else do {
       s \<leftarrow> treap_rotate s up side;
       treap \<leftarrow> heads s vma;
       case parent treap of None \<Rightarrow> Some s
       | Some q \<Rightarrow> sift_up s vma q (which_child treap)
     }
   }"

definition treap_insert ::
    "treap_store \<Rightarrow> vptr \<Rightarrow> u32 stream \<Rightarrow> (treap_store \<times> u32 stream) option" where
  "treap_insert s vma rs = do {
     treap \<leftarrow> heads s vma;
     assert_that (which_child treap = LEFT_CHILD \<and> priority treap = 0 \<and> parent treap = None \<and>
       children treap LEFT_CHILD = None \<and> children treap RIGHT_CHILD = None);
     (draw, rs) \<leftarrow> random_nonzero rs;
     s \<leftarrow> set_which s vma LEFT_CHILD;
     s \<leftarrow> modify s vma (\<lambda>n. n\<lparr>priority := ucast (draw AND 0x7fffffff)\<rparr>);
     case treap_root s of None \<Rightarrow> Some (s\<lparr>treap_root := Some vma\<rparr>, rs)
     | Some up \<Rightarrow> do {
         (up, side) \<leftarrow> find_leaf s (tvalue treap) up;
         s \<leftarrow> set_child s up side (Some vma);
         s \<leftarrow> set_which s vma side;
         s \<leftarrow> set_parent s vma (Some up);
         s \<leftarrow> sift_up s vma up side;
         Some (s, rs)
       }
   }"

text \<open>The loop of \<^verbatim>\<open>treap_remove\<close> that makes the node a leaf.\<close>

partial_function (option) sink :: "treap_store \<Rightarrow> vptr \<Rightarrow> treap_store option" where
  "sink s vma = do {
     treap \<leftarrow> heads s vma;
     if children treap LEFT_CHILD \<noteq> None then do { s \<leftarrow> treap_rotate s vma LEFT_CHILD; sink s vma }
     else if children treap RIGHT_CHILD \<noteq> None then do { s \<leftarrow> treap_rotate s vma RIGHT_CHILD; sink s vma }
     else Some s
   }"

definition treap_remove :: "treap_store \<Rightarrow> vptr \<Rightarrow> treap_store option" where
  "treap_remove s vma = do {
     treap \<leftarrow> heads s vma;
     assert_that (priority treap \<noteq> 0);
     s \<leftarrow> modify s vma (\<lambda>n. n\<lparr>priority := 0\<rparr>);
     s \<leftarrow> sink s vma;
     treap \<leftarrow> heads s vma;
     s \<leftarrow> (case parent treap of
         Some p \<Rightarrow> do {
           parent_treap \<leftarrow> heads s p;
           assert_that (children parent_treap (which_child treap) = Some vma);
           set_child s p (which_child treap) None
         }
       | None \<Rightarrow> do {
           assert_that (treap_root s = Some vma);
           Some (s\<lparr>treap_root := None\<rparr>)
         });
     treap \<leftarrow> heads s vma;
     modify s vma (\<lambda>_. treap_init (tvalue treap))
   }"

section \<open>The tree a store links\<close>

text \<open>\<open>nd d x a b\<close>: the node \<open>x\<close> with \<open>a\<close> on side \<open>d\<close> and \<open>b\<close> on the other.\<close>

fun nd :: "which_child \<Rightarrow> vptr \<Rightarrow> vptr tree \<Rightarrow> vptr tree \<Rightarrow> vptr tree" where
  "nd LEFT_CHILD x a b = \<langle>a, x, b\<rangle>"
| "nd RIGHT_CHILD x a b = \<langle>b, x, a\<rangle>"

fun root_of :: "vptr tree \<Rightarrow> vptr option" where
  "root_of \<langle>\<rangle> = None"
| "root_of \<langle>l, x, r\<rangle> = Some x"

fun tree_rep :: "(vptr \<rightharpoonup> treap_head) \<Rightarrow> vptr option \<Rightarrow> which_child \<Rightarrow> vptr tree \<Rightarrow> bool" where
  "tree_rep h p d \<langle>\<rangle> \<longleftrightarrow> True"
| "tree_rep h p d \<langle>l, x, r\<rangle> \<longleftrightarrow> (case h x of None \<Rightarrow> False | Some n \<Rightarrow>
     parent n = p \<and> which_child n = d \<and>
     children n LEFT_CHILD = root_of l \<and> children n RIGHT_CHILD = root_of r) \<and>
     tree_rep h (Some x) LEFT_CHILD l \<and> tree_rep h (Some x) RIGHT_CHILD r"

definition store_rep :: "treap_store \<Rightarrow> vptr tree \<Rightarrow> bool" where
  "store_rep s t \<longleftrightarrow> tree_rep (heads s) None LEFT_CHILD t \<and> treap_root s = root_of t \<and> distinct (inorder t)"

text \<open>
  A tree with a hole: the way up from the hole, each step with the side the hole is on,
  the node, and the tree on the node's other side.
\<close>

type_synonym ctx = "(which_child \<times> vptr \<times> vptr tree) list"

fun plug :: "ctx \<Rightarrow> vptr tree \<Rightarrow> vptr tree" where
  "plug [] t = t"
| "plug ((d, x, b) # c) t = plug c (nd d x t b)"

fun ctx_parent :: "ctx \<Rightarrow> vptr option" where
  "ctx_parent [] = None"
| "ctx_parent ((d, x, b) # c) = Some x"

fun ctx_side :: "ctx \<Rightarrow> which_child" where
  "ctx_side [] = LEFT_CHILD"
| "ctx_side ((d, x, b) # c) = d"

fun ctx_set :: "ctx \<Rightarrow> vptr set" where
  "ctx_set [] = {}"
| "ctx_set ((d, x, b) # c) = insert x (set_tree b \<union> ctx_set c)"

fun ctx_rep :: "(vptr \<rightharpoonup> treap_head) \<Rightarrow> vptr option \<Rightarrow> ctx \<Rightarrow> vptr option \<Rightarrow> bool" where
  "ctx_rep h r [] q \<longleftrightarrow> r = q"
| "ctx_rep h r ((d, x, b) # c) q \<longleftrightarrow> (case h x of None \<Rightarrow> False | Some n \<Rightarrow>
     parent n = ctx_parent c \<and> which_child n = ctx_side c \<and>
     children n d = q \<and> children n (other d) = root_of b) \<and>
     tree_rep h (Some x) (other d) b \<and> ctx_rep h r c (Some x)"

fun before :: "ctx \<Rightarrow> vptr list" where
  "before [] = []"
| "before ((LEFT_CHILD, x, b) # c) = before c"
| "before ((RIGHT_CHILD, x, b) # c) = before c @ inorder b @ [x]"

fun after :: "ctx \<Rightarrow> vptr list" where
  "after [] = []"
| "after ((LEFT_CHILD, x, b) # c) = x # inorder b @ after c"
| "after ((RIGHT_CHILD, x, b) # c) = after c"

lemma other_simps [simp]: "other (other d) = d" "other d \<noteq> d" "d \<noteq> other d"
  by (cases d; simp)+

lemma nd_simps [simp]: "set_tree (nd d x a b) = insert x (set_tree a \<union> set_tree b)"
  "root_of (nd d x a b) = Some x" "size (nd d x a b) = Suc (size a + size b)"
  by (cases d; auto)+

lemma tree_rep_nd [simp]: "tree_rep h p e (nd d x a b) \<longleftrightarrow> (case h x of None \<Rightarrow> False | Some n \<Rightarrow>
     parent n = p \<and> which_child n = e \<and> children n d = root_of a \<and> children n (other d) = root_of b) \<and>
     tree_rep h (Some x) d a \<and> tree_rep h (Some x) (other d) b"
  by (cases d) (auto split: option.splits)

lemma inorder_plug: "inorder (plug c t) = before c @ inorder t @ after c"
proof (induction c arbitrary: t)
  case (Cons f c)
  obtain d x b where "f = (d, x, b)" by (cases f)
  then show ?case using Cons by (cases d) simp_all
qed simp

lemma ctx_set_eq: "ctx_set c = set (before c) \<union> set (after c)"
proof (induction c)
  case (Cons f c)
  obtain d x b where "f = (d, x, b)" by (cases f)
  then show ?case using Cons by (cases d) auto
qed simp

lemma plug_rep: "tree_rep h None LEFT_CHILD (plug c t) \<and> r = root_of (plug c t) \<longleftrightarrow>
    ctx_rep h r c (root_of t) \<and> tree_rep h (ctx_parent c) (ctx_side c) t"
proof (induction c arbitrary: t)
  case (Cons f c)
  obtain d x b where "f = (d, x, b)" by (cases f)
  then show ?case using Cons by (auto split: option.splits)
qed auto

lemma tree_rep_cong: "(\<And>x. x \<in> set_tree t \<Longrightarrow> h' x = h x) \<Longrightarrow> tree_rep h' p d t = tree_rep h p d t"
  by (induction t arbitrary: p d) simp_all

lemma ctx_rep_cong: "(\<And>x. x \<in> ctx_set c \<Longrightarrow> h' x = h x) \<Longrightarrow> ctx_rep h' r c q = ctx_rep h r c q"
proof (induction c arbitrary: q)
  case (Cons f c)
  obtain d x b where f: "f = (d, x, b)" by (cases f)
  have "tree_rep h' p e b = tree_rep h p e b" for p e
    using Cons.prems f by (intro tree_rep_cong) simp
  then show ?case using Cons f by simp
qed simp

lemma store_rep_plug: "store_rep s (plug c t) \<longleftrightarrow>
    ctx_rep (heads s) (treap_root s) c (root_of t) \<and>
    tree_rep (heads s) (ctx_parent c) (ctx_side c) t \<and> distinct (before c @ inorder t @ after c)"
  using plug_rep [of "heads s" c t "treap_root s"] by (auto simp: store_rep_def inorder_plug)

section \<open>Rotation\<close>

text \<open>What no operation changes in passing: the values and priorities.\<close>

definition keys :: "treap_store \<Rightarrow> vptr \<rightharpoonup> u32 \<times> 31 word" where
  "keys s v = map_option (\<lambda>n. (tvalue n, priority n)) (heads s v)"

lemma modify_Some [simp]:
  "heads s v = Some n \<Longrightarrow> modify s v f = Some (s\<lparr>heads := (heads s)(v \<mapsto> f n)\<rparr>)"
  by (simp add: modify_def)

text \<open>A subtree under a new parent.\<close>

lemma tree_rep_reparent:
  assumes "tree_rep h p d t" "distinct (inorder t)" "root_of t = Some x" "h x = Some n"
  shows "tree_rep (h(x \<mapsto> n\<lparr>parent := q, which_child := e\<rparr>)) q e t"
proof (cases t)
  case (Node l y r)
  then have y: "y = x" using assms(3) by simp
  have "tree_rep (h(x \<mapsto> n\<lparr>parent := q, which_child := e\<rparr>)) (Some x) d' u = tree_rep h (Some x) d' u"
    if "u = l \<or> u = r" for d' u
    using assms(2) Node y that by (intro tree_rep_cong) auto
  then show ?thesis using assms Node y by simp
qed (use assms in simp)

lemma treap_rotate_heads:
  fixes s :: treap_store
  assumes d: "heads s D = Some ndD" and ch: "children ndD side = Some B" and b: "heads s B = Some nb" "B \<noteq> D"
    and cc: "children nb (other side) = co" "\<And>x. co = Some x \<Longrightarrow> x \<noteq> B \<and> x \<noteq> D \<and> heads s x \<noteq> None"
    and p: "\<And>x. parent ndD = Some x \<Longrightarrow> x \<noteq> B \<and> x \<noteq> D \<and> heads s x \<noteq> None \<and> co \<noteq> Some x"
  shows "treap_rotate s D side = Some \<lparr>
     heads = (\<lambda>v.
       if v = D then Some (ndD\<lparr>children := (children ndD)(side := co), parent := Some B, which_child := other side\<rparr>)
       else if v = B then Some (nb\<lparr>children := (children nb)(other side := Some D), parent := parent ndD, which_child := which_child ndD\<rparr>)
       else if co = Some v then map_option (\<lambda>n. n\<lparr>parent := Some D, which_child := side\<rparr>) (heads s v)
       else if parent ndD = Some v then map_option (\<lambda>n. n\<lparr>children := (children n)(which_child ndD := Some B)\<rparr>) (heads s v)
       else heads s v),
     treap_root = (if parent ndD = None then Some B else treap_root s)\<rparr>"
  proof (cases s)
  case (fields h r)
  note defs = treap_rotate_def set_child_def set_parent_def set_which_def Let_def
  show ?thesis
  proof (cases co)
    case None
    show ?thesis
    proof (cases "parent ndD")
      case pN: None
      show ?thesis using d ch b cc(1) None pN
        by (simp add: defs fields) (rule ext, auto simp: fields)
    next
      case (Some q)
      then obtain nq where "h q = Some nq" "q \<noteq> B" "q \<noteq> D" using p fields by auto
      then show ?thesis using d ch b cc(1) None Some
        by (simp add: defs fields) (rule ext, auto simp: fields)
    qed
  next
    case (Some x)
    then obtain nx where x: "h x = Some nx" "x \<noteq> B" "x \<noteq> D" using cc(2) fields by auto
    show ?thesis
    proof (cases "parent ndD")
      case None
      show ?thesis using d ch b cc(1) Some None x
        by (simp add: defs fields) (rule ext, auto simp: fields)
    next
      case (Some q)
      then obtain nq where "h q = Some nq" "q \<noteq> B" "q \<noteq> D" "q \<noteq> x" using p fields \<open>co = Some x\<close> by auto
      then show ?thesis using d ch b cc(1) Some x \<open>co = Some x\<close>
        by (simp add: defs fields) (rule ext, auto simp: fields)
    qed
  qed
qed

lemma root_of_mem: "root_of t = Some x \<Longrightarrow> x \<in> set_tree t"
  by (cases t) auto

lemma tree_rep_head: "tree_rep h p d t \<Longrightarrow> x \<in> set_tree t \<Longrightarrow> h x \<noteq> None"
  by (induction t arbitrary: p d) (auto split: option.splits)

lemma ctx_parent_mem: "ctx_parent c = Some x \<Longrightarrow> x \<in> ctx_set c"
  by (cases c) auto

lemma ctx_head: "ctx_rep h r c q \<Longrightarrow> ctx_parent c = Some x \<Longrightarrow> h x \<noteq> None"
  by (cases c) (auto split: option.splits)

text \<open>
  A rotation at a node \<open>D\<close> with child \<open>B\<close> anywhere in the tree; values, priorities and
  everything outside the tree stay as they are.
\<close>

lemma treap_rotate_spec:
  assumes rep: "store_rep s (plug c (nd d D (nd d B a u) e))"
  shows "\<exists>s'. treap_rotate s D d = Some s' \<and> store_rep s' (plug c (nd d B a (nd (other d) D e u))) \<and>
    keys s' = keys s \<and> (\<forall>v. v \<notin> set_tree (plug c (nd d D (nd d B a u) e)) \<longrightarrow> heads s' v = heads s v)"
proof -
  let ?h = "heads s"
  have ctx: "ctx_rep ?h (treap_root s) c (Some D)"
    and t: "tree_rep ?h (ctx_parent c) (ctx_side c) (nd d D (nd d B a u) e)"
    and dist: "distinct (before c @ inorder (nd d D (nd d B a u) e) @ after c)"
    using rep by (simp_all add: store_rep_plug)
  obtain n where n: "?h D = Some n" "parent n = ctx_parent c" "which_child n = ctx_side c"
    "children n d = Some B" "children n (other d) = root_of e" "tree_rep ?h (Some D) (other d) e"
    using t by (auto split: option.splits)
  obtain m where m: "?h B = Some m" "parent m = Some D" "which_child m = d"
    "children m d = root_of a" "children m (other d) = root_of u" "tree_rep ?h (Some B) d a"
    "tree_rep ?h (Some B) (other d) u"
    using t n(1) by (auto split: option.splits)
  have cs: "ctx_set c \<inter> set_tree (nd d D (nd d B a u) e) = {}" "distinct (inorder (nd d D (nd d B a u) e))"
    using dist by (auto simp: ctx_set_eq)
  have ne: "B \<noteq> D" "set_tree a \<inter> {B, D} = {}" "set_tree u \<inter> {B, D} = {}" "set_tree e \<inter> {B, D} = {}"
    "set_tree a \<inter> set_tree u = {}" "set_tree a \<inter> set_tree e = {}" "set_tree u \<inter> set_tree e = {}"
    "distinct (inorder u)"
    using cs(2) by (cases d; auto)+
  have up: "x \<in> ctx_set c" "?h x \<noteq> None" if "parent n = Some x" for x
    using that n(2) ctx_parent_mem ctx_head [OF ctx] by auto
  have rc: "x \<in> set_tree u" "?h x \<noteq> None" if "root_of u = Some x" for x
    using root_of_mem [OF that] tree_rep_head [OF m(7)] by auto
  define h' where "h' = (\<lambda>v.
       if v = D then Some (n\<lparr>children := (children n)(d := root_of u), parent := Some B, which_child := other d\<rparr>)
       else if v = B then Some (m\<lparr>children := (children m)(other d := Some D), parent := parent n, which_child := which_child n\<rparr>)
       else if root_of u = Some v then map_option (\<lambda>n. n\<lparr>parent := Some D, which_child := d\<rparr>) (?h v)
       else if parent n = Some v then map_option (\<lambda>p. p\<lparr>children := (children p)(which_child n := Some B)\<rparr>) (?h v)
       else ?h v)"
  define s' where "s' = \<lparr>heads = h', treap_root = (if parent n = None then Some B else treap_root s)\<rparr>"
  have run: "treap_rotate s D d = Some s'"
    unfolding s'_def h'_def
    using up rc cs(1) ne by (intro treap_rotate_heads [OF n(1,4) m(1) ne(1) m(5)]) auto
  have same: "h' x = ?h x" if "x \<noteq> D" "x \<noteq> B" "root_of u \<noteq> Some x" "ctx_parent c \<noteq> Some x" for x
    using that n(2) by (simp add: h'_def)
  have ra: "tree_rep h' (Some B) d a" and re: "tree_rep h' (Some D) (other d) e"
  proof -
    have "h' x = ?h x" if "x \<in> set_tree a \<union> set_tree e" for x
      using that ne cs(1) rc(1) ctx_parent_mem by (intro same) fastforce+
    then show "tree_rep h' (Some B) d a" "tree_rep h' (Some D) (other d) e"
      using m(6) n(6) tree_rep_cong [of a h' ?h] tree_rep_cong [of e h' ?h] by auto
  qed
  have ru: "tree_rep h' (Some D) d u"
  proof (cases "root_of u")
    case None
    then show ?thesis by (cases u) simp_all
  next
    case (Some x)
    then obtain nx where nx: "?h x = Some nx" using rc(2) by blast
    have "tree_rep (?h(x \<mapsto> nx\<lparr>parent := Some D, which_child := d\<rparr>)) (Some D) d u"
      by (rule tree_rep_reparent [OF m(7) ne(8) Some nx])
    moreover have "h' y = (?h(x \<mapsto> nx\<lparr>parent := Some D, which_child := d\<rparr>)) y" if "y \<in> set_tree u" for y
    proof (cases "y = x")
      case True
      then show ?thesis using that Some nx ne(3) by (auto simp: h'_def)
    next
      case False
      have "y \<notin> ctx_set c" using that cs(1) by auto
      then have "h' y = ?h y" using that False Some ne(3) ctx_parent_mem by (intro same) auto
      then show ?thesis using False by simp
    qed
    ultimately show ?thesis using tree_rep_cong by blast
  qed
  have rctx: "ctx_rep h' (treap_root s') c (Some B)"
  proof (cases c)
    case Nil
    then show ?thesis using n(2) by (simp add: s'_def)
  next
    case (Cons f c')
    obtain d2 p b2 where f: "f = (d2, p, b2)" by (cases f)
    have dc: "p \<notin> set_tree b2" "p \<notin> ctx_set c'" using dist Cons f by (cases d2; auto simp: ctx_set_eq)+
    have out: "h' x = ?h x" if "x \<in> set_tree b2 \<union> ctx_set c'" for x
      using that dc cs(1) rc(1) Cons f by (intro same) auto
    then have "tree_rep h' q e' b2 = tree_rep ?h q e' b2" "ctx_rep h' r c' q = ctx_rep ?h r c' q" for q e' r
      by (intro tree_rep_cong ctx_rep_cong; simp)+
    moreover have "h' p = map_option (\<lambda>p. p\<lparr>children := (children p)(d2 := Some B)\<rparr>) (?h p)"
      using n(2,3) cs(1) rc(1) Cons f by (auto simp: h'_def)
    moreover have "treap_root s' = treap_root s" using n(2) Cons f by (simp add: s'_def)
    ultimately show ?thesis using ctx Cons f by (auto split: option.splits)
  qed
  have "h' B = Some (m\<lparr>children := (children m)(other d := Some D), parent := ctx_parent c, which_child := ctx_side c\<rparr>)"
    "h' D = Some (n\<lparr>children := (children n)(d := root_of u), parent := Some B, which_child := other d\<rparr>)"
    using ne(1) n(2,3) by (simp_all add: h'_def)
  then have "tree_rep h' (ctx_parent c) (ctx_side c) (nd d B a (nd (other d) D e u))"
    using ra re ru n(5) m(4) by simp
  moreover have "distinct (before c @ inorder (nd d B a (nd (other d) D e u)) @ after c)"
    using dist by (cases d) auto
  ultimately have "store_rep s' (plug c (nd d B a (nd (other d) D e u)))"
    using rctx by (simp add: store_rep_plug) (simp add: s'_def)
  moreover have "keys s' = keys s"
    using n(1) m(1) by (auto simp: keys_def s'_def h'_def fun_eq_iff option.map_comp comp_def)
  moreover have "heads s' v = heads s v" if "v \<notin> set_tree (plug c (nd d D (nd d B a u) e))" for v
  proof -
    have "v \<notin> ctx_set c" "v \<notin> set_tree (nd d D (nd d B a u) e)"
      using that by (auto simp: ctx_set_eq set_inorder [symmetric] inorder_plug simp del: set_inorder)
    then show ?thesis using same [of v] rc(1) ctx_parent_mem by (auto simp: s'_def)
  qed
  ultimately show ?thesis using run by blast
qed

section \<open>The heap order\<close>

fun heap_by :: "(vptr \<Rightarrow> 31 word) \<Rightarrow> vptr tree \<Rightarrow> bool" where
  "heap_by pr \<langle>\<rangle> \<longleftrightarrow> True"
| "heap_by pr \<langle>l, x, r\<rangle> \<longleftrightarrow>
     (\<forall>z \<in> set_tree l \<union> set_tree r. pr z \<le> pr x) \<and> heap_by pr l \<and> heap_by pr r"

lemma heap_by_nd [simp]: "heap_by pr (nd d x a b) \<longleftrightarrow>
    (\<forall>z \<in> set_tree a \<union> set_tree b. pr z \<le> pr x) \<and> heap_by pr a \<and> heap_by pr b"
  by (cases d) auto

definition path :: "ctx \<Rightarrow> vptr set" where
  "path c = (\<lambda>(d, x, b). x) ` set c"

lemma path_simps [simp]: "path [] = {}" "path ((d, x, b) # c) = insert x (path c)"
  by (simp_all add: path_def)

lemma heap_by_plug: "heap_by pr (plug c t) \<longleftrightarrow>
    heap_by pr (plug c \<langle>\<rangle>) \<and> heap_by pr t \<and> (\<forall>y \<in> path c. \<forall>z \<in> set_tree t. pr z \<le> pr y)"
proof (induction c arbitrary: t)
  case (Cons f c)
  obtain d x b where f: "f = (d, x, b)" by (cases f)
  show ?case
    using Cons.IH [of "nd d x t b"] Cons.IH [of "nd d x \<langle>\<rangle> b"] f by auto
qed simp

section \<open>Restoring the heap order\<close>

definition prio :: "treap_store \<Rightarrow> vptr \<Rightarrow> 31 word" where
  "prio s x = (case keys s x of None \<Rightarrow> 0 | Some k \<Rightarrow> snd k)"

definition val_of :: "treap_store \<Rightarrow> vptr \<Rightarrow> u32" where
  "val_of s x = (case keys s x of None \<Rightarrow> 0 | Some k \<Rightarrow> fst k)"

lemma prio_head: "heads s x = Some n \<Longrightarrow> prio s x = priority n" "heads s x = Some n \<Longrightarrow> val_of s x = tvalue n"
  by (simp_all add: prio_def val_of_def keys_def)

lemma keys_cong: "keys s' = keys s \<Longrightarrow> prio s' = prio s \<and> val_of s' = val_of s"
  by (simp add: prio_def val_of_def fun_eq_iff)

lemma set_plug: "set_tree (plug c t) = set (before c) \<union> set_tree t \<union> set (after c)"
  unfolding set_inorder [symmetric] inorder_plug by auto

lemma store_rep_node:
  assumes "store_rep s (plug c \<langle>l, x, r\<rangle>)"
  obtains n where "heads s x = Some n" "parent n = ctx_parent c" "which_child n = ctx_side c"
    "children n LEFT_CHILD = root_of l" "children n RIGHT_CHILD = root_of r"
  using assms by (auto simp: store_rep_plug split: option.splits)

lemma store_rep_ctx_node:
  assumes "store_rep s (plug ((d, x, b) # c) t)"
  obtains n where "heads s x = Some n" "children n d = root_of t"
  using assms by (cases d) (auto simp: store_rep_plug split: option.splits)

lemma nd_cases: obtains l r where "nd d x a b = \<langle>l, x, r\<rangle>"
  by (cases d) auto

lemma node_nd: obtains a b where "\<langle>l, x, r\<rangle> = nd d x a b"
  by (cases d) (metis nd.simps)+

text \<open>The heap order but for the edge above \<open>x\<close>, the root of the tree in the hole.\<close>

definition almost_heap :: "(vptr \<Rightarrow> 31 word) \<Rightarrow> vptr \<Rightarrow> ctx \<Rightarrow> vptr tree \<Rightarrow> bool" where
  "almost_heap pr x c t \<longleftrightarrow> heap_by pr (plug c \<langle>\<rangle>) \<and> heap_by pr t \<and>
     (\<forall>y \<in> path c. \<forall>z \<in> set_tree t - {x}. pr z \<le> pr y)"

lemma almost_heap_rotated:
  assumes h: "almost_heap pr x ((d, q, b) # c) (nd d x a u)"
    and x: "x \<notin> set_tree a" "x \<notin> set_tree u" "pr q \<le> pr x"
  shows "almost_heap pr x c (nd d x a (nd (other d) q b u))"
proof -
  have h1: "heap_by pr (plug c (nd d q \<langle>\<rangle> b))" "heap_by pr (nd d x a u)"
    "\<forall>y \<in> path ((d, q, b) # c). \<forall>z \<in> set_tree (nd d x a u) - {x}. pr z \<le> pr y"
    using h by (simp_all add: almost_heap_def)
  have c: "heap_by pr (plug c \<langle>\<rangle>)" using h1(1) heap_by_plug by blast
  have q: "\<forall>z \<in> set_tree b. pr z \<le> pr q" "heap_by pr b" "\<forall>y \<in> path c. pr q \<le> pr y \<and> (\<forall>z \<in> set_tree b. pr z \<le> pr y)"
    using h1(1) heap_by_plug [of pr c "nd d q \<langle>\<rangle> b"] by auto
  have "\<forall>z \<in> set_tree u. pr z \<le> pr q" using h1(3) x(2) by auto
  then have "heap_by pr (nd d x a (nd (other d) q b u))"
    using q h1(2) x(3) by (auto intro: order_trans)
  moreover have "\<forall>y \<in> path c. \<forall>z \<in> set_tree (nd d x a (nd (other d) q b u)) - {x}. pr z \<le> pr y"
    using q h1(3) by auto
  ultimately show ?thesis using c by (simp add: almost_heap_def)
qed

lemma almost_heap_stop:
  assumes "almost_heap pr x ((d, q, b) # c) t" "pr x \<le> pr q"
  shows "heap_by pr (plug ((d, q, b) # c) t)"
proof -
  have "\<forall>y \<in> path c. pr q \<le> pr y"
    using assms(1) heap_by_plug [of pr c "nd d q \<langle>\<rangle> b"] by (simp add: almost_heap_def)
  then have "\<forall>y \<in> path ((d, q, b) # c). pr x \<le> pr y" using assms(2) by (auto intro: order_trans)
  then have "\<forall>y \<in> path ((d, q, b) # c). \<forall>z \<in> set_tree t. pr z \<le> pr y"
    using assms(1) unfolding almost_heap_def by blast
  then show ?thesis using assms(1) heap_by_plug unfolding almost_heap_def by blast
qed

text \<open>One round of the loop: it stops, or rotates and goes on one level up.\<close>

lemma sift_up_step:
  assumes rep: "store_rep s (plug ((d, q, b) # c) t)" and t: "root_of t = Some x"
  obtains (stop) "sift_up s x q d = Some s"
      "almost_heap (prio s) x ((d, q, b) # c) t \<Longrightarrow> heap_by (prio s) (plug ((d, q, b) # c) t)"
  | (up) s1 t1 where "root_of t1 = Some x" "store_rep s1 (plug c t1)" "keys s1 = keys s"
      "inorder (plug c t1) = inorder (plug ((d, q, b) # c) t)"
      "sift_up s x q d = (case ctx_parent c of None \<Rightarrow> Some s1 | Some p \<Rightarrow> sift_up s1 x p (ctx_side c))"
      "\<forall>v. v \<notin> set_tree (plug c t1) \<longrightarrow> heads s1 v = heads s v"
      "almost_heap (prio s) x ((d, q, b) # c) t \<Longrightarrow> almost_heap (prio s) x c t1"
proof -
  obtain l r where "t = \<langle>l, x, r\<rangle>" using t by (cases t) auto
  then obtain a u where tn: "t = nd d x a u" using node_nd by metis
  obtain nq where nq: "heads s q = Some nq" "children nq d = Some x"
    using store_rep_ctx_node [OF rep] t by metis
  obtain nx where nx: "heads s x = Some nx"
    using store_rep_node [of s "(d, q, b) # c" l x r] rep \<open>t = \<langle>l, x, r\<rangle>\<close> by metis
  have dist: "x \<notin> set_tree a" "x \<notin> set_tree u"
    using rep tn by (cases d; auto simp: store_rep_plug)+
  have pr: "prio s q = priority nq" "prio s x = priority nx" using prio_head(1) nq(1) nx by auto
  show thesis
  proof (cases "priority nx \<le> priority nq")
    case True
    then have "sift_up s x q d = Some s" using nq nx by (subst sift_up.simps) simp
    then show thesis using stop almost_heap_stop True pr by metis
  next
    case False
    let ?t1 = "nd d x a (nd (other d) q b u)"
    have rep': "store_rep s (plug c (nd d q (nd d x a u) b))" using rep tn by simp
    from treap_rotate_spec [OF this] obtain s1 where s1: "treap_rotate s q d = Some s1"
      "store_rep s1 (plug c ?t1)" "keys s1 = keys s"
      "\<forall>v. v \<notin> set_tree (plug c (nd d q (nd d x a u) b)) \<longrightarrow> heads s1 v = heads s v" by blast
    obtain l1 r1 where "?t1 = \<langle>l1, x, r1\<rangle>" using nd_cases by blast
    then obtain n1 where n1: "heads s1 x = Some n1" "parent n1 = ctx_parent c" "which_child n1 = ctx_side c"
      using store_rep_node [of s1 c l1 x r1] s1(2) by metis
    have run: "sift_up s x q d = (case ctx_parent c of None \<Rightarrow> Some s1 | Some p \<Rightarrow> sift_up s1 x p (ctx_side c))"
      using False nq(1) nx s1(1) n1 by (subst sift_up.simps) (simp split: option.split)
    have io: "inorder (plug c ?t1) = inorder (plug ((d, q, b) # c) t)"
      by (cases d) (simp_all add: inorder_plug tn)
    then have st: "set_tree (plug c ?t1) = set_tree (plug c (nd d q (nd d x a u) b))"
      unfolding set_inorder [symmetric] tn by simp
    have h: "almost_heap (prio s) x c ?t1" if "almost_heap (prio s) x ((d, q, b) # c) t"
      using almost_heap_rotated [OF that [unfolded tn] dist] False pr by simp
    show thesis
      by (rule up [of ?t1 s1]) (use s1 run io st h in simp_all)
  qed
qed

lemma sift_up_spec:
  assumes "store_rep s (plug ((d, q, b) # c) t)" "root_of t = Some x"
  shows "\<exists>s' t'. sift_up s x q d = Some s' \<and> store_rep s' t' \<and>
    inorder t' = inorder (plug ((d, q, b) # c) t) \<and> keys s' = keys s \<and>
    (\<forall>v. v \<notin> set_tree t' \<longrightarrow> heads s' v = heads s v) \<and>
    (almost_heap (prio s) x ((d, q, b) # c) t \<longrightarrow> heap_by (prio s) t')"
  using assms
proof (induction c arbitrary: s d q b t)
  case (Nil s d q b t)
  then show ?case
  proof (cases rule: sift_up_step)
    case stop
    then show ?thesis using Nil(1) by blast
  next
    case (up s1 t1)
    then show ?thesis by (intro exI [of _ s1] exI [of _ t1]) (simp add: almost_heap_def)
  qed
next
  case (Cons f c s d q b t)
  obtain d2 q2 b2 where f: "f = (d2, q2, b2)" by (cases f)
  from Cons.prems show ?case
  proof (cases rule: sift_up_step)
    case stop
    then show ?thesis using Cons.prems(1) by blast
  next
    case (up s1 t1)
    obtain s' t' where s': "sift_up s1 x q2 d2 = Some s'" "store_rep s' t'"
      "inorder t' = inorder (plug (f # c) t1)" "keys s' = keys s1"
      "\<forall>v. v \<notin> set_tree t' \<longrightarrow> heads s' v = heads s1 v"
      "almost_heap (prio s1) x (f # c) t1 \<longrightarrow> heap_by (prio s1) t'"
      using Cons.IH [of s1 d2 q2 b2 t1] up(1,2) f by auto
    have "set_tree t' = set_tree (plug (f # c) t1)" using s'(3) by (metis set_inorder)
    then show ?thesis
      using s' up f keys_cong [OF up(3)] by (intro exI [of _ s'] exI [of _ t']) simp
  qed
qed

section \<open>Insertion\<close>

lemma find_leaf_spec:
  assumes "store_rep s (plug c t)" "root_of t = Some p" "sorted (map (val_of s) (inorder t))"
  shows "\<exists>q d b c'. find_leaf s v p = Some (q, d) \<and> plug ((d, q, b) # c') \<langle>\<rangle> = plug c t \<and>
    (\<forall>x \<in> set (before ((d, q, b) # c')). x \<in> set (before c) \<or> val_of s x < v) \<and>
    (\<forall>x \<in> set (after ((d, q, b) # c')). x \<in> set (after c) \<or> v \<le> val_of s x)"
  using assms
proof (induction t arbitrary: c p)
  case (Node l y r)
  then have p: "p = y" by simp
  obtain n where n: "heads s y = Some n" "children n LEFT_CHILD = root_of l" "children n RIGHT_CHILD = root_of r"
    using store_rep_node [OF Node.prems(1)] by metis
  note vn = prio_head(2) [OF n(1)]
  show ?case
  proof (cases "v \<le> tvalue n")
    case True
    have big: "\<forall>x \<in> insert y (set_tree r). v \<le> val_of s x"
      using Node.prems(3) True vn by (auto simp: sorted_append)
    show ?thesis
    proof (cases "root_of l")
      case None
      then have "l = \<langle>\<rangle>" by (cases l) auto
      then show ?thesis using n True p big None
        by (intro exI [of _ y] exI [of _ LEFT_CHILD] exI [of _ r] exI [of _ c])
          (auto simp: find_leaf.simps [of s v y])
    next
      case (Some q)
      have run: "find_leaf s v p = find_leaf s v q"
        using n True p Some by (subst find_leaf.simps) simp
      have "store_rep s (plug ((LEFT_CHILD, y, r) # c) l)" "sorted (map (val_of s) (inorder l))"
        using Node.prems by (simp_all add: sorted_append)
      from Node.IH(1) [OF this(1) Some this(2)] show ?thesis unfolding run using big by fastforce
    qed
  next
    case False
    have small: "\<forall>x \<in> insert y (set_tree l). val_of s x < v"
      using Node.prems(3) False vn by (auto simp: sorted_append)
    show ?thesis
    proof (cases "root_of r")
      case None
      then have "r = \<langle>\<rangle>" by (cases r) auto
      then show ?thesis using n False p small None
        by (intro exI [of _ y] exI [of _ RIGHT_CHILD] exI [of _ l] exI [of _ c])
          (auto simp: find_leaf.simps [of s v y])
    next
      case (Some q)
      have run: "find_leaf s v p = find_leaf s v q"
        using n False p Some by (subst find_leaf.simps) simp
      have "store_rep s (plug ((RIGHT_CHILD, y, l) # c) r)" "sorted (map (val_of s) (inorder r))"
        using Node.prems by (simp_all add: sorted_append)
      from Node.IH(2) [OF this(1) Some this(2)] show ?thesis unfolding run using small by fastforce
    qed
  qed
qed simp

text \<open>Linking a new leaf.\<close>

lemma attach_leaf:
  assumes rep: "store_rep s (plug ((d, q, b) # c) \<langle>\<rangle>)" and x: "x \<notin> set_tree (plug ((d, q, b) # c) \<langle>\<rangle>)"
    and n: "heads s x = Some n" "children n LEFT_CHILD = None" "children n RIGHT_CHILD = None"
    and m: "heads s q = Some m"
  shows "store_rep (s\<lparr>heads := (heads s)(q \<mapsto> m\<lparr>children := (children m)(d := Some x)\<rparr>,
      x \<mapsto> n\<lparr>which_child := d, parent := Some q\<rparr>)\<rparr>) (plug ((d, q, b) # c) \<langle>\<langle>\<rangle>, x, \<langle>\<rangle>\<rangle>)"
proof -
  define h' where "h' = (heads s)(q \<mapsto> m\<lparr>children := (children m)(d := Some x)\<rparr>,
      x \<mapsto> n\<lparr>which_child := d, parent := Some q\<rparr>)"
  have rep': "store_rep s (plug c (nd d q \<langle>\<rangle> b))" using rep by simp
  have xs: "x \<noteq> q" "x \<notin> set_tree b" "x \<notin> ctx_set c"
    using x by (cases d; auto simp: set_plug ctx_set_eq simp del: plug.simps(2))+
  have qs: "q \<notin> set_tree b" "q \<notin> ctx_set c" and dist: "distinct (before c @ inorder (nd d q \<langle>\<rangle> b) @ after c)"
    using rep' by (cases d; auto simp: store_rep_plug ctx_set_eq)+
  have b: "tree_rep h' p e b = tree_rep (heads s) p e b" for p e
    using xs qs by (intro tree_rep_cong) (auto simp: h'_def)
  have c: "ctx_rep h' r c p = ctx_rep (heads s) r c p" for r p
    using xs qs by (intro ctx_rep_cong) (auto simp: h'_def)
  have h': "h' q = Some (m\<lparr>children := (children m)(d := Some x)\<rparr>)"
    "h' x = Some (n\<lparr>which_child := d, parent := Some q\<rparr>)" using xs(1) by (simp_all add: h'_def)
  have old: "ctx_rep (heads s) (treap_root s) c (Some q)" "parent m = ctx_parent c" "which_child m = ctx_side c"
    "children m (other d) = root_of b" "tree_rep (heads s) (Some q) (other d) b"
    using rep' m by (simp_all add: store_rep_plug)
  have "distinct (before c @ inorder (nd d q \<langle>\<langle>\<rangle>, x, \<langle>\<rangle>\<rangle> b) @ after c)"
    using dist xs by (cases d) (auto simp: ctx_set_eq)
  moreover have "tree_rep h' (ctx_parent c) (ctx_side c) (nd d q \<langle>\<langle>\<rangle>, x, \<langle>\<rangle>\<rangle> b)"
    using old n h' by (simp add: b)
  ultimately have "store_rep (s\<lparr>heads := h'\<rparr>) (plug c (nd d q \<langle>\<langle>\<rangle>, x, \<langle>\<rangle>\<rangle> b))"
    using old(1) by (simp add: store_rep_plug c)
  then show ?thesis by (simp add: h'_def)
qed

lemma random_nonzero_Some:
  assumes "random_nonzero rs = Some y"
  shows "fst y \<noteq> 0"
  by (rule random_nonzero.raw_induct [OF _ assms, where P = "\<lambda>rs y. fst y \<noteq> 0"])
    (auto split: if_splits)

definition unlinked :: "treap_head \<Rightarrow> bool" where
  "unlinked n \<longleftrightarrow> n = treap_init (tvalue n)"

lemma keys_upd [simp]: "keys (s\<lparr>heads := (heads s)(x \<mapsto> n)\<rparr>) = (keys s)(x \<mapsto> (tvalue n, priority n))"
  by (auto simp: keys_def)

lemma treap_insert_spec:
  assumes rep: "store_rep s t" and sorted: "sorted (map (val_of s) (inorder t))"
    and n: "heads s x = Some n" "unlinked n" and x: "x \<notin> set_tree t"
    and rnd: "random_nonzero rs = Some (draw, rs')"
  defines "k \<equiv> (tvalue n, ucast (draw AND 0x7fffffff) :: 31 word)"
  shows "\<exists>s' t' as bs. treap_insert s x rs = Some (s', rs') \<and> store_rep s' t' \<and>
    inorder t = as @ bs \<and> inorder t' = as @ x # bs \<and>
    (\<forall>y \<in> set as. val_of s y < tvalue n) \<and> (\<forall>y \<in> set bs. tvalue n \<le> val_of s y) \<and>
    keys s' = (keys s)(x \<mapsto> k) \<and> (\<forall>v. v \<notin> set_tree t' \<longrightarrow> heads s' v = heads s v) \<and>
    (heap_by (prio s) t \<longrightarrow> heap_by (prio s') t')"
proof -
  define n1 where "n1 = n\<lparr>priority := ucast (draw AND 0x7fffffff)\<rparr>"
  define s1 where "s1 = s\<lparr>heads := (heads s)(x \<mapsto> n1)\<rparr>"
  have n1: "tvalue n1 = tvalue n" "children n1 = (\<lambda>_. None)" "parent n1 = None" "which_child n1 = LEFT_CHILD"
    using n(2) by (simp_all add: n1_def unlinked_def treap_init_def) (metis treap_head.select_convs)+
  have checks: "which_child n = LEFT_CHILD" "priority n = 0" "parent n = None" "children n LEFT_CHILD = None"
    "children n RIGHT_CHILD = None"
    using n(2) unfolding unlinked_def treap_init_def by (metis treap_head.select_convs)+
  then have nw: "n\<lparr>which_child := LEFT_CHILD\<rparr> = n" by simp
  have h1: "heads s1 x = Some n1" "\<And>v. v \<noteq> x \<Longrightarrow> heads s1 v = heads s v" "treap_root s1 = treap_root s"
    by (simp_all add: s1_def)
  have k1: "keys s1 = (keys s)(x \<mapsto> k)" by (simp add: s1_def k_def n1_def)
  have pv: "val_of s1 y = val_of s y" "y \<noteq> x \<Longrightarrow> prio s1 y = prio s y" for y
    using k1 prio_head(2) [OF n(1)] by (auto simp: val_of_def prio_def k_def)
  have "tree_rep (heads s1) None LEFT_CHILD t = tree_rep (heads s) None LEFT_CHILD t"
    using x h1(2) by (intro tree_rep_cong) metis
  then have rep1: "store_rep s1 t" using rep h1(3) by (simp add: store_rep_def)
  have "val_of s1 = val_of s" by (rule ext) (rule pv(1))
  then have sorted1: "sorted (map (val_of s1) (inorder t))" using sorted by simp
  have heap1: "heap_by (prio s) t = heap_by (prio s1) t"
  proof -
    have "heap_by f u = heap_by g u" if "\<And>y. y \<in> set_tree u \<Longrightarrow> f y = g y" for f g u
      using that by (induction u) auto
    then show ?thesis using pv(2) x by metis
  qed
  note run = treap_insert_def n(1) checks rnd nw set_which_def
  show ?thesis
  proof (cases "treap_root s")
    case None
    then have t: "t = \<langle>\<rangle>" using rep by (cases t) (auto simp: store_rep_def)
    have "treap_insert s x rs = Some (s1\<lparr>treap_root := Some x\<rparr>, rs')"
      using None by (simp add: run s1_def n1_def)
    moreover have "store_rep (s1\<lparr>treap_root := Some x\<rparr>) \<langle>\<langle>\<rangle>, x, \<langle>\<rangle>\<rangle>"
      using h1(1) n1 by (simp add: store_rep_def)
    moreover have "keys (s1\<lparr>treap_root := Some x\<rparr>) = (keys s)(x \<mapsto> k)" using k1 by (simp add: keys_def fun_eq_iff)
    ultimately show ?thesis using t h1(2)
      by (intro exI [of _ "s1\<lparr>treap_root := Some x\<rparr>"] exI [of _ "\<langle>\<langle>\<rangle>, x, \<langle>\<rangle>\<rangle>"] exI [of _ "[]"]) simp
  next
    case (Some p)
    then have "root_of t = Some p" using rep by (simp add: store_rep_def)
    then obtain q d b c where leaf: "find_leaf s1 (tvalue n) p = Some (q, d)"
      "plug ((d, q, b) # c) \<langle>\<rangle> = t" "\<forall>y \<in> set (before ((d, q, b) # c)). val_of s1 y < tvalue n"
      "\<forall>y \<in> set (after ((d, q, b) # c)). tvalue n \<le> val_of s1 y"
      using find_leaf_spec [of s1 "[]" t p "tvalue n"] rep1 sorted1 by auto
    have rep2: "store_rep s1 (plug ((d, q, b) # c) \<langle>\<rangle>)" using rep1 leaf(2) by simp
    then obtain m where m: "heads s1 q = Some m" by (rule store_rep_ctx_node)
    have xq: "x \<noteq> q" using x leaf(2) by (auto simp: set_plug simp del: plug.simps) (cases d; auto)
    define s2 where "s2 = s1\<lparr>heads := (heads s1)(q \<mapsto> m\<lparr>children := (children m)(d := Some x)\<rparr>,
        x \<mapsto> n1\<lparr>which_child := d, parent := Some q\<rparr>)\<rparr>"
    have rep3: "store_rep s2 (plug ((d, q, b) # c) \<langle>\<langle>\<rangle>, x, \<langle>\<rangle>\<rangle>)"
      unfolding s2_def using x leaf(2) n1 by (intro attach_leaf [OF rep2 _ h1(1) _ _ m]) simp_all
    have k2: "keys s2 = keys s1" using m h1(1) by (auto simp: keys_def s2_def fun_eq_iff)
    obtain s3 t3 where s3: "sift_up s2 x q d = Some s3" "store_rep s3 t3"
      "inorder t3 = inorder (plug ((d, q, b) # c) \<langle>\<langle>\<rangle>, x, \<langle>\<rangle>\<rangle>)" "keys s3 = keys s2"
      "\<forall>v. v \<notin> set_tree t3 \<longrightarrow> heads s3 v = heads s2 v"
      "almost_heap (prio s2) x ((d, q, b) # c) \<langle>\<langle>\<rangle>, x, \<langle>\<rangle>\<rangle> \<longrightarrow> heap_by (prio s2) t3"
      using sift_up_spec [OF rep3] by auto
    have io: "inorder t = before ((d, q, b) # c) @ after ((d, q, b) # c)"
      "inorder t3 = before ((d, q, b) # c) @ x # after ((d, q, b) # c)"
      using s3(3) leaf(2) inorder_plug [of "(d, q, b) # c" "\<langle>\<rangle>"] inorder_plug [of "(d, q, b) # c" "\<langle>\<langle>\<rangle>, x, \<langle>\<rangle>\<rangle>"]
      by (simp_all del: before.simps after.simps plug.simps)
    then have t3: "set_tree t3 = insert x (set_tree t)"
      unfolding set_inorder [symmetric] by (simp del: before.simps after.simps)
    have "q \<in> set_tree t" using leaf(2) by (auto simp: set_plug simp del: plug.simps) (cases d; auto)
    then have frame: "heads s3 v = heads s v" if "v \<notin> set_tree t3" for v
      using that s3(5) t3 h1(2) by (auto simp: s2_def)
    have "treap_insert s x rs = Some (s3, rs')"
      using Some leaf(1) m xq s3(1) by (simp add: run s1_def n1_def s2_def set_child_def set_parent_def)
    moreover have "heap_by (prio s) t \<longrightarrow> heap_by (prio s3) t3"
      using s3(4,6) heap1 leaf(2) keys_cong [OF k2] keys_cong [OF s3(4)]
      by (simp add: almost_heap_def)
    ultimately show ?thesis using s3(2,4) k1 k2 io leaf(3,4) frame
      by (intro exI [of _ s3] exI [of _ t3] exI [of _ "before ((d, q, b) # c)"]
          exI [of _ "after ((d, q, b) # c)"]) (simp add: pv del: before.simps after.simps)
  qed
qed

section \<open>Removal\<close>

text \<open>
  The rotations end with the node a leaf, at the place it had in the sequence.  Since the left child
  goes up as long as there is one, the right subtree ends below the last node of the left one.
\<close>

fun append_tree :: "'a tree \<Rightarrow> 'a tree \<Rightarrow> 'a tree" where
  "append_tree \<langle>\<rangle> r = r"
| "append_tree \<langle>a, y, b\<rangle> r = \<langle>a, y, append_tree b r\<rangle>"

lemma inorder_append_tree [simp]: "inorder (append_tree l r) = inorder l @ inorder r"
  by (induction l) auto

lemma set_append_tree [simp]: "set_tree (append_tree l r) = set_tree l \<union> set_tree r"
  by (induction l) auto

lemma sink_spec:
  assumes "store_rep s (plug c \<langle>l, x, r\<rangle>)"
  shows "\<exists>s' c'. sink s x = Some s' \<and> store_rep s' (plug c' \<langle>\<langle>\<rangle>, x, \<langle>\<rangle>\<rangle>) \<and>
    before c' = before c @ inorder l \<and> after c' = inorder r @ after c \<and> keys s' = keys s \<and>
    plug c' \<langle>\<rangle> = plug c (append_tree l r) \<and>
    (\<forall>v. v \<notin> set_tree (plug c \<langle>l, x, r\<rangle>) \<longrightarrow> heads s' v = heads s v)"
  using assms
proof (induction "size l + size r" arbitrary: s c l r rule: less_induct)
  case less
  obtain n where n: "heads s x = Some n" "children n LEFT_CHILD = root_of l" "children n RIGHT_CHILD = root_of r"
    using store_rep_node [OF less.prems] by metis
  show ?case
  proof (cases l)
    case (Node a b u)
    have rep: "store_rep s (plug c (nd LEFT_CHILD x (nd LEFT_CHILD b a u) r))" using less.prems Node by simp
    from treap_rotate_spec [OF this] obtain s1 where s1: "treap_rotate s x LEFT_CHILD = Some s1"
      "store_rep s1 (plug c (nd LEFT_CHILD b a (nd RIGHT_CHILD x r u)))" "keys s1 = keys s"
      "\<forall>v. v \<notin> set_tree (plug c (nd LEFT_CHILD x (nd LEFT_CHILD b a u) r)) \<longrightarrow> heads s1 v = heads s v" by auto
    have run: "sink s x = sink s1 x" using n Node s1(1) by (subst sink.simps) simp
    have rep1: "store_rep s1 (plug ((RIGHT_CHILD, b, a) # c) \<langle>u, x, r\<rangle>)" using s1(2) by simp
    have "size u + size r < size l + size r" using Node by simp
    from less.hyps [OF this rep1] obtain s' c' where s': "sink s1 x = Some s'"
      "store_rep s' (plug c' \<langle>\<langle>\<rangle>, x, \<langle>\<rangle>\<rangle>)" "before c' = before ((RIGHT_CHILD, b, a) # c) @ inorder u"
      "after c' = inorder r @ after ((RIGHT_CHILD, b, a) # c)" "keys s' = keys s1"
      "plug c' \<langle>\<rangle> = plug ((RIGHT_CHILD, b, a) # c) (append_tree u r)"
      "\<forall>v. v \<notin> set_tree (plug ((RIGHT_CHILD, b, a) # c) \<langle>u, x, r\<rangle>) \<longrightarrow> heads s' v = heads s1 v" by blast
    have "set_tree (plug ((RIGHT_CHILD, b, a) # c) \<langle>u, x, r\<rangle>) = set_tree (plug c \<langle>l, x, r\<rangle>)"
      "set_tree (plug c (nd LEFT_CHILD x (nd LEFT_CHILD b a u) r)) = set_tree (plug c \<langle>l, x, r\<rangle>)"
      using Node by (auto simp: set_plug)
    then show ?thesis using s' s1 run Node by (intro exI [of _ s'] exI [of _ c']) simp
  next
    case Leaf
    show ?thesis
    proof (cases r)
      case Leaf
      then have "sink s x = Some s" using n \<open>l = \<langle>\<rangle>\<close> by (subst sink.simps) simp
      then show ?thesis using Leaf \<open>l = \<langle>\<rangle>\<close> less.prems by (intro exI [of _ s] exI [of _ c]) simp
    next
      case (Node u b a)
      have rep: "store_rep s (plug c (nd RIGHT_CHILD x (nd RIGHT_CHILD b a u) l))" using less.prems Node by simp
      from treap_rotate_spec [OF this] obtain s1 where s1: "treap_rotate s x RIGHT_CHILD = Some s1"
        "store_rep s1 (plug c (nd RIGHT_CHILD b a (nd LEFT_CHILD x l u)))" "keys s1 = keys s"
        "\<forall>v. v \<notin> set_tree (plug c (nd RIGHT_CHILD x (nd RIGHT_CHILD b a u) l)) \<longrightarrow> heads s1 v = heads s v" by auto
      have run: "sink s x = sink s1 x" using n Node s1(1) Leaf by (subst sink.simps) simp
      have rep1: "store_rep s1 (plug ((LEFT_CHILD, b, a) # c) \<langle>l, x, u\<rangle>)" using s1(2) by simp
      have "size l + size u < size l + size r" using Node by simp
      from less.hyps [OF this rep1] obtain s' c' where s': "sink s1 x = Some s'"
        "store_rep s' (plug c' \<langle>\<langle>\<rangle>, x, \<langle>\<rangle>\<rangle>)" "before c' = before ((LEFT_CHILD, b, a) # c) @ inorder l"
        "after c' = inorder u @ after ((LEFT_CHILD, b, a) # c)" "keys s' = keys s1"
        "plug c' \<langle>\<rangle> = plug ((LEFT_CHILD, b, a) # c) (append_tree l u)"
        "\<forall>v. v \<notin> set_tree (plug ((LEFT_CHILD, b, a) # c) \<langle>l, x, u\<rangle>) \<longrightarrow> heads s' v = heads s1 v" by blast
      have "set_tree (plug ((LEFT_CHILD, b, a) # c) \<langle>l, x, u\<rangle>) = set_tree (plug c \<langle>l, x, r\<rangle>)"
        "set_tree (plug c (nd RIGHT_CHILD x (nd RIGHT_CHILD b a u) l)) = set_tree (plug c \<langle>l, x, r\<rangle>)"
        using Node by (auto simp: set_plug)
      then show ?thesis using s' s1 run Node \<open>l = \<langle>\<rangle>\<close> by (intro exI [of _ s'] exI [of _ c']) simp
    qed
  qed
qed

text \<open>A node of the tree, as the root of the tree in some hole.\<close>

lemma node_in_ctx: "x \<in> set_tree t \<Longrightarrow> \<exists>c l r. t = plug c \<langle>l, x, r\<rangle>"
proof (induction t)
  case (Node a y b)
  then consider "x = y" | "x \<in> set_tree a" | "x \<in> set_tree b" by auto
  then show ?case
  proof cases
    case 1
    then show ?thesis by (intro exI [of _ "[]"]) auto
  next
    case 2
    then obtain c l r where "a = plug c \<langle>l, x, r\<rangle>" using Node by blast
    moreover have "plug (c @ [(LEFT_CHILD, y, b)]) t = \<langle>plug c t, y, b\<rangle>" for t
      by (induction c t rule: plug.induct) auto
    ultimately show ?thesis by metis
  next
    case 3
    then obtain c l r where "b = plug c \<langle>l, x, r\<rangle>" using Node by blast
    moreover have "plug (c @ [(RIGHT_CHILD, y, a)]) t = \<langle>a, y, plug c t\<rangle>" for t
      by (induction c t rule: plug.induct) auto
    ultimately show ?thesis by metis
  qed
qed simp

text \<open>Unlinking a leaf.\<close>

lemma detach_leaf:
  assumes rep: "store_rep s (plug c \<langle>\<langle>\<rangle>, x, \<langle>\<rangle>\<rangle>)"
  obtains (root) "c = []" "treap_root s = Some x"
  | (inner) d q b c' m where "c = (d, q, b) # c'" "heads s q = Some m" "children m d = Some x" "q \<noteq> x"
      "\<And>n. store_rep (s\<lparr>heads := (heads s)(q \<mapsto> m\<lparr>children := (children m)(d := None)\<rparr>, x \<mapsto> n)\<rparr>) (plug c \<langle>\<rangle>)"
proof (cases c)
  case Nil
  then show thesis using root rep by (simp add: store_rep_def)
next
  case (Cons f c')
  obtain d q b where f: "f = (d, q, b)" by (cases f)
  have rep': "store_rep s (plug c' (nd d q \<langle>\<langle>\<rangle>, x, \<langle>\<rangle>\<rangle> b))" using rep Cons f by simp
  then obtain m where m: "heads s q = Some m" "children m d = Some x" "parent m = ctx_parent c'"
    "which_child m = ctx_side c'" "children m (other d) = root_of b" "tree_rep (heads s) (Some q) (other d) b"
    by (auto simp: store_rep_plug split: option.splits)
  have ctx: "ctx_rep (heads s) (treap_root s) c' (Some q)" using rep' by (simp add: store_rep_plug)
  have dist: "distinct (before c' @ inorder (nd d q \<langle>\<langle>\<rangle>, x, \<langle>\<rangle>\<rangle> b) @ after c')"
    using rep' by (simp add: store_rep_plug)
  then have xs: "x \<noteq> q" "x \<notin> set_tree b" "x \<notin> ctx_set c'" and qs: "q \<notin> set_tree b" "q \<notin> ctx_set c'"
    by (cases d; auto simp: ctx_set_eq)+
  have "store_rep (s\<lparr>heads := (heads s)(q \<mapsto> m\<lparr>children := (children m)(d := None)\<rparr>, x \<mapsto> n)\<rparr>) (plug c \<langle>\<rangle>)" for n
  proof -
    define h' where "h' = (heads s)(q \<mapsto> m\<lparr>children := (children m)(d := None)\<rparr>, x \<mapsto> n)"
    have "tree_rep h' p e b = tree_rep (heads s) p e b" "ctx_rep h' r c' p = ctx_rep (heads s) r c' p" for p e r
      using xs qs by (intro tree_rep_cong ctx_rep_cong; auto simp: h'_def)+
    moreover have "h' q = Some (m\<lparr>children := (children m)(d := None)\<rparr>)" using xs(1) by (simp add: h'_def)
    moreover have "distinct (before c' @ inorder (nd d q \<langle>\<rangle> b) @ after c')" using dist by (cases d) auto
    ultimately have "store_rep (s\<lparr>heads := h'\<rparr>) (plug c' (nd d q \<langle>\<rangle> b))"
      using m ctx by (simp add: store_rep_plug)
    then show ?thesis using Cons f by (simp add: h'_def)
  qed
  then show thesis using inner Cons f m xs(1) by blast
qed

lemma treap_remove_shape:
  assumes rep: "store_rep s (plug c \<langle>l, x, r\<rangle>)" and n: "heads s x = Some n" "priority n \<noteq> 0"
  shows "\<exists>s'. treap_remove s x = Some s' \<and> store_rep s' (plug c (append_tree l r)) \<and>
    keys s' = (keys s)(x \<mapsto> (tvalue n, 0)) \<and> heads s' x = Some (treap_init (tvalue n)) \<and>
    (\<forall>v. v \<notin> set_tree (plug c \<langle>l, x, r\<rangle>) \<longrightarrow> heads s' v = heads s v)"
proof -
  define t where t: "t = plug c \<langle>l, x, r\<rangle>"
  have x: "x \<in> set_tree t" by (simp add: t set_plug)
  note rep = rep [folded t]
  define s1 where "s1 = s\<lparr>heads := (heads s)(x \<mapsto> n\<lparr>priority := 0\<rparr>)\<rparr>"
  have rep1: "store_rep s1 (plug c \<langle>l, x, r\<rangle>)"
  proof -
    have d: "x \<notin> set_tree l" "x \<notin> set_tree r" "x \<notin> ctx_set c"
      using rep t by (auto simp: store_rep_plug ctx_set_eq)
    have "tree_rep (heads s1) p e l = tree_rep (heads s) p e l" "tree_rep (heads s1) p e r = tree_rep (heads s) p e r"
      "ctx_rep (heads s1) q c p = ctx_rep (heads s) q c p" for p e q
      using d by (intro tree_rep_cong ctx_rep_cong; auto simp: s1_def)+
    then show ?thesis using rep t n(1) by (simp add: store_rep_plug) (simp add: s1_def)
  qed
  from sink_spec [OF rep1] obtain s2 c2 where s2: "sink s1 x = Some s2" "store_rep s2 (plug c2 \<langle>\<langle>\<rangle>, x, \<langle>\<rangle>\<rangle>)"
    "before c2 = before c @ inorder l" "after c2 = inorder r @ after c" "keys s2 = keys s1"
    "plug c2 \<langle>\<rangle> = plug c (append_tree l r)"
    "\<forall>v. v \<notin> set_tree t \<longrightarrow> heads s2 v = heads s1 v" using t by blast
  obtain m where m: "heads s2 x = Some m" "parent m = ctx_parent c2" "which_child m = ctx_side c2"
    using store_rep_node [OF s2(2)] by metis
  have vm: "tvalue m = tvalue n"
    using fun_cong [OF s2(5), of x] m(1) by (simp add: keys_def s1_def)
  have k2: "(keys s2)(x \<mapsto> (tvalue n, 0)) = (keys s)(x \<mapsto> (tvalue n, 0))"
    by (simp add: s2(5) s1_def)
  have frame: "heads s2 v = heads s v" if "v \<notin> set_tree t" for v
    using s2(7) that x by (auto simp: s1_def)
  have xn: "x \<notin> set (before c) \<union> set_tree l \<union> set_tree r \<union> set (after c)"
    using rep t by (auto simp: store_rep_plug)
  have io: "inorder (plug c2 \<langle>\<rangle>) = remove1 x (inorder t)"
    using xn by (simp add: t inorder_plug s2(3,4) remove1_append)
  note run = treap_remove_def n s1_def [symmetric] s2(1) m(1)
  from s2(2) show ?thesis
  proof (cases rule: detach_leaf)
    case root
    then have nm: "parent m = None" using m by simp
    let ?s = "s2\<lparr>heads := (heads s2)(x \<mapsto> treap_init (tvalue n)), treap_root := None\<rparr>"
    have "treap_remove s x = Some ?s" using root nm vm by (simp add: run)
    moreover have "store_rep ?s (plug c2 \<langle>\<rangle>)" using root by (simp add: store_rep_def)
    moreover have "keys ?s = (keys s)(x \<mapsto> (tvalue n, 0))"
      unfolding k2 [symmetric] by (auto simp: keys_def treap_init_def fun_eq_iff)
    ultimately show ?thesis using s2(6) frame x unfolding t [symmetric] by (intro exI [of _ ?s]) auto
  next
    case (inner d q b c' k)
    then have pm: "parent m = Some q" "which_child m = d" using m by auto
    let ?s = "s2\<lparr>heads := (heads s2)(q \<mapsto> k\<lparr>children := (children k)(d := None)\<rparr>, x \<mapsto> treap_init (tvalue n))\<rparr>"
    have "treap_remove s x = Some ?s"
      using inner pm vm m(1) by (simp add: run set_child_def)
    moreover have "keys ?s = (keys s)(x \<mapsto> (tvalue n, 0))"
      unfolding k2 [symmetric] using inner(2) by (auto simp: keys_def treap_init_def fun_eq_iff)
    moreover have "q \<in> set_tree t"
    proof -
      have "q \<in> set_tree (plug c2 \<langle>\<rangle>)" using inner(1) by (cases d) (auto simp: set_plug simp del: plug.simps)
      then have "q \<in> set (inorder t)" unfolding set_inorder [symmetric] io
        using set_remove1_subset by fast
      then show ?thesis by simp
    qed
    ultimately show ?thesis using s2(6) inner(5) frame x unfolding t [symmetric]
      by (intro exI [of _ ?s]) auto
  qed
qed

lemma treap_remove_spec:
  assumes rep: "store_rep s t" and x: "x \<in> set_tree t" and n: "heads s x = Some n" "priority n \<noteq> 0"
  shows "\<exists>s' t'. treap_remove s x = Some s' \<and> store_rep s' t' \<and> inorder t' = remove1 x (inorder t) \<and>
    keys s' = (keys s)(x \<mapsto> (tvalue n, 0)) \<and> heads s' x = Some (treap_init (tvalue n)) \<and>
    (\<forall>v. v \<notin> set_tree t \<longrightarrow> heads s' v = heads s v)"
proof -
  obtain c l r where t: "t = plug c \<langle>l, x, r\<rangle>" using node_in_ctx [OF x] by blast
  from treap_remove_shape [OF rep [unfolded t] n] obtain s' where
    s': "treap_remove s x = Some s'" "store_rep s' (plug c (append_tree l r))"
    "keys s' = (keys s)(x \<mapsto> (tvalue n, 0))" "heads s' x = Some (treap_init (tvalue n))"
    "\<forall>v. v \<notin> set_tree t \<longrightarrow> heads s' v = heads s v" unfolding t by blast
  have "x \<notin> set (before c) \<union> set_tree l" using rep t by (auto simp: store_rep_plug)
  then have "inorder (plug c (append_tree l r)) = remove1 x (inorder t)"
    by (simp add: t inorder_plug remove1_append)
  then show ?thesis using s' by blast
qed

text \<open>When the tree that is left is ordered by priority.\<close>

lemma heap_append_tree:
  assumes "heap_by pr l" "heap_by pr r"
  shows "heap_by pr (append_tree l r) \<longleftrightarrow> l = \<langle>\<rangle> \<or> r = \<langle>\<rangle> \<or> pr (the (root_of r)) \<le> pr (last (inorder l))"
  using assms(1)
proof (induction l)
  case (Node a y b)
  have top: "(\<forall>z \<in> set_tree r. pr z \<le> n) \<longleftrightarrow> r = \<langle>\<rangle> \<or> pr (the (root_of r)) \<le> n" for n
    using assms(2) by (cases r) (auto intro: order_trans)
  show ?case
  proof (cases "b = \<langle>\<rangle>")
    case True
    then show ?thesis using Node top [of "pr y"] assms(2) by auto
  next
    case False
    then have "last (inorder b) \<in> set_tree b" by (metis last_in_set set_inorder inorder.simps(1) set_empty2 eq_set_tree_empty)
    then have "pr (last (inorder b)) \<le> pr y" using Node.prems by auto
    then show ?thesis using Node False top [of "pr y"] by (auto intro: order_trans)
  qed
qed (use assms(2) in simp)

lemma heap_by_cong: "(\<And>z. z \<in> set_tree t \<Longrightarrow> pr z = pr' z) \<Longrightarrow> heap_by pr t = heap_by pr' t"
  by (induction t) auto

lemma treap_remove_heap:
  assumes rep: "store_rep s (plug c \<langle>l, x, r\<rangle>)" and heap: "heap_by (prio s) (plug c \<langle>l, x, r\<rangle>)" and x: "prio s x \<noteq> 0"
  shows "\<exists>s'. treap_remove s x = Some s' \<and> store_rep s' (plug c (append_tree l r)) \<and>
    (heap_by (prio s') (plug c (append_tree l r)) \<longleftrightarrow>
      l = \<langle>\<rangle> \<or> r = \<langle>\<rangle> \<or> prio s (the (root_of r)) \<le> prio s (last (inorder l)))"
proof -
  obtain n where n: "heads s x = Some n" using store_rep_node [OF rep] by metis
  then have "priority n \<noteq> 0" using x prio_head(1) [OF n] by simp
  from treap_remove_shape [OF rep n this] obtain s' where s': "treap_remove s x = Some s'"
    "store_rep s' (plug c (append_tree l r))" "keys s' = (keys s)(x \<mapsto> (tvalue n, 0))" by blast
  let ?u = "plug c (append_tree l r)"
  have "x \<notin> set_tree ?u" using rep by (auto simp: store_rep_plug set_plug)
  then have pr: "heap_by (prio s') ?u = heap_by (prio s) ?u"
    using s'(3) by (intro heap_by_cong) (auto simp: prio_def)
  have h: "heap_by (prio s) (plug c \<langle>\<rangle>)" "heap_by (prio s) \<langle>l, x, r\<rangle>"
    "\<forall>y \<in> path c. \<forall>z \<in> set_tree \<langle>l, x, r\<rangle>. prio s z \<le> prio s y"
    using heap heap_by_plug by blast+
  then have "heap_by (prio s) ?u = heap_by (prio s) (append_tree l r)"
    by (subst heap_by_plug) auto
  then show ?thesis using s'(1,2) pr heap_append_tree [of "prio s" l r] h(2) by auto
qed


section \<open>The treap as an index\<close>

text \<open>What the allocator sees of a treap: the VMAs in it, in ascending order of their values.\<close>

definition treap_seq :: "treap_store \<Rightarrow> vptr list \<Rightarrow> bool" where
  "treap_seq s xs \<longleftrightarrow> (\<exists>t. store_rep s t \<and> inorder t = xs) \<and> sorted (map (val_of s) xs)"

definition loose :: "treap_store \<Rightarrow> vptr \<Rightarrow> bool" where
  "loose s x \<longleftrightarrow> (\<exists>n. heads s x = Some n \<and> unlinked n)"

text \<open>
  An index over elements with keys: what an insertion and a removal do to its sequence,
  and that neither touches the keys or the elements outside.
\<close>

locale sorted_index =
  fixes seq :: "'s \<Rightarrow> 'a list \<Rightarrow> bool"
    and loose_in :: "'s \<Rightarrow> 'a \<Rightarrow> bool"
    and key :: "'s \<Rightarrow> 'a \<Rightarrow> 'k::linorder"
    and weight :: "'s \<Rightarrow> 'a \<Rightarrow> 'w::zero"
    and ins :: "'s \<Rightarrow> 'a \<Rightarrow> 'r \<Rightarrow> ('s \<times> 'r) option"
    and del :: "'s \<Rightarrow> 'a \<Rightarrow> 's option"
    and ready :: "'r \<Rightarrow> 'w \<Rightarrow> 'r \<Rightarrow> bool"
  assumes seq_law: "seq s xs \<Longrightarrow> distinct xs \<and> sorted (map (key s) xs)"
    and ins_law: "seq s xs \<Longrightarrow> loose_in s x \<Longrightarrow> x \<notin> set xs \<Longrightarrow> ready r w r' \<Longrightarrow>
      \<exists>s' as bs. ins s x r = Some (s', r') \<and> xs = as @ bs \<and> seq s' (as @ x # bs) \<and>
        (\<forall>y \<in> set as. key s y < key s x) \<and> (\<forall>y \<in> set bs. key s x \<le> key s y) \<and>
        key s' = key s \<and> weight s' = (weight s)(x := w) \<and>
        (\<forall>y. y \<notin> set (x # xs) \<longrightarrow> loose_in s' y = loose_in s y)"
    and del_law: "seq s xs \<Longrightarrow> x \<in> set xs \<Longrightarrow> weight s x \<noteq> 0 \<Longrightarrow>
      \<exists>s'. del s x = Some s' \<and> seq s' (remove1 x xs) \<and> loose_in s' x \<and>
        key s' = key s \<and> weight s' = (weight s)(x := 0) \<and>
        (\<forall>y. y \<notin> set xs \<longrightarrow> loose_in s' y = loose_in s y)"
begin

text \<open>Inserting an element and removing it again gives the sequence back.\<close>

lemma ins_del:
  assumes "seq s xs" "loose_in s x" "x \<notin> set xs" "ready r w r'" "w \<noteq> 0"
  shows "\<exists>s1 s2. ins s x r = Some (s1, r') \<and> del s1 x = Some s2 \<and> seq s2 xs \<and> loose_in s2 x"
proof -
  obtain s1 as bs where s1: "ins s x r = Some (s1, r')" "xs = as @ bs" "seq s1 (as @ x # bs)"
    "weight s1 = (weight s)(x := w)"
    using ins_law [OF assms(1-4)] by blast
  then obtain s2 where "del s1 x = Some s2" "seq s2 (remove1 x (as @ x # bs))" "loose_in s2 x"
    using del_law [OF s1(3), of x] assms(5) by auto
  then show ?thesis using s1 assms(3) by (auto simp: remove1_append)
qed

end

interpretation treap: sorted_index treap_seq loose val_of prio treap_insert treap_remove
  "\<lambda>rs w rs'. \<exists>draw. random_nonzero rs = Some (draw, rs') \<and> w = ucast (draw AND 0x7fffffff)"
proof unfold_locales
  fix s xs assume "treap_seq s xs"
  then show "distinct xs \<and> sorted (map (val_of s) xs)" by (auto simp: treap_seq_def store_rep_def)
next
  fix s xs x rs w rs'
  assume seq: "treap_seq s xs" and l: "loose s x" and x: "x \<notin> set xs"
    and r: "\<exists>draw. random_nonzero rs = Some (draw, rs') \<and> w = (ucast (draw AND 0x7fffffff) :: 31 word)"
  obtain t where t: "store_rep s t" "inorder t = xs" "sorted (map (val_of s) (inorder t))"
    using seq by (auto simp: treap_seq_def)
  obtain n where n: "heads s x = Some n" "unlinked n" using l by (auto simp: loose_def)
  obtain draw where d: "random_nonzero rs = Some (draw, rs')" "w = ucast (draw AND 0x7fffffff)" using r by blast
  have "x \<notin> set_tree t" using x t(2) by (metis set_inorder)
  from treap_insert_spec [OF t(1,3) n this d(1)] obtain s' t' as bs where
    s': "treap_insert s x rs = Some (s', rs')" "store_rep s' t'" "inorder t = as @ bs"
    "inorder t' = as @ x # bs" "\<forall>y \<in> set as. val_of s y < tvalue n" "\<forall>y \<in> set bs. tvalue n \<le> val_of s y"
    "keys s' = (keys s)(x \<mapsto> (tvalue n, ucast (draw AND 0x7fffffff)))"
    "\<forall>v. v \<notin> set_tree t' \<longrightarrow> heads s' v = heads s v" by blast
  have vx: "val_of s x = tvalue n" using n(1) by (rule prio_head)
  have v: "val_of s' = val_of s" "prio s' = (prio s)(x := w)"
    using s'(7) vx d(2) by (auto simp: val_of_def prio_def fun_eq_iff)
  have "sorted (map (val_of s') (as @ x # bs))"
    using t(3) s'(3,5,6) vx unfolding v by (auto simp: sorted_append less_imp_le)
  then have "treap_seq s' (as @ x # bs)" using s'(2,4) by (auto simp: treap_seq_def)
  moreover have "set_tree t' = set (x # xs)"
    unfolding set_inorder [symmetric] s'(4) using s'(3) t(2) by auto
  ultimately show "\<exists>s' as bs. treap_insert s x rs = Some (s', rs') \<and> xs = as @ bs \<and> treap_seq s' (as @ x # bs) \<and>
        (\<forall>y \<in> set as. val_of s y < val_of s x) \<and> (\<forall>y \<in> set bs. val_of s x \<le> val_of s y) \<and>
        val_of s' = val_of s \<and> prio s' = (prio s)(x := w) \<and>
        (\<forall>y. y \<notin> set (x # xs) \<longrightarrow> loose s' y = loose s y)"
    using s' v vx t(2)
    by (intro exI [of _ s'] exI [of _ as] exI [of _ bs]) (simp add: loose_def)
next
  fix s xs x assume seq: "treap_seq s xs" and x: "x \<in> set xs" and w: "prio s x \<noteq> 0"
  obtain t where t: "store_rep s t" "inorder t = xs" "sorted (map (val_of s) xs)"
    using seq by (auto simp: treap_seq_def)
  have xt: "x \<in> set_tree t" using x t(2) by (metis set_inorder)
  then obtain n where n: "heads s x = Some n"
    using t(1) tree_rep_head unfolding store_rep_def by blast
  have "priority n \<noteq> 0" using w prio_head(1) [OF n] by simp
  from treap_remove_spec [OF t(1) xt n this] obtain s' t' where
    s': "treap_remove s x = Some s'" "store_rep s' t'" "inorder t' = remove1 x (inorder t)"
    "keys s' = (keys s)(x \<mapsto> (tvalue n, 0))" "heads s' x = Some (treap_init (tvalue n))"
    "\<forall>v. v \<notin> set_tree t \<longrightarrow> heads s' v = heads s v" by blast
  have vx: "val_of s x = tvalue n" using n by (rule prio_head)
  have v: "val_of s' = val_of s" "prio s' = (prio s)(x := 0)"
    using s'(4) vx by (auto simp: val_of_def prio_def fun_eq_iff)
  have "sorted (map (val_of s) (remove1 x xs))"
    using t(3) by (simp add: sorted_map_remove1)
  then have "treap_seq s' (remove1 x xs)" using s'(2,3) t(2) v(1) by (auto simp: treap_seq_def)
  moreover have "loose s' x" using s'(5) by (simp add: loose_def unlinked_def treap_init_def)
  moreover have "set_tree t = set xs" using t(2) by (metis set_inorder)
  ultimately show "\<exists>s'. treap_remove s x = Some s' \<and> treap_seq s' (remove1 x xs) \<and> loose s' x \<and>
        val_of s' = val_of s \<and> prio s' = (prio s)(x := 0) \<and>
        (\<forall>y. y \<notin> set xs \<longrightarrow> loose s' y = loose s y)"
    using s'(1,6) v by (intro exI [of _ s']) (simp add: loose_def)
qed


section \<open>Properties\<close>

text \<open>
  \<open>C13\<close>.  Inserting a VMA that is in no treap puts it in front of the first VMA with
  the same or a greater value; the treap stays a search tree, and no value and no other
  priority changes.
\<close>
theorem treap_insert_correct:
  assumes "treap_seq s xs" "loose s x" "x \<notin> set xs" "random_nonzero rs = Some (draw, rs')"
  shows "\<exists>s' as bs. treap_insert s x rs = Some (s', rs') \<and> xs = as @ bs \<and> treap_seq s' (as @ x # bs) \<and>
    (\<forall>y \<in> set as. val_of s y < val_of s x) \<and> (\<forall>y \<in> set bs. val_of s x \<le> val_of s y) \<and>
    val_of s' = val_of s \<and> prio s' = (prio s)(x := ucast (draw AND 0x7fffffff))"
  using treap.ins_law [OF assms(1-3)] assms(4) by blast

lemma one_node_store:
  "treap_seq \<lparr>heads = [1 \<mapsto> treap_init 5], treap_root = None\<rparr> []"
  "loose \<lparr>heads = [1 \<mapsto> treap_init 5], treap_root = None\<rparr> 1"
  by (auto simp: treap_seq_def store_rep_def loose_def unlinked_def treap_init_def intro!: exI [of _ "\<langle>\<rangle>"])

lemma random_seven: "random_nonzero (sconst 7) = Some (7, sconst 7)"
  by (subst random_nonzero.simps) simp

lemma treap_insert_correct_witness:
  "\<exists>s'. treap_insert \<lparr>heads = [1 \<mapsto> treap_init 5], treap_root = None\<rparr> 1 (sconst 7) = Some (s', sconst 7) \<and>
    treap_seq s' [1]"
  using treap_insert_correct [OF one_node_store _ random_seven] by auto

text \<open>
  Insertion keeps the heap order: if no VMA has a smaller priority than one below
  it, the same holds after the VMA with its random priority is in.
\<close>
theorem treap_insert_keeps_heap_order:
  assumes "store_rep s t" "sorted (map (val_of s) (inorder t))" "heap_by (prio s) t"
    and "loose s x" "x \<notin> set_tree t" "random_nonzero rs = Some (draw, rs')"
  shows "\<exists>s' t'. treap_insert s x rs = Some (s', rs') \<and> store_rep s' t' \<and> heap_by (prio s') t' \<and>
    set_tree t' = insert x (set_tree t)"
proof -
  obtain n where n: "heads s x = Some n" "unlinked n" using assms(4) by (auto simp: loose_def)
  from treap_insert_spec [OF assms(1,2) n assms(5,6)] obtain s' t' as bs where
    s': "treap_insert s x rs = Some (s', rs')" "store_rep s' t'" "inorder t = as @ bs"
    "inorder t' = as @ x # bs" "heap_by (prio s) t \<longrightarrow> heap_by (prio s') t'" by blast
  have "set_tree t' = insert x (set_tree t)"
    unfolding set_inorder [symmetric] s'(3,4) by auto
  then show ?thesis using s' assms(3) by blast
qed

lemma treap_insert_keeps_heap_order_witness:
  "\<exists>s' t'. treap_insert \<lparr>heads = [1 \<mapsto> treap_init 5], treap_root = None\<rparr> 1 (sconst 7) = Some (s', sconst 7) \<and>
    heap_by (prio s') t' \<and> set_tree t' = {1}"
  using treap_insert_keeps_heap_order [of _ "\<langle>\<rangle>", OF _ _ _ one_node_store(2) _ random_seven]
  by (auto simp: store_rep_def)

text \<open>
  \<open>C14\<close>.  Removing a VMA that is in the treap takes exactly it out of the sequence and
  leaves its head as \<^verbatim>\<open>treap_init\<close> makes it, ready to be inserted again; no value and no
  other priority changes.
\<close>
theorem treap_remove_correct:
  assumes "treap_seq s xs" "x \<in> set xs" "prio s x \<noteq> 0"
  shows "\<exists>s'. treap_remove s x = Some s' \<and> treap_seq s' (remove1 x xs) \<and> loose s' x \<and>
    val_of s' = val_of s \<and> prio s' = (prio s)(x := 0)"
  using treap.del_law [OF assms] by blast

text \<open>Three VMAs: 1 at the root with priority 20, 2 and 3 below it with priorities 5 and 10.\<close>

definition example_treap :: treap_store where
  "example_treap = \<lparr>heads = [
     1 \<mapsto> \<lparr>tvalue = 20, which_child = LEFT_CHILD, priority = 20, parent = None,
       children = (\<lambda>d. if d = LEFT_CHILD then Some 2 else Some 3)\<rparr>,
     2 \<mapsto> \<lparr>tvalue = 10, which_child = LEFT_CHILD, priority = 5, parent = Some 1, children = (\<lambda>_. None)\<rparr>,
     3 \<mapsto> \<lparr>tvalue = 30, which_child = RIGHT_CHILD, priority = 10, parent = Some 1, children = (\<lambda>_. None)\<rparr>],
   treap_root = Some 1\<rparr>"

lemma example_treap_seq:
  "store_rep example_treap \<langle>\<langle>\<langle>\<rangle>, 2, \<langle>\<rangle>\<rangle>, 1, \<langle>\<langle>\<rangle>, 3, \<langle>\<rangle>\<rangle>\<rangle>" "treap_seq example_treap [2, 1, 3]"
  "prio example_treap 1 = 20" "prio example_treap 2 = 5" "prio example_treap 3 = 10"
proof -
  show r: "store_rep example_treap \<langle>\<langle>\<langle>\<rangle>, 2, \<langle>\<rangle>\<rangle>, 1, \<langle>\<langle>\<rangle>, 3, \<langle>\<rangle>\<rangle>\<rangle>"
    by (simp add: store_rep_def example_treap_def)
  have "sorted (map (val_of example_treap) [2, 1, 3])"
    by (simp add: val_of_def keys_def example_treap_def)
  then show "treap_seq example_treap [2, 1, 3]" using r by (auto simp: treap_seq_def)
qed (simp_all add: prio_def keys_def example_treap_def)

lemma treap_remove_correct_witness:
  "\<exists>s'. treap_remove example_treap 1 = Some s' \<and> treap_seq s' [2, 3]"
  using treap_remove_correct [OF example_treap_seq(2), of 1] example_treap_seq(3) by auto

text \<open>
  \<open>C16\<close>.  Which treaps lose their heap order in a removal.  The right subtree of the removed VMA ends up
  below the last node of its left subtree; so the order survives exactly if one of the two subtrees is empty or the
  top of the right one has a priority no greater than that last node's.
\<close>
theorem treap_remove_heap_order:
  assumes "store_rep s (plug c \<langle>l, x, r\<rangle>)" "heap_by (prio s) (plug c \<langle>l, x, r\<rangle>)" "prio s x \<noteq> 0"
  shows "\<exists>s'. treap_remove s x = Some s' \<and> store_rep s' (plug c (append_tree l r)) \<and>
    (heap_by (prio s') (plug c (append_tree l r)) \<longleftrightarrow>
      l = \<langle>\<rangle> \<or> r = \<langle>\<rangle> \<or> prio s (the (root_of r)) \<le> prio s (last (inorder l)))"
  by (rule treap_remove_heap [OF assms])

text \<open>In the example the node with priority 5 ends up above the one with priority 10.\<close>

theorem treap_remove_heap_order_witness:
  "\<exists>s'. treap_remove example_treap 1 = Some s' \<and> store_rep s' \<langle>\<langle>\<rangle>, 2, \<langle>\<langle>\<rangle>, 3, \<langle>\<rangle>\<rangle>\<rangle> \<and>
    heap_by (prio example_treap) \<langle>\<langle>\<langle>\<rangle>, 2, \<langle>\<rangle>\<rangle>, 1, \<langle>\<langle>\<rangle>, 3, \<langle>\<rangle>\<rangle>\<rangle> \<and>
    \<not> heap_by (prio s') \<langle>\<langle>\<rangle>, 2, \<langle>\<langle>\<rangle>, 3, \<langle>\<rangle>\<rangle>\<rangle>"
  using treap_remove_heap_order [of example_treap "[]" "\<langle>\<langle>\<rangle>, 2, \<langle>\<rangle>\<rangle>" 1 "\<langle>\<langle>\<rangle>, 3, \<langle>\<rangle>\<rangle>"] example_treap_seq by auto

text \<open>
  The draw 0x80000000 passes the test against zero and is then masked to priority 0: the
  VMA is in the treap, but a removal fails its assertion.
\<close>

lemma zero_priority_is_stuck:
  "\<exists>s'. treap_insert \<lparr>heads = [1 \<mapsto> treap_init 5], treap_root = None\<rparr> 1 (sconst 0x80000000) =
      Some (s', sconst 0x80000000) \<and> treap_seq s' [1] \<and> treap_remove s' 1 = None"
proof -
  let ?s = "\<lparr>heads = [1 \<mapsto> treap_init 5], treap_root = None\<rparr> :: treap_store"
  have r: "random_nonzero (sconst 0x80000000) = Some (0x80000000, sconst 0x80000000)"
    by (subst random_nonzero.simps) simp
  have m: "ucast (0x80000000 AND 0x7fffffff :: u32) = (0 :: 31 word)" by code_simp
  obtain s' where s': "treap_insert ?s 1 (sconst 0x80000000) = Some (s', sconst 0x80000000)"
    "treap_seq s' [1]" "prio s' = (prio ?s)(1 := 0)"
    using treap.ins_law [OF one_node_store, where r = "sconst 0x80000000" and w = 0
        and r' = "sconst 0x80000000"] r m by auto
  have "treap_remove s' 1 = None"
    using fun_cong [OF s'(3), of 1]
    by (auto simp: treap_remove_def prio_def keys_def split: option.splits)
  with s' show ?thesis by blast
qed

end
