(* ===== verification/Virtual_Alloc.thy ===== *)
theory Virtual_Alloc
  imports Machine Lists Treap
begin

text \<open>
  The virtual memory allocator, \<^verbatim>\<open>mm/virtual_alloc.c\<close>.  One \<^verbatim>\<open>struct vma_allocator\<close>
  and its VMAs are a state: the intrusive list of all VMAs, the bounds, the two treaps
  read by columns, and the two sources the code draws on, \<^verbatim>\<open>random_u32\<close> and
  \<^verbatim>\<open>alloc(sizeof(struct vma))\<close>, as streams of their results.  A VMA's \<^verbatim>\<open>allocator\<close>
  field always names this allocator and is left out, as is the padding.  The debug
  output of \<^verbatim>\<open>vma_allocator_print\<close> is left out.
\<close>

unbundle bit_operations_syntax

section \<open>State\<close>

datatype which_treap = BY_ADDR | BY_SIZE

text \<open>The addresses of the \<^verbatim>\<open>list_head\<close>s: the allocator's own and those inside the VMAs.\<close>

datatype node = Allocator | Vma vptr

text \<open>\<^verbatim>\<open>container_of(ptr, struct vma, list_head)\<close>\<close>

fun vma_of_node :: "node \<Rightarrow> vptr option" where
  "vma_of_node Allocator = None"
| "vma_of_node (Vma v) = Some v"

record va_state =
  vmas :: "node links"
  lo_address :: uaddr
  hi_address :: uaddr
  treaps :: "which_treap \<Rightarrow> treap_store"
  draws :: "u32 stream"
  allocs :: "vptr option stream"

definition set_treap :: "va_state \<Rightarrow> which_treap \<Rightarrow> treap_store \<Rightarrow> va_state" where
  "set_treap st w s = st\<lparr>treaps := (treaps st)(w := s)\<rparr>"

definition va_insert :: "va_state \<Rightarrow> vptr \<Rightarrow> which_treap \<Rightarrow> va_state option" where
  "va_insert st v w = do {
     (s, rs) \<leftarrow> treap_insert (treaps st w) v (draws st);
     Some ((set_treap st w s)\<lparr>draws := rs\<rparr>)
   }"

definition va_remove :: "va_state \<Rightarrow> vptr \<Rightarrow> which_treap \<Rightarrow> va_state option" where
  "va_remove st v w = do { s \<leftarrow> treap_remove (treaps st w) v; Some (set_treap st w s) }"

definition va_head :: "va_state \<Rightarrow> vptr \<Rightarrow> which_treap \<Rightarrow> treap_head option" where
  "va_head st v w = heads (treaps st w) v"

definition set_value :: "va_state \<Rightarrow> vptr \<Rightarrow> which_treap \<Rightarrow> u32 \<Rightarrow> va_state option" where
  "set_value st v w x = do {
     s \<leftarrow> modify (treaps st w) v (\<lambda>n. n\<lparr>tvalue := x\<rparr>);
     Some (set_treap st w s)
   }"

text \<open>\<^verbatim>\<open>alloc(sizeof(struct vma))\<close> and \<^verbatim>\<open>free\<close> of a VMA that is in no data structure.\<close>

definition alloc_vma :: "va_state \<Rightarrow> vptr option \<times> va_state" where
  "alloc_vma st = (shd (allocs st), st\<lparr>allocs := stl (allocs st)\<rparr>)"

definition free_vma :: "va_state \<Rightarrow> vptr \<Rightarrow> va_state" where
  "free_vma st v = st\<lparr>vmas := (vmas st)(Vma v := None),
     treaps := (\<lambda>w. (treaps st w)\<lparr>heads := (heads (treaps st w))(v := None)\<rparr>)\<rparr>"

section \<open>Sizes and bounds\<close>

definition vma_size :: "va_state \<Rightarrow> vptr \<Rightarrow> usize option" where
  "vma_size st v = do {
     n \<leftarrow> va_head st v BY_SIZE;
     Some (push_bit 12 (ucast (tvalue n) + 1))
   }"

definition vma_bounds :: "va_state \<Rightarrow> vptr \<Rightarrow> (uaddr \<times> uaddr) option" where
  "vma_bounds st v = do {
     n \<leftarrow> va_head st v BY_ADDR;
     let addr = lo_address st + push_bit 12 (ucast (tvalue n));
     size \<leftarrow> vma_size st v;
     Some (addr, addr + size)
   }"

definition is_vma_free :: "va_state \<Rightarrow> vptr \<Rightarrow> bool option" where
  "is_vma_free st v = do { n \<leftarrow> va_head st v BY_SIZE; Some (priority n \<noteq> 0) }"

section \<open>Initialization\<close>

definition vma_init :: "va_state \<Rightarrow> uaddr \<Rightarrow> uaddr \<Rightarrow> vptr \<Rightarrow> va_state option" where
  "vma_init st lo hi out = do {
     assert_that (is_aligned_uaddr lo 12 \<and> is_aligned_uaddr hi 12);
     assert_that (lo < hi);
     assert_that (lo_address st \<le> lo);
     let addr = lo - lo_address st;
     let len = hi - lo;
     assert_that (drop_bit 12 addr \<le> 0xffffffff);
     assert_that (drop_bit 12 len - 1 \<le> 0xffffffff);
     let addr_compressed = ucast (drop_bit 12 addr);
     let size_compressed = ucast (drop_bit 12 len - 1);
     Some (st\<lparr>vmas := (vmas st)(Vma out \<mapsto> LIST_INIT (Vma out)),
       treaps := (\<lambda>w. (treaps st w)\<lparr>heads := (heads (treaps st w))(out \<mapsto>
         treap_init (case w of BY_ADDR \<Rightarrow> addr_compressed | BY_SIZE \<Rightarrow> size_compressed))\<rparr>)\<rparr>)
   }"

definition list_op :: "va_state \<Rightarrow> (node links \<Rightarrow> node links option) \<Rightarrow> va_state option" where
  "list_op st f = do { l \<leftarrow> f (vmas st); Some (st\<lparr>vmas := l\<rparr>) }"

text \<open>
  The caller's allocator memory is overwritten, so the state keeps only the sources.
\<close>

definition vma_allocator_init :: "va_state \<Rightarrow> uaddr \<Rightarrow> uaddr \<Rightarrow> (bool \<times> va_state) option" where
  "vma_allocator_init st lo hi = do {
     assert_that (is_aligned_uaddr lo 12 \<and> is_aligned_uaddr hi 12);
     assert_that (lo < hi);
     assert_that (hi \<le> 0x0000004000000000 \<or> 0xffffffc000000000 \<le> lo);
     assert_that (hi - lo \<le> push_bit (32 + 12) 1);
     case alloc_vma st of
       (None, st) \<Rightarrow> Some (False, st)
     | (Some vma, st) \<Rightarrow> do {
         let st = st\<lparr>vmas := [Allocator \<mapsto> LIST_INIT Allocator], lo_address := lo, hi_address := hi,
           treaps := (\<lambda>_. \<lparr>heads = Map.empty, treap_root = None\<rparr>)\<rparr>;
         st \<leftarrow> vma_init st lo hi vma;
         st \<leftarrow> list_op st (\<lambda>l. list_push l Allocator (Vma vma));
         st \<leftarrow> va_insert st vma BY_ADDR;
         st \<leftarrow> va_insert st vma BY_SIZE;
         Some (True, st)
       }
   }"

text \<open>
  The state stands for the memory \<^verbatim>\<open>alloc(sizeof(struct vma_allocator))\<close> returned, if any.
\<close>

definition vma_allocator_new :: "va_state option \<Rightarrow> uaddr \<Rightarrow> uaddr \<Rightarrow> va_state option option" where
  "vma_allocator_new allocator lo hi = (case allocator of
       None \<Rightarrow> Some None
     | Some st \<Rightarrow> do { (ok, st) \<leftarrow> vma_allocator_init st lo hi; Some (if ok then Some st else None) })"

section \<open>Finding a VMA\<close>

partial_function (option) find_loop :: "va_state \<Rightarrow> uaddr \<Rightarrow> vptr option \<Rightarrow> vptr option option" where
  "find_loop st addr cur = (case cur of
       None \<Rightarrow> Some None
     | Some vma \<Rightarrow> do {
         (lo, hi) \<leftarrow> vma_bounds st vma;
         n \<leftarrow> va_head st vma BY_ADDR;
         if addr < lo then find_loop st addr (children n LEFT_CHILD)
         else if hi \<le> addr then find_loop st addr (children n RIGHT_CHILD)
         else Some (Some vma)
       })"

definition vma_find :: "va_state \<Rightarrow> uaddr \<Rightarrow> vptr option" where
  "vma_find st addr = do {
     assert_that (lo_address st \<le> addr \<and> addr < hi_address st);
     vma \<leftarrow> find_loop st addr (treap_root (treaps st BY_ADDR));
     vma
   }"

section \<open>Allocation\<close>

text \<open>The search for the smallest VMA that fits.\<close>

partial_function (option) best_fit_loop ::
    "va_state \<Rightarrow> usize \<Rightarrow> vptr option \<Rightarrow> vptr option \<Rightarrow> vptr option option" where
  "best_fit_loop st wanted cur best_fit = (case cur of
       None \<Rightarrow> Some best_fit
     | Some vma \<Rightarrow> do {
         n \<leftarrow> va_head st vma BY_SIZE;
         sz \<leftarrow> vma_size st vma;
         if sz < wanted then best_fit_loop st wanted (children n RIGHT_CHILD) best_fit
         else if sz > wanted then best_fit_loop st wanted (children n LEFT_CHILD) (Some vma)
         else Some (Some vma)
       })"

definition vma_alloc :: "va_state \<Rightarrow> usize \<Rightarrow> (vptr option \<times> va_state) option" where
  "vma_alloc st num_pages = do {
     assert_that (0 < num_pages \<and> num_pages \<le> push_bit 26 1);
     let wanted_size = push_bit 12 num_pages;
     best_fit \<leftarrow> best_fit_loop st wanted_size (treap_root (treaps st BY_SIZE)) None;
     case best_fit of None \<Rightarrow> Some (None, st)
     | Some vma \<Rightarrow> do {
         sz \<leftarrow> vma_size st vma;
         if sz > wanted_size then
           (case alloc_vma st of
             (None, st) \<Rightarrow> None
           | (Some new_vma, st) \<Rightarrow> do {
               (old_lo, old_hi) \<leftarrow> vma_bounds st vma;
               st \<leftarrow> va_remove st vma BY_SIZE;
               st \<leftarrow> set_value st vma BY_SIZE (ucast (drop_bit 12 wanted_size - 1));
               (new_lo, new_hi) \<leftarrow> vma_bounds st vma;
               st \<leftarrow> vma_init st new_hi old_hi new_vma;
               st \<leftarrow> list_op st (\<lambda>l. list_unshift l (Vma vma) (Vma new_vma));
               st \<leftarrow> va_insert st new_vma BY_ADDR;
               st \<leftarrow> va_insert st new_vma BY_SIZE;
               Some (Some vma, st)
             })
         else do {
           st \<leftarrow> va_remove st vma BY_SIZE;
           Some (Some vma, st)
         }
       }
   }"

definition vma_alloc_by_addr :: "va_state \<Rightarrow> uaddr \<Rightarrow> uaddr \<Rightarrow> (vptr option \<times> va_state) option" where
  "vma_alloc_by_addr st lo hi = do {
     assert_that (is_aligned_uaddr lo 12 \<and> is_aligned_uaddr hi 12);
     assert_that (lo < hi);
     vma \<leftarrow> vma_find st lo;
     fr \<leftarrow> is_vma_free st vma;
     if \<not> fr then Some (None, st)
     else do {
       (vma_lo, vma_hi) \<leftarrow> vma_bounds st vma;
       if vma_hi < hi then Some (None, st)
       else
         let (ok_lo, new_lo, st) =
           (if vma_lo \<noteq> lo then let (p, st) = alloc_vma st in (p \<noteq> None, p, st) else (True, None, st)) in
         if \<not> ok_lo then Some (None, st)
         else
           let (ok_hi, new_hi, st) =
             (if vma_hi \<noteq> hi then let (p, st) = alloc_vma st in (p \<noteq> None, p, st) else (True, None, st)) in
           if \<not> ok_hi then Some (None, st)
           else do {
             l \<leftarrow> vmas st (Vma vma);
             let prev = lprev l;
             st \<leftarrow> list_op st (\<lambda>l. list_remove l (Vma vma));
             st \<leftarrow> va_remove st vma BY_ADDR;
             st \<leftarrow> va_remove st vma BY_SIZE;
             st \<leftarrow> (case new_hi of None \<Rightarrow> Some st
               | Some v \<Rightarrow> do {
                   st \<leftarrow> vma_init st hi vma_hi v;
                   st \<leftarrow> list_op st (\<lambda>l. list_unshift l prev (Vma v));
                   st \<leftarrow> va_insert st v BY_ADDR;
                   va_insert st v BY_SIZE
                 });
             st \<leftarrow> vma_init st lo hi vma;
             st \<leftarrow> list_op st (\<lambda>l. list_unshift l prev (Vma vma));
             st \<leftarrow> va_insert st vma BY_ADDR;
             st \<leftarrow> (case new_lo of None \<Rightarrow> Some st
               | Some v \<Rightarrow> do {
                   st \<leftarrow> vma_init st vma_lo lo v;
                   st \<leftarrow> list_op st (\<lambda>l. list_unshift l prev (Vma v));
                   st \<leftarrow> va_insert st v BY_ADDR;
                   va_insert st v BY_SIZE
                 });
             Some (Some vma, st)
           }
     }
   }"

section \<open>Release\<close>

definition vma_merge :: "va_state \<Rightarrow> vptr \<Rightarrow> va_state option" where
  "vma_merge st vma = do {
     l \<leftarrow> vmas st (Vma vma);
     succ \<leftarrow> vma_of_node (lnext l);
     f \<leftarrow> is_vma_free st vma;
     assert_that f;
     f \<leftarrow> is_vma_free st succ;
     assert_that f;
     (lo, _) \<leftarrow> vma_bounds st vma;
     (_, hi) \<leftarrow> vma_bounds st succ;
     st \<leftarrow> list_op st (\<lambda>l. list_remove l (Vma succ));
     st \<leftarrow> va_remove st succ BY_ADDR;
     st \<leftarrow> va_remove st succ BY_SIZE;
     let st = free_vma st succ;
     st \<leftarrow> va_remove st vma BY_SIZE;
     st \<leftarrow> set_value st vma BY_SIZE (ucast (drop_bit 12 (hi - lo) - 1));
     va_insert st vma BY_SIZE
   }"

text \<open>
  \<^verbatim>\<open>next && is_vma_free(next)\<close> for the neighbour a link names: the owner's head is no VMA.
\<close>

definition neighbour_free :: "va_state \<Rightarrow> node \<Rightarrow> bool option" where
  "neighbour_free st nb = (case vma_of_node nb of None \<Rightarrow> Some False | Some v \<Rightarrow> is_vma_free st v)"

definition vma_free :: "va_state \<Rightarrow> vptr option \<Rightarrow> va_state option" where
  "vma_free st ptr = (case ptr of None \<Rightarrow> Some st
     | Some vma \<Rightarrow> do {
         f \<leftarrow> is_vma_free st vma;
         assert_that (\<not> f);
         st \<leftarrow> va_insert st vma BY_SIZE;
         l \<leftarrow> vmas st (Vma vma);
         let prev = lprev l;
         let succ = lnext l;
         f \<leftarrow> neighbour_free st succ;
         st \<leftarrow> (if f then vma_merge st vma else Some st);
         f \<leftarrow> neighbour_free st prev;
         (if f then case vma_of_node prev of None \<Rightarrow> None | Some p \<Rightarrow> vma_merge st p else Some st)
       })"

text \<open>
  \<^verbatim>\<open>1 << (align_bits - 12)\<close> shifts an \<^verbatim>\<open>int\<close>, so it has a value only for shifts below 31.
\<close>

definition vma_alloc_aligned :: "va_state \<Rightarrow> usize \<Rightarrow> nat \<Rightarrow> (vptr option \<times> va_state) option" where
  "vma_alloc_aligned st num_pages align_bits = do {
     assert_that (12 \<le> align_bits);
     (v, st) \<leftarrow> vma_alloc st num_pages;
     case v of None \<Rightarrow> Some (None, st)
     | Some vma \<Rightarrow> do {
         (addr, _) \<leftarrow> vma_bounds st vma;
         if is_aligned_uaddr addr align_bits then Some (Some vma, st)
         else do {
           st \<leftarrow> vma_free st (Some vma);
           assert_that (align_bits - 12 < 31);
           (v, st) \<leftarrow> vma_alloc st (num_pages + push_bit (align_bits - 12) 1);
           case v of None \<Rightarrow> Some (None, st)
           | Some vma \<Rightarrow> do {
               (addr, _) \<leftarrow> vma_bounds st vma;
               st \<leftarrow> vma_free st (Some vma);
               let addr = align_up_uaddr addr align_bits;
               (v, st) \<leftarrow> vma_alloc_by_addr st addr (addr + push_bit 12 num_pages);
               assert_that (v \<noteq> None);
               Some (v, st)
             }
         }
       }
   }"

section \<open>Heads of VMAs outside a treap\<close>

lemma treap_seq_put:
  assumes "treap_seq s xs" "x \<notin> set xs" "heads s' = (heads s)(x := n)" "treap_root s' = treap_root s"
  shows "treap_seq s' xs"
proof -
  obtain t where t: "store_rep s t" "inorder t = xs" "sorted (map (val_of s) xs)"
    using assms(1) by (auto simp: treap_seq_def)
  have st: "set_tree t = set xs" using t(2) by (metis set_inorder)
  have "tree_rep (heads s') None LEFT_CHILD t = tree_rep (heads s) None LEFT_CHILD t"
    using assms(2,3) st by (intro tree_rep_cong) auto
  then have "store_rep s' t" using t(1) assms(4) by (simp add: store_rep_def)
  moreover have "map (val_of s') xs = map (val_of s) xs"
    using assms(2,3) by (auto simp: val_of_def keys_def)
  ultimately show ?thesis using t unfolding treap_seq_def by metis
qed

lemma put_head:
  assumes "heads s' = (heads s)(x := Some n)"
  shows "val_of s' = (val_of s)(x := tvalue n)" "prio s' = (prio s)(x := priority n)"
    "loose s' x \<longleftrightarrow> unlinked n" "y \<noteq> x \<Longrightarrow> loose s' y = loose s y"
  using assms by (auto simp: val_of_def prio_def keys_def loose_def fun_eq_iff)

lemma split_unique:
  assumes "as @ bs = as' @ bs'" "\<forall>y \<in> set as. k y < c" "\<forall>y \<in> set bs. c \<le> k y"
    "\<forall>y \<in> set as'. k y < (c :: 'k::linorder)" "\<forall>y \<in> set bs'. c \<le> k y"
  shows "as = as' \<and> bs = bs'"
proof -
  have 1: "as = takeWhile (\<lambda>y. k y < c) (as @ bs)" if "\<forall>y \<in> set as. k y < c" "\<forall>y \<in> set bs. c \<le> k y" for as bs
    using that by (cases bs) (auto simp: takeWhile_append takeWhile_eq_all_conv [THEN iffD2])
  then show ?thesis using assms by (metis append_eq_append_conv)
qed

section \<open>The invariant\<close>

text \<open>A VMA in numbers: its first page, counted from the start of the range, and its size in pages.\<close>

definition first_page :: "va_state \<Rightarrow> vptr \<Rightarrow> nat" where
  "first_page st v = unat (val_of (treaps st BY_ADDR) v)"

definition pages_in :: "va_state \<Rightarrow> vptr \<Rightarrow> nat" where
  "pages_in st v = unat (val_of (treaps st BY_SIZE) v) + 1"

definition vfree :: "va_state \<Rightarrow> vptr \<Rightarrow> bool" where
  "vfree st v \<longleftrightarrow> prio (treaps st BY_SIZE) v \<noteq> 0"

definition total_pages :: "va_state \<Rightarrow> nat" where
  "total_pages st = (unat (hi_address st) - unat (lo_address st)) div 4096"

text \<open>The VMAs cover the range without gaps or overlaps, in order.\<close>

fun tiling :: "(vptr \<Rightarrow> nat) \<Rightarrow> (vptr \<Rightarrow> nat) \<Rightarrow> nat \<Rightarrow> vptr list \<Rightarrow> nat \<Rightarrow> bool" where
  "tiling s n a [] b \<longleftrightarrow> a = b"
| "tiling s n a (x # xs) b \<longleftrightarrow> s x = a \<and> tiling s n (a + n x) xs b"

definition range_ok :: "va_state \<Rightarrow> bool" where
  "range_ok st \<longleftrightarrow> 4096 dvd unat (lo_address st) \<and> 4096 dvd unat (hi_address st) \<and>
     lo_address st < hi_address st \<and> total_pages st \<le> 2 ^ 32"

fun coalesced :: "(vptr \<Rightarrow> bool) \<Rightarrow> vptr list \<Rightarrow> bool" where
  "coalesced f (x # y # xs) \<longleftrightarrow> \<not> (f x \<and> f y) \<and> coalesced f (y # xs)"
| "coalesced f xs \<longleftrightarrow> True"

definition va_core :: "va_state \<Rightarrow> vptr list \<Rightarrow> bool" where
  "va_core st xs \<longleftrightarrow> range_ok st \<and> is_list (vmas st) Allocator (map Vma xs) \<and>
     treap_seq (treaps st BY_ADDR) xs \<and> (\<forall>x \<in> set xs. prio (treaps st BY_ADDR) x \<noteq> 0) \<and>
     (\<exists>ys. treap_seq (treaps st BY_SIZE) ys \<and> set ys = {x \<in> set xs. vfree st x}) \<and>
     (\<forall>x \<in> set xs. \<not> vfree st x \<longrightarrow> loose (treaps st BY_SIZE) x) \<and>
     tiling (first_page st) (pages_in st) 0 xs (total_pages st)"

definition va_inv :: "va_state \<Rightarrow> vptr list \<Rightarrow> bool" where
  "va_inv st xs \<longleftrightarrow> va_core st xs \<and> coalesced (vfree st) xs"

text \<open>Draws that give a nonzero priority.\<close>

definition good_draws :: "u32 stream \<Rightarrow> bool" where
  "good_draws rs \<longleftrightarrow> (\<forall>d \<in> sset rs. d AND 0x7fffffff \<noteq> 0)"

lemma good_draw:
  assumes "good_draws rs"
  shows "random_nonzero rs = Some (shd rs, stl rs)" "(ucast (shd rs AND 0x7fffffff) :: 31 word) \<noteq> 0"
    "good_draws (stl rs)"
proof -
  have d: "shd rs AND 0x7fffffff \<noteq> 0" using assms by (cases rs) (simp add: good_draws_def)
  then have "shd rs \<noteq> 0" by auto
  then show "random_nonzero rs = Some (shd rs, stl rs)" by (subst random_nonzero.simps) simp
  show "(ucast (shd rs AND 0x7fffffff) :: 31 word) \<noteq> 0"
  proof
    assume 0: "(ucast (shd rs AND 0x7fffffff) :: 31 word) = 0"
    have "bit (shd rs AND 0x7fffffff) i = False" for i
    proof (cases "i < 31")
      case True
      have "bit (ucast (shd rs AND 0x7fffffff) :: 31 word) i = False" using 0 by simp
      then show ?thesis using True by (simp add: bit_simps)
    next
      case False
      have m: "(0x7fffffff :: u32) = mask 31" by (simp add: mask_eq_exp_minus_1)
      show ?thesis using False unfolding m by (simp only: bit_and_iff bit_mask_iff) simp
    qed
    then have "shd rs AND 0x7fffffff = 0" by (intro bit_word_eqI) simp
    with d show False ..
  qed
  show "good_draws (stl rs)" using assms by (cases rs) (simp add: good_draws_def)
qed

section \<open>Bounds in pages\<close>

definition addr_at :: "va_state \<Rightarrow> nat \<Rightarrow> uaddr" where
  "addr_at st p = lo_address st + of_nat (4096 * p)"

lemma total_pages_eq: "range_ok st \<Longrightarrow> unat (lo_address st) + 4096 * total_pages st = unat (hi_address st)"
  unfolding range_ok_def total_pages_def
  by (auto simp: word_less_nat_alt dvd_div_mult_self algebra_simps elim!: dvdE)

lemma unat_addr_at:
  assumes "range_ok st" "p \<le> total_pages st"
  shows "unat (addr_at st p) = unat (lo_address st) + 4096 * p"
proof -
  have "unat (lo_address st) + 4096 * p \<le> unat (hi_address st)"
    using total_pages_eq [OF assms(1)] assms(2) by (metis add_left_mono mult_le_mono2)
  then have "unat (lo_address st) + 4096 * p < 2 ^ 64" using unat_u64_less [of "hi_address st"] by linarith
  then show ?thesis unfolding addr_at_def by (subst unat_plus_small) (simp_all del: of_nat_mult)
qed

lemma addr_at_order:
  assumes "range_ok st" "p \<le> total_pages st" "q \<le> total_pages st"
  shows "addr_at st p < addr_at st q \<longleftrightarrow> p < q" "addr_at st p \<le> addr_at st q \<longleftrightarrow> p \<le> q"
    "addr_at st p = addr_at st q \<longleftrightarrow> p = q"
  using assms by (auto simp: word_less_nat_alt word_le_nat_alt word_unat_eq_iff unat_addr_at)

lemma addr_at_aligned:
  assumes "range_ok st" "p \<le> total_pages st"
  shows "is_aligned_uaddr (addr_at st p) 12"
proof -
  have "4096 dvd unat (addr_at st p)" using assms by (simp add: unat_addr_at range_ok_def)
  then have "unat (addr_at st p) div 4096 * 4096 = unat (addr_at st p)" by simp
  then show ?thesis
    by (simp add: is_aligned_uaddr_def word_unat_eq_iff unat_align_down)
qed


lemma drop_page: "drop_bit 12 (of_nat (4096 * n) :: u64) = of_nat n" if "n < 2 ^ 52"
proof -
  have "unat (of_nat (4096 * n) :: u64) = 4096 * n" using that by (intro unat_of_nat_small) simp
  then have "unat (drop_bit 12 (of_nat (4096 * n) :: u64)) = n"
    using that by (simp add: unsigned_drop_bit_eq drop_bit_eq_div [where 'a = nat] take_bit_nat_eq_self del: of_nat_mult)
  moreover have "unat (of_nat n :: u64) = n" using that by (intro unat_of_nat_small) simp
  ultimately show ?thesis by (simp add: word_unat_eq_iff)
qed

lemma push_page: "push_bit 12 (of_nat n :: u64) = of_nat (4096 * n)"
  by (simp add: push_bit_eq_mult)

lemma ucast_of_nat_32: "n < 2 ^ 32 \<Longrightarrow> unat (ucast (of_nat n :: u64) :: u32) = n"
  by (simp add: unsigned_ucast_eq unat_of_nat take_bit_nat_eq_self)

lemma addr_at_add: "addr_at st p + of_nat (4096 * n) = addr_at st (p + n)"
  by (simp add: addr_at_def algebra_simps)

lemma addr_at_diff: "q \<le> p \<Longrightarrow> addr_at st p - addr_at st q = of_nat (4096 * (p - q))"
  by (simp add: addr_at_def of_nat_diff algebra_simps)

lemma addr_at_zero [simp]: "addr_at st 0 = lo_address st"
  by (simp add: addr_at_def)

text \<open>The functions that read a VMA, on the numbers.\<close>

definition in_store :: "va_state \<Rightarrow> vptr \<Rightarrow> bool" where
  "in_store st v \<longleftrightarrow> (\<forall>w. va_head st v w \<noteq> None)"

lemma in_store_head:
  assumes "in_store st v"
  obtains n where "va_head st v w = Some n" "tvalue n = val_of (treaps st w) v" "priority n = prio (treaps st w) v"
  using assms prio_head unfolding in_store_def va_head_def by (metis option.exhaust)

lemma vma_size_eq:
  assumes "in_store st v"
  shows "vma_size st v = Some (of_nat (4096 * pages_in st v))"
proof -
  obtain n where n: "va_head st v BY_SIZE = Some n" "tvalue n = val_of (treaps st BY_SIZE) v"
    using in_store_head [OF assms] by metis
  have "(ucast (tvalue n) :: u64) + 1 = of_nat (pages_in st v)"
    using n(2) by (simp add: pages_in_def)
  then show ?thesis using n(1) by (simp add: vma_size_def push_page del: of_nat_mult)
qed

lemma vma_bounds_eq:
  assumes "in_store st v"
  shows "vma_bounds st v = Some (addr_at st (first_page st v), addr_at st (first_page st v + pages_in st v))"
proof -
  obtain n where n: "va_head st v BY_ADDR = Some n" "tvalue n = val_of (treaps st BY_ADDR) v"
    using in_store_head [OF assms] by metis
  have "(ucast (tvalue n) :: u64) = of_nat (first_page st v)"
    using n(2) by (simp add: first_page_def)
  then show ?thesis using n(1)
    by (simp add: vma_bounds_def vma_size_eq [OF assms] push_page Let_def addr_at_add del: of_nat_mult)
      (simp add: addr_at_def)
qed

lemma is_vma_free_eq: "in_store st v \<Longrightarrow> is_vma_free st v = Some (vfree st v)"
  by (erule in_store_head [where w = BY_SIZE]) (simp add: is_vma_free_def vfree_def)

text \<open>The state \<^verbatim>\<open>vma_init\<close> leaves.\<close>

definition init_state :: "va_state \<Rightarrow> vptr \<Rightarrow> nat \<Rightarrow> nat \<Rightarrow> va_state" where
  "init_state st v p n = st\<lparr>vmas := (vmas st)(Vma v \<mapsto> LIST_INIT (Vma v)),
     treaps := (\<lambda>w. (treaps st w)\<lparr>heads := (heads (treaps st w))(v \<mapsto>
       treap_init (case w of BY_ADDR \<Rightarrow> of_nat p | BY_SIZE \<Rightarrow> of_nat (n - 1)))\<rparr>)\<rparr>"

lemma vma_init_eq:
  assumes "range_ok st" "p < q" "q \<le> total_pages st"
  shows "vma_init st (addr_at st p) (addr_at st q) v = Some (init_state st v p (q - p))"
proof -
  have t: "total_pages st \<le> 2 ^ 32" using assms(1) by (simp add: range_ok_def)
  have o: "addr_at st p < addr_at st q" "lo_address st \<le> addr_at st p"
    using addr_at_order [OF assms(1), of p q] addr_at_order(2) [OF assms(1), of 0 p] assms(2,3) by auto
  have d: "addr_at st p - lo_address st = of_nat (4096 * p)" using addr_at_diff [of 0 p st] by simp
  have s: "p < 2 ^ 32" "q - p \<le> 2 ^ 32" using assms(2,3) t by auto
  have dp: "drop_bit 12 (of_nat (4096 * p) :: u64) = of_nat p" using s by (intro drop_page) simp
  have dq: "drop_bit 12 (of_nat (4096 * (q - p)) :: u64) = of_nat (q - p)" using s by (intro drop_page) simp
  have m1: "(of_nat (q - p) :: u64) - 1 = of_nat (q - p - 1)" using assms(2) by (simp add: of_nat_diff)
  have le: "(of_nat p :: u64) \<le> 0xffffffff" "(of_nat (q - p - 1) :: u64) \<le> 0xffffffff"
    using s by (simp_all add: word_le_nat_alt unat_of_nat take_bit_nat_eq_self del: of_nat_diff)
  have c: "ucast (of_nat p :: u64) = (of_nat p :: u32)" "ucast (of_nat (q - p - 1) :: u64) = (of_nat (q - p - 1) :: u32)"
    using s assms(2) by (simp_all add: word_unat_eq_iff ucast_of_nat_32 del: of_nat_diff)
  have v: "treap_init (case w of BY_ADDR \<Rightarrow> ucast (drop_bit 12 (of_nat (4096 * p) :: u64))
        | BY_SIZE \<Rightarrow> ucast (drop_bit 12 (of_nat (4096 * (q - p)) :: u64) - 1)) =
      treap_init (case w of BY_ADDR \<Rightarrow> of_nat p | BY_SIZE \<Rightarrow> of_nat (q - p - 1))" for w
    unfolding dp dq m1 by (cases w) (simp_all only: c which_treap.case)
  show ?thesis
    using o addr_at_aligned [OF assms(1)] assms(2,3) le
    by (simp add: vma_init_def d addr_at_diff v init_state_def Let_def del: of_nat_mult of_nat_diff)
      (simp add: dp dq m1 del: of_nat_mult of_nat_diff)
qed

section \<open>Tilings\<close>

lemma tiling_append: "tiling s n a (xs @ ys) b \<longleftrightarrow> (\<exists>m. tiling s n a xs m \<and> tiling s n m ys b)"
  by (induction s n a xs b rule: tiling.induct) auto

lemma tiling_cong:
  "(\<And>x. x \<in> set xs \<Longrightarrow> s' x = s x \<and> n' x = n x) \<Longrightarrow> tiling s' n' a xs b = tiling s n a xs b"
  by (induction xs arbitrary: a) auto

lemma tiling_le: "tiling s n a xs b \<Longrightarrow> a \<le> b"
  by (induction s n a xs b rule: tiling.induct) auto

lemma tiling_mem: "tiling s n a xs b \<Longrightarrow> x \<in> set xs \<Longrightarrow> a \<le> s x \<and> s x + n x \<le> b"
proof (induction s n a xs b rule: tiling.induct)
  case (2 s n a y xs b)
  then show ?case using tiling_le [of s n "a + n y" xs b] by auto
qed simp

lemma tiling_split:
  assumes "tiling s n a (xs @ x # ys) b"
  shows "\<forall>y \<in> set xs. s y + n y \<le> s x" "\<forall>y \<in> set ys. s x + n x \<le> s y"
    "tiling s n a xs (s x)" "tiling s n (s x + n x) ys b"
proof -
  have t: "tiling s n a xs (s x)" "tiling s n (s x + n x) ys b"
    using assms by (auto simp: tiling_append)
  then show "tiling s n a xs (s x)" "tiling s n (s x + n x) ys b" by blast+
  show "\<forall>y \<in> set xs. s y + n y \<le> s x" "\<forall>y \<in> set ys. s x + n x \<le> s y"
    using tiling_mem t by blast+
qed

text \<open>The page numbers a set of VMAs covers.\<close>

definition cover :: "va_state \<Rightarrow> vptr \<Rightarrow> nat set" where
  "cover st v = {first_page st v..<first_page st v + pages_in st v}"

lemma tiling_cover:
  "tiling s n a xs b \<Longrightarrow> p \<in> {a..<b} \<Longrightarrow> \<exists>x \<in> set xs. s x \<le> p \<and> p < s x + n x"
proof (induction s n a xs b rule: tiling.induct)
  case (2 s n a y xs b)
  then show ?case by (cases "p < a + n y") auto
qed simp

section \<open>The parts of the invariant\<close>

lemma va_coreD:
  assumes "va_core st xs"
  shows "range_ok st" "is_list (vmas st) Allocator (map Vma xs)" "treap_seq (treaps st BY_ADDR) xs"
    "x \<in> set xs \<Longrightarrow> prio (treaps st BY_ADDR) x \<noteq> 0"
    "x \<in> set xs \<Longrightarrow> \<not> vfree st x \<Longrightarrow> loose (treaps st BY_SIZE) x"
    "tiling (first_page st) (pages_in st) 0 xs (total_pages st)"
    "distinct xs"
proof -
  show "distinct xs" using assms treap.seq_law unfolding va_core_def by blast
qed (use assms in \<open>simp_all add: va_core_def\<close>)

lemma va_core_free:
  assumes "va_core st xs"
  obtains ys where "treap_seq (treaps st BY_SIZE) ys" "set ys = {x \<in> set xs. vfree st x}"
  using assms by (auto simp: va_core_def)

lemma treap_seq_head: "treap_seq s xs \<Longrightarrow> x \<in> set xs \<Longrightarrow> heads s x \<noteq> None"
  unfolding treap_seq_def store_rep_def using tree_rep_head by (metis set_inorder)

lemma va_core_in_store:
  assumes "va_core st xs" "x \<in> set xs"
  shows "in_store st x"
proof -
  obtain ys where ys: "treap_seq (treaps st BY_SIZE) ys" "set ys = {x \<in> set xs. vfree st x}"
    using va_core_free [OF assms(1)] .
  have "va_head st x BY_ADDR \<noteq> None"
    unfolding va_head_def using treap_seq_head [OF va_coreD(3) [OF assms(1)] assms(2)] .
  moreover have "va_head st x BY_SIZE \<noteq> None"
  proof (cases "vfree st x")
    case True
    then show ?thesis unfolding va_head_def using treap_seq_head [OF ys(1)] ys(2) assms(2) by blast
  next
    case False
    then show ?thesis using va_coreD(5) [OF assms] by (auto simp: va_head_def loose_def)
  qed
  ultimately show ?thesis unfolding in_store_def by (metis which_treap.exhaust)
qed

lemma pages_pos: "0 < pages_in st x"
  by (simp add: pages_in_def)

lemma va_core_bounds:
  assumes "va_core st xs" "x \<in> set xs"
  shows "first_page st x + pages_in st x \<le> total_pages st" "first_page st x < total_pages st"
  using tiling_mem [OF va_coreD(6) [OF assms(1)] assms(2)] pages_pos [of st x] by linarith+

section \<open>Finding the VMA of an address\<close>

lemma find_loop_spec:
  assumes rep: "store_rep (treaps st BY_ADDR) (plug c t)" and inv: "va_core st xs"
    and sub: "inorder (plug c t) = xs" and y: "y \<in> set_tree t"
    and p: "first_page st y \<le> p" "p < first_page st y + pages_in st y"
    and addr: "addr = addr_at st p + k" "unat addr = unat (addr_at st p) + unat k" "unat k < 4096"
  shows "find_loop st addr (root_of t) = Some (Some y)"
  using rep sub y
proof (induction t arbitrary: c)
  case (Node l z r)
  have zx: "z \<in> set xs" and yx: "y \<in> set xs"
    using Node.prems(2,3) by (auto simp: inorder_plug)
  note cb = va_coreD [OF inv]
  obtain n where n: "heads (treaps st BY_ADDR) z = Some n" "children n LEFT_CHILD = root_of l" "children n RIGHT_CHILD = root_of r"
    using store_rep_node [OF Node.prems(1)] by metis
  have pt: "p < total_pages st" using va_core_bounds(1) [OF inv yx] p(2) by linarith
  have bz: "vma_bounds st z = Some (addr_at st (first_page st z), addr_at st (first_page st z + pages_in st z))"
    by (rule vma_bounds_eq [OF va_core_in_store [OF inv zx]])
  have ua: "unat (addr_at st q) = unat (lo_address st) + 4096 * q" if "q \<le> total_pages st" for q
    using unat_addr_at [OF cb(1) that] .
  note bnd = va_core_bounds [OF inv zx]
  have lt: "addr < addr_at st (first_page st z) \<longleftrightarrow> p < first_page st z"
    using ua [of p] ua [of "first_page st z"] bnd pt addr(2,3) by (simp add: word_less_nat_alt) linarith
  have le: "addr_at st (first_page st z + pages_in st z) \<le> addr \<longleftrightarrow> first_page st z + pages_in st z \<le> p"
    using ua [of p] ua [of "first_page st z + pages_in st z"] bnd pt addr(2,3) by (simp add: word_le_nat_alt) linarith
  have xs: "xs = (before c @ inorder l) @ z # (inorder r @ after c)"
    using Node.prems(2) by (simp add: inorder_plug)
  note sp = tiling_split [OF cb(6) [unfolded xs]]
  have run: "find_loop st addr (root_of \<langle>l, z, r\<rangle>) =
      (if p < first_page st z then find_loop st addr (root_of l)
       else if first_page st z + pages_in st z \<le> p then find_loop st addr (root_of r) else Some (Some z))"
    using n by (subst find_loop.simps) (simp add: bz va_head_def lt le)
  consider "p < first_page st z" | "first_page st z + pages_in st z \<le> p"
    | "first_page st z \<le> p" "p < first_page st z + pages_in st z" by linarith
  then show ?case
  proof cases
    case 1
    then have "y \<noteq> z" "y \<notin> set (inorder r @ after c)" using p sp(2) by fastforce+
    then have "y \<in> set_tree l" using Node.prems(3) by auto
    then show ?thesis using Node.IH(1) [of "(LEFT_CHILD, z, r) # c"] Node.prems(1,2) run 1 by simp
  next
    case 2
    then have "y \<noteq> z" "y \<notin> set (before c @ inorder l)" using p sp(1) by fastforce+
    then have "y \<in> set_tree r" using Node.prems(3) by auto
    then show ?thesis using Node.IH(2) [of "(RIGHT_CHILD, z, l) # c"] Node.prems(1,2) run 2 pages_pos [of st z] by simp
  next
    case 3
    have "y = z"
    proof (rule ccontr)
      assume "y \<noteq> z"
      then have "y \<in> set (before c @ inorder l) \<or> y \<in> set (inorder r @ after c)" using yx xs by auto
      then show False using sp(1,2) 3 p by fastforce
    qed
    then show ?thesis using run 3 by simp
  qed
qed simp

text \<open>An address of the range is a page of it and an offset in the page.\<close>

lemma addr_page:
  assumes r: "range_ok st" and addr: "lo_address st \<le> addr" "addr < hi_address st"
  obtains p k where "p < total_pages st" "addr = addr_at st p + k"
    "unat addr = unat (addr_at st p) + unat k" "unat k < 4096"
proof -
  define d where "d = unat addr - unat (lo_address st)"
  have ua: "unat addr = unat (lo_address st) + d" using addr(1) by (simp add: d_def word_le_nat_alt)
  have dt: "d < 4096 * total_pages st"
    using total_pages_eq [OF r] addr(2) ua by (simp add: word_less_nat_alt)
  define p where "p = d div 4096"
  define k where "k = (of_nat (d mod 4096) :: u64)"
  have pt: "p < total_pages st" using dt by (simp add: p_def div_less_iff_less_mult mult.commute)
  have uk: "unat k = d mod 4096" unfolding k_def by (rule unat_of_nat_small) (simp add: order_less_trans [of _ 4096])
  have sum: "unat addr = unat (addr_at st p) + unat k"
    using unat_addr_at [OF r, of p] pt ua uk by (simp add: p_def)
  have "addr = addr_at st p + k"
  proof -
    have "unat (addr_at st p + k) = unat (addr_at st p) + unat k"
      using sum unat_u64_less [of addr] by (intro unat_plus_small) simp
    then show ?thesis using sum by (simp add: word_unat_eq_iff)
  qed
  moreover have "unat k < 4096" by (simp add: uk)
  ultimately show thesis using that pt sum by blast
qed

lemma vma_find_at:
  assumes inv: "va_core st xs" and addr: "lo_address st \<le> addr" "addr < hi_address st"
  obtains y p k where "y \<in> set xs" "vma_find st addr = Some y" "addr = addr_at st p + k" "unat k < 4096"
    "first_page st y \<le> p" "p < first_page st y + pages_in st y" "unat addr = unat (addr_at st p) + unat k"
proof -
  note cb = va_coreD [OF inv]
  obtain p k where pk: "p < total_pages st" "addr = addr_at st p + k"
    "unat addr = unat (addr_at st p) + unat k" "unat k < 4096"
    using addr_page [OF cb(1) addr] .
  obtain y where y: "y \<in> set xs" "first_page st y \<le> p" "p < first_page st y + pages_in st y"
    using tiling_cover [OF cb(6), of p] pk(1) by auto
  obtain t where t: "store_rep (treaps st BY_ADDR) t" "inorder t = xs"
    using cb(3) by (auto simp: treap_seq_def)
  have "find_loop st addr (root_of t) = Some (Some y)"
    using find_loop_spec [of st "[]" t xs y p addr k] t inv y pk by (simp flip: set_inorder)
  then have "vma_find st addr = Some y"
    using t(1) addr by (simp add: vma_find_def store_rep_def)
  then show thesis using that y pk by blast
qed

section \<open>The best fit\<close>

lemma best_fit_loop_spec:
  assumes "store_rep (treaps st BY_SIZE) (plug c t)" "sorted (map (val_of (treaps st BY_SIZE)) (inorder t))"
    and "\<And>x. x \<in> set_tree t \<Longrightarrow> in_store st x"
    and n: "n \<le> 2 ^ 26"
  shows "\<exists>r. best_fit_loop st (push_bit 12 (of_nat n)) (root_of t) b = Some r \<and>
    (if \<exists>x \<in> set_tree t. n \<le> pages_in st x
     then \<exists>e \<in> set_tree t. r = Some e \<and> n \<le> pages_in st e \<and>
       (\<forall>x \<in> set_tree t. n \<le> pages_in st x \<longrightarrow> pages_in st e \<le> pages_in st x)
     else r = b)"
  using assms(1-3)
proof (induction t arbitrary: c b)
  case Leaf
  then show ?case by (subst best_fit_loop.simps) simp
next
  case (Node l z r)
  obtain h where h: "heads (treaps st BY_SIZE) z = Some h" "children h LEFT_CHILD = root_of l" "children h RIGHT_CHILD = root_of r"
    using store_rep_node [OF Node.prems(1)] by metis
  have sz: "vma_size st z = Some (of_nat (4096 * pages_in st z))"
    using Node.prems(3) by (intro vma_size_eq) simp
  have bound: "4096 * pages_in st z \<le> 2 ^ 44" "4096 * n \<le> 2 ^ 38"
    using n unsigned_less [of "val_of (treaps st BY_SIZE) z", where 'a = nat] by (simp_all add: pages_in_def)
  have u: "unat (of_nat (4096 * pages_in st z) :: u64) = 4096 * pages_in st z"
    "unat (of_nat (4096 * n) :: u64) = 4096 * n"
    using bound by (intro unat_of_nat_small; simp)+
  have lt: "(of_nat (4096 * pages_in st z) :: u64) < of_nat (4096 * n) \<longleftrightarrow> pages_in st z < n"
    and gt: "(of_nat (4096 * n) :: u64) < of_nat (4096 * pages_in st z) \<longleftrightarrow> n < pages_in st z"
    by (simp_all add: word_less_nat_alt u del: of_nat_mult)
  have run: "best_fit_loop st (push_bit 12 (of_nat n)) (root_of \<langle>l, z, r\<rangle>) b =
      (if pages_in st z < n then best_fit_loop st (push_bit 12 (of_nat n)) (root_of r) b
       else if n < pages_in st z then best_fit_loop st (push_bit 12 (of_nat n)) (root_of l) (Some z)
       else Some (Some z))"
    using h by (subst best_fit_loop.simps) (simp add: va_head_def sz push_page lt gt del: of_nat_mult)
  have "\<forall>x \<in> set_tree l. val_of (treaps st BY_SIZE) x \<le> val_of (treaps st BY_SIZE) z"
    "\<forall>x \<in> set_tree r. val_of (treaps st BY_SIZE) z \<le> val_of (treaps st BY_SIZE) x"
    using Node.prems(2) by (auto simp: sorted_append)
  then have ord: "\<forall>x \<in> set_tree l. pages_in st x \<le> pages_in st z" "\<forall>x \<in> set_tree r. pages_in st z \<le> pages_in st x"
    by (simp_all add: pages_in_def word_le_nat_alt)
  have srt: "sorted (map (val_of (treaps st BY_SIZE)) (inorder l))" "sorted (map (val_of (treaps st BY_SIZE)) (inorder r))"
    using Node.prems(2) by (simp_all add: sorted_append)
  consider "pages_in st z < n" | "n < pages_in st z" | "pages_in st z = n" by linarith
  then show ?case
  proof cases
    case 1
    have none: "\<not> (\<exists>x \<in> set_tree l. n \<le> pages_in st x)" using ord(1) 1 by fastforce
    have "store_rep (treaps st BY_SIZE) (plug ((RIGHT_CHILD, z, l) # c) r)" using Node.prems(1) by simp
    from Node.IH(2) [OF this srt(2), of b] Node.prems(3) obtain q where
      q: "best_fit_loop st (push_bit 12 (of_nat n)) (root_of r) b = Some q"
      "if \<exists>x \<in> set_tree r. n \<le> pages_in st x
       then \<exists>e \<in> set_tree r. q = Some e \<and> n \<le> pages_in st e \<and>
         (\<forall>x \<in> set_tree r. n \<le> pages_in st x \<longrightarrow> pages_in st e \<le> pages_in st x)
       else q = b" by auto
    have ex: "(\<exists>x \<in> set_tree \<langle>l, z, r\<rangle>. n \<le> pages_in st x) \<longleftrightarrow> (\<exists>x \<in> set_tree r. n \<le> pages_in st x)"
      using none 1 by auto
    show ?thesis unfolding run ex using 1 q none by (intro exI [of _ q]) (auto split: if_splits)
  next
    case 2
    have "store_rep (treaps st BY_SIZE) (plug ((LEFT_CHILD, z, r) # c) l)" using Node.prems(1) by simp
    from Node.IH(1) [OF this srt(1), of "Some z"] Node.prems(3) obtain q where
      q: "best_fit_loop st (push_bit 12 (of_nat n)) (root_of l) (Some z) = Some q"
      "if \<exists>x \<in> set_tree l. n \<le> pages_in st x
       then \<exists>e \<in> set_tree l. q = Some e \<and> n \<le> pages_in st e \<and>
         (\<forall>x \<in> set_tree l. n \<le> pages_in st x \<longrightarrow> pages_in st e \<le> pages_in st x)
       else q = Some z" by auto
    have ex: "\<exists>x \<in> set_tree \<langle>l, z, r\<rangle>. n \<le> pages_in st x" using 2 by auto
    show ?thesis
    proof (cases "\<exists>x \<in> set_tree l. n \<le> pages_in st x")
      case True
      then obtain e where "e \<in> set_tree l" "q = Some e" "n \<le> pages_in st e"
        "\<forall>x \<in> set_tree l. n \<le> pages_in st x \<longrightarrow> pages_in st e \<le> pages_in st x" using q(2) by auto
      then show ?thesis using run 2 q(1) ex ord by (intro exI [of _ q]) (auto intro: order_trans)
    next
      case False
      then show ?thesis using run 2 q ex ord by (intro exI [of _ q]) auto
    qed
  next
    case 3
    then have ex: "\<exists>x \<in> set_tree \<langle>l, z, r\<rangle>. n \<le> pages_in st x" by auto
    show ?thesis using run 3 ex by (intro exI [of _ "Some z"]) auto
  qed
qed

section \<open>The steps on the state\<close>

lemma set_treap_simps [simp]:
  "treaps (set_treap st w s) w' = (if w' = w then s else treaps st w')"
  "vmas (set_treap st w s) = vmas st" "lo_address (set_treap st w s) = lo_address st"
  "hi_address (set_treap st w s) = hi_address st" "draws (set_treap st w s) = draws st"
  "allocs (set_treap st w s) = allocs st"
  by (simp_all add: set_treap_def)

lemma range_ok_cong: "lo_address st' = lo_address st \<Longrightarrow> hi_address st' = hi_address st \<Longrightarrow>
    range_ok st' = range_ok st \<and> total_pages st' = total_pages st \<and> addr_at st' = addr_at st"
  by (simp add: range_ok_def total_pages_def addr_at_def fun_eq_iff)

lemma va_remove_eq:
  assumes "treap_seq (treaps st w) ys" "v \<in> set ys" "prio (treaps st w) v \<noteq> 0"
  obtains s where "va_remove st v w = Some (set_treap st w s)" "treap_seq s (remove1 v ys)" "loose s v"
    "val_of s = val_of (treaps st w)" "prio s = (prio (treaps st w))(v := 0)"
    "\<And>y. y \<notin> set ys \<Longrightarrow> loose s y = loose (treaps st w) y"
  using treap.del_law [OF assms] by (auto simp: va_remove_def)

lemma va_insert_eq:
  assumes "treap_seq (treaps st w) ys" "loose (treaps st w) v" "v \<notin> set ys" "good_draws (draws st)"
  obtains s as bs r where "va_insert st v w = Some ((set_treap st w s)\<lparr>draws := stl (draws st)\<rparr>)"
    "ys = as @ bs" "treap_seq s (as @ v # bs)"
    "\<forall>y \<in> set as. val_of (treaps st w) y < val_of (treaps st w) v"
    "\<forall>y \<in> set bs. val_of (treaps st w) v \<le> val_of (treaps st w) y"
    "val_of s = val_of (treaps st w)" "prio s = (prio (treaps st w))(v := r)" "r \<noteq> 0"
    "\<And>y. y \<notin> set (v # ys) \<Longrightarrow> loose s y = loose (treaps st w) y"
proof -
  note d = good_draw [OF assms(4)]
  have "\<exists>s' as bs. treap_insert (treaps st w) v (draws st) = Some (s', stl (draws st)) \<and> ys = as @ bs \<and>
      treap_seq s' (as @ v # bs) \<and>
      (\<forall>y \<in> set as. val_of (treaps st w) y < val_of (treaps st w) v) \<and>
      (\<forall>y \<in> set bs. val_of (treaps st w) v \<le> val_of (treaps st w) y) \<and>
      val_of s' = val_of (treaps st w) \<and>
      prio s' = (prio (treaps st w))(v := ucast (shd (draws st) AND 0x7fffffff)) \<and>
      (\<forall>y. y \<notin> set (v # ys) \<longrightarrow> loose s' y = loose (treaps st w) y)"
    using treap.ins_law [OF assms(1-3)] d(1) by blast
  then show thesis using that d(2) by (auto simp: va_insert_def)
qed

text \<open>At its place in the sequence of addresses.\<close>

lemma va_insert_addr:
  assumes "treap_seq (treaps st BY_ADDR) (as @ bs)" "loose (treaps st BY_ADDR) v" "v \<notin> set (as @ bs)"
    "good_draws (draws st)" "\<forall>y \<in> set as. first_page st y < first_page st v"
    "\<forall>y \<in> set bs. first_page st v \<le> first_page st y"
  obtains s r where "va_insert st v BY_ADDR = Some ((set_treap st BY_ADDR s)\<lparr>draws := stl (draws st)\<rparr>)"
    "treap_seq s (as @ v # bs)" "val_of s = val_of (treaps st BY_ADDR)"
    "prio s = (prio (treaps st BY_ADDR))(v := r)" "r \<noteq> 0"
proof (rule va_insert_eq [OF assms(1-4)])
  fix s as' bs' r
  assume run: "va_insert st v BY_ADDR = Some ((set_treap st BY_ADDR s)\<lparr>draws := stl (draws st)\<rparr>)"
    and e: "as @ bs = as' @ bs'" and s: "treap_seq s (as' @ v # bs')"
    and o: "\<forall>y \<in> set as'. val_of (treaps st BY_ADDR) y < val_of (treaps st BY_ADDR) v"
      "\<forall>y \<in> set bs'. val_of (treaps st BY_ADDR) v \<le> val_of (treaps st BY_ADDR) y"
    and k: "val_of s = val_of (treaps st BY_ADDR)" "prio s = (prio (treaps st BY_ADDR))(v := r)" "r \<noteq> 0"
  have "as = as' \<and> bs = bs'"
    using split_unique [OF e, of "val_of (treaps st BY_ADDR)" "val_of (treaps st BY_ADDR) v"] o assms(5,6)
    by (simp add: first_page_def word_less_nat_alt word_le_nat_alt)
  then show thesis using that run s k by simp
qed

section \<open>Allocation\<close>

text \<open>
  The choice of the VMA: among the free ones that are large enough, a smallest.
\<close>

definition fits :: "va_state \<Rightarrow> nat \<Rightarrow> vptr \<Rightarrow> bool" where
  "fits st n v \<longleftrightarrow> vfree st v \<and> n \<le> pages_in st v"

lemma best_fit_found:
  assumes inv: "va_core st xs" and n: "n \<le> 2 ^ 26"
  obtains (none) "\<forall>x \<in> set xs. \<not> fits st n x"
      "best_fit_loop st (push_bit 12 (of_nat n)) (treap_root (treaps st BY_SIZE)) None = Some None"
  | (some) v where "v \<in> set xs" "fits st n v" "\<forall>x \<in> set xs. fits st n x \<longrightarrow> pages_in st v \<le> pages_in st x"
      "best_fit_loop st (push_bit 12 (of_nat n)) (treap_root (treaps st BY_SIZE)) None = Some (Some v)"
proof -
  obtain ys where ys: "treap_seq (treaps st BY_SIZE) ys" "set ys = {x \<in> set xs. vfree st x}"
    using va_core_free [OF inv] .
  obtain t where t: "store_rep (treaps st BY_SIZE) t" "inorder t = ys" "sorted (map (val_of (treaps st BY_SIZE)) ys)"
    using ys(1) by (auto simp: treap_seq_def)
  have st: "set_tree t = {x \<in> set xs. vfree st x}" using t(2) ys(2) by (metis set_inorder)
  have "store_rep (treaps st BY_SIZE) (plug [] t)" using t(1) by simp
  from best_fit_loop_spec [OF this _ _ n, of None] t st obtain r where
    r: "best_fit_loop st (push_bit 12 (of_nat n)) (root_of t) None = Some r"
    "if \<exists>x \<in> set_tree t. n \<le> pages_in st x
     then \<exists>e \<in> set_tree t. r = Some e \<and> n \<le> pages_in st e \<and>
       (\<forall>x \<in> set_tree t. n \<le> pages_in st x \<longrightarrow> pages_in st e \<le> pages_in st x)
     else r = None" using va_core_in_store [OF inv] by auto
  have root: "treap_root (treaps st BY_SIZE) = root_of t" using t(1) by (simp add: store_rep_def)
  show thesis
  proof (cases "\<exists>x \<in> set_tree t. n \<le> pages_in st x")
    case True
    then obtain e where "e \<in> set_tree t" "r = Some e" "n \<le> pages_in st e"
      "\<forall>x \<in> set_tree t. n \<le> pages_in st x \<longrightarrow> pages_in st e \<le> pages_in st x" using r(2) by auto
    then show thesis using some [of e] r(1) st root by (auto simp: fits_def)
  next
    case False
    then show thesis using none r st root by (auto simp: fits_def)
  qed
qed

text \<open>Taking a free VMA out of the treap of the free ones.\<close>

lemma remove_free:
  assumes inv: "va_core st xs" and v: "v \<in> set xs" "vfree st v"
  obtains s ys where "va_remove st v BY_SIZE = Some (set_treap st BY_SIZE s)" "treap_seq s ys"
    "set ys = {x \<in> set xs. vfree st x} - {v}" "loose s v" "val_of s = val_of (treaps st BY_SIZE)"
    "prio s = (prio (treaps st BY_SIZE))(v := 0)"
    "\<And>x. x \<in> set xs \<Longrightarrow> \<not> vfree st x \<Longrightarrow> loose s x"
proof -
  obtain ys where ys: "treap_seq (treaps st BY_SIZE) ys" "set ys = {x \<in> set xs. vfree st x}"
    using va_core_free [OF inv] .
  have "distinct ys" using treap.seq_law [OF ys(1)] by blast
  then have "set (remove1 v ys) = {x \<in> set xs. vfree st x} - {v}" using ys(2) by simp
  then show thesis
    using va_remove_eq [OF ys(1), of v] that ys(2) v va_coreD(5) [OF inv]
    by (metis (mono_tags, lifting) mem_Collect_eq vfree_def)
qed

lemma take_whole:
  assumes inv: "va_core st xs" and v: "v \<in> set xs" "vfree st v"
  obtains s where "va_remove st v BY_SIZE = Some (set_treap st BY_SIZE s)"
    "va_core (set_treap st BY_SIZE s) xs" "first_page (set_treap st BY_SIZE s) = first_page st"
    "pages_in (set_treap st BY_SIZE s) = pages_in st" "vfree (set_treap st BY_SIZE s) = (vfree st)(v := False)"
proof (rule remove_free [OF assms])
  fix s ys
  assume s: "va_remove st v BY_SIZE = Some (set_treap st BY_SIZE s)" "treap_seq s ys"
    "set ys = {x \<in> set xs. vfree st x} - {v}" "loose s v" "val_of s = val_of (treaps st BY_SIZE)"
    "prio s = (prio (treaps st BY_SIZE))(v := 0)"
    "\<And>x. x \<in> set xs \<Longrightarrow> \<not> vfree st x \<Longrightarrow> loose s x"
  let ?st = "set_treap st BY_SIZE s"
  have eq: "first_page ?st = first_page st" "pages_in ?st = pages_in st" "vfree ?st = (vfree st)(v := False)"
    using s(5,6) by (auto simp: first_page_def pages_in_def vfree_def fun_eq_iff)
  note r = range_ok_cong [of ?st st]
  have "\<exists>ys. treap_seq s ys \<and> set ys = {x \<in> set xs. vfree ?st x}"
    using s(2,3) by (intro exI [of _ ys]) (auto simp: eq)
  then have "va_core ?st xs"
    using va_coreD [OF inv] s(4,7) r unfolding va_core_def by (auto simp: eq)
  then show thesis using that s(1) eq by blast
qed

section \<open>States with a gap\<close>

text \<open>
  In the middle of an operation the VMAs do not cover the pages from \<open>p\<close> to \<open>q\<close>; the rest
  of the invariant holds.  The operations are sequences of steps between such states.
\<close>

definition va_gap :: "va_state \<Rightarrow> vptr list \<Rightarrow> vptr list \<Rightarrow> nat \<Rightarrow> nat \<Rightarrow> bool" where
  "va_gap st as bs p q \<longleftrightarrow> range_ok st \<and> is_list (vmas st) Allocator (map Vma (as @ bs)) \<and>
     treap_seq (treaps st BY_ADDR) (as @ bs) \<and> (\<forall>x \<in> set (as @ bs). prio (treaps st BY_ADDR) x \<noteq> 0) \<and>
     (\<exists>ys. treap_seq (treaps st BY_SIZE) ys \<and> set ys = {x \<in> set (as @ bs). vfree st x}) \<and>
     (\<forall>x \<in> set (as @ bs). \<not> vfree st x \<longrightarrow> loose (treaps st BY_SIZE) x) \<and>
     tiling (first_page st) (pages_in st) 0 as p \<and> p \<le> q \<and>
     tiling (first_page st) (pages_in st) q bs (total_pages st)"

lemma va_core_gap: "va_core st (as @ bs) \<longleftrightarrow> (\<exists>p. va_gap st as bs p p)"
  unfolding va_core_def va_gap_def tiling_append by auto

lemma va_gapD:
  assumes "va_gap st as bs p q"
  shows "range_ok st" "is_list (vmas st) Allocator (map Vma (as @ bs))" "treap_seq (treaps st BY_ADDR) (as @ bs)"
    "x \<in> set (as @ bs) \<Longrightarrow> prio (treaps st BY_ADDR) x \<noteq> 0"
    "x \<in> set (as @ bs) \<Longrightarrow> \<not> vfree st x \<Longrightarrow> loose (treaps st BY_SIZE) x"
    "tiling (first_page st) (pages_in st) 0 as p" "tiling (first_page st) (pages_in st) q bs (total_pages st)"
    "p \<le> q" "q \<le> total_pages st" "distinct (as @ bs)"
proof -
  show "distinct (as @ bs)" using assms treap.seq_law unfolding va_gap_def by blast
  show "q \<le> total_pages st" using assms tiling_le unfolding va_gap_def by blast
qed (use assms in \<open>simp_all add: va_gap_def\<close>)

lemma va_gapI:
  assumes "range_ok st" "is_list (vmas st) Allocator (map Vma (as @ bs))" "treap_seq (treaps st BY_ADDR) (as @ bs)"
    "\<And>x. x \<in> set (as @ bs) \<Longrightarrow> prio (treaps st BY_ADDR) x \<noteq> 0"
    "treap_seq (treaps st BY_SIZE) ys" "set ys = {x \<in> set (as @ bs). vfree st x}"
    "\<And>x. x \<in> set (as @ bs) \<Longrightarrow> \<not> vfree st x \<Longrightarrow> loose (treaps st BY_SIZE) x"
    "tiling (first_page st) (pages_in st) 0 as p" "p \<le> q"
    "tiling (first_page st) (pages_in st) q bs (total_pages st)"
  shows "va_gap st as bs p q"
  using assms unfolding va_gap_def by blast

lemma va_gap_free:
  assumes "va_gap st as bs p q"
  obtains ys where "treap_seq (treaps st BY_SIZE) ys" "set ys = {x \<in> set (as @ bs). vfree st x}"
  using assms unfolding va_gap_def by blast

text \<open>The node a step inserts after.\<close>

definition pred_node :: "vptr list \<Rightarrow> node" where
  "pred_node as = (if as = [] then Allocator else Vma (last as))"

lemma unshift_pred:
  assumes "is_list l Allocator (map Vma (as @ bs))" "self_linked l (Vma v)" "v \<notin> set (as @ bs)"
  obtains l' where "list_unshift l (pred_node as) (Vma v) = Some l'" "is_list l' Allocator (map Vma (as @ v # bs))"
proof (cases as rule: rev_cases)
  case Nil
  then show thesis using links.unshift [of l Allocator "map Vma bs" "Vma v"] assms that
    by (auto simp: pred_node_def)
next
  case (snoc as' a)
  then show thesis using links.unshift_at [of l Allocator "map Vma as'" "Vma a" "map Vma bs" "Vma v"] assms that
    by (auto simp: pred_node_def)
qed

lemma vma_init_gap:
  assumes gap: "va_gap st as bs p q" and m: "p \<le> m" "m < q" and v: "v \<notin> set (as @ bs)"
    and r: "q - m \<le> 2 ^ 32"
  defines "st1 \<equiv> init_state st v m (q - m)"
  shows "vma_init st (addr_at st m) (addr_at st q) v = Some st1"
    "va_gap st1 as bs p q" "first_page st1 = (first_page st)(v := m)" "pages_in st1 = (pages_in st)(v := q - m)"
    "vfree st1 = (vfree st)(v := False)" "loose (treaps st1 w) v" "self_linked (vmas st1) (Vma v)"
proof -
  note g = va_gapD [OF gap]
  have t: "total_pages st \<le> 2 ^ 32" using g(1) by (simp add: range_ok_def)
  show "vma_init st (addr_at st m) (addr_at st q) v = Some st1"
    unfolding st1_def using m g(9) by (intro vma_init_eq [OF g(1)]) auto
  have h: "heads (treaps st1 w) = (heads (treaps st w))(v \<mapsto> treap_init (case w of BY_ADDR \<Rightarrow> of_nat m | BY_SIZE \<Rightarrow> of_nat (q - m - 1)))"
    "treap_root (treaps st1 w) = treap_root (treaps st w)" for w
    by (simp_all add: st1_def init_state_def)
  have mb: "m < 2 ^ 32" "q - m - 1 < 2 ^ 32" using m g(9) t by auto
  show fp: "first_page st1 = (first_page st)(v := m)"
    using put_head(1) [OF h(1), of BY_ADDR] mb(1)
    by (simp add: first_page_def fun_eq_iff treap_init_def)
  have "unat (of_nat (q - m - 1) :: u32) = q - m - 1" using mb(2) by (intro unat_of_nat_small) simp
  then show pg: "pages_in st1 = (pages_in st)(v := q - m)"
    using put_head(1) [OF h(1), of BY_SIZE] m
    by (simp add: pages_in_def fun_eq_iff treap_init_def del: of_nat_diff)
  show fr: "vfree st1 = (vfree st)(v := False)"
    using put_head(2) [OF h(1), of BY_SIZE] by (simp add: vfree_def fun_eq_iff treap_init_def)
  show "loose (treaps st1 w) v" using put_head(3) [OF h(1), of w] by (simp add: unlinked_def treap_init_def)
  show "self_linked (vmas st1) (Vma v)" by (simp add: st1_def init_state_def self_linked_def)
  have seqs: "treap_seq (treaps st1 w) ys" if "treap_seq (treaps st w) ys" "v \<notin> set ys" for w ys
    using treap_seq_put [OF that h] .
  have other: "x \<noteq> v \<Longrightarrow> prio (treaps st1 w) x = prio (treaps st w) x \<and> loose (treaps st1 w) x = loose (treaps st w) x" for w x
    using put_head(2,4) [OF h(1)] by simp
  obtain ys where ys: "treap_seq (treaps st BY_SIZE) ys" "set ys = {x \<in> set (as @ bs). vfree st x}"
    using va_gap_free [OF gap] .
  have tl: "tiling (first_page st1) (pages_in st1) a zs b = tiling (first_page st) (pages_in st) a zs b"
    if "v \<notin> set zs" for a zs b
    using that by (intro tiling_cong) (auto simp: fp pg)
  have rt: "range_ok st1" "total_pages st1 = total_pages st"
    using range_ok_cong [of st1 st] g(1) by (simp_all add: st1_def init_state_def)
  have ne: "x \<noteq> v" if "x \<in> set (as @ bs)" for x using that v by auto
  show "va_gap st1 as bs p q"
  proof (rule va_gapI)
    show "is_list (vmas st1) Allocator (map Vma (as @ bs))"
      using g(2) v by (subst is_list_cong [of _ _ _ "vmas st"]) (auto simp: st1_def init_state_def)
    show "treap_seq (treaps st1 BY_ADDR) (as @ bs)" using seqs [OF g(3) v] .
    show "treap_seq (treaps st1 BY_SIZE) ys" using seqs [OF ys(1)] ys(2) v by auto
    show "set ys = {x \<in> set (as @ bs). vfree st1 x}" using ys(2) v by (auto simp: fr)
    show "prio (treaps st1 BY_ADDR) x \<noteq> 0" if "x \<in> set (as @ bs)" for x
      using g(4) [OF that] other [OF ne [OF that]] by simp
    show "loose (treaps st1 BY_SIZE) x" if "x \<in> set (as @ bs)" "\<not> vfree st1 x" for x
      using g(5) [OF that(1)] that(2) other [OF ne [OF that(1)]] ne [OF that(1)] by (simp add: fr)
  qed (use rt g(6-8) tl v in simp_all)
qed

text \<open>Linking the initialized VMA into the list and the treap of addresses.\<close>

lemma link_gap:
  assumes gap: "va_gap st as bs p q" and v: "v \<notin> set (as @ bs)" and d: "good_draws (draws st)"
    and f: "first_page st v = m" "pages_in st v = q - m" "p \<le> m" "m < q" "\<not> vfree st v"
    and l: "\<And>w. loose (treaps st w) v" "self_linked (vmas st) (Vma v)"
  obtains st2 st3 where "list_op st (\<lambda>l. list_unshift l (pred_node as) (Vma v)) = Some st2"
    "va_insert st2 v BY_ADDR = Some st3" "va_gap st3 as (v # bs) p m"
    "first_page st3 = first_page st" "pages_in st3 = pages_in st" "vfree st3 = vfree st"
    "draws st3 = stl (draws st)" "allocs st3 = allocs st" "addr_at st3 = addr_at st"
    "treaps st3 BY_SIZE = treaps st BY_SIZE"
proof -
  note g = va_gapD [OF gap]
  obtain l' where l': "list_unshift (vmas st) (pred_node as) (Vma v) = Some l'"
    "is_list l' Allocator (map Vma (as @ v # bs))" using unshift_pred [OF g(2) l(2) v] .
  define st2 where "st2 = st\<lparr>vmas := l'\<rparr>"
  have t2: "treaps st2 = treaps st" "draws st2 = draws st" by (simp_all add: st2_def)
  have f2: "first_page st2 = first_page st" by (simp add: first_page_def fun_eq_iff t2)
  have before: "\<forall>y \<in> set as. first_page st2 y < first_page st2 v"
    unfolding f2
  proof
    fix y assume "y \<in> set as"
    then show "first_page st y < first_page st v"
      using tiling_mem [OF g(6)] f(1,3) pages_pos [of st y] by fastforce
  qed
  have after: "\<forall>y \<in> set bs. first_page st2 v \<le> first_page st2 y"
    using tiling_mem [OF g(7)] f(1,4) unfolding f2 by fastforce
  obtain s r where s: "va_insert st2 v BY_ADDR = Some ((set_treap st2 BY_ADDR s)\<lparr>draws := stl (draws st2)\<rparr>)"
    "treap_seq s (as @ v # bs)" "val_of s = val_of (treaps st2 BY_ADDR)"
    "prio s = (prio (treaps st2 BY_ADDR))(v := r)" "r \<noteq> 0"
    using va_insert_addr [of st2 as bs v] g(3) l(1) v d before after unfolding t2 by metis
  define st3 where "st3 = (set_treap st2 BY_ADDR s)\<lparr>draws := stl (draws st2)\<rparr>"
  have t3: "treaps st3 BY_ADDR = s" "treaps st3 BY_SIZE = treaps st BY_SIZE" "vmas st3 = l'"
    by (simp_all add: st3_def st2_def)
  have eq: "first_page st3 = first_page st" "pages_in st3 = pages_in st" "vfree st3 = vfree st"
    using s(3) by (simp_all add: first_page_def pages_in_def vfree_def fun_eq_iff t3 t2)
  have rc: "range_ok st3 = range_ok st \<and> total_pages st3 = total_pages st \<and> addr_at st3 = addr_at st"
    by (rule range_ok_cong) (simp_all add: st3_def st2_def)
  obtain ys where ys: "treap_seq (treaps st BY_SIZE) ys" "set ys = {x \<in> set (as @ bs). vfree st x}"
    using va_gap_free [OF gap] .
  have "va_gap st3 as (v # bs) p m"
  proof (rule va_gapI)
    show "prio (treaps st3 BY_ADDR) x \<noteq> 0" if "x \<in> set (as @ v # bs)" for x
      using that g(4) s(4,5) by (auto simp: t3 t2)
    show "treap_seq (treaps st3 BY_SIZE) ys" using ys(1) by (simp add: t3)
    show "set ys = {x \<in> set (as @ v # bs). vfree st3 x}" using ys(2) f(5) by (auto simp: eq)
    show "loose (treaps st3 BY_SIZE) x" if "x \<in> set (as @ v # bs)" "\<not> vfree st3 x" for x
      using that g(5) l(1) by (auto simp: eq t3)
    show "tiling (first_page st3) (pages_in st3) m (v # bs) (total_pages st3)"
      using g(7) f(1,2,4) rc by (simp add: eq)
  qed (use rc g(1,6) f(3) l' s(2) in \<open>simp_all add: t3 eq\<close>)
  moreover have "list_op st (\<lambda>l. list_unshift l (pred_node as) (Vma v)) = Some st2"
    using l'(1) by (simp add: list_op_def st2_def)
  ultimately show thesis
    using that [of st2 st3] s(1) eq rc t3 by (simp add: st3_def st2_def)
qed

text \<open>Putting a used VMA into the treap of the free ones.\<close>

lemma free_gap:
  assumes gap: "va_gap st as bs p q" and v: "v \<in> set (as @ bs)" "\<not> vfree st v" and d: "good_draws (draws st)"
  obtains st' where "va_insert st v BY_SIZE = Some st'" "va_gap st' as bs p q"
    "first_page st' = first_page st" "pages_in st' = pages_in st" "vfree st' = (vfree st)(v := True)"
    "draws st' = stl (draws st)" "allocs st' = allocs st" "addr_at st' = addr_at st" "vmas st' = vmas st"
proof -
  note g = va_gapD [OF gap]
  obtain ys where ys: "treap_seq (treaps st BY_SIZE) ys" "set ys = {x \<in> set (as @ bs). vfree st x}"
    using va_gap_free [OF gap] .
  have "v \<notin> set ys" using ys(2) v(2) by simp
  from va_insert_eq [OF ys(1) g(5) [OF v] this d] obtain s as' bs' r where
    s: "va_insert st v BY_SIZE = Some ((set_treap st BY_SIZE s)\<lparr>draws := stl (draws st)\<rparr>)"
    "ys = as' @ bs'" "treap_seq s (as' @ v # bs')" "val_of s = val_of (treaps st BY_SIZE)"
    "prio s = (prio (treaps st BY_SIZE))(v := r)" "r \<noteq> 0"
    "\<And>y. y \<notin> set (v # ys) \<Longrightarrow> loose s y = loose (treaps st BY_SIZE) y" by metis
  define st' where "st' = (set_treap st BY_SIZE s)\<lparr>draws := stl (draws st)\<rparr>"
  have t: "treaps st' BY_ADDR = treaps st BY_ADDR" "treaps st' BY_SIZE = s" "vmas st' = vmas st"
    by (simp_all add: st'_def)
  have eq: "first_page st' = first_page st" "pages_in st' = pages_in st" "vfree st' = (vfree st)(v := True)"
    using s(4-6) by (simp_all add: first_page_def pages_in_def vfree_def fun_eq_iff t)
  have rc: "range_ok st' = range_ok st \<and> total_pages st' = total_pages st \<and> addr_at st' = addr_at st"
    by (rule range_ok_cong) (simp_all add: st'_def)
  have "va_gap st' as bs p q"
  proof (rule va_gapI)
    show "treap_seq (treaps st' BY_SIZE) (as' @ v # bs')" using s(3) by (simp add: t)
    show "set (as' @ v # bs') = {x \<in> set (as @ bs). vfree st' x}"
      using ys(2) v(1) s(2) by (auto simp: eq)
    show "loose (treaps st' BY_SIZE) x" if "x \<in> set (as @ bs)" "\<not> vfree st' x" for x
      using that g(5) s(7) [of x] ys(2) by (auto simp: eq t split: if_splits)
  qed (use rc g in \<open>simp_all add: t eq\<close>)
  then show thesis using that [of st'] s(1) eq rc t by (simp add: st'_def)
qed

text \<open>Taking a free VMA out of the treap of the free ones.\<close>

lemma use_gap:
  assumes gap: "va_gap st as bs p q" and v: "v \<in> set (as @ bs)" "vfree st v"
  obtains st' where "va_remove st v BY_SIZE = Some st'" "va_gap st' as bs p q"
    "first_page st' = first_page st" "pages_in st' = pages_in st" "vfree st' = (vfree st)(v := False)"
    "draws st' = draws st" "allocs st' = allocs st" "addr_at st' = addr_at st" "vmas st' = vmas st"
proof -
  note g = va_gapD [OF gap]
  obtain ys where ys: "treap_seq (treaps st BY_SIZE) ys" "set ys = {x \<in> set (as @ bs). vfree st x}"
    using va_gap_free [OF gap] .
  have vy: "v \<in> set ys" "prio (treaps st BY_SIZE) v \<noteq> 0" using ys(2) v by (auto simp: vfree_def)
  obtain s where s: "va_remove st v BY_SIZE = Some (set_treap st BY_SIZE s)" "treap_seq s (remove1 v ys)" "loose s v"
    "val_of s = val_of (treaps st BY_SIZE)" "prio s = (prio (treaps st BY_SIZE))(v := 0)"
    "\<And>y. y \<notin> set ys \<Longrightarrow> loose s y = loose (treaps st BY_SIZE) y"
    using va_remove_eq [OF ys(1) vy] by metis
  define st' where "st' = set_treap st BY_SIZE s"
  have t: "treaps st' BY_ADDR = treaps st BY_ADDR" "treaps st' BY_SIZE = s" "vmas st' = vmas st"
    by (simp_all add: st'_def)
  have eq: "first_page st' = first_page st" "pages_in st' = pages_in st" "vfree st' = (vfree st)(v := False)"
    using s(4,5) by (simp_all add: first_page_def pages_in_def vfree_def fun_eq_iff t)
  have rc: "range_ok st' = range_ok st \<and> total_pages st' = total_pages st \<and> addr_at st' = addr_at st"
    by (rule range_ok_cong) (simp_all add: st'_def)
  have "distinct ys" using treap.seq_law [OF ys(1)] by blast
  have "va_gap st' as bs p q"
  proof (rule va_gapI)
    show "treap_seq (treaps st' BY_SIZE) (remove1 v ys)" using s(2) by (simp add: t)
    show "set (remove1 v ys) = {x \<in> set (as @ bs). vfree st' x}"
      using ys(2) \<open>distinct ys\<close> by (auto simp: eq)
    show "loose (treaps st' BY_SIZE) x" if "x \<in> set (as @ bs)" "\<not> vfree st' x" for x
      using that g(5) s(3) s(6) [of x] ys(2) by (auto simp: eq t split: if_splits)
  qed (use rc g in \<open>simp_all add: t eq\<close>)
  then show thesis using that [of st'] s(1) eq rc t by (simp add: st'_def)
qed

lemma va_gap_in_store:
  assumes "va_gap st as bs p q" "x \<in> set (as @ bs)"
  shows "in_store st x"
proof -
  obtain ys where ys: "treap_seq (treaps st BY_SIZE) ys" "set ys = {x \<in> set (as @ bs). vfree st x}"
    using va_gap_free [OF assms(1)] .
  have "va_head st x BY_ADDR \<noteq> None"
    unfolding va_head_def using treap_seq_head [OF va_gapD(3) [OF assms(1)] assms(2)] .
  moreover have "va_head st x BY_SIZE \<noteq> None"
  proof (cases "vfree st x")
    case True
    then show ?thesis unfolding va_head_def using treap_seq_head [OF ys(1)] ys(2) assms(2) by blast
  next
    case False
    then show ?thesis using va_gapD(5) [OF assms] by (auto simp: va_head_def loose_def)
  qed
  ultimately show ?thesis unfolding in_store_def by (metis which_treap.exhaust)
qed

text \<open>Resizing a used VMA next to the gap.\<close>

lemma resize_gap:
  assumes gap: "va_gap st (as @ [v]) bs p q" and v: "\<not> vfree st v"
    and k: "0 < k" "k \<le> 2 ^ 32" "first_page st v + k \<le> q"
  obtains st' where "set_value st v BY_SIZE (of_nat (k - 1)) = Some st'"
    "va_gap st' (as @ [v]) bs (first_page st v + k) q"
    "first_page st' = first_page st" "pages_in st' = (pages_in st)(v := k)" "vfree st' = vfree st"
    "draws st' = draws st" "allocs st' = allocs st" "addr_at st' = addr_at st" "vmas st' = vmas st"
proof -
  note g = va_gapD [OF gap]
  have l: "loose (treaps st BY_SIZE) v" using g(5) v by simp
  then obtain n where n: "heads (treaps st BY_SIZE) v = Some n" "unlinked n" by (auto simp: loose_def)
  define n' where "n' = n\<lparr>tvalue := of_nat (k - 1)\<rparr>"
  define s where "s = (treaps st BY_SIZE)\<lparr>heads := (heads (treaps st BY_SIZE))(v \<mapsto> n')\<rparr>"
  define st' where "st' = set_treap st BY_SIZE s"
  have h: "heads s = (heads (treaps st BY_SIZE))(v \<mapsto> n')" "treap_root s = treap_root (treaps st BY_SIZE)"
    by (simp_all add: s_def)
  have un: "unlinked n'"
    using n(2) unfolding n'_def unlinked_def by (simp add: treap_init_def) (metis treap_head.update_convs(1))
  have pr: "priority n' = priority n" "tvalue n' = of_nat (k - 1)" by (simp_all add: n'_def)
  have t: "treaps st' BY_ADDR = treaps st BY_ADDR" "treaps st' BY_SIZE = s" "vmas st' = vmas st"
    by (simp_all add: st'_def)
  have "prio s = prio (treaps st BY_SIZE)"
    using put_head(2) [OF h(1)] pr(1) prio_head(1) [OF n(1)] by (simp add: fun_eq_iff)
  moreover have "unat (of_nat (k - 1) :: u32) = k - 1" using k by (intro unat_of_nat_small) simp
  ultimately have eq: "first_page st' = first_page st" "pages_in st' = (pages_in st)(v := k)" "vfree st' = vfree st"
    using put_head(1) [OF h(1)] pr(2) k(1)
    by (simp_all add: first_page_def pages_in_def vfree_def fun_eq_iff t del: of_nat_diff)
  have rc: "range_ok st' = range_ok st \<and> total_pages st' = total_pages st \<and> addr_at st' = addr_at st"
    by (rule range_ok_cong) (simp_all add: st'_def)
  obtain ys where ys: "treap_seq (treaps st BY_SIZE) ys" "set ys = {x \<in> set ((as @ [v]) @ bs). vfree st x}"
    using va_gap_free [OF gap] .
  have tl: "tiling (first_page st') (pages_in st') a zs b = tiling (first_page st) (pages_in st) a zs b"
    if "v \<notin> set zs" for a zs b
    using that by (intro tiling_cong) (auto simp: eq)
  have nv: "v \<notin> set as" "v \<notin> set bs" using g(10) by auto
  have "va_gap st' (as @ [v]) bs (first_page st v + k) q"
  proof (rule va_gapI)
    show "treap_seq (treaps st' BY_SIZE) ys"
      using treap_seq_put [OF ys(1) _ h] ys(2) v by (simp add: t)
    show "set ys = {x \<in> set ((as @ [v]) @ bs). vfree st' x}" using ys(2) by (simp add: eq)
    show "loose (treaps st' BY_SIZE) x" if "x \<in> set ((as @ [v]) @ bs)" "\<not> vfree st' x" for x
      using that g(5) put_head(3,4) [OF h(1)] un by (cases "x = v") (auto simp: eq t)
    show "tiling (first_page st') (pages_in st') 0 (as @ [v]) (first_page st v + k)"
      using g(6) nv by (auto simp: tiling_append eq tl [unfolded eq])
    show "tiling (first_page st') (pages_in st') q bs (total_pages st')"
      using g(7) nv rc by (simp add: eq tl [unfolded eq])
  qed (use rc g k(3) in \<open>simp_all add: t eq\<close>)
  moreover have "set_value st v BY_SIZE (of_nat (k - 1)) = Some st'"
    using n(1) by (simp add: set_value_def st'_def s_def n'_def)
  ultimately show thesis using that eq rc t by (simp add: st'_def)
qed

text \<open>A new free VMA in the upper part of the gap: the four calls the code makes.\<close>

lemma place_free:
  assumes gap: "va_gap st as bs p q" and v: "v \<notin> set (as @ bs)" and m: "p \<le> m" "m < q"
    and d: "good_draws (draws st)"
  obtains st1 st2 st3 st4 where "vma_init st (addr_at st m) (addr_at st q) v = Some st1"
    "list_op st1 (\<lambda>l. list_unshift l (pred_node as) (Vma v)) = Some st2"
    "va_insert st2 v BY_ADDR = Some st3" "va_insert st3 v BY_SIZE = Some st4"
    "va_gap st4 as (v # bs) p m" "first_page st4 = (first_page st)(v := m)"
    "pages_in st4 = (pages_in st)(v := q - m)" "vfree st4 = (vfree st)(v := True)"
    "good_draws (draws st4)" "allocs st4 = allocs st" "addr_at st4 = addr_at st"
proof -
  note g = va_gapD [OF gap]
  have r: "q - m \<le> 2 ^ 32" using g(1,9) by (auto simp: range_ok_def)
  define st1 where "st1 = init_state st v m (q - m)"
  note i = vma_init_gap [OF gap m v r, folded st1_def]
  have d1: "draws st1 = draws st" "allocs st1 = allocs st" by (simp_all add: st1_def init_state_def)
  have a1: "addr_at st1 = addr_at st"
    using range_ok_cong [of st1 st] by (simp add: st1_def init_state_def)
  have f1: "first_page st1 v = m" "pages_in st1 v = q - m" "\<not> vfree st1 v" using i(3-5) by simp_all
  have d1': "good_draws (draws st1)" using d d1 by simp
  obtain st2 st3 where s3: "list_op st1 (\<lambda>l. list_unshift l (pred_node as) (Vma v)) = Some st2"
    "va_insert st2 v BY_ADDR = Some st3" "va_gap st3 as (v # bs) p m"
    "first_page st3 = first_page st1" "pages_in st3 = pages_in st1" "vfree st3 = vfree st1"
    "draws st3 = stl (draws st1)" "allocs st3 = allocs st1" "addr_at st3 = addr_at st1"
    using link_gap [OF i(2) v d1' f1(1,2) m f1(3) i(6,7)] by metis
  have d3: "good_draws (draws st3)" using good_draw(3) d s3(7) d1 by simp
  obtain st4 where s4: "va_insert st3 v BY_SIZE = Some st4" "va_gap st4 as (v # bs) p m"
    "first_page st4 = first_page st3" "pages_in st4 = pages_in st3" "vfree st4 = (vfree st3)(v := True)"
    "draws st4 = stl (draws st3)" "allocs st4 = allocs st3" "addr_at st4 = addr_at st3"
    using free_gap [OF s3(3) _ _ d3, of v] f1(3) s3(6) by auto
  show thesis
    by (rule that [OF i(1) s3(1,2) s4(1,2)])
      (use i(3-5) s3 s4 d3 good_draw(3) d1 a1 in \<open>simp_all add: fun_eq_iff\<close>)
qed

end
