(* ===== verification/Address_Space.thy ===== *)
theory Address_Space
  imports Virtual_Alloc
begin

text \<open>
  What the operations of the virtual memory allocator do to its contents: the used VMAs
  with their pages (\<open>used_vmas\<close>) and, in what is left, the runs of free pages
  (\<open>free_run\<close>).  Each operation keeps the invariant \<open>va_inv\<close>.
\<close>

unbundle bit_operations_syntax

section \<open>What allocation does\<close>

text \<open>
  A VMA \<open>v\<close> is taken for use and cut down to \<open>n\<close> pages; what is left over, if anything, is a
  new free VMA right behind it.  Every other VMA keeps its bounds and its state.
\<close>

definition taken :: "va_state \<Rightarrow> vptr list \<Rightarrow> vptr \<Rightarrow> nat \<Rightarrow> va_state \<Rightarrow> vptr list \<Rightarrow> bool" where
  "taken st xs v n st' xs' \<longleftrightarrow> v \<in> set xs \<and> va_inv st' xs' \<and>
     first_page st' v = first_page st v \<and> pages_in st' v = n \<and> \<not> vfree st' v \<and>
     (\<forall>x \<in> set xs - {v}. x \<in> set xs' \<and> first_page st' x = first_page st x \<and>
        pages_in st' x = pages_in st x \<and> vfree st' x = vfree st x) \<and>
     (if pages_in st v = n then xs' = xs
      else \<exists>u as bs. xs = as @ v # bs \<and> xs' = as @ v # u # bs \<and> vfree st' u \<and>
        first_page st' u = first_page st v + n \<and> n + pages_in st' u = pages_in st v)"

lemma coalesced_append: "coalesced f (xs @ ys) \<longleftrightarrow> coalesced f xs \<and> coalesced f ys \<and>
    (xs \<noteq> [] \<longrightarrow> ys \<noteq> [] \<longrightarrow> \<not> (f (last xs) \<and> f (hd ys)))"
proof (induction xs)
  case (Cons x xs)
  then show ?case by (cases xs; cases ys; auto)
qed simp

lemma coalesced_cong: "(\<And>x. x \<in> set xs \<Longrightarrow> f x = g x) \<Longrightarrow> coalesced f xs = coalesced g xs"
  by (induction f xs rule: coalesced.induct) auto

lemma coalesced_fewer: "coalesced f xs \<Longrightarrow> (\<And>x. g x \<Longrightarrow> f x) \<Longrightarrow> coalesced g xs"
  by (induction f xs rule: coalesced.induct) auto

lemma word_pages: "0 < n \<Longrightarrow> n < 2 ^ 52 \<Longrightarrow> drop_bit 12 (push_bit 12 (of_nat n :: u64)) - 1 = of_nat (n - 1)"
  by (simp add: push_page drop_page of_nat_diff del: of_nat_mult)

lemma alloc_exact:
  assumes inv: "va_inv st xs" and v: "v \<in> set xs" "vfree st v"
  obtains st' where "va_remove st v BY_SIZE = Some st'" "taken st xs v (pages_in st v) st' xs"
    "draws st' = draws st" "allocs st' = allocs st" "addr_at st' = addr_at st"
proof -
  have "va_core st (xs @ [])" using inv by (simp add: va_inv_def)
  then obtain p where gap: "va_gap st xs [] p p" unfolding va_core_gap by blast
  obtain st' where st': "va_remove st v BY_SIZE = Some st'" "va_gap st' xs [] p p"
    "first_page st' = first_page st" "pages_in st' = pages_in st" "vfree st' = (vfree st)(v := False)"
    "draws st' = draws st" "allocs st' = allocs st" "addr_at st' = addr_at st"
    using use_gap [OF gap, of v] v by auto
  have "va_core st' xs" using st'(2) va_core_gap [of st' xs "[]"] by auto
  moreover have "coalesced (vfree st') xs"
    by (rule coalesced_fewer [of "vfree st"]) (use inv st'(5) in \<open>auto simp: va_inv_def split: if_splits\<close>)
  ultimately have "taken st xs v (pages_in st v) st' xs"
    using v st' by (simp add: taken_def va_inv_def)
  then show thesis using that st' by blast
qed

lemma alloc_split:
  assumes inv: "va_inv st xs" and v: "v \<in> set xs" "vfree st v" and n: "0 < n" "n < pages_in st v"
    and u: "u \<notin> set xs" and d: "good_draws (draws st)"
  obtains st1 st2 st3 st4 st5 st' xs' where "va_remove st v BY_SIZE = Some st1"
    "set_value st1 v BY_SIZE (of_nat (n - 1)) = Some st2"
    "vma_bounds st v = Some (addr_at st (first_page st v), addr_at st (first_page st v + pages_in st v))"
    "vma_bounds st2 v = Some (addr_at st (first_page st v), addr_at st (first_page st v + n))"
    "vma_init st2 (addr_at st (first_page st v + n)) (addr_at st (first_page st v + pages_in st v)) u = Some st3"
    "list_op st3 (\<lambda>l. list_unshift l (Vma v) (Vma u)) = Some st4"
    "va_insert st4 u BY_ADDR = Some st5" "va_insert st5 u BY_SIZE = Some st'"
    "taken st xs v n st' xs'" "u \<in> set xs'" "good_draws (draws st')" "allocs st' = allocs st" "addr_at st' = addr_at st"
proof -
  obtain as bs where xs: "xs = as @ v # bs" using v(1) by (meson split_list)
  have core: "va_core st ((as @ [v]) @ bs)" using inv xs by (simp add: va_inv_def)
  then obtain p where gap0: "va_gap st (as @ [v]) bs p p" unfolding va_core_gap by blast
  have p: "p = first_page st v + pages_in st v"
    using va_gapD(6) [OF gap0] by (auto simp: tiling_append)
  note gap = gap0 [unfolded p]
  have vm: "v \<in> set ((as @ [v]) @ bs)" by simp
  have b0: "vma_bounds st v = Some (addr_at st (first_page st v), addr_at st (first_page st v + pages_in st v))"
    by (rule vma_bounds_eq [OF va_gap_in_store [OF gap vm]])
  obtain st1 where s1: "va_remove st v BY_SIZE = Some st1" "va_gap st1 (as @ [v]) bs p p"
    "first_page st1 = first_page st" "pages_in st1 = pages_in st" "vfree st1 = (vfree st)(v := False)"
    "draws st1 = draws st" "allocs st1 = allocs st" "addr_at st1 = addr_at st"
    using use_gap [OF gap0 vm v(2)] by metis
  have pg: "pages_in st v \<le> 2 ^ 32"
    using unsigned_less [of "val_of (treaps st BY_SIZE) v", where 'a = nat] by (simp add: pages_in_def)
  have kk: "\<not> vfree st1 v" "n \<le> 2 ^ 32" "first_page st1 v + n \<le> p" using s1(3,5) n pg p by auto
  obtain st2 where s2: "set_value st1 v BY_SIZE (of_nat (n - 1)) = Some st2"
    "va_gap st2 (as @ [v]) bs (first_page st1 v + n) p"
    "first_page st2 = first_page st1" "pages_in st2 = (pages_in st1)(v := n)" "vfree st2 = vfree st1"
    "draws st2 = draws st1" "allocs st2 = allocs st1" "addr_at st2 = addr_at st1"
    using resize_gap [OF s1(2) kk(1) n(1) kk(2,3)] by metis
  have b2: "vma_bounds st2 v = Some (addr_at st (first_page st v), addr_at st (first_page st v + n))"
    using vma_bounds_eq [OF va_gap_in_store [OF s2(2) vm]] s1 s2 by simp
  have un: "u \<notin> set ((as @ [v]) @ bs)" using u xs by simp
  have m: "first_page st1 v + n < p" "good_draws (draws st2)" using n p s1 s2 d by auto
  obtain st3 st4 st5 st6 where s6: "vma_init st2 (addr_at st2 (first_page st1 v + n)) (addr_at st2 p) u = Some st3"
    "list_op st3 (\<lambda>l. list_unshift l (pred_node (as @ [v])) (Vma u)) = Some st4"
    "va_insert st4 u BY_ADDR = Some st5" "va_insert st5 u BY_SIZE = Some st6"
    "va_gap st6 (as @ [v]) (u # bs) (first_page st1 v + n) (first_page st1 v + n)"
    "first_page st6 = (first_page st2)(u := first_page st1 v + n)"
    "pages_in st6 = (pages_in st2)(u := p - (first_page st1 v + n))" "vfree st6 = (vfree st2)(u := True)"
    "good_draws (draws st6)" "allocs st6 = allocs st2" "addr_at st6 = addr_at st2"
    using place_free [OF s2(2) un _ m] by (metis le_refl)
  let ?xs = "as @ v # u # bs"
  have uv: "u \<noteq> v" "u \<notin> set as" "u \<notin> set bs" using u xs by auto
  have dist: "distinct xs" using va_coreD(7) [OF core] xs by simp
  have "va_core st6 ((as @ [v]) @ u # bs)" unfolding va_core_gap using s6(5) by blast
  then have core6: "va_core st6 ?xs" by simp
  have f6: "first_page st6 x = first_page st x" "vfree st6 x = (x \<noteq> v \<and> vfree st x)"
    "pages_in st6 x = (if x = v then n else pages_in st x)" if "x \<noteq> u" for x
    using that s1 s2 s6 by auto
  have fu: "first_page st6 u = first_page st v + n" "pages_in st6 u = pages_in st v - n" "vfree st6 u"
    using s1 s2 s6 p by auto
  have "coalesced (vfree st6) ?xs"
  proof -
    have co: "coalesced (vfree st) as" "coalesced (vfree st) (v # bs)" "as \<noteq> [] \<longrightarrow> \<not> (vfree st (last as) \<and> vfree st v)"
      using inv xs by (auto simp: va_inv_def coalesced_append)
    have ne: "vfree st6 x = vfree st x" if "x \<in> set as \<or> x \<in> set bs" for x
    proof -
      have "x \<noteq> u" "x \<noteq> v" using that uv dist xs by auto
      then show ?thesis by (simp add: f6)
    qed
    have as6: "coalesced (vfree st6) as" using co(1) coalesced_cong [of as "vfree st6" "vfree st"] ne by simp
    have bs6: "coalesced (vfree st6) bs"
      using co(2) coalesced_cong [of bs "vfree st6" "vfree st"] ne by (cases bs) auto
    have "bs \<noteq> [] \<longrightarrow> \<not> vfree st6 (hd bs)"
      using co(2) v(2) uv f6 by (cases bs) auto
    then show ?thesis using as6 bs6 f6(2) [OF uv(1) [symmetric]]
      by (cases bs) (auto simp: coalesced_append)
  qed
  then have inv6: "va_inv st6 ?xs" using core6 by (simp add: va_inv_def)
  have others: "x \<in> set ?xs \<and> first_page st6 x = first_page st x \<and> pages_in st6 x = pages_in st x \<and>
      vfree st6 x = vfree st x" if "x \<in> set xs - {v}" for x
  proof -
    have "x \<noteq> u" "x \<noteq> v" using that u by auto
    then show ?thesis using that xs by (auto simp: f6)
  qed
  have vv: "first_page st6 v = first_page st v" "pages_in st6 v = n" "\<not> vfree st6 v"
    using f6 [OF uv(1) [symmetric]] by auto
  have "\<exists>u as' bs'. xs = as' @ v # bs' \<and> ?xs = as' @ v # u # bs' \<and> vfree st6 u \<and>
      first_page st6 u = first_page st v + n \<and> n + pages_in st6 u = pages_in st v"
    by (rule exI [of _ u], rule exI [of _ as], rule exI [of _ bs]) (use fu n xs in auto)
  then have "if pages_in st v = n then ?xs = xs else \<exists>u as' bs'. xs = as' @ v # bs' \<and> ?xs = as' @ v # u # bs' \<and>
      vfree st6 u \<and> first_page st6 u = first_page st v + n \<and> n + pages_in st6 u = pages_in st v"
    using n by simp
  then have "taken st xs v n st6 ?xs"
    unfolding taken_def using inv6 others vv v(1) by blast
  then show thesis
    using that [OF s1(1) s2(1) b0 b2, of st3 st4 st5 st6 ?xs] s6 s1 s2 p by (simp add: pred_node_def)
qed


text \<open>Drawing on the allocator of VMAs changes nothing of the structure.\<close>

lemma allocs_simps [simp]:
  "first_page (st\<lparr>allocs := a\<rparr>) = first_page st" "pages_in (st\<lparr>allocs := a\<rparr>) = pages_in st"
  "vfree (st\<lparr>allocs := a\<rparr>) = vfree st" "addr_at (st\<lparr>allocs := a\<rparr>) = addr_at st"
  "total_pages (st\<lparr>allocs := a\<rparr>) = total_pages st" "range_ok (st\<lparr>allocs := a\<rparr>) = range_ok st"
  "va_core (st\<lparr>allocs := a\<rparr>) xs = va_core st xs" "va_inv (st\<lparr>allocs := a\<rparr>) xs = va_inv st xs"
  "taken (st\<lparr>allocs := a\<rparr>) xs v n st' xs' = taken st xs v n st' xs'"
  "vma_bounds (st\<lparr>allocs := a\<rparr>) v = vma_bounds st v"
  "is_vma_free (st\<lparr>allocs := a\<rparr>) v = is_vma_free st v"
proof -
  show fp: "first_page (st\<lparr>allocs := a\<rparr>) = first_page st" "pages_in (st\<lparr>allocs := a\<rparr>) = pages_in st"
    "vfree (st\<lparr>allocs := a\<rparr>) = vfree st" "addr_at (st\<lparr>allocs := a\<rparr>) = addr_at st"
    "total_pages (st\<lparr>allocs := a\<rparr>) = total_pages st" "is_vma_free (st\<lparr>allocs := a\<rparr>) v = is_vma_free st v"
    by (auto simp: fun_eq_iff first_page_def pages_in_def vfree_def addr_at_def total_pages_def
        is_vma_free_def va_head_def)
  show ro: "range_ok (st\<lparr>allocs := a\<rparr>) = range_ok st" by (simp add: range_ok_def fp)
  show "va_core (st\<lparr>allocs := a\<rparr>) xs = va_core st xs" by (simp add: va_core_def fp ro)
  then show "va_inv (st\<lparr>allocs := a\<rparr>) xs = va_inv st xs" by (simp add: va_inv_def fp)
  show "taken (st\<lparr>allocs := a\<rparr>) xs v n st' xs' = taken st xs v n st' xs'" by (simp add: taken_def fp)
  show "vma_bounds (st\<lparr>allocs := a\<rparr>) v = vma_bounds st v"
    by (simp add: vma_bounds_def vma_size_def va_head_def)
qed

text \<open>
  What allocation promises: a smallest fitting VMA is taken, and without one nothing happens.
\<close>

lemma vma_alloc_spec:
  assumes inv: "va_inv st xs" and n: "0 < n" "n \<le> 2 ^ 26"
    and d: "good_draws (draws st)" and u: "shd (allocs st) = Some u" "u \<notin> set xs"
  obtains (none) "\<forall>x \<in> set xs. \<not> fits st n x" "vma_alloc st (of_nat n) = Some (None, st)"
  | (some) v st' xs' where "fits st n v" "\<forall>x \<in> set xs. fits st n x \<longrightarrow> pages_in st v \<le> pages_in st x"
      "vma_alloc st (of_nat n) = Some (Some v, st')" "taken st xs v n st' xs'" "set xs' \<subseteq> insert u (set xs)"
      "good_draws (draws st')" "addr_at st' = addr_at st" "allocs st' = (if pages_in st v = n then allocs st else stl (allocs st))"
proof -
  have core: "va_core st xs" using inv by (simp add: va_inv_def)
  have un: "unat (of_nat n :: u64) = n" using n by (intro unat_of_nat_small) simp
  have nb: "0 < (of_nat n :: u64) \<and> of_nat n \<le> push_bit 26 (1 :: u64)"
    using n un by (simp add: word_le_nat_alt word_less_nat_alt push_bit_eq_mult)
  show thesis
  proof (rule best_fit_found [OF core n(2)])
    assume "\<forall>x \<in> set xs. \<not> fits st n x"
      "best_fit_loop st (push_bit 12 (of_nat n)) (treap_root (treaps st BY_SIZE)) None = Some None"
    then show thesis using none nb by (simp add: vma_alloc_def)
  next
    fix v
    assume v: "v \<in> set xs" "fits st n v" "\<forall>x \<in> set xs. fits st n x \<longrightarrow> pages_in st v \<le> pages_in st x"
      and bf: "best_fit_loop st (push_bit 12 (of_nat n)) (treap_root (treaps st BY_SIZE)) None = Some (Some v)"
    have vf: "vfree st v" "n \<le> pages_in st v" using v(2) by (auto simp: fits_def)
    have sz: "vma_size st v = Some (of_nat (4096 * pages_in st v))"
      by (rule vma_size_eq [OF va_core_in_store [OF core v(1)]])
    have "pages_in st v \<le> 2 ^ 32"
      using unsigned_less [of "val_of (treaps st BY_SIZE) v", where 'a = nat] by (simp add: pages_in_def)
    then have "unat (of_nat (4096 * pages_in st v) :: u64) = 4096 * pages_in st v"
      "unat (of_nat (4096 * n) :: u64) = 4096 * n"
      using n by (intro unat_of_nat_small, simp)+
    then have gt: "(of_nat (4096 * n) :: u64) < of_nat (4096 * pages_in st v) \<longleftrightarrow> n < pages_in st v"
      by (simp only: word_less_nat_alt) simp
    show thesis
    proof (cases "n < pages_in st v")
      case False
      then have eq: "pages_in st v = n" using vf by simp
      obtain st' where st': "va_remove st v BY_SIZE = Some st'" "taken st xs v (pages_in st v) st' xs"
        "draws st' = draws st" "allocs st' = allocs st" "addr_at st' = addr_at st"
        using alloc_exact [OF inv v(1) vf(1)] by metis
      have "vma_alloc st (of_nat n) = Some (Some v, st')"
        using nb bf sz gt False st'(1) by (simp add: vma_alloc_def push_page del: of_nat_mult)
      then show thesis
        by (rule some [OF v(2,3), of st' xs]) (use st' eq d in auto)
    next
      case True
      let ?s = "st\<lparr>allocs := stl (allocs st)\<rparr>"
      have s: "va_inv ?s xs" "vfree ?s v" "n < pages_in ?s v" "good_draws (draws ?s)" using inv vf True d by auto
      obtain st1 st2 st3 st4 st5 st' xs' where
        r: "va_remove ?s v BY_SIZE = Some st1" "set_value st1 v BY_SIZE (of_nat (n - 1)) = Some st2"
        "vma_bounds ?s v = Some (addr_at ?s (first_page ?s v), addr_at ?s (first_page ?s v + pages_in ?s v))"
        "vma_bounds st2 v = Some (addr_at ?s (first_page ?s v), addr_at ?s (first_page ?s v + n))"
        "vma_init st2 (addr_at ?s (first_page ?s v + n)) (addr_at ?s (first_page ?s v + pages_in ?s v)) u = Some st3"
        "list_op st3 (\<lambda>l. list_unshift l (Vma v) (Vma u)) = Some st4"
        "va_insert st4 u BY_ADDR = Some st5" "va_insert st5 u BY_SIZE = Some st'"
        and t: "taken ?s xs v n st' xs'" "u \<in> set xs'" "good_draws (draws st')" "allocs st' = allocs ?s" "addr_at st' = addr_at ?s"
        by (rule alloc_split [OF s(1) v(1) s(2) n(1) s(3) u(2) s(4)])
      have w: "drop_bit 12 (push_bit 12 (of_nat n :: u64)) - 1 = of_nat (n - 1)"
        using n by (intro word_pages) auto
      have "n - 1 < 2 ^ 32" using n by simp
      then have "unat (ucast (of_nat (n - 1) :: u64) :: u32) = unat (of_nat (n - 1) :: u32)"
        by (simp only: ucast_of_nat_32 unat_of_nat_small len_num1 len_bit0 len_bit1) simp
      then have c: "ucast (drop_bit 12 (push_bit 12 (of_nat n :: u64)) - 1) = (of_nat (n - 1) :: u32)"
        unfolding w by (rule word_unat_eq_iff [THEN iffD2])
      have "vma_alloc st (of_nat n) = Some (Some v, st')"
        using nb bf sz gt True r u(1) c
        by (simp add: vma_alloc_def alloc_vma_def push_page del: of_nat_mult allocs_simps)
      moreover have "set xs' \<subseteq> insert u (set xs)"
        using t(1,2) u(2) True unfolding taken_def by (auto split: if_splits)
      ultimately show thesis using some [OF v(2,3)] t True by simp
    qed
  qed
qed

section \<open>Merging\<close>

text \<open>The neighbours a VMA's links name.\<close>

definition succ_node :: "vptr list \<Rightarrow> node" where
  "succ_node bs = (if bs = [] then Allocator else Vma (hd bs))"

lemma neighbours:
  assumes "is_list l Allocator (map Vma (as @ v # bs))"
  obtains n where "l (Vma v) = Some n" "lprev n = pred_node as" "lnext n = succ_node bs"
proof -
  have "is_list l (Vma v) (map Vma bs @ Allocator # map Vma as)"
    using assms is_list_rotate [of l Allocator "map Vma as" "Vma v" "map Vma bs"] by simp
  from is_list_end [OF this] show thesis
    by (cases bs; cases as rule: rev_cases; auto simp: pred_node_def succ_node_def intro: that)
qed

text \<open>Taking a free VMA out of everything leaves a gap where it was.\<close>

lemma take_out:
  assumes gap: "va_gap st as (v # bs) p q" and f: "vfree st v"
  obtains st1 st2 st3 where "list_op st (\<lambda>l. list_remove l (Vma v)) = Some st1"
    "va_remove st1 v BY_ADDR = Some st2" "va_remove st2 v BY_SIZE = Some st3"
    "va_gap st3 as bs p (q + pages_in st v)" "first_page st3 = first_page st" "pages_in st3 = pages_in st"
    "vfree st3 = (vfree st)(v := False)" "draws st3 = draws st" "allocs st3 = allocs st"
    "addr_at st3 = addr_at st"
proof -
  note g = va_gapD [OF gap]
  obtain l' where l': "list_remove (vmas st) (Vma v) = Some l'" "is_list l' Allocator (map Vma (as @ bs))"
    using list_remove_spec [of "vmas st" Allocator "map Vma as" "Vma v" "map Vma bs"] g(2) by auto
  define st1 where "st1 = st\<lparr>vmas := l'\<rparr>"
  have t1: "treaps st1 = treaps st" by (simp add: st1_def)
  have vm: "v \<in> set (as @ v # bs)" by simp
  obtain s where s: "va_remove st1 v BY_ADDR = Some (set_treap st1 BY_ADDR s)"
    "treap_seq s (remove1 v (as @ v # bs))" "val_of s = val_of (treaps st BY_ADDR)"
    "prio s = (prio (treaps st BY_ADDR))(v := 0)"
    using va_remove_eq [of st1 BY_ADDR, unfolded t1, OF g(3) vm g(4) [OF vm]] by metis
  define st2 where "st2 = set_treap st1 BY_ADDR s"
  have t2: "treaps st2 BY_SIZE = treaps st BY_SIZE" by (simp add: st2_def t1)
  have r1: "remove1 v (as @ v # bs) = as @ bs" using g(10) by (simp add: remove1_append)
  obtain ys where ys: "treap_seq (treaps st BY_SIZE) ys" "set ys = {x \<in> set (as @ v # bs). vfree st x}"
    using va_gap_free [OF gap] .
  have vy: "v \<in> set ys" "prio (treaps st BY_SIZE) v \<noteq> 0" using ys(2) f by (auto simp: vfree_def)
  obtain z where z: "va_remove st2 v BY_SIZE = Some (set_treap st2 BY_SIZE z)" "treap_seq z (remove1 v ys)"
    "val_of z = val_of (treaps st BY_SIZE)" "prio z = (prio (treaps st BY_SIZE))(v := 0)"
    "\<And>y. y \<notin> set ys \<Longrightarrow> loose z y = loose (treaps st BY_SIZE) y"
    using va_remove_eq [of st2 BY_SIZE, unfolded t2, OF ys(1) vy] by metis
  define st3 where "st3 = set_treap st2 BY_SIZE z"
  have t: "treaps st3 BY_ADDR = s" "treaps st3 BY_SIZE = z" "vmas st3 = l'"
    by (simp_all add: st3_def st2_def st1_def)
  have eq: "first_page st3 = first_page st" "pages_in st3 = pages_in st" "vfree st3 = (vfree st)(v := False)"
    using s(3) z(3,4) by (simp_all add: first_page_def pages_in_def vfree_def fun_eq_iff t)
  have rc: "range_ok st3 = range_ok st \<and> total_pages st3 = total_pages st \<and> addr_at st3 = addr_at st"
    by (rule range_ok_cong) (simp_all add: st3_def st2_def st1_def)
  have dy: "distinct ys" using treap.seq_law [OF ys(1)] by blast
  have nv: "x \<noteq> v" if "x \<in> set (as @ bs)" for x using g(10) that by auto
  have "va_gap st3 as bs p (q + pages_in st v)"
  proof (rule va_gapI)
    show "treap_seq (treaps st3 BY_ADDR) (as @ bs)" using s(2) r1 by (simp add: t)
    show "prio (treaps st3 BY_ADDR) x \<noteq> 0" if "x \<in> set (as @ bs)" for x
      using that nv [OF that] g(4) [of x] s(4) by (auto simp: t)
    show "treap_seq (treaps st3 BY_SIZE) (remove1 v ys)" using z(2) by (simp add: t)
    show "set (remove1 v ys) = {x \<in> set (as @ bs). vfree st3 x}"
      using ys(2) dy nv by (auto simp: eq)
    show "loose (treaps st3 BY_SIZE) x" if "x \<in> set (as @ bs)" "\<not> vfree st3 x" for x
      using that nv [OF that(1)] g(5) [of x] z(5) [of x] ys(2) by (auto simp: eq t)
    show "tiling (first_page st3) (pages_in st3) (q + pages_in st v) bs (total_pages st3)"
      using g(7) rc by (simp add: eq)
  qed (use rc g(1,6,8) l'(2) in \<open>simp_all add: t eq\<close>)
  moreover have "list_op st (\<lambda>l. list_remove l (Vma v)) = Some st1"
    using l'(1) by (simp add: list_op_def st1_def)
  ultimately show thesis
    using that [of st1 st2 st3] s(1) z(1) eq rc by (simp add: st3_def st2_def st1_def)
qed

text \<open>Freeing the memory of a VMA that is nowhere linked.\<close>

lemma free_vma_gap:
  assumes gap: "va_gap st as bs p q" and v: "v \<notin> set (as @ bs)"
  shows "va_gap (free_vma st v) as bs p q" "x \<noteq> v \<Longrightarrow> first_page (free_vma st v) x = first_page st x"
    "x \<noteq> v \<Longrightarrow> pages_in (free_vma st v) x = pages_in st x" "x \<noteq> v \<Longrightarrow> vfree (free_vma st v) x = vfree st x"
    "draws (free_vma st v) = draws st" "allocs (free_vma st v) = allocs st"
    "addr_at (free_vma st v) = addr_at st"
proof -
  note g = va_gapD [OF gap]
  let ?s = "free_vma st v"
  have h: "heads (treaps ?s w) = (heads (treaps st w))(v := None)" "treap_root (treaps ?s w) = treap_root (treaps st w)" for w
    by (simp_all add: free_vma_def)
  have o: "val_of (treaps ?s w) x = val_of (treaps st w) x" "prio (treaps ?s w) x = prio (treaps st w) x"
    "loose (treaps ?s w) x = loose (treaps st w) x" if "x \<noteq> v" for x w
    using that by (simp_all add: val_of_def prio_def keys_def loose_def h)
  show fp: "first_page ?s x = first_page st x" "pages_in ?s x = pages_in st x" "vfree ?s x = vfree st x"
    if "x \<noteq> v" for x
    using o [OF that] by (simp_all add: first_page_def pages_in_def vfree_def)
  show "draws ?s = draws st" "allocs ?s = allocs st" by (simp_all add: free_vma_def)
  have rc: "range_ok ?s = range_ok st \<and> total_pages ?s = total_pages st \<and> addr_at ?s = addr_at st"
    by (rule range_ok_cong) (simp_all add: free_vma_def)
  then show "addr_at ?s = addr_at st" by simp
  obtain ys where ys: "treap_seq (treaps st BY_SIZE) ys" "set ys = {x \<in> set (as @ bs). vfree st x}"
    using va_gap_free [OF gap] .
  have seqs: "treap_seq (treaps ?s w) zs" if "treap_seq (treaps st w) zs" "v \<notin> set zs" for w zs
    by (rule treap_seq_put [OF that h])
  have ne: "x \<noteq> v" if "x \<in> set (as @ bs)" for x using that v by auto
  have tl: "tiling (first_page ?s) (pages_in ?s) a zs b = tiling (first_page st) (pages_in st) a zs b"
    if "v \<notin> set zs" for a zs b
    using that by (intro tiling_cong) (metis fp(1,2))
  show "va_gap ?s as bs p q"
  proof (rule va_gapI)
    show "is_list (vmas ?s) Allocator (map Vma (as @ bs))"
      using g(2) v by (subst is_list_cong [of _ _ _ "vmas st"]) (auto simp: free_vma_def)
    show "treap_seq (treaps ?s BY_ADDR) (as @ bs)" using seqs [OF g(3) v] .
    show "treap_seq (treaps ?s BY_SIZE) ys" using seqs [OF ys(1)] ys(2) v by auto
    show "set ys = {x \<in> set (as @ bs). vfree ?s x}" using ys(2) ne fp(3) by auto
    show "prio (treaps ?s BY_ADDR) x \<noteq> 0" if "x \<in> set (as @ bs)" for x
      using g(4) [OF that] o [OF ne [OF that]] by simp
    show "loose (treaps ?s BY_SIZE) x" if "x \<in> set (as @ bs)" "\<not> vfree ?s x" for x
      using g(5) [OF that(1)] that(2) o [OF ne [OF that(1)]] fp(3) [OF ne [OF that(1)]] by simp
  qed (use rc g(1,6-8) tl v in simp_all)
qed

lemma ucast_pages: "n < 2 ^ 32 \<Longrightarrow> ucast (of_nat n :: u64) = (of_nat n :: u32)"
  by (simp add: word_unat_eq_iff ucast_of_nat_32 unat_of_nat take_bit_nat_eq_self)

lemma compressed_size:
  assumes "0 < n" "n \<le> 2 ^ 32"
  shows "ucast (drop_bit 12 (of_nat (4096 * n) :: u64) - 1) = (of_nat (n - 1) :: u32)"
proof -
  have "drop_bit 12 (of_nat (4096 * n) :: u64) - 1 = of_nat (n - 1)"
    using word_pages [of n] assms by (simp add: push_page del: of_nat_mult)
  then show ?thesis using ucast_pages [of "n - 1"] assms by simp
qed


lemma vma_merge_spec:
  assumes core: "va_core st (as @ v # w # bs)" and f: "vfree st v" "vfree st w" and d: "good_draws (draws st)"
  obtains st' where "vma_merge st v = Some st'" "va_core st' (as @ v # bs)"
    "pages_in st' v = pages_in st v + pages_in st w"
    "\<And>x. x \<noteq> w \<Longrightarrow> first_page st' x = first_page st x"
    "\<And>x. x \<noteq> v \<Longrightarrow> x \<noteq> w \<Longrightarrow> pages_in st' x = pages_in st x"
    "\<And>x. x \<noteq> w \<Longrightarrow> vfree st' x = vfree st x"
    "good_draws (draws st')" "allocs st' = allocs st" "addr_at st' = addr_at st"
proof -
  have dist: "distinct (as @ v # w # bs)" by (rule va_coreD(7) [OF core])
  have core': "va_core st ((as @ [v]) @ w # bs)" using core by simp
  then obtain p where gap: "va_gap st (as @ [v]) (w # bs) p p" unfolding va_core_gap by blast
  have p: "p = first_page st v + pages_in st v" "first_page st w = p"
    using va_gapD(6,7) [OF gap] by (auto simp: tiling_append)
  have wv: "w \<noteq> v" "w \<notin> set (as @ [v] @ bs)" using dist by auto
  note ro = va_gapD(1) [OF gap]
  have in_st: "in_store st v" "in_store st w" using va_core_in_store [OF core] by auto
  have "p + pages_in st w \<le> total_pages st" using va_core_bounds(1) [OF core, of w] p(2) by simp
  then have k: "pages_in st v + pages_in st w \<le> 2 ^ 32" using ro p(1) by (simp add: range_ok_def)
  obtain l where l: "vmas st (Vma v) = Some l" "lnext l = Vma w"
    using neighbours [OF va_coreD(2) [OF core]] by (auto simp: succ_node_def)
  obtain st1 st2 st3 where s3: "list_op st (\<lambda>l. list_remove l (Vma w)) = Some st1"
    "va_remove st1 w BY_ADDR = Some st2" "va_remove st2 w BY_SIZE = Some st3"
    "va_gap st3 (as @ [v]) bs p (p + pages_in st w)" "first_page st3 = first_page st"
    "pages_in st3 = pages_in st" "vfree st3 = (vfree st)(w := False)" "draws st3 = draws st"
    "allocs st3 = allocs st" "addr_at st3 = addr_at st"
    using take_out [OF gap f(2)] by metis
  define st4 where "st4 = free_vma st3 w"
  have nw: "w \<notin> set ((as @ [v]) @ bs)" using wv by simp
  note s4 = free_vma_gap [OF s3(4) nw, folded st4_def]
  have vm: "v \<in> set ((as @ [v]) @ bs)" by simp
  have "vfree st4 v" using s4(4) [of v] s3(7) f(1) wv(1) by simp
  then obtain st5 where s5: "va_remove st4 v BY_SIZE = Some st5"
    "va_gap st5 (as @ [v]) bs p (p + pages_in st w)" "first_page st5 = first_page st4"
    "pages_in st5 = pages_in st4" "vfree st5 = (vfree st4)(v := False)" "draws st5 = draws st4"
    "allocs st5 = allocs st4" "addr_at st5 = addr_at st4"
    using use_gap [OF s4(1) vm] by metis
  let ?k = "pages_in st v + pages_in st w"
  have k5: "\<not> vfree st5 v" "0 < ?k" "first_page st5 v + ?k \<le> p + pages_in st w"
    using s5(3,5) s4(2) [of v] wv(1) s3(5) p(1) pages_pos [of st v] by simp_all
  obtain st6 where s6: "set_value st5 v BY_SIZE (of_nat (?k - 1)) = Some st6"
    "va_gap st6 (as @ [v]) bs (first_page st5 v + ?k) (p + pages_in st w)" "first_page st6 = first_page st5"
    "pages_in st6 = (pages_in st5)(v := ?k)" "vfree st6 = vfree st5" "draws st6 = draws st5"
    "allocs st6 = allocs st5" "addr_at st6 = addr_at st5"
    using resize_gap [OF s5(2) k5(1,2) k k5(3)] by metis
  have d6: "\<not> vfree st6 v" "good_draws (draws st6)" using s6 s5 s4 s3 k5 d by simp_all
  obtain st7 where s7: "va_insert st6 v BY_SIZE = Some st7"
    "va_gap st7 (as @ [v]) bs (first_page st5 v + ?k) (p + pages_in st w)" "first_page st7 = first_page st6"
    "pages_in st7 = pages_in st6" "vfree st7 = (vfree st6)(v := True)" "draws st7 = stl (draws st6)"
    "allocs st7 = allocs st6" "addr_at st7 = addr_at st6"
    using free_gap [OF s6(2) vm d6] by metis
  have "first_page st5 v + ?k = p + pages_in st w"
    using s5(3) s4(2) [of v] wv(1) s3(5) p(1) by simp
  then have "va_core st7 ((as @ [v]) @ bs)" using s7(2) unfolding va_core_gap by metis
  then have c7: "va_core st7 (as @ v # bs)" by simp
  have bnd: "vma_bounds st v = Some (addr_at st (first_page st v), addr_at st p)"
    "vma_bounds st w = Some (addr_at st p, addr_at st (first_page st v + ?k))"
    using vma_bounds_eq [OF in_st(1)] vma_bounds_eq [OF in_st(2)] p by (simp_all add: add.assoc)
  have "addr_at st (first_page st v + ?k) - addr_at st (first_page st v) = of_nat (4096 * ?k)"
    using addr_at_diff [of "first_page st v" "first_page st v + ?k" st] by simp
  then have c: "ucast (drop_bit 12 (addr_at st (first_page st v + ?k) - addr_at st (first_page st v)) - 1) =
      (of_nat (?k - 1) :: u32)"
    using compressed_size [OF k5(2) k] by simp
  have "vma_merge st v = Some st7"
    using l f in_st bnd s3(1-3) s5(1) s6(1) s7(1) c
    by (simp add: vma_merge_def is_vma_free_eq st4_def del: of_nat_add of_nat_diff)
  then show thesis
    by (rule that [OF _ c7]) (use s7 s6 s5 s4 s3 f d6(2) good_draw(3) in \<open>auto simp: fun_upd_def\<close>)
qed

section \<open>What release does\<close>

text \<open>
  The contents of the allocator, seen from outside: the used VMAs and their pages.
  Everything else of the range is free, in VMAs that are as large as they can be.
\<close>

definition used_vmas :: "va_state \<Rightarrow> vptr list \<Rightarrow> (vptr \<times> nat \<times> nat) set" where
  "used_vmas st xs = {(x, first_page st x, pages_in st x) |x. x \<in> set xs \<and> \<not> vfree st x}"

definition unmoved :: "va_state \<Rightarrow> va_state \<Rightarrow> vptr \<Rightarrow> bool" where
  "unmoved st st' x \<longleftrightarrow> first_page st' x = first_page st x \<and> pages_in st' x = pages_in st x \<and>
     vfree st' x = vfree st x"

lemma used_unmoved:
  assumes "\<And>x. x \<in> set xs \<union> set xs' \<Longrightarrow> x \<notin> ws \<Longrightarrow> x \<in> set xs \<inter> set xs' \<and> unmoved st st' x"
    and "\<And>x. x \<in> ws \<Longrightarrow> x \<in> set xs' \<Longrightarrow> vfree st' x" "\<And>x. x \<in> ws \<Longrightarrow> x \<in> set xs \<Longrightarrow> x \<noteq> v \<Longrightarrow> vfree st x"
    and "v \<in> ws"
  shows "used_vmas st' xs' = used_vmas st xs - {(v, first_page st v, pages_in st v)}"
proof -
  have "x \<in> set xs' \<and> \<not> vfree st' x \<longleftrightarrow> x \<in> set xs \<and> \<not> vfree st x \<and> x \<noteq> v" for x
    using assms unfolding unmoved_def by blast
  moreover have "first_page st' x = first_page st x \<and> pages_in st' x = pages_in st x"
    if "x \<in> set xs'" "\<not> vfree st' x" for x
    using assms(1) [of x] assms(2) [of x] that unfolding unmoved_def by blast
  ultimately show ?thesis unfolding used_vmas_def by force
qed

lemma coalesced_tl: "coalesced f (x # xs) \<Longrightarrow> coalesced f xs"
  by (cases xs) auto

lemma coalesced_join:
  "coalesced f as \<Longrightarrow> coalesced f bs \<Longrightarrow> (as \<noteq> [] \<Longrightarrow> \<not> f (last as)) \<Longrightarrow> (bs \<noteq> [] \<Longrightarrow> \<not> f (hd bs)) \<Longrightarrow>
    coalesced f (as @ v # bs)"
  by (cases bs) (auto simp: coalesced_append)

text \<open>Joining a free VMA with a free successor.\<close>

lemma absorb:
  assumes core: "va_core st (as @ v # bs)" and f: "vfree st v" and d: "good_draws (draws st)"
    and c: "coalesced (vfree st) bs"
  obtains st' bs' where
    "(do { f \<leftarrow> neighbour_free st (succ_node bs); if f then vma_merge st v else Some st }) = Some st'"
    "va_core st' (as @ v # bs')" "bs = bs' \<or> (\<exists>w. bs = w # bs' \<and> vfree st w)"
    "bs' \<noteq> [] \<Longrightarrow> \<not> vfree st (hd bs')" "vfree st' v" "first_page st' v = first_page st v"
    "\<And>x. x \<in> set (as @ bs') \<Longrightarrow> unmoved st st' x"
    "good_draws (draws st')" "allocs st' = allocs st" "addr_at st' = addr_at st"
proof (cases "bs \<noteq> [] \<and> vfree st (hd bs)")
  case False
  have "neighbour_free st (succ_node bs) = Some False"
    using False va_core_in_store [OF core]
    by (cases bs) (auto simp: succ_node_def neighbour_free_def is_vma_free_eq)
  then have run: "(do { f \<leftarrow> neighbour_free st (succ_node bs); if f then vma_merge st v else Some st }) = Some st"
    by simp
  show thesis by (rule that [OF run core]) (use False f d in \<open>simp_all add: unmoved_def\<close>)
next
  case True
  then obtain w bs' where bs: "bs = w # bs'" "vfree st w" by (cases bs) auto
  have dist: "distinct (as @ v # w # bs')" using va_coreD(7) [OF core] bs by simp
  obtain st' where m: "vma_merge st v = Some st'" "va_core st' (as @ v # bs')"
    "\<And>x. x \<noteq> w \<Longrightarrow> first_page st' x = first_page st x"
    "\<And>x. x \<noteq> v \<Longrightarrow> x \<noteq> w \<Longrightarrow> pages_in st' x = pages_in st x"
    "\<And>x. x \<noteq> w \<Longrightarrow> vfree st' x = vfree st x"
    "good_draws (draws st')" "allocs st' = allocs st" "addr_at st' = addr_at st"
    using vma_merge_spec [OF core [unfolded bs(1)] f bs(2) d] by metis
  have "neighbour_free st (succ_node bs) = Some True"
    using bs va_core_in_store [OF core]
    by (auto simp: succ_node_def neighbour_free_def is_vma_free_eq)
  moreover have "\<not> vfree st (hd bs')" if "bs' \<noteq> []" using c bs that by (cases bs') auto
  moreover have "unmoved st st' x" if "x \<in> set (as @ bs')" for x
  proof -
    have "x \<noteq> v" "x \<noteq> w" using that dist by auto
    then show ?thesis using m by (simp add: unmoved_def)
  qed
  moreover have "w \<noteq> v" using dist by auto
  ultimately show thesis using that [of st' bs'] m bs f by simp
qed

lemma vma_free_run:
  assumes "is_vma_free st v = Some False" "va_insert st v BY_SIZE = Some st1" "vmas st1 (Vma v) = Some l"
    and run: "(do { f \<leftarrow> neighbour_free st1 (lnext l); if f then vma_merge st1 v else Some st1 }) = Some st2"
  shows "vma_free st (Some v) = do { f \<leftarrow> neighbour_free st2 (lprev l);
    if f then case vma_of_node (lprev l) of None \<Rightarrow> None | Some q \<Rightarrow> vma_merge st2 q else Some st2 }"
proof (cases "neighbour_free st1 (lnext l)")
  case None
  then show ?thesis using run by simp
next
  case (Some f)
  then have "(if f then vma_merge st1 v else Some st1) = Some st2" using run by simp
  then show ?thesis using assms(1-3) Some by (simp add: vma_free_def Let_def)
qed

lemma vma_free_spec:
  assumes inv: "va_inv st xs" and v: "v \<in> set xs" "\<not> vfree st v" and d: "good_draws (draws st)"
  obtains st' xs' where "vma_free st (Some v) = Some st'" "va_inv st' xs'"
    "used_vmas st' xs' = used_vmas st xs - {(v, first_page st v, pages_in st v)}" "set xs' \<subseteq> set xs"
    "good_draws (draws st')" "allocs st' = allocs st" "addr_at st' = addr_at st"
proof -
  obtain as bs where xs: "xs = as @ v # bs" using v(1) by (meson split_list)
  have core: "va_core st xs" and co: "coalesced (vfree st) xs" using inv by (simp_all add: va_inv_def)
  have dist: "distinct (as @ v # bs)" using va_coreD(7) [OF core] xs by simp
  have coa: "coalesced (vfree st) as" "coalesced (vfree st) bs"
    using co xs coalesced_tl [of "vfree st" v bs] by (simp_all add: coalesced_append)
  obtain p where gap: "va_gap st as (v # bs) p p" using core [unfolded xs va_core_gap] by blast
  obtain st1 where s1: "va_insert st v BY_SIZE = Some st1" "va_gap st1 as (v # bs) p p"
    "first_page st1 = first_page st" "pages_in st1 = pages_in st" "vfree st1 = (vfree st)(v := True)"
    "draws st1 = stl (draws st)" "allocs st1 = allocs st" "addr_at st1 = addr_at st" "vmas st1 = vmas st"
    using free_gap [OF gap _ v(2) d] by auto
  have core1: "va_core st1 (as @ v # bs)" using s1(2) unfolding va_core_gap by blast
  have um1: "unmoved st st1 x" if "x \<noteq> v" for x using s1 that by (simp add: unmoved_def)
  have nv: "v \<notin> set as" "v \<notin> set bs" using dist by auto
  have d1: "good_draws (draws st1)" using s1(6) good_draw(3) [OF d] by simp
  have c1: "coalesced (vfree st1) bs"
  proof -
    have "vfree st1 x = vfree st x" if "x \<in> set bs" for x
      using um1 [of x] that nv unfolding unmoved_def by metis
    then show ?thesis using coa(2) coalesced_cong [of bs "vfree st1" "vfree st"] by simp
  qed
  obtain l where l: "vmas st1 (Vma v) = Some l" "lprev l = pred_node as" "lnext l = succ_node bs"
    using neighbours [OF va_coreD(2) [OF core1]] .
  obtain st2 bs' where s2:
    "(do { f \<leftarrow> neighbour_free st1 (succ_node bs); if f then vma_merge st1 v else Some st1 }) = Some st2"
    "va_core st2 (as @ v # bs')" "bs = bs' \<or> (\<exists>w. bs = w # bs' \<and> vfree st1 w)"
    "bs' \<noteq> [] \<Longrightarrow> \<not> vfree st1 (hd bs')" "vfree st2 v" "first_page st2 v = first_page st1 v"
    "\<And>x. x \<in> set (as @ bs') \<Longrightarrow> unmoved st1 st2 x"
    "good_draws (draws st2)" "allocs st2 = allocs st1" "addr_at st2 = addr_at st1"
    using absorb [OF core1 _ d1 c1] s1(5) by auto
  have "is_vma_free st v = Some False" using is_vma_free_eq va_core_in_store [OF core v(1)] v(2) by simp
  note frun0 = vma_free_run [OF this s1(1) l(1), unfolded l(2,3), OF s2(1)]
  have frun: "vma_free st (Some v) = do { f \<leftarrow> neighbour_free st2 (pred_node as);
      if f then case vma_of_node (pred_node as) of None \<Rightarrow> None | Some q \<Rightarrow> vma_merge st2 q else Some st2 }" by (rule frun0)
  have bsub: "set bs' \<subseteq> set bs" using s2(3) by auto
  have um2: "unmoved st st2 x" if "x \<in> set (as @ bs')" for x
    using um1 [of x] s2(7) [OF that] nv bsub that unfolding unmoved_def by auto
  have cbs: "coalesced (vfree st) bs'" using s2(3) coa(2) coalesced_tl by auto
  have hdb: "\<not> vfree st (hd bs')" if "bs' \<noteq> []"
    using s2(4) [OF that] um1 [of "hd bs'"] nv bsub that unfolding unmoved_def by (metis hd_in_set subsetD)
  have join: "coalesced g (as0 @ y # bs')"
    if "\<And>x. x \<in> set (as0 @ bs') \<Longrightarrow> g x = vfree st x" "coalesced (vfree st) as0"
      "as0 \<noteq> [] \<Longrightarrow> \<not> vfree st (last as0)" for g as0 y
    using that hdb cbs coalesced_cong [of as0 g "vfree st"] coalesced_cong [of bs' g "vfree st"]
    by (intro coalesced_join) auto
  have wfree: "vfree st x" if "x \<in> set bs" "x \<notin> set bs'" for x
    using s2(3) that um1 [of x] nv by (auto simp: unmoved_def)
  show thesis
  proof (cases "as \<noteq> [] \<and> vfree st (last as)")
    case False
    have "neighbour_free st2 (pred_node as) = Some False"
    proof (cases as rule: rev_cases)
      case (snoc as' q)
      then have "\<not> vfree st2 q" "in_store st2 q"
        using False um2 [of q] va_core_in_store [OF s2(2)] by (auto simp: unmoved_def)
      then show ?thesis using snoc by (simp add: pred_node_def neighbour_free_def is_vma_free_eq)
    qed (simp add: pred_node_def neighbour_free_def)
    then have run: "vma_free st (Some v) = Some st2" using frun by simp
    have "coalesced (vfree st2) (as @ v # bs')"
      by (rule join) (use um2 coa(1) False in \<open>auto simp: unmoved_def\<close>)
    then have i2: "va_inv st2 (as @ v # bs')" using s2(2) by (simp add: va_inv_def)
    have "used_vmas st2 (as @ v # bs') = used_vmas st xs - {(v, first_page st v, pages_in st v)}"
      by (rule used_unmoved [of _ _ "insert v (set bs - set bs')"]) (use um2 xs dist bsub s2(5) wfree in auto)
    then show thesis using that [OF run i2] bsub xs s2(8-10) s1(7,8) by auto
  next
    case True
    then obtain as' q where as: "as = as' @ [q]" "vfree st q" by (cases as rule: rev_cases) auto
    have q: "vfree st2 q" "in_store st2 q"
      using um2 [of q] as va_core_in_store [OF s2(2)] by (auto simp: unmoved_def)
    have core2: "va_core st2 (as' @ q # v # bs')" using s2(2) as by simp
    obtain st3 where s3: "vma_merge st2 q = Some st3" "va_core st3 (as' @ q # bs')"
      "\<And>x. x \<noteq> v \<Longrightarrow> first_page st3 x = first_page st2 x"
      "\<And>x. x \<noteq> q \<Longrightarrow> x \<noteq> v \<Longrightarrow> pages_in st3 x = pages_in st2 x"
      "\<And>x. x \<noteq> v \<Longrightarrow> vfree st3 x = vfree st2 x"
      "good_draws (draws st3)" "allocs st3 = allocs st2" "addr_at st3 = addr_at st2"
      using vma_merge_spec [OF core2 q(1) s2(5,8)] by metis
    have nq: "neighbour_free st2 (pred_node as) = Some True" "vma_of_node (pred_node as) = Some q"
      using as q by (simp_all add: pred_node_def neighbour_free_def is_vma_free_eq)
    have run: "vma_free st (Some v) = Some st3"
      using frun nq s3(1) by simp
    have um3: "unmoved st st3 x" if "x \<in> set (as' @ bs')" for x
    proof -
      have "x \<noteq> q" "x \<noteq> v" using that dist as bsub by auto
      then show ?thesis using um2 [of x] that as s3(3-5) by (auto simp: unmoved_def)
    qed
    have "coalesced (vfree st3) (as' @ q # bs')"
      by (rule join) (use um3 coa(1) as in \<open>auto simp: unmoved_def coalesced_append\<close>)
    then have i3: "va_inv st3 (as' @ q # bs')" using s3(2) by (simp add: va_inv_def)
    have "q \<noteq> v" using dist as by auto
    then have "vfree st3 q" using s3(5) q by simp
    then have "used_vmas st3 (as' @ q # bs') = used_vmas st xs - {(v, first_page st v, pages_in st v)}"
      by (intro used_unmoved [of _ _ "insert v (insert q (set bs - set bs'))"])
        (use um3 xs dist bsub wfree as in auto)
    then show thesis using that [OF run i3] bsub xs as s3(6-8) s2(9,10) s1(7,8) by auto
  qed
qed

section \<open>What allocation at an address does\<close>

text \<open>A VMA for use in the upper part of the gap.\<close>

lemma place_used:
  assumes gap: "va_gap st as bs p q" and v: "v \<notin> set (as @ bs)" and m: "p \<le> m" "m < q"
    and d: "good_draws (draws st)"
  obtains st1 st2 st3 where "vma_init st (addr_at st m) (addr_at st q) v = Some st1"
    "list_op st1 (\<lambda>l. list_unshift l (pred_node as) (Vma v)) = Some st2" "va_insert st2 v BY_ADDR = Some st3"
    "va_gap st3 as (v # bs) p m" "first_page st3 = (first_page st)(v := m)"
    "pages_in st3 = (pages_in st)(v := q - m)" "vfree st3 = (vfree st)(v := False)"
    "good_draws (draws st3)" "allocs st3 = allocs st" "addr_at st3 = addr_at st"
proof -
  note g = va_gapD [OF gap]
  have r: "q - m \<le> 2 ^ 32" using g(1,9) by (auto simp: range_ok_def)
  define st1 where "st1 = init_state st v m (q - m)"
  note i = vma_init_gap [OF gap m v r, folded st1_def]
  have d1: "draws st1 = draws st" "allocs st1 = allocs st" by (simp_all add: st1_def init_state_def)
  have a1: "addr_at st1 = addr_at st"
    using range_ok_cong [of st1 st] by (simp add: st1_def init_state_def)
  have f1: "first_page st1 v = m" "pages_in st1 v = q - m" "\<not> vfree st1 v" using i(3-5) by simp_all
  have d1': "good_draws (draws st1)" using d d1 by simp
  obtain st2 st3 where s3: "list_op st1 (\<lambda>l. list_unshift l (pred_node as) (Vma v)) = Some st2"
    "va_insert st2 v BY_ADDR = Some st3" "va_gap st3 as (v # bs) p m"
    "first_page st3 = first_page st1" "pages_in st3 = pages_in st1" "vfree st3 = vfree st1"
    "draws st3 = stl (draws st1)" "allocs st3 = allocs st1" "addr_at st3 = addr_at st1"
    using link_gap [OF i(2) v d1' f1(1,2) m f1(3) i(6,7)] by metis
  show thesis
    by (rule that [OF i(1) s3(1-3)]) (use i(3-5) s3 d d1 a1 good_draw(3) in simp_all)
qed

text \<open>The three cases of each remainder in one: there is a new VMA exactly when pages remain.\<close>

definition place_rest :: "va_state \<Rightarrow> uaddr \<Rightarrow> uaddr \<Rightarrow> node \<Rightarrow> vptr option \<Rightarrow> va_state option" where
  "place_rest st lo hi prev r = (case r of None \<Rightarrow> Some st
     | Some v \<Rightarrow> do {
         st \<leftarrow> vma_init st lo hi v;
         st \<leftarrow> list_op st (\<lambda>l. list_unshift l prev (Vma v));
         st \<leftarrow> va_insert st v BY_ADDR;
         va_insert st v BY_SIZE
       })"

definition opt_list :: "'a option \<Rightarrow> 'a list" where
  "opt_list r = (case r of None \<Rightarrow> [] | Some v \<Rightarrow> [v])"

lemma opt_list_simps [simp]: "opt_list None = []" "opt_list (Some v) = [v]"
  by (simp_all add: opt_list_def)

lemma place_rest_gap:
  assumes gap: "va_gap st as bs p q" and r: "r = None \<longleftrightarrow> m = q" "set (opt_list r) \<inter> set (as @ bs) = {}"
    and m: "p \<le> m" "m \<le> q" and d: "good_draws (draws st)"
  obtains st' where "place_rest st (addr_at st m) (addr_at st q) (pred_node as) r = Some st'"
    "va_gap st' as (opt_list r @ bs) p m" "\<And>x. x \<notin> set (opt_list r) \<Longrightarrow> unmoved st st' x"
    "\<And>x. x \<in> set (opt_list r) \<Longrightarrow> vfree st' x" "good_draws (draws st')" "allocs st' = allocs st"
    "addr_at st' = addr_at st"
proof (cases r)
  case None
  then show thesis using that [of st] gap r d by (simp add: unmoved_def place_rest_def)
next
  case (Some v)
  then have v: "v \<notin> set (as @ bs)" "m < q" using r m(2) by auto
  obtain st1 st2 st3 st4 where s: "vma_init st (addr_at st m) (addr_at st q) v = Some st1"
    "list_op st1 (\<lambda>l. list_unshift l (pred_node as) (Vma v)) = Some st2"
    "va_insert st2 v BY_ADDR = Some st3" "va_insert st3 v BY_SIZE = Some st4"
    "va_gap st4 as (v # bs) p m" "first_page st4 = (first_page st)(v := m)"
    "pages_in st4 = (pages_in st)(v := q - m)" "vfree st4 = (vfree st)(v := True)"
    "good_draws (draws st4)" "allocs st4 = allocs st" "addr_at st4 = addr_at st"
    using place_free [OF gap v(1) m(1) v(2) d] by metis
  show thesis by (rule that [of st4]) (use Some s in \<open>simp_all add: unmoved_def place_rest_def\<close>)
qed

text \<open>The part of the handler that changes the structure, once the memory is there.\<close>

definition carve :: "va_state \<Rightarrow> vptr \<Rightarrow> uaddr \<Rightarrow> uaddr \<Rightarrow> uaddr \<Rightarrow> uaddr \<Rightarrow> vptr option \<Rightarrow> vptr option \<Rightarrow>
    va_state option" where
  "carve st vma vma_lo lo hi vma_hi new_lo new_hi = do {
     l \<leftarrow> vmas st (Vma vma);
     let prev = lprev l;
     st \<leftarrow> list_op st (\<lambda>l. list_remove l (Vma vma));
     st \<leftarrow> va_remove st vma BY_ADDR;
     st \<leftarrow> va_remove st vma BY_SIZE;
     st \<leftarrow> place_rest st hi vma_hi prev new_hi;
     st \<leftarrow> vma_init st lo hi vma;
     st \<leftarrow> list_op st (\<lambda>l. list_unshift l prev (Vma vma));
     st \<leftarrow> va_insert st vma BY_ADDR;
     place_rest st vma_lo lo prev new_lo
   }"

lemma carve_gap:
  assumes core: "va_core st (as @ v # bs)" and f: "vfree st v" and d: "good_draws (draws st)"
    and pq: "first_page st v \<le> p" "p < q" "q \<le> first_page st v + pages_in st v"
    and a: "a = None \<longleftrightarrow> first_page st v = p" "b = None \<longleftrightarrow> q = first_page st v + pages_in st v"
    and new: "distinct (opt_list a @ opt_list b)" "set (opt_list a @ opt_list b) \<inter> set (as @ v # bs) = {}"
  obtains st' where "carve st v (addr_at st (first_page st v)) (addr_at st p) (addr_at st q)
      (addr_at st (first_page st v + pages_in st v)) a b = Some st'"
    "va_core st' (as @ opt_list a @ v # opt_list b @ bs)" "first_page st' v = p" "pages_in st' v = q - p"
    "\<not> vfree st' v" "\<And>x. x \<in> set (as @ bs) \<Longrightarrow> unmoved st st' x"
    "\<And>x. x \<in> set (opt_list a @ opt_list b) \<Longrightarrow> vfree st' x"
    "good_draws (draws st')" "allocs st' = allocs st" "addr_at st' = addr_at st"
proof -
  let ?e = "first_page st v + pages_in st v"
  have dist: "distinct (as @ v # bs)" by (rule va_coreD(7) [OF core])
  obtain l where l: "vmas st (Vma v) = Some l" "lprev l = pred_node as"
    using neighbours [OF va_coreD(2) [OF core]] by metis
  obtain p0 where gap0: "va_gap st as (v # bs) p0 p0" using core [unfolded va_core_gap] by blast
  have "p0 = first_page st v" using va_gapD(7) [OF gap0] by simp
  note gap = gap0 [unfolded this]
  obtain st1 st2 st3 where s3: "list_op st (\<lambda>l. list_remove l (Vma v)) = Some st1"
    "va_remove st1 v BY_ADDR = Some st2" "va_remove st2 v BY_SIZE = Some st3"
    "va_gap st3 as bs (first_page st v) ?e" "first_page st3 = first_page st" "pages_in st3 = pages_in st"
    "vfree st3 = (vfree st)(v := False)" "draws st3 = draws st" "allocs st3 = allocs st"
    "addr_at st3 = addr_at st"
    using take_out [OF gap f] by metis
  have d3: "good_draws (draws st3)" using s3(8) d by simp
  have nb: "set (opt_list b) \<inter> set (as @ bs) = {}" using new by auto
  have fq: "first_page st v \<le> q" using pq by simp
  obtain st4 where s4: "place_rest st3 (addr_at st3 q) (addr_at st3 ?e) (pred_node as) b = Some st4"
    "va_gap st4 as (opt_list b @ bs) (first_page st v) q" "\<And>x. x \<notin> set (opt_list b) \<Longrightarrow> unmoved st3 st4 x"
    "\<And>x. x \<in> set (opt_list b) \<Longrightarrow> vfree st4 x" "good_draws (draws st4)" "allocs st4 = allocs st3"
    "addr_at st4 = addr_at st3"
    using place_rest_gap [OF s3(4) a(2) nb fq pq(3) d3] by metis
  have v4: "v \<notin> set (as @ opt_list b @ bs)" using dist new by auto
  obtain st5 st6 st7 where s7: "vma_init st4 (addr_at st4 p) (addr_at st4 q) v = Some st5"
    "list_op st5 (\<lambda>l. list_unshift l (pred_node as) (Vma v)) = Some st6" "va_insert st6 v BY_ADDR = Some st7"
    "va_gap st7 as (v # opt_list b @ bs) (first_page st v) p" "first_page st7 = (first_page st4)(v := p)"
    "pages_in st7 = (pages_in st4)(v := q - p)" "vfree st7 = (vfree st4)(v := False)"
    "good_draws (draws st7)" "allocs st7 = allocs st4" "addr_at st7 = addr_at st4"
    using place_used [OF s4(2) v4 pq(1,2) s4(5)] by metis
  have na: "set (opt_list a) \<inter> set (as @ v # opt_list b @ bs) = {}" using new by auto
  have a': "a = None \<longleftrightarrow> first_page st v = p" by (rule a(1))
  obtain st8 where s8: "place_rest st7 (addr_at st7 (first_page st v)) (addr_at st7 p) (pred_node as) a = Some st8"
    "va_gap st8 as (opt_list a @ v # opt_list b @ bs) (first_page st v) (first_page st v)"
    "\<And>x. x \<notin> set (opt_list a) \<Longrightarrow> unmoved st7 st8 x"
    "\<And>x. x \<in> set (opt_list a) \<Longrightarrow> vfree st8 x" "good_draws (draws st8)" "allocs st8 = allocs st7"
    "addr_at st8 = addr_at st7"
    using place_rest_gap [OF s7(4) a' na le_refl pq(1) s7(8)] by metis
  have core8: "va_core st8 (as @ opt_list a @ v # opt_list b @ bs)" using s8(2) unfolding va_core_gap by blast
  have um: "unmoved st st8 x" if "x \<in> set (as @ bs)" for x
  proof -
    have x: "x \<noteq> v" "x \<notin> set (opt_list a)" "x \<notin> set (opt_list b)" using that dist new by auto
    show ?thesis using s8(3) [OF x(2)] s4(3) [OF x(3)] s7(5-7) s3(5-7) x(1) by (simp add: unmoved_def)
  qed
  have fr: "vfree st8 x" if "x \<in> set (opt_list a @ opt_list b)" for x
  proof (cases "x \<in> set (opt_list a)")
    case False
    then have x: "x \<in> set (opt_list b)" "x \<noteq> v" using that new by auto
    show ?thesis using s8(3) [OF False] s4(4) [OF x(1)] s7(7) x(2) by (simp add: unmoved_def)
  qed (rule s8(4))
  have "v \<notin> set (opt_list a)" using na by auto
  then have vv: "first_page st8 v = p" "pages_in st8 v = q - p" "\<not> vfree st8 v"
    using s8(3) [of v] s7(5-7) by (simp_all add: unmoved_def)
  have run: "carve st v (addr_at st (first_page st v)) (addr_at st p) (addr_at st q) (addr_at st ?e) a b = Some st8"
    using l s3(1-3,10) s4(1,7) s7(1-3,10) s8(1) by (simp add: carve_def)
  show thesis
    by (rule that [OF run core8 vv um fr s8(5)]) (use s8(6,7) s7(9,10) s4(6,7) s3(9,10) in simp_all)
qed


text \<open>The handler, once the VMA is found to be free and large enough.\<close>

definition draw_if :: "bool \<Rightarrow> va_state \<Rightarrow> vptr option \<times> va_state" where
  "draw_if b st = (if b then alloc_vma st else (None, st))"

lemma by_addr_run:
  assumes "is_aligned_uaddr lo 12 \<and> is_aligned_uaddr hi 12" "lo < hi" "vma_find st lo = Some v"
    and "is_vma_free st v = Some True" "vma_bounds st v = Some (vl, vh)" "\<not> vh < hi"
    and s: "draw_if (vl \<noteq> lo) st = (a, st1)" "draw_if (vh \<noteq> hi) st1 = (b, st2)"
  shows "vma_alloc_by_addr st lo hi =
    (if vl \<noteq> lo \<and> a = None then Some (None, st1)
     else if vh \<noteq> hi \<and> b = None then Some (None, st2)
     else do { s \<leftarrow> carve st2 v vl lo hi vh a b; Some (Some v, s) })"
proof -
  have assoc: "Option.bind (Option.bind m f) g = Option.bind m (\<lambda>x. Option.bind (f x) g)" for m f g
    by (cases m) simp_all
  show ?thesis
    using assms by (auto simp: vma_alloc_by_addr_def draw_if_def carve_def place_rest_def assoc Let_def split: prod.splits)
qed

definition holds_range :: "va_state \<Rightarrow> nat \<Rightarrow> nat \<Rightarrow> vptr \<Rightarrow> bool" where
  "holds_range st p q v \<longleftrightarrow> vfree st v \<and> first_page st v \<le> p \<and> q \<le> first_page st v + pages_in st v"

lemma tiling_same:
  assumes "tiling s n a xs b" "x \<in> set xs" "y \<in> set xs" "s x \<le> p" "p < s x + n x" "s y \<le> p" "p < s y + n y"
  shows "x = y"
proof -
  obtain us vs where xs: "xs = us @ x # vs" using assms(2) by (meson split_list)
  note sp = tiling_split(1,2) [OF assms(1) [unfolded xs]]
  show ?thesis using assms(3) xs sp assms(4-7) by fastforce
qed

lemma find_page:
  assumes core: "va_core st xs" and p: "p < total_pages st"
  obtains v where "v \<in> set xs" "vma_find st (addr_at st p) = Some v"
    "first_page st v \<le> p" "p < first_page st v + pages_in st v"
proof -
  note ro = va_coreD(1) [OF core]
  have lo: "lo_address st \<le> addr_at st p" using addr_at_order(2) [OF ro, of 0 p] p by simp
  have "addr_at st (total_pages st) = hi_address st"
    using total_pages_eq [OF ro] unat_addr_at [OF ro le_refl] by (simp add: word_unat_eq_iff)
  then have hi: "addr_at st p < hi_address st" using addr_at_order(1) [OF ro, of p "total_pages st"] p by simp
  obtain v p' and k :: u64 where v: "v \<in> set xs" "vma_find st (addr_at st p) = Some v" "unat k < 4096"
    "first_page st v \<le> p'" "p' < first_page st v + pages_in st v"
    "unat (addr_at st p) = unat (addr_at st p') + unat k"
    by (rule vma_find_at [OF core lo hi]) blast
  have "p' \<le> total_pages st" using va_core_bounds(1) [OF core v(1)] v(5) by simp
  then have "4096 * p = 4096 * p' + unat k"
    using v(6) unat_addr_at [OF ro, of p] unat_addr_at [OF ro, of p'] p by simp
  then have "p = p'" using v(3) by linarith
  then show thesis using that v by simp
qed

lemma draw_if_eq: "draw_if b st = (if b then shd (allocs st) else None, st\<lparr>allocs := sdrop (of_bool b) (allocs st)\<rparr>)"
  by (simp add: draw_if_def alloc_vma_def)

lemma carve_inv:
  assumes inv: "va_inv st (as @ v # bs)" and f: "vfree st v" and new: "set ws \<inter> set (as @ v # bs) = {}"
    and core: "va_core st' (as @ opt_list a @ v # opt_list b @ bs)" and ws: "ws = opt_list a @ opt_list b"
    and v: "first_page st' v = p" "pages_in st' v = n" "\<not> vfree st' v"
    and um: "\<And>x. x \<in> set (as @ bs) \<Longrightarrow> unmoved st st' x" and fr: "\<And>x. x \<in> set ws \<Longrightarrow> vfree st' x"
  shows "va_inv st' (as @ opt_list a @ v # opt_list b @ bs)"
    "used_vmas st' (as @ opt_list a @ v # opt_list b @ bs) = insert (v, p, n) (used_vmas st (as @ v # bs))"
proof -
  have co: "coalesced (vfree st) as" "coalesced (vfree st) (v # bs)" "as \<noteq> [] \<longrightarrow> \<not> vfree st (last as)"
    using inv f by (auto simp: va_inv_def coalesced_append)
  then have co': "coalesced (vfree st) bs" "bs \<noteq> [] \<longrightarrow> \<not> vfree st (hd bs)"
    using f by (cases bs; simp)+
  have eq: "coalesced (vfree st') as" "coalesced (vfree st') bs" "as \<noteq> [] \<longrightarrow> \<not> vfree st' (last as)"
    "bs \<noteq> [] \<longrightarrow> \<not> vfree st' (hd bs)"
    using co co' coalesced_cong [of as "vfree st'" "vfree st"] coalesced_cong [of bs "vfree st'" "vfree st"] um
    by (auto simp: unmoved_def)
  have "coalesced (vfree st') (opt_list b @ bs)" "coalesced (vfree st') (as @ opt_list a)"
    using eq by (cases b; cases a; cases bs; auto simp: coalesced_append)+
  then have "coalesced (vfree st') ((as @ opt_list a) @ v # opt_list b @ bs)"
    using v(3) by (subst coalesced_append) (cases "opt_list b @ bs"; simp)
  then show "va_inv st' (as @ opt_list a @ v # opt_list b @ bs)" using core by (simp add: va_inv_def)
  show "used_vmas st' (as @ opt_list a @ v # opt_list b @ bs) = insert (v, p, n) (used_vmas st (as @ v # bs))"
  proof -
    have m: "x \<in> set (as @ opt_list a @ v # opt_list b @ bs) \<and> \<not> vfree st' x \<longleftrightarrow>
        x = v \<or> x \<in> set (as @ bs) \<and> \<not> vfree st x" for x
      using um [of x] fr [of x] v(3) by (auto simp: unmoved_def ws)
    have n: "x \<in> set (as @ v # bs) \<and> \<not> vfree st x \<longleftrightarrow> x \<in> set (as @ bs) \<and> \<not> vfree st x" for x
      using f by auto
    have "used_vmas st' (as @ opt_list a @ v # opt_list b @ bs) =
        insert (v, p, n) {(x, first_page st' x, pages_in st' x) |x. x \<in> set (as @ bs) \<and> \<not> vfree st x}"
      unfolding used_vmas_def m using v(1,2) by blast
    also have "{(x, first_page st' x, pages_in st' x) |x. x \<in> set (as @ bs) \<and> \<not> vfree st x} =
        used_vmas st (as @ v # bs)"
      unfolding used_vmas_def n using um by (auto simp: unmoved_def)
    finally show ?thesis .
  qed
qed

lemma vma_alloc_by_addr_spec:
  assumes inv: "va_inv st xs" and pq: "p < q" "q \<le> total_pages st" and d: "good_draws (draws st)"
    and fresh: "\<And>u. shd (allocs st) = Some u \<Longrightarrow> u \<notin> set xs" "\<And>u. shd (stl (allocs st)) = Some u \<Longrightarrow> u \<notin> set xs"
      "shd (allocs st) = None \<or> shd (allocs st) \<noteq> shd (stl (allocs st))"
  obtains (none) "\<forall>v \<in> set xs. \<not> holds_range st p q v"
      "vma_alloc_by_addr st (addr_at st p) (addr_at st q) = Some (None, st)"
  | (oom) v k where "v \<in> set xs" "holds_range st p q v"
      "vma_alloc_by_addr st (addr_at st p) (addr_at st q) = Some (None, st\<lparr>allocs := sdrop k (allocs st)\<rparr>)"
      "shd (allocs st) = None \<or> shd (stl (allocs st)) = None" "k \<le> 2"
  | (some) v st' xs' k where "v \<in> set xs" "holds_range st p q v"
      "vma_alloc_by_addr st (addr_at st p) (addr_at st q) = Some (Some v, st')" "va_inv st' xs'"
      "used_vmas st' xs' = insert (v, p, q - p) (used_vmas st xs)" "good_draws (draws st')"
      "allocs st' = sdrop k (allocs st)" "k \<le> 2" "addr_at st' = addr_at st"
proof -
  have core: "va_core st xs" using inv by (simp add: va_inv_def)
  note ro = va_coreD(1) [OF core]
  obtain v where v: "v \<in> set xs" "vma_find st (addr_at st p) = Some v"
    "first_page st v \<le> p" "p < first_page st v + pages_in st v"
    using find_page [OF core] pq by (metis less_le_trans)
  let ?e = "first_page st v + pages_in st v"
  have fe: "?e \<le> total_pages st" using va_core_bounds(1) [OF core v(1)] .
  note ist = va_core_in_store [OF core v(1)]
  have al: "is_aligned_uaddr (addr_at st p) 12 \<and> is_aligned_uaddr (addr_at st q) 12" "addr_at st p < addr_at st q"
    using addr_at_aligned [OF ro] addr_at_order(1) [OF ro] pq by simp_all
  have only: "x = v" if "x \<in> set xs" "holds_range st p q x" for x
    using tiling_same [OF va_coreD(6) [OF core] that(1) v(1) _ _ v(3,4)] that(2) pq(1) by (simp add: holds_range_def)
  note bnd = vma_bounds_eq [OF ist]
  have ord: "addr_at st ?e < addr_at st q \<longleftrightarrow> ?e < q" "addr_at st (first_page st v) = addr_at st p \<longleftrightarrow> first_page st v = p"
    "addr_at st ?e = addr_at st q \<longleftrightarrow> ?e = q"
    using addr_at_order [OF ro] fe pq v(3) by auto
  show thesis
  proof (cases "holds_range st p q v")
    case False
    then have "\<not> vfree st v \<or> ?e < q" using v(3) by (auto simp: holds_range_def)
    then have "vma_alloc_by_addr st (addr_at st p) (addr_at st q) = Some (None, st)"
      using al v(2) is_vma_free_eq [OF ist] bnd ord(1) by (auto simp: vma_alloc_by_addr_def)
    then show thesis using none only False by blast
  next
    case True
    then have h: "vfree st v" "q \<le> ?e" by (simp_all add: holds_range_def)
    define i where "i = (of_bool (first_page st v \<noteq> p) :: nat)"
    define j where "j = (of_bool (?e \<noteq> q) :: nat)"
    define a where "a = (if first_page st v \<noteq> p then shd (allocs st) else None)"
    define b where "b = (if ?e \<noteq> q then shd (sdrop i (allocs st)) else None)"
    define s1 where "s1 = st\<lparr>allocs := sdrop i (allocs st)\<rparr>"
    define s2 where "s2 = st\<lparr>allocs := sdrop (i + j) (allocs st)\<rparr>"
    have ij: "i \<le> 1" "i + j \<le> 2" by (simp_all add: i_def j_def)
    have dr: "draw_if (addr_at st (first_page st v) \<noteq> addr_at st p) st = (a, s1)"
      "draw_if (addr_at st ?e \<noteq> addr_at st q) s1 = (b, s2)"
      unfolding draw_if_eq ord(2,3) by (simp_all add: s1_def s2_def a_def b_def i_def j_def sdrop_add)
    have run: "vma_alloc_by_addr st (addr_at st p) (addr_at st q) =
      (if first_page st v \<noteq> p \<and> a = None then Some (None, s1)
       else if ?e \<noteq> q \<and> b = None then Some (None, s2)
       else do { s \<leftarrow> carve s2 v (addr_at st (first_page st v)) (addr_at st p) (addr_at st q) (addr_at st ?e) a b;
         Some (Some v, s) })"
    proof -
      have "is_vma_free st v = Some True" "\<not> addr_at st ?e < addr_at st q"
        using is_vma_free_eq [OF ist] h ord(1) by simp_all
      from by_addr_run [OF al v(2) this(1) bnd this(2) dr] show ?thesis unfolding ord(2,3) .
    qed
    consider "first_page st v \<noteq> p \<and> a = None" | "\<not> (first_page st v \<noteq> p \<and> a = None)" "?e \<noteq> q \<and> b = None"
      | "a = None \<longleftrightarrow> first_page st v = p" "b = None \<longleftrightarrow> q = ?e"
    proof -
      have "first_page st v = p \<Longrightarrow> a = None" "?e = q \<Longrightarrow> b = None" by (simp_all add: a_def b_def)
      then show thesis using that by metis
    qed
    then show thesis
    proof cases
      case 1
      then show thesis using oom [OF v(1) True, of i] run ij by (auto simp: s1_def a_def)
    next
      case 2
      then have "shd (allocs st) = None \<or> shd (stl (allocs st)) = None" by (cases "first_page st v = p") (auto simp: b_def i_def)
      then show thesis using oom [OF v(1) True, of "i + j"] run 2 ij(2) by (auto simp: s2_def)
    next
      case 3
      obtain as bs where xs: "xs = as @ v # bs" using v(1) by (meson split_list)
      have core2: "va_core s2 (as @ v # bs)" and inv2: "va_inv s2 (as @ v # bs)" using core inv xs by (simp_all add: s2_def)
      have new: "distinct (opt_list a @ opt_list b)" "set (opt_list a @ opt_list b) \<inter> set (as @ v # bs) = {}"
      proof -
        have a1: "a = Some x \<Longrightarrow> shd (allocs st) = Some x \<and> i = 1" for x
          by (simp add: a_def i_def split: if_splits)
        have b1: "b = Some x \<Longrightarrow> shd (sdrop i (allocs st)) = Some x" for x
          by (simp add: b_def split: if_splits)
        have b': "b = Some x \<Longrightarrow> shd (allocs st) = Some x \<or> shd (stl (allocs st)) = Some x" for x
          using b1 [of x] ij(1) by (cases i) auto
        have "a = Some x \<Longrightarrow> b \<noteq> Some x" for x using a1 [of x] b1 [of x] fresh(3) by auto
        then show "distinct (opt_list a @ opt_list b)" by (cases a; cases b; auto)
        have "a = Some x \<or> b = Some x \<Longrightarrow> x \<notin> set xs" for x using a1 [of x] b' [of x] fresh(1,2) by metis
        then show "set (opt_list a @ opt_list b) \<inter> set (as @ v # bs) = {}"
          unfolding xs by (cases a; cases b; auto)
      qed
      have e2: "first_page s2 = first_page st" "pages_in s2 = pages_in st" "vfree s2 = vfree st"
        "addr_at s2 = addr_at st" "draws s2 = draws st" "used_vmas s2 xs = used_vmas st xs"
        by (simp_all add: s2_def used_vmas_def)
      have c: "vfree s2 v" "good_draws (draws s2)" "first_page s2 v \<le> p" "q \<le> first_page s2 v + pages_in s2 v"
        "a = None \<longleftrightarrow> first_page s2 v = p" "b = None \<longleftrightarrow> q = first_page s2 v + pages_in s2 v"
        using h v(3) d 3 by (simp_all add: e2)
      obtain st' where r: "carve s2 v (addr_at s2 (first_page s2 v)) (addr_at s2 p) (addr_at s2 q)
          (addr_at s2 (first_page s2 v + pages_in s2 v)) a b = Some st'"
        "va_core st' (as @ opt_list a @ v # opt_list b @ bs)" "first_page st' v = p" "pages_in st' v = q - p"
        "\<not> vfree st' v" "\<And>x. x \<in> set (as @ bs) \<Longrightarrow> unmoved s2 st' x"
        "\<And>x. x \<in> set (opt_list a @ opt_list b) \<Longrightarrow> vfree st' x"
        "good_draws (draws st')" "allocs st' = allocs s2" "addr_at st' = addr_at s2"
        using carve_gap [OF core2 c(1,2,3) pq(1) c(4-6) new] by metis
      note ci = carve_inv [OF inv2 c(1) new(2) r(2) refl r(3-7)]
      have "vma_alloc_by_addr st (addr_at st p) (addr_at st q) = Some (Some v, st')"
        using run 3 r(1) by (auto simp: e2)
      then show thesis
        by (rule some [OF v(1) True _ ci(1) _ r(8) _ ij(2)]) (use ci(2) r(9,10) e2 xs in \<open>simp_all add: s2_def\<close>)
    qed
  qed
qed

section \<open>Free runs\<close>

text \<open>
  Pages no used VMA covers.  Since neighbouring free VMAs are merged, a run of free pages
  lies in one free VMA, so the searches of the code miss nothing.
\<close>

definition free_run :: "(vptr \<times> nat \<times> nat) set \<Rightarrow> nat \<Rightarrow> nat \<Rightarrow> bool" where
  "free_run us p q \<longleftrightarrow> (\<forall>(v, s, n) \<in> us. \<not> (s < q \<and> p < s + n))"

lemma free_run_holder:
  assumes inv: "va_inv st xs" and pq: "p < q" "q \<le> total_pages st"
  shows "free_run (used_vmas st xs) p q \<longleftrightarrow> (\<exists>v \<in> set xs. holds_range st p q v)"
proof -
  have core: "va_core st xs" and co: "coalesced (vfree st) xs" using inv by (simp_all add: va_inv_def)
  note tl = va_coreD(6) [OF core]
  obtain v where v: "v \<in> set xs" "first_page st v \<le> p" "p < first_page st v + pages_in st v"
    using tiling_cover [OF tl, of p] pq by auto
  show ?thesis
  proof
    assume r: "free_run (used_vmas st xs) p q"
    have fr: "vfree st x" if "x \<in> set xs" "first_page st x < q" "p < first_page st x + pages_in st x" for x
      using r that unfolding free_run_def used_vmas_def by fastforce
    have vf: "vfree st v" using fr [OF v(1)] v pq by simp
    have "q \<le> first_page st v + pages_in st v"
    proof (rule ccontr)
      assume lt: "\<not> q \<le> first_page st v + pages_in st v"
      obtain as bs where xs: "xs = as @ v # bs" using v(1) by (meson split_list)
      have t: "tiling (first_page st) (pages_in st) (first_page st v + pages_in st v) bs (total_pages st)"
        using tiling_split(4) [OF tl [unfolded xs]] .
      then obtain w bs' where bs: "bs = w # bs'" "first_page st w = first_page st v + pages_in st v"
        using lt pq(2) by (cases bs) auto
      then have "vfree st w" using fr [of w] lt v(3) xs by simp
      then show False using co vf by (simp add: xs bs coalesced_append)
    qed
    then show "\<exists>v \<in> set xs. holds_range st p q v" using v vf by (auto simp: holds_range_def)
  next
    assume "\<exists>v \<in> set xs. holds_range st p q v"
    then obtain h where h: "h \<in> set xs" "holds_range st p q h" by blast
    have "\<not> (first_page st x < q \<and> p < first_page st x + pages_in st x)" if x: "x \<in> set xs" "\<not> vfree st x" for x
    proof
      assume o: "first_page st x < q \<and> p < first_page st x + pages_in st x"
      have "x = h"
        by (rule tiling_same [OF tl x(1) h(1), of "max p (first_page st x)"])
          (use o h(2) pq in \<open>auto simp: holds_range_def max_def pages_pos\<close>)
      then show False using x h by (simp add: holds_range_def)
    qed
    then show "free_run (used_vmas st xs) p q" by (auto simp: free_run_def used_vmas_def)
  qed
qed

lemma used_taken:
  assumes "taken st xs v n st' xs'" "vfree st v"
  shows "used_vmas st' xs' = insert (v, first_page st v, n) (used_vmas st xs)"
proof -
  have t: "v \<in> set xs" "first_page st' v = first_page st v" "pages_in st' v = n" "\<not> vfree st' v"
    "\<And>x. x \<in> set xs \<Longrightarrow> x \<noteq> v \<Longrightarrow> x \<in> set xs' \<and> unmoved st st' x"
    using assms(1) by (auto simp: taken_def unmoved_def)
  have "set xs' \<subseteq> set xs \<or> (\<exists>u. set xs' \<subseteq> insert u (set xs) \<and> vfree st' u)"
    using assms(1) unfolding taken_def by (auto split: if_splits)
  then have m: "x \<in> set xs' \<Longrightarrow> \<not> vfree st' x \<Longrightarrow> x \<in> set xs" for x by auto
  have vx: "v \<in> set xs'" using assms(1) unfolding taken_def by (auto split: if_splits)
  have "x \<in> set xs' \<and> \<not> vfree st' x \<longleftrightarrow> x = v \<or> x \<in> set xs \<and> \<not> vfree st x" for x
    using t m vx assms(2) unfolding unmoved_def by metis
  then have "used_vmas st' xs' = insert (v, first_page st v, n)
      {(x, first_page st' x, pages_in st' x) |x. x \<in> set xs \<and> \<not> vfree st x}"
    unfolding used_vmas_def using t(2,3) by auto
  also have "{(x, first_page st' x, pages_in st' x) |x. x \<in> set xs \<and> \<not> vfree st x} = used_vmas st xs"
    unfolding used_vmas_def using t(5) assms(2) unfolding unmoved_def by (intro Collect_cong) metis
  finally show ?thesis .
qed

text \<open>
  Allocation, from outside: \<open>n\<close> free pages become a used VMA; it fails only if there is
  no run of \<open>n\<close> free pages at all.
\<close>

lemma vma_alloc_used:
  assumes inv: "va_inv st xs" and n: "0 < n" "n \<le> 2 ^ 26"
    and d: "good_draws (draws st)" and u: "shd (allocs st) = Some u" "u \<notin> set xs"
  obtains (none) "\<forall>p. p + n \<le> total_pages st \<longrightarrow> \<not> free_run (used_vmas st xs) p (p + n)"
      "vma_alloc st (of_nat n) = Some (None, st)"
  | (some) v st' xs' p k where "vma_alloc st (of_nat n) = Some (Some v, st')" "va_inv st' xs'"
      "v \<in> set xs" "set xs' \<subseteq> insert u (set xs)" "k = 0 \<Longrightarrow> set xs' \<subseteq> set xs"
      "free_run (used_vmas st xs) p (p + n)" "p + n \<le> total_pages st" "p = first_page st v" "fits st n v"
      "\<forall>x \<in> set xs. fits st n x \<longrightarrow> pages_in st v \<le> pages_in st x"
      "used_vmas st' xs' = insert (v, p, n) (used_vmas st xs)" "good_draws (draws st')"
      "allocs st' = sdrop k (allocs st)" "k \<le> 1" "addr_at st' = addr_at st"
proof (rule vma_alloc_spec [OF assms])
  have core: "va_core st xs" using inv by (simp add: va_inv_def)
  {
    assume no: "\<forall>x \<in> set xs. \<not> fits st n x" and r: "vma_alloc st (of_nat n) = Some (None, st)"
    have "\<not> free_run (used_vmas st xs) p (p + n)" if "p + n \<le> total_pages st" for p
      using free_run_holder [OF inv _ that] n(1) no by (fastforce simp: holds_range_def fits_def)
    then show thesis using none r by blast
  }
  fix v st' xs'
  assume a: "fits st n v" "\<forall>x \<in> set xs. fits st n x \<longrightarrow> pages_in st v \<le> pages_in st x"
    "vma_alloc st (of_nat n) = Some (Some v, st')" "taken st xs v n st' xs'" "set xs' \<subseteq> insert u (set xs)" "good_draws (draws st')"
    "addr_at st' = addr_at st" "allocs st' = (if pages_in st v = n then allocs st else stl (allocs st))"
  have v: "v \<in> set xs" "va_inv st' xs'" using a(4) by (simp_all add: taken_def)
  have vf: "vfree st v" "n \<le> pages_in st v" using a(1) by (simp_all add: fits_def)
  have t: "first_page st v + n \<le> total_pages st" using va_core_bounds(1) [OF core v(1)] vf by simp
  have "holds_range st (first_page st v) (first_page st v + n) v" using vf by (simp add: holds_range_def)
  then have fr: "free_run (used_vmas st xs) (first_page st v) (first_page st v + n)"
    using free_run_holder [OF inv _ t] n(1) v(1) by auto
  have sub: "pages_in st v = n \<Longrightarrow> set xs' \<subseteq> set xs"
    using a(4) by (auto simp: taken_def split: if_splits)
  show thesis
    by (rule some [of v st' xs' "if pages_in st v = n then 0 else 1" "first_page st v",
          OF a(3) v(2,1) a(5) _ fr t refl a(1,2) used_taken [OF a(4) vf(1)] a(6)])
      (use a(7,8) sub in \<open>simp_all split: if_splits\<close>)
qed

section \<open>Initialization\<close>

lemma empty_treap: "treap_seq \<lparr>heads = Map.empty, treap_root = None\<rparr> []"
  unfolding treap_seq_def by (auto intro!: exI [of _ "\<langle>\<rangle>"] simp: store_rep_def)

lemma vma_allocator_init_spec:
  assumes al: "is_aligned_uaddr lo 12" "is_aligned_uaddr hi 12" and lt: "lo < hi"
    and can: "hi \<le> 0x0000004000000000 \<or> 0xffffffc000000000 \<le> lo" and sz: "hi - lo \<le> 2 ^ 44"
    and v: "shd (allocs st) = Some v" and d: "good_draws (draws st)"
  obtains st' where "vma_allocator_init st lo hi = Some (True, st')" "va_inv st' [v]" "vfree st' v"
    "used_vmas st' [v] = {}" "lo_address st' = lo" "hi_address st' = hi" "good_draws (draws st')"
    "allocs st' = stl (allocs st)"
proof -
  define st0 where "st0 = st\<lparr>allocs := stl (allocs st), vmas := [Allocator \<mapsto> LIST_INIT Allocator],
    lo_address := lo, hi_address := hi, treaps := (\<lambda>_. \<lparr>heads = Map.empty, treap_root = None\<rparr>)\<rparr>"
  have "unat (hi - lo) \<le> 2 ^ 44" using sz by (simp add: word_le_nat_alt)
  then have u: "unat hi - unat lo \<le> 2 ^ 44" using lt unat_sub [of lo hi] by simp
  then have "total_pages st0 \<le> 2 ^ 32" unfolding total_pages_def st0_def by (simp add: div_le_mono [of _ "2 ^ 44", simplified])
  then have ro: "range_ok st0" using al lt by (simp add: range_ok_def st0_def is_aligned_iff_dvd)
  have gap: "va_gap st0 [] [] 0 (total_pages st0)"
    by (rule va_gapI [of _ _ _ "[]"]) (use ro in \<open>simp_all add: st0_def empty_treap is_list_Nil\<close>)
  have tp: "0 < total_pages st0" using total_pages_eq [OF ro] lt by (simp add: st0_def word_less_nat_alt)
  have d0: "good_draws (draws st0)" using d by (simp add: st0_def)
  have addr: "addr_at st0 0 = lo" "addr_at st0 (total_pages st0) = hi"
    using unat_addr_at [OF ro le_refl] total_pages_eq [OF ro] by (simp_all add: st0_def word_unat_eq_iff)
  have vn: "v \<notin> set ([] @ [])" by simp
  have r: "total_pages st0 - 0 \<le> 2 ^ 32" using ro by (simp add: range_ok_def)
  obtain st1 st2 st3 st4 where s: "vma_init st0 lo hi v = Some st1"
    "list_op st1 (\<lambda>l. list_unshift l (pred_node []) (Vma v)) = Some st2"
    "va_insert st2 v BY_ADDR = Some st3" "va_insert st3 v BY_SIZE = Some st4"
    "va_gap st4 [] [v] 0 0" "vfree st4 = (vfree st0)(v := True)"
    "good_draws (draws st4)" "allocs st4 = allocs st0" "addr_at st4 = addr_at st0"
    "pages_in st4 = (pages_in st0)(v := total_pages st0 - 0)" "first_page st4 = (first_page st0)(v := 0)"
    by (rule place_free [OF gap vn le_refl tp d0, unfolded addr]) blast
  have i: "is_list (vmas st1) Allocator []" "self_linked (vmas st1) (Vma v)"
    using vma_init_gap [OF gap le_refl tp vn r] s(1) va_gapD(2) [of st1 "[]" "[]"] unfolding addr by auto
  have "list_push (vmas st1) Allocator (Vma v) = list_unshift (vmas st1) Allocator (Vma v)"
    using list_push_eq_unshift [OF i] by simp
  then have p: "list_op st1 (\<lambda>l. list_push l Allocator (Vma v)) = Some st2"
    using s(2) by (simp add: list_op_def pred_node_def)
  have run: "vma_allocator_init st lo hi = Some (True, st4)"
    using al lt can sz v s(1,3,4) p by (simp add: vma_allocator_init_def alloc_vma_def st0_def)
  have core: "va_core st4 [v]" using s(5) va_core_gap [of st4 "[]" "[v]"] by auto
  have f: "vfree st4 v" using s(6) by simp
  have "addr_at st4 0 = addr_at st0 0" by (simp only: s(9))
  then have lo: "lo_address st4 = lo" by (simp add: st0_def)
  have "total_pages st4 = total_pages st0" using va_coreD(6) [OF core] s(10) by simp
  then have hi: "hi_address st4 = hi"
    using total_pages_eq [OF va_coreD(1) [OF core]] total_pages_eq [OF ro] lo by (simp add: st0_def word_unat_eq_iff)
  show thesis
    by (rule that [OF run _ f _ lo hi s(7)]) (use core f s(8) in \<open>simp_all add: va_inv_def used_vmas_def st0_def\<close>)
qed

section \<open>The range never changes\<close>

definition same_range :: "va_state \<Rightarrow> va_state \<Rightarrow> bool" where
  "same_range st st' \<longleftrightarrow> lo_address st' = lo_address st \<and> hi_address st' = hi_address st"

lemma same_range_steps:
  "va_insert st v w = Some st' \<Longrightarrow> same_range st st'" "va_remove st v w = Some st' \<Longrightarrow> same_range st st'"
  "set_value st v w x = Some st' \<Longrightarrow> same_range st st'" "list_op st f = Some st' \<Longrightarrow> same_range st st'"
  "vma_init st lo hi v = Some st' \<Longrightarrow> same_range st st'"
  by (auto simp: same_range_def va_insert_def va_remove_def set_value_def list_op_def vma_init_def Let_def
      bind_eq_Some_conv set_treap_def assert_that_def split: if_splits)

lemma same_range_trans: "same_range st st' \<Longrightarrow> same_range st' st'' \<Longrightarrow> same_range st st''"
  by (simp add: same_range_def)

lemma same_range_pages: "same_range st st' \<Longrightarrow> total_pages st' = total_pages st \<and> range_ok st' = range_ok st"
  using range_ok_cong [of st' st] by (simp add: same_range_def)

lemma vma_merge_range: "vma_merge st v = Some st' \<Longrightarrow> same_range st st'"
  unfolding vma_merge_def
  by (auto simp: bind_eq_Some_conv Let_def dest!: same_range_steps)
    (auto simp: same_range_def free_vma_def)

lemma vma_free_range: "vma_free st (Some v) = Some st' \<Longrightarrow> same_range st st'"
  unfolding vma_free_def
  by (auto simp: bind_eq_Some_conv Let_def split: if_splits option.splits dest!: same_range_steps vma_merge_range)
    (auto simp: same_range_def)

lemma vma_alloc_range: "vma_alloc st n = Some (r, st') \<Longrightarrow> same_range st st'"
  unfolding vma_alloc_def alloc_vma_def Let_def
  by (auto elim!: bind_someE split: if_split_asm option.split_asm prod.split_asm dest!: same_range_steps)
    (auto simp: same_range_def)

section \<open>Aligned allocation\<close>

text \<open>The next \<open>m\<close> results of \<^verbatim>\<open>alloc\<close> are new VMAs.\<close>

definition fresh_allocs :: "nat \<Rightarrow> va_state \<Rightarrow> vptr list \<Rightarrow> bool" where
  "fresh_allocs m st xs \<longleftrightarrow> None \<notin> set (stake m (allocs st)) \<and> distinct (stake m (allocs st)) \<and>
     Some ` set xs \<inter> set (stake m (allocs st)) = {}"

lemma fresh_allocs_hd:
  "fresh_allocs (Suc m) st xs \<Longrightarrow> \<exists>u. shd (allocs st) = Some u \<and> u \<notin> set xs"
  by (cases "shd (allocs st)") (auto simp: fresh_allocs_def)

lemma fresh_allocs_stays:
  assumes f: "fresh_allocs (Suc m) st xs" "allocs st' = sdrop k (allocs st)" "k \<le> 1"
    and s: "set xs' \<subseteq> insert u (set xs)" "shd (allocs st) = Some u" "k = 0 \<Longrightarrow> set xs' \<subseteq> set xs"
  shows "fresh_allocs m st' xs'"
proof (cases k)
  case 0
  have "set (stake m (allocs st)) \<subseteq> set (stake (Suc m) (allocs st))" "distinct (stake (Suc m) (allocs st)) \<Longrightarrow> distinct (stake m (allocs st))"
    by (simp_all add: stake_Suc del: stake.simps) auto
  then show ?thesis using f s(3) 0 unfolding fresh_allocs_def by (simp del: stake.simps) blast
next
  case (Suc j)
  then have "k = 1" using f(3) by simp
  then show ?thesis using f(1,2) s(1,2) unfolding fresh_allocs_def by (auto simp: image_iff)
qed

lemma used_vmasD: "(v, p, n) \<in> used_vmas st xs \<Longrightarrow>
    v \<in> set xs \<and> first_page st v = p \<and> pages_in st v = n \<and> \<not> vfree st v"
  by (auto simp: used_vmas_def)

lemma free_run_mono: "free_run us p q \<Longrightarrow> p \<le> p' \<Longrightarrow> q' \<le> q \<Longrightarrow> free_run us p' q'"
  unfolding free_run_def by fastforce

text \<open>Freeing what was just allocated gives back the same contents.\<close>

lemma alloc_then_free:
  assumes inv: "va_inv st' xs'" and u: "used_vmas st' xs' = insert (v, p, n) (used_vmas st xs)"
    and v: "vfree st v" and d: "good_draws (draws st')"
  obtains st2 xs2 where "vma_free st' (Some v) = Some st2" "va_inv st2 xs2" "used_vmas st2 xs2 = used_vmas st xs"
    "set xs2 \<subseteq> set xs'" "good_draws (draws st2)" "allocs st2 = allocs st'" "addr_at st2 = addr_at st'"
proof -
  have vu: "v \<in> set xs'" "first_page st' v = p" "pages_in st' v = n" "\<not> vfree st' v"
    using used_vmasD [of v p n st' xs'] u by auto
  have "(v, p, n) \<notin> used_vmas st xs" using used_vmasD [of v p n st xs] v by blast
  then have "insert (v, p, n) (used_vmas st xs) - {(v, p, n)} = used_vmas st xs" by simp
  then show thesis using vma_free_spec [OF inv vu(1,4) d] that unfolding vu(2,3) u by metis
qed

text \<open>The first aligned page at or after a page.\<close>

lemma align_up_page:
  assumes ro: "range_ok st" and k: "12 \<le> k" "k < 64" and t: "s + 2 ^ (k - 12) \<le> total_pages st"
  obtains p where "align_up_uaddr (addr_at st s) k = addr_at st p" "s \<le> p" "p < s + 2 ^ (k - 12)"
    "is_aligned_uaddr (addr_at st p) k"
proof -
  let ?a = "unat (addr_at st s)" and ?lo = "unat (lo_address st)"
  have K: "(2::nat) ^ k = 4096 * 2 ^ (k - 12)"
    using k(1) power_add [of "2::nat" 12 "k - 12"] by simp
  have a: "?a = ?lo + 4096 * s" using unat_addr_at [OF ro] t by simp
  have "?a + 2 ^ k \<le> unat (hi_address st)" using total_pages_eq [OF ro] t a K by simp
  then have "?a + 2 ^ k < 2 ^ 64 + 1" using unsigned_less [of "hi_address st", where 'a = nat] by simp
  then have lt: "?a + 2 ^ k - 1 < 2 ^ 64" using zero_less_power [of "2::nat" k] by linarith
  define r where "r = unat (align_up_uaddr (addr_at st s) k)"
  have r: "r = (?a + 2 ^ k - 1) div 2 ^ k * 2 ^ k"
    unfolding r_def using k(2) lt by (intro unat_align_up) simp_all
  have rb: "?a \<le> r" "r < ?a + 2 ^ k" using round_up_bounds [of ?a k] r by simp_all
  have "4096 dvd r" unfolding r K by simp
  moreover have "4096 dvd ?lo" using ro by (simp add: range_ok_def)
  ultimately have "4096 dvd r - ?lo" by simp
  then obtain p where p: "r = ?lo + 4096 * p" using rb a by (metis add_diff_inverse_nat dvdE le_add1 leD le_trans)
  have pb: "s \<le> p" "p < s + 2 ^ (k - 12)" using rb p a K by simp_all
  have "align_up_uaddr (addr_at st s) k = addr_at st p"
    using unat_addr_at [OF ro, of p] p pb t by (simp add: word_unat_eq_iff r_def)
  then show thesis using that pb align_up_aligned [of "addr_at st s" k] by simp
qed

definition aligned_result :: "va_state \<Rightarrow> vptr list \<Rightarrow> nat \<Rightarrow> nat \<Rightarrow> vptr option \<Rightarrow> va_state \<Rightarrow> vptr list \<Rightarrow> bool" where
  "aligned_result st xs n k r st' xs' \<longleftrightarrow> va_inv st' xs' \<and> good_draws (draws st') \<and> addr_at st' = addr_at st \<and>
     (case r of None \<Rightarrow> used_vmas st' xs' = used_vmas st xs \<and>
        (\<forall>p. p + n + 2 ^ (k - 12) \<le> total_pages st \<longrightarrow> \<not> free_run (used_vmas st xs) p (p + n + 2 ^ (k - 12)))
      | Some v \<Rightarrow> \<exists>p. used_vmas st' xs' = insert (v, p, n) (used_vmas st xs) \<and>
          free_run (used_vmas st xs) p (p + n) \<and> p + n \<le> total_pages st \<and> is_aligned_uaddr (addr_at st p) k)"

text \<open>The second half of the handler, after the first try was given back.\<close>

lemma aligned_second_try:
  assumes inv: "va_inv st xs" and n: "0 < n" "n + 2 ^ (k - 12) \<le> 2 ^ 26" and k: "12 \<le> k"
    and d: "good_draws (draws st)" and f: "fresh_allocs 3 st xs"
  shows "\<exists>r st' xs'. (do {
       (v, st) \<leftarrow> vma_alloc st (of_nat n + push_bit (k - 12) 1);
       case v of None \<Rightarrow> Some (None, st)
       | Some vma \<Rightarrow> do {
           (addr, _) \<leftarrow> vma_bounds st vma;
           st \<leftarrow> vma_free st (Some vma);
           let addr = align_up_uaddr addr k;
           (v, st) \<leftarrow> vma_alloc_by_addr st addr (addr + push_bit 12 (of_nat n));
           assert_that (v \<noteq> None);
           Some (v, st)
         }
     }) = Some (r, st') \<and> aligned_result st xs n k r st' xs'"
proof -
  let ?m = "n + 2 ^ (k - 12)"
  have m: "0 < ?m" using n by simp
  have w: "(of_nat n + push_bit (k - 12) 1 :: u64) = of_nat ?m" by (simp add: push_bit_eq_mult)
  have "(2::nat) ^ (k - 12) < 2 ^ 27" using n(2) by simp
  then have "k - 12 < 27" by (rule power_less_imp_less_exp [rotated]) simp
  then have k64: "k < 64" by simp
  obtain u where u: "shd (allocs st) = Some u" "u \<notin> set xs"
    using fresh_allocs_hd [of 2 st xs] f by (auto simp: numeral_3_eq_3 numeral_2_eq_2)
  show ?thesis
  proof (rule vma_alloc_used [OF inv m n(2) d u])
    assume "\<forall>p. p + ?m \<le> total_pages st \<longrightarrow> \<not> free_run (used_vmas st xs) p (p + ?m)"
      "vma_alloc st (of_nat ?m) = Some (None, st)"
    then show ?thesis unfolding w
      by (intro exI [of _ None] exI [of _ st] exI [of _ xs])
        (simp add: inv d aligned_result_def add.assoc del: of_nat_add)
  next
    fix v st1 xs1 s j
    assume a: "vma_alloc st (of_nat ?m) = Some (Some v, st1)" "va_inv st1 xs1" "set xs1 \<subseteq> insert u (set xs)"
      "j = 0 \<Longrightarrow> set xs1 \<subseteq> set xs" "free_run (used_vmas st xs) s (s + ?m)" "s + ?m \<le> total_pages st"
      "fits st ?m v" "used_vmas st1 xs1 = insert (v, s, ?m) (used_vmas st xs)" "good_draws (draws st1)"
      "allocs st1 = sdrop j (allocs st)" "j \<le> 1" "addr_at st1 = addr_at st"
    have core1: "va_core st1 xs1" using a(2) by (simp add: va_inv_def)
    have v1: "v \<in> set xs1" "first_page st1 v = s" using used_vmasD [of v s ?m st1 xs1] a(8) by auto
    have b1: "vma_bounds st1 v = Some (addr_at st s, addr_at st (s + pages_in st1 v))"
      using vma_bounds_eq [OF va_core_in_store [OF core1 v1(1)]] v1(2) a(12) by simp
    have vf: "vfree st v" using a(7) by (simp add: fits_def)
    obtain st2 xs2 where s2: "vma_free st1 (Some v) = Some st2" "va_inv st2 xs2"
      "used_vmas st2 xs2 = used_vmas st xs" "set xs2 \<subseteq> set xs1" "good_draws (draws st2)"
      "allocs st2 = allocs st1" "addr_at st2 = addr_at st1"
      using alloc_then_free [OF a(2,8) vf a(9)] by metis
    have core2: "va_core st2 xs2" using s2(2) by (simp add: va_inv_def)
    have pages: "total_pages st2 = total_pages st" "range_ok st2"
      using same_range_pages [OF vma_alloc_range [OF a(1)]] same_range_pages [OF vma_free_range [OF s2(1)]]
        va_coreD(1) [OF core2] by simp_all
    have t2: "s + 2 ^ (k - 12) \<le> total_pages st2" using a(6) pages by simp
    obtain p where p: "align_up_uaddr (addr_at st2 s) k = addr_at st2 p" "s \<le> p" "p < s + 2 ^ (k - 12)"
      "is_aligned_uaddr (addr_at st2 p) k"
      using align_up_page [OF pages(2) k k64 t2] .
    have run: "free_run (used_vmas st2 xs2) p (p + n)"
      using free_run_mono [OF a(5) p(2), of "p + n"] p(3) s2(3) by simp
    have pq: "p < p + n" "p + n \<le> total_pages st2" using n(1) p(3) a(6) pages by simp_all
    have fr: "fresh_allocs 2 st2 xs2"
    proof -
      have "fresh_allocs (Suc 2) st xs" using f by (simp add: numeral_3_eq_3 numeral_2_eq_2)
      then show ?thesis
        by (rule fresh_allocs_stays) (use a(3,4,10,11) s2(4,6) u(1) in auto)
    qed
    then have fr': "shd (allocs st2) \<noteq> None" "shd (stl (allocs st2)) \<noteq> None" "shd (allocs st2) \<noteq> shd (stl (allocs st2))"
      "\<And>u. shd (allocs st2) = Some u \<Longrightarrow> u \<notin> set xs2" "\<And>u. shd (stl (allocs st2)) = Some u \<Longrightarrow> u \<notin> set xs2"
      by (auto simp: fresh_allocs_def numeral_2_eq_2 image_iff) (metis option.exhaust)+
    have hold: "\<exists>v \<in> set xs2. holds_range st2 p (p + n) v"
      using free_run_holder [OF s2(2) pq] run by simp
    obtain v' st3 xs3 where s3: "vma_alloc_by_addr st2 (addr_at st2 p) (addr_at st2 (p + n)) = Some (Some v', st3)"
      "va_inv st3 xs3" "used_vmas st3 xs3 = insert (v', p, p + n - p) (used_vmas st2 xs2)"
      "good_draws (draws st3)" "addr_at st3 = addr_at st2"
      by (rule vma_alloc_by_addr_spec [OF s2(2) pq s2(5) fr'(4,5)]) (use fr' hold in auto)
    have "addr_at st2 p + push_bit 12 (of_nat n) = addr_at st2 (p + n)"
      by (simp only: push_page addr_at_add)
    moreover have "addr_at st2 = addr_at st" using s2(7) a(12) by simp
    moreover have "aligned_result st xs n k (Some v') st3 xs3"
      using s3(2-5) s2(3) run pq(2) pages(1) p(4) calculation(2) by (auto simp: aligned_result_def)
    ultimately show ?thesis unfolding w
      using a(1) b1 s2(1) p(1) s3(1)
      by (intro exI [of _ "Some v'"] exI [of _ st3] exI [of _ xs3]) (simp del: of_nat_add)
  qed
qed

lemma vma_alloc_aligned_spec:
  assumes inv: "va_inv st xs" and n: "0 < n" "n + 2 ^ (k - 12) \<le> 2 ^ 26" and k: "12 \<le> k"
    and d: "good_draws (draws st)" and f: "fresh_allocs 4 st xs"
  shows "\<exists>r st' xs'. vma_alloc_aligned st (of_nat n) k = Some (r, st') \<and> aligned_result st xs n k r st' xs'"
proof -
  have f4: "fresh_allocs (Suc 3) st xs" using f by (simp add: numeral_3_eq_3 numeral_Bit0)
  obtain u where u: "shd (allocs st) = Some u" "u \<notin> set xs" using fresh_allocs_hd [OF f4] by auto
  have n26: "n \<le> 2 ^ 26" using n(2) by linarith
  have "(2::nat) ^ (k - 12) < 2 ^ 27" using n(2) by simp
  then have "k - 12 < 27" by (rule power_less_imp_less_exp [rotated]) simp
  then have k31: "k - 12 < 31" by simp
  show ?thesis
  proof (rule vma_alloc_used [OF inv n(1) n26 d u])
    assume no: "\<forall>p. p + n \<le> total_pages st \<longrightarrow> \<not> free_run (used_vmas st xs) p (p + n)"
      and r: "vma_alloc st (of_nat n) = Some (None, st)"
    have "\<not> free_run (used_vmas st xs) p (p + n + 2 ^ (k - 12))" if "p + n + 2 ^ (k - 12) \<le> total_pages st" for p
      using no that free_run_mono [of _ p "p + n + 2 ^ (k - 12)" p "p + n"] by fastforce
    then show ?thesis
      by (intro exI [of _ None] exI [of _ st] exI [of _ xs])
        (use k r inv d in \<open>simp add: vma_alloc_aligned_def aligned_result_def\<close>)
  next
    fix v st1 xs1 s j
    assume a: "vma_alloc st (of_nat n) = Some (Some v, st1)" "va_inv st1 xs1" "set xs1 \<subseteq> insert u (set xs)"
      "j = 0 \<Longrightarrow> set xs1 \<subseteq> set xs" "free_run (used_vmas st xs) s (s + n)" "s + n \<le> total_pages st"
      "fits st n v" "used_vmas st1 xs1 = insert (v, s, n) (used_vmas st xs)" "good_draws (draws st1)"
      "allocs st1 = sdrop j (allocs st)" "j \<le> 1" "addr_at st1 = addr_at st"
    have core1: "va_core st1 xs1" using a(2) by (simp add: va_inv_def)
    have v1: "v \<in> set xs1" "first_page st1 v = s" using used_vmasD [of v s n st1 xs1] a(8) by auto
    have b1: "vma_bounds st1 v = Some (addr_at st s, addr_at st (s + pages_in st1 v))"
      using vma_bounds_eq [OF va_core_in_store [OF core1 v1(1)]] v1(2) a(12) by simp
    have vf: "vfree st v" using a(7) by (simp add: fits_def)
    obtain st2 xs2 where s2: "vma_free st1 (Some v) = Some st2" "va_inv st2 xs2"
      "used_vmas st2 xs2 = used_vmas st xs" "set xs2 \<subseteq> set xs1" "good_draws (draws st2)"
      "allocs st2 = allocs st1" "addr_at st2 = addr_at st1"
      using alloc_then_free [OF a(2,8) vf a(9)] by metis
    show ?thesis
    proof (cases "is_aligned_uaddr (addr_at st s) k")
      case True
      then have "aligned_result st xs n k (Some v) st1 xs1"
        using a by (auto simp: aligned_result_def)
      then show ?thesis
        by (intro exI [of _ "Some v"] exI [of _ st1] exI [of _ xs1])
          (use k a(1) b1 True in \<open>simp add: vma_alloc_aligned_def\<close>)
    next
      case False
      have pages: "total_pages st2 = total_pages st"
        using same_range_pages [OF vma_alloc_range [OF a(1)]] same_range_pages [OF vma_free_range [OF s2(1)]] by simp
      have "fresh_allocs 3 st2 xs2"
        by (rule fresh_allocs_stays [OF f4]) (use a(3,4,10,11) s2(4,6) u(1) in auto)
      from aligned_second_try [OF s2(2) n k s2(5) this] obtain r st3 xs3 where
        r: "aligned_result st2 xs2 n k r st3 xs3" and run: "(do {
       (v, st) \<leftarrow> vma_alloc st2 (of_nat n + push_bit (k - 12) 1);
       case v of None \<Rightarrow> Some (None, st)
       | Some vma \<Rightarrow> do {
           (addr, _) \<leftarrow> vma_bounds st vma;
           st \<leftarrow> vma_free st (Some vma);
           let addr = align_up_uaddr addr k;
           (v, st) \<leftarrow> vma_alloc_by_addr st addr (addr + push_bit 12 (of_nat n));
           assert_that (v \<noteq> None);
           Some (v, st)
         }
     }) = Some (r, st3)" by blast
      have "vma_alloc_aligned st (of_nat n) k = Some (r, st3)"
        unfolding vma_alloc_aligned_def run [symmetric] using k k31 a(1) b1 False s2(1) by simp
      moreover have "aligned_result st xs n k r st3 xs3"
        using r s2(3,7) a(12) pages by (simp add: aligned_result_def split: option.splits)
      ultimately show ?thesis by blast
    qed
  qed
qed

section \<open>The interface to the rest of the kernel\<close>

text \<open>
  What an owner of address ranges relies on: \<open>holds s us\<close> says that the state \<open>s\<close> has
  handed out exactly the ranges \<open>us\<close>; they do not overlap, and each can be given back.
\<close>

locale range_owner =
  fixes holds :: "'s \<Rightarrow> ('v \<times> nat \<times> nat) set \<Rightarrow> bool"
    and release :: "'s \<Rightarrow> 'v \<Rightarrow> 's option"
  assumes disjoint_law: "holds s us \<Longrightarrow> (v, p, n) \<in> us \<Longrightarrow> (w, q, m) \<in> us \<Longrightarrow>
      v = w \<and> p = q \<and> n = m \<or> v \<noteq> w \<and> (p + n \<le> q \<or> q + m \<le> p)"
    and release_law: "holds s us \<Longrightarrow> (v, p, n) \<in> us \<Longrightarrow>
      \<exists>s'. release s v = Some s' \<and> holds s' (us - {(v, p, n)})"
begin

lemma owner_unique: "holds s us \<Longrightarrow> (v, p, n) \<in> us \<Longrightarrow> (v, q, m) \<in> us \<Longrightarrow> p = q \<and> n = m"
  using disjoint_law by blast

lemma release_all:
  "holds s us \<Longrightarrow> distinct vs \<Longrightarrow> set vs = fst ` us \<Longrightarrow> \<exists>s'. each_call release s vs = Some s' \<and> holds s' {}"
proof (induction vs arbitrary: s us)
  case (Cons v vs)
  have "v \<in> fst ` us" using Cons.prems(3) [symmetric] by simp
  then obtain p n where v: "(v, p, n) \<in> us" by force
  obtain s' where s': "release s v = Some s'" "holds s' (us - {(v, p, n)})"
    using release_law [OF Cons.prems(1) v] by blast
  have "set vs = fst ` (us - {(v, p, n)})"
  proof -
    have u: "x = (v, p, n)" if "x \<in> us" "fst x = v" for x
      using owner_unique [OF Cons.prems(1) v, of "fst (snd x)" "snd (snd x)"] that by (cases x) simp
    have "w \<in> fst ` (us - {(v, p, n)}) \<longleftrightarrow> w \<in> fst ` us \<and> w \<noteq> v" for w
    proof
      assume "w \<in> fst ` us \<and> w \<noteq> v"
      then obtain x where "x \<in> us" "w = fst x" "w \<noteq> v" by blast
      then show "w \<in> fst ` (us - {(v, p, n)})" by (intro image_eqI [of _ _ x]) auto
    next
      assume "w \<in> fst ` (us - {(v, p, n)})"
      then obtain x where "x \<in> us" "w = fst x" "x \<noteq> (v, p, n)" by blast
      then show "w \<in> fst ` us \<and> w \<noteq> v" using u [of x] by blast
    qed
    moreover have "w \<in> set vs \<longleftrightarrow> w \<in> fst ` us \<and> w \<noteq> v" for w
      using Cons.prems(2) Cons.prems(3) [symmetric] by auto
    ultimately show ?thesis by (intro set_eqI) metis
  qed
  then obtain t where "each_call release s' vs = Some t" "holds t {}"
    using Cons.IH [OF s'(2)] Cons.prems(2) by auto
  then show ?case using s'(1) by simp
qed simp

end

interpretation vas: range_owner "\<lambda>st us. \<exists>xs. va_inv st xs \<and> used_vmas st xs = us \<and> good_draws (draws st)"
  "\<lambda>st v. vma_free st (Some v)"
proof unfold_locales
  fix st us v p n w q m
  assume "\<exists>xs. va_inv st xs \<and> used_vmas st xs = us \<and> good_draws (draws st)" "(v, p, n) \<in> us" "(w, q, m) \<in> us"
  then obtain xs where xs: "va_inv st xs" "used_vmas st xs = us" by blast
  then have t: "tiling (first_page st) (pages_in st) 0 xs (total_pages st)"
    using va_coreD(6) by (simp add: va_inv_def)
  have v: "v \<in> set xs" "first_page st v = p" "pages_in st v = n"
    and w: "w \<in> set xs" "first_page st w = q" "pages_in st w = m"
    using used_vmasD \<open>(v, p, n) \<in> us\<close> \<open>(w, q, m) \<in> us\<close> xs(2) by blast+
  obtain as bs where s: "xs = as @ v # bs" using v(1) by (meson split_list)
  note sp = tiling_split(1,2) [OF t [unfolded s]]
  show "v = w \<and> p = q \<and> n = m \<or> v \<noteq> w \<and> (p + n \<le> q \<or> q + m \<le> p)"
    using w v s sp by fastforce
next
  fix st us v p n
  assume "\<exists>xs. va_inv st xs \<and> used_vmas st xs = us \<and> good_draws (draws st)" and v: "(v, p, n) \<in> us"
  then obtain xs where xs: "va_inv st xs" "used_vmas st xs = us" "good_draws (draws st)" by blast
  then have "v \<in> set xs" "first_page st v = p" "pages_in st v = n" "\<not> vfree st v"
    using used_vmasD [of v p n st xs] v by auto
  then show "\<exists>s'. vma_free st (Some v) = Some s' \<and>
      (\<exists>xs. va_inv s' xs \<and> used_vmas s' xs = us - {(v, p, n)} \<and> good_draws (draws s'))"
    using vma_free_spec [OF xs(1) _ _ xs(3), of v] xs(2) by metis
qed

lemma all_free_single:
  assumes inv: "va_inv st xs" and u: "used_vmas st xs = {}"
  obtains v where "xs = [v]"
proof -
  have core: "va_core st xs" and co: "coalesced (vfree st) xs" using inv by (simp_all add: va_inv_def)
  have f: "vfree st x" if "x \<in> set xs" for x using u that by (auto simp: used_vmas_def)
  have tp: "0 < total_pages st"
    using total_pages_eq [OF va_coreD(1) [OF core]] va_coreD(1) [OF core]
    by (auto simp: range_ok_def word_less_nat_alt)
  show thesis
  proof (cases xs)
    case Nil
    then show thesis using va_coreD(6) [OF core] tp by simp
  next
    case (Cons v ys)
    then show thesis using that co f by (cases ys) auto
  qed
qed

section \<open>The properties\<close>

text \<open>An allocator of sixteen pages to run the operations on.\<close>

definition blank_va :: va_state where
  "blank_va = \<lparr>vmas = Map.empty, lo_address = 0, hi_address = 0,
     treaps = (\<lambda>_. \<lparr>heads = Map.empty, treap_root = None\<rparr>), draws = sconst 5, allocs = smap Some (siterate Suc 7)\<rparr>"

definition example_va :: va_state where
  "example_va = snd (the (vma_allocator_init blank_va 0 0x10000))"

lemma good_blank: "good_draws (draws blank_va)"
  by (simp add: good_draws_def blank_va_def)

lemma example_init:
  obtains "vma_allocator_init blank_va 0 0x10000 = Some (True, example_va)" "va_inv example_va [7]"
    "used_vmas example_va [7] = {}" "lo_address example_va = 0" "hi_address example_va = 0x10000"
    "good_draws (draws example_va)" "allocs example_va = smap Some (siterate Suc 8)" "vfree example_va 7"
proof (rule vma_allocator_init_spec [of 0 "0x10000" blank_va 7])
  show "is_aligned_uaddr 0 12" "is_aligned_uaddr 0x10000 12" by (simp_all add: is_aligned_iff_dvd)
  show "shd (allocs blank_va) = Some 7" by (simp add: blank_va_def)
  fix st'
  assume "vma_allocator_init blank_va 0 0x10000 = Some (True, st')" "va_inv st' [7]" "vfree st' 7"
    "used_vmas st' [7] = {}" "lo_address st' = 0" "hi_address st' = 0x10000" "good_draws (draws st')"
    "allocs st' = stl (allocs blank_va)"
  moreover then have "st' = example_va" by (simp add: example_va_def)
  ultimately show thesis using that by (simp add: blank_va_def eval_nat_numeral)
qed (use good_blank in simp_all)

lemma example_pages: "total_pages example_va = 16" "first_page example_va 7 = 0" "pages_in example_va 7 = 16"
proof -
  show t: "total_pages example_va = 16" by (rule example_init) (simp add: total_pages_def)
  have "tiling (first_page example_va) (pages_in example_va) 0 [7] (total_pages example_va)"
  proof (rule example_init)
    assume "va_inv example_va [7]"
    then have "va_core example_va [7]" by (simp add: va_inv_def)
    then show ?thesis by (rule va_coreD(6))
  qed
  then show "first_page example_va 7 = 0" "pages_in example_va 7 = 16" using t by simp_all
qed

text \<open>The same allocator with four pages taken.\<close>

definition example_va4 :: va_state where
  "example_va4 = snd (the (vma_alloc example_va 4))"

lemma example_alloc:
  obtains xs where "vma_alloc example_va 4 = Some (Some 7, example_va4)" "va_inv example_va4 xs"
    "used_vmas example_va4 xs = {(7, 0, 4)}" "good_draws (draws example_va4)"
proof (rule example_init)
  assume i: "va_inv example_va [7]" "used_vmas example_va [7] = {}" "good_draws (draws example_va)"
    "allocs example_va = smap Some (siterate Suc 8)" "vfree example_va 7"
  have "(4 :: u64) = of_nat 4" by simp
  have u: "shd (allocs example_va) = Some 8" "8 \<notin> set [7 :: nat]" using i(4) by simp_all
  have r: "free_run (used_vmas example_va [7]) 0 (0 + 4)" by (simp add: i(2) free_run_def)
  show thesis
    by (rule vma_alloc_used [OF i(1) _ _ i(3) u, of 4])
      (use r example_pages that i(2) in \<open>auto simp: example_va4_def\<close>)
qed

text \<open>
  \<open>C15\<close>.  Initializing an allocator for a page-aligned range of at most \<open>2 ^ 44\<close> bytes in one
  half of the address space leaves one free VMA that covers the whole range, with every
  part of the invariant in place.
\<close>

theorem vma_allocator_init_correct:
  assumes "is_aligned_uaddr lo 12" "is_aligned_uaddr hi 12" "lo < hi"
    and "hi \<le> 0x0000004000000000 \<or> 0xffffffc000000000 \<le> lo" "hi - lo \<le> 2 ^ 44"
    and "shd (allocs st) = Some v" "good_draws (draws st)"
  shows "\<exists>st'. vma_allocator_init st lo hi = Some (True, st') \<and> va_inv st' [v] \<and> used_vmas st' [v] = {} \<and>
    lo_address st' = lo \<and> hi_address st' = hi"
  using vma_allocator_init_spec [OF assms] by metis

theorem vma_allocator_init_correct_witness:
  "\<exists>st'. vma_allocator_init blank_va 0 0x10000 = Some (True, st') \<and> va_inv st' [7] \<and> used_vmas st' [7] = {} \<and>
    lo_address st' = 0 \<and> hi_address st' = 0x10000"
  by (rule vma_allocator_init_correct)
    (use good_blank in \<open>simp_all add: is_aligned_iff_dvd, simp add: blank_va_def\<close>)

text \<open>
  Looking up any address of the range returns the VMA that contains it.
\<close>

theorem vma_find_correct:
  assumes "va_inv st xs" "lo_address st \<le> addr" "addr < hi_address st"
  shows "\<exists>v \<in> set xs. vma_find st addr = Some v \<and>
    (\<exists>lo hi. vma_bounds st v = Some (lo, hi) \<and> lo \<le> addr \<and> unat addr < unat lo + 4096 * pages_in st v)"
proof -
  have core: "va_core st xs" using assms(1) by (simp add: va_inv_def)
  note ro = va_coreD(1) [OF core]
  obtain y p k where y: "y \<in> set xs" "vma_find st addr = Some y" "unat (k :: u64) < 4096"
    "first_page st y \<le> p" "p < first_page st y + pages_in st y" "unat addr = unat (addr_at st p) + unat k"
    by (rule vma_find_at [OF core assms(2,3)]) blast
  note b = va_core_bounds(1) [OF core y(1)]
  have "unat (addr_at st p) = unat (lo_address st) + 4096 * p"
    "unat (addr_at st (first_page st y)) = unat (lo_address st) + 4096 * first_page st y"
    using b y(5) by (intro unat_addr_at [OF ro]; simp)+
  then show ?thesis
    using y vma_bounds_eq [OF va_core_in_store [OF core y(1)]] by (auto simp: word_le_nat_alt)
qed

theorem vma_find_correct_witness:
  "\<exists>v \<in> {7}. vma_find example_va 0x1234 = Some v \<and>
    (\<exists>lo hi. vma_bounds example_va v = Some (lo, hi) \<and> lo \<le> 0x1234 \<and> unat (0x1234 :: u64) < unat lo + 4096 * pages_in example_va v)"
proof (rule example_init)
  assume "va_inv example_va [7]" "lo_address example_va = 0" "hi_address example_va = 0x10000"
  then show ?thesis using vma_find_correct [of example_va "[7]" "0x1234"] by simp
qed

text \<open>
  \<open>C3\<close>.  Allocating \<open>n\<close> pages takes a smallest free VMA that is large enough and hands
  out its first \<open>n\<close> pages, which no other VMA uses; the other used VMAs keep their pages.  It
  returns null, and changes nothing, only if the range has no run of \<open>n\<close> free pages.
\<close>

theorem vma_alloc_correct:
  assumes "va_inv st xs" "0 < n" "n \<le> 2 ^ 26" "good_draws (draws st)" "shd (allocs st) = Some u" "u \<notin> set xs"
  shows "\<exists>r st' xs'. vma_alloc st (of_nat n) = Some (r, st') \<and> va_inv st' xs' \<and>
    (case r of
       None \<Rightarrow> st' = st \<and> (\<forall>p. p + n \<le> total_pages st \<longrightarrow> \<not> free_run (used_vmas st xs) p (p + n))
     | Some v \<Rightarrow> fits st n v \<and> (\<forall>x \<in> set xs. fits st n x \<longrightarrow> pages_in st v \<le> pages_in st x) \<and>
         free_run (used_vmas st xs) (first_page st v) (first_page st v + n) \<and>
         used_vmas st' xs' = insert (v, first_page st v, n) (used_vmas st xs))"
proof (rule vma_alloc_used [OF assms])
  assume a: "\<forall>p. p + n \<le> total_pages st \<longrightarrow> \<not> free_run (used_vmas st xs) p (p + n)"
    "vma_alloc st (of_nat n) = Some (None, st)"
  show ?thesis using a assms(1) by (intro exI [of _ None] exI [of _ st] exI [of _ xs]) simp
next
  fix v st' xs' p k
  assume a: "vma_alloc st (of_nat n) = Some (Some v, st')" "va_inv st' xs'" "p = first_page st v" "fits st n v"
    "\<forall>x \<in> set xs. fits st n x \<longrightarrow> pages_in st v \<le> pages_in st x" "free_run (used_vmas st xs) p (p + n)"
    "used_vmas st' xs' = insert (v, p, n) (used_vmas st xs)"
  then show ?thesis by (intro exI [of _ "Some v"] exI [of _ st'] exI [of _ xs']) simp
qed

theorem vma_alloc_correct_witness:
  "\<exists>v st' xs'. vma_alloc example_va 4 = Some (Some v, st') \<and> va_inv st' xs' \<and> used_vmas st' xs' = {(v, first_page example_va v, 4)}"
proof (rule example_init)
  assume i: "va_inv example_va [7]" "used_vmas example_va [7] = {}" "good_draws (draws example_va)"
    "allocs example_va = smap Some (siterate Suc 8)"
  have u: "shd (allocs example_va) = Some 8" "8 \<notin> set [7 :: nat]" using i(4) by simp_all
  have "\<not> (\<forall>p. p + 4 \<le> total_pages example_va \<longrightarrow> \<not> free_run (used_vmas example_va [7]) p (p + 4))"
    by (simp add: i(2) free_run_def example_pages exI [of _ 0])
  then show ?thesis
    using vma_alloc_correct [OF i(1) _ _ i(3) u, of 4] i(2) by (auto split: option.splits)
qed

text \<open>
  \<open>C4\<close>.  Freeing a used VMA makes exactly its pages free and keeps every other used VMA; the
  invariant that holds again includes that no two neighbouring VMAs are free.
\<close>

theorem vma_free_correct:
  assumes "va_inv st xs" "v \<in> set xs" "\<not> vfree st v" "good_draws (draws st)"
  shows "\<exists>st' xs'. vma_free st (Some v) = Some st' \<and> va_inv st' xs' \<and>
    used_vmas st' xs' = used_vmas st xs - {(v, first_page st v, pages_in st v)}"
  using vma_free_spec [OF assms] by metis

theorem vma_free_correct_witness:
  "\<exists>st' xs'. vma_free example_va4 (Some 7) = Some st' \<and> va_inv st' xs' \<and> used_vmas st' xs' = {}"
proof (rule example_alloc)
  fix xs assume i: "va_inv example_va4 xs" "used_vmas example_va4 xs = {(7, 0, 4)}" "good_draws (draws example_va4)"
  then have "7 \<in> set xs" "\<not> vfree example_va4 7" "first_page example_va4 7 = 0" "pages_in example_va4 7 = 4"
    using used_vmasD [of 7 0 4 example_va4 xs] by auto
  then show ?thesis using vma_free_correct [OF i(1) _ _ i(3), of 7] i(2) by simp
qed

text \<open>
  Freeing all used VMAs, in any order, leaves a single free VMA that covers the range.
\<close>

theorem vma_free_all:
  assumes "va_inv st xs" "good_draws (draws st)" "distinct vs" "set vs = {v \<in> set xs. \<not> vfree st v}"
  shows "\<exists>st' v. each_call (\<lambda>st v. vma_free st (Some v)) st vs = Some st' \<and> va_inv st' [v] \<and> used_vmas st' [v] = {}"
proof -
  have "set vs = fst ` used_vmas st xs" unfolding assms(4) used_vmas_def by force
  then obtain st' xs' where "each_call (\<lambda>st v. vma_free st (Some v)) st vs = Some st'" "va_inv st' xs'"
    "used_vmas st' xs' = {}"
    using vas.release_all [of st "used_vmas st xs" vs] assms(1-3) by blast
  then show ?thesis using all_free_single by metis
qed

theorem vma_free_all_witness:
  "\<exists>st' v. each_call (\<lambda>st v. vma_free st (Some v)) example_va4 [7] = Some st' \<and> va_inv st' [v] \<and> used_vmas st' [v] = {}"
proof (rule example_alloc)
  fix xs assume i: "va_inv example_va4 xs" "used_vmas example_va4 xs = {(7, 0, 4)}" "good_draws (draws example_va4)"
  have "x \<in> set xs \<and> \<not> vfree example_va4 x \<longleftrightarrow> x \<in> fst ` used_vmas example_va4 xs" for x
    unfolding used_vmas_def by force
  then have "set [7] = {v \<in> set xs. \<not> vfree example_va4 v}" using i(2) by auto
  then show ?thesis by (intro vma_free_all [OF i(1,3)]) simp_all
qed

text \<open>
  \<open>C5\<close>.  Allocating the pages from \<open>p\<close> to \<open>q\<close> succeeds exactly when no used VMA touches
  them (and memory for the new VMAs was there), and then they become one used VMA.
\<close>

theorem vma_alloc_by_addr_correct:
  assumes "va_inv st xs" "p < q" "q \<le> total_pages st" "good_draws (draws st)" "fresh_allocs 2 st xs"
  shows "\<exists>r st' xs'. vma_alloc_by_addr st (addr_at st p) (addr_at st q) = Some (r, st') \<and> va_inv st' xs' \<and>
    (case r of
       None \<Rightarrow> st' = st \<and> \<not> free_run (used_vmas st xs) p q
     | Some v \<Rightarrow> free_run (used_vmas st xs) p q \<and> used_vmas st' xs' = insert (v, p, q - p) (used_vmas st xs))"
proof -
  have fr: "shd (allocs st) \<noteq> None" "shd (stl (allocs st)) \<noteq> None" "shd (allocs st) \<noteq> shd (stl (allocs st))"
    "\<And>u. shd (allocs st) = Some u \<Longrightarrow> u \<notin> set xs" "\<And>u. shd (stl (allocs st)) = Some u \<Longrightarrow> u \<notin> set xs"
    using assms(5) by (auto simp: fresh_allocs_def numeral_2_eq_2 image_iff) (metis option.exhaust)+
  note h = free_run_holder [OF assms(1-3)]
  show ?thesis
  proof (rule vma_alloc_by_addr_spec [OF assms(1-4) fr(4,5)])
    assume "\<forall>v \<in> set xs. \<not> holds_range st p q v" "vma_alloc_by_addr st (addr_at st p) (addr_at st q) = Some (None, st)"
    then show ?thesis using assms(1) h by (intro exI [of _ None] exI [of _ st] exI [of _ xs]) simp
  next
    fix v st' xs' k
    assume a: "v \<in> set xs" "holds_range st p q v" "va_inv st' xs'"
      "vma_alloc_by_addr st (addr_at st p) (addr_at st q) = Some (Some v, st')"
      "used_vmas st' xs' = insert (v, p, q - p) (used_vmas st xs)"
    then show ?thesis using h by (intro exI [of _ "Some v"] exI [of _ st'] exI [of _ xs']) auto
  qed (use fr in auto)
qed

lemma example_fresh: "fresh_allocs 4 example_va [7]"
  by (rule example_init) (simp add: fresh_allocs_def eval_nat_numeral)

theorem vma_alloc_by_addr_correct_witness:
  "\<exists>v st' xs'. vma_alloc_by_addr example_va (addr_at example_va 3) (addr_at example_va 5) = Some (Some v, st') \<and>
    va_inv st' xs' \<and> used_vmas st' xs' = {(v, 3, 2)}"
proof (rule example_init)
  assume i: "va_inv example_va [7]" "used_vmas example_va [7] = {}" "good_draws (draws example_va)"
  have f: "fresh_allocs 2 example_va [7]" using example_fresh by (simp add: fresh_allocs_def eval_nat_numeral)
  show ?thesis
    using vma_alloc_by_addr_correct [OF i(1) _ _ i(3) f, of 3 5] i(2)
    by (auto simp: example_pages free_run_def split: option.splits)
qed

text \<open>
  \<open>C6\<close>.  Aligned allocation of \<open>n\<close> pages either makes \<open>n\<close> free pages at an aligned address
  a used VMA, or returns null with the contents unchanged because the range has no run of
  free pages long enough to hold \<open>n\<close> aligned pages wherever it starts.  The assertion after the
  second try never fails.
\<close>

theorem vma_alloc_aligned_correct:
  assumes "va_inv st xs" "0 < n" "n + 2 ^ (k - 12) \<le> 2 ^ 26" "12 \<le> k" "good_draws (draws st)" "fresh_allocs 4 st xs"
  shows "\<exists>r st' xs'. vma_alloc_aligned st (of_nat n) k = Some (r, st') \<and> aligned_result st xs n k r st' xs'"
  by (rule vma_alloc_aligned_spec [OF assms])

theorem vma_alloc_aligned_correct_witness:
  "\<exists>r st' xs'. vma_alloc_aligned example_va 3 14 = Some (r, st') \<and> aligned_result example_va [7] 3 14 r st' xs'"
proof (rule example_init)
  assume i: "va_inv example_va [7]" "good_draws (draws example_va)"
  show ?thesis using vma_alloc_aligned_correct [OF i(1) _ _ _ i(2) example_fresh, of 3 14] by simp
qed
end
