(* ===== verification/Chacha.thy ===== *)
theory Chacha
  imports Machine
begin

text \<open>
  The ChaCha20 cipher, \<^verbatim>\<open>crypto/subtle/rfc7539.c\<close>: the block function on sixteen words, the
  key stream and encryption in place.  Buffers are byte lists, with the length as the
  length of the list; the clearing of stack copies (\<^verbatim>\<open>explicit_bzero\<close>) is left out.
\<close>

unbundle bit_operations_syntax

section \<open>Block function\<close>

text \<open>
  The state is a union of sixteen words; the model keeps the words.  \<^verbatim>\<open>stdc_rotate_left\<close> is
  the standard library's rotation.
\<close>

type_synonym chacha20_state = "u32 list"

definition chacha20_quarter_round :: "u32 list \<Rightarrow> nat \<Rightarrow> nat \<Rightarrow> nat \<Rightarrow> nat \<Rightarrow> u32 list" where
  "chacha20_quarter_round words a b c d = (
     let words = words[a := words ! a + words ! b];
         words = words[d := word_rotl 16 (words ! d XOR words ! a)];
         words = words[c := words ! c + words ! d];
         words = words[b := word_rotl 12 (words ! b XOR words ! c)];
         words = words[a := words ! a + words ! b];
         words = words[d := word_rotl 8 (words ! d XOR words ! a)];
         words = words[c := words ! c + words ! d];
         words = words[b := word_rotl 7 (words ! b XOR words ! c)]
     in words)"

definition chacha20_double_round :: "chacha20_state \<Rightarrow> chacha20_state" where
  "chacha20_double_round st = (
     let st = chacha20_quarter_round st 0 4 8 12;
         st = chacha20_quarter_round st 1 5 9 13;
         st = chacha20_quarter_round st 2 6 10 14;
         st = chacha20_quarter_round st 3 7 11 15;
         st = chacha20_quarter_round st 0 5 10 15;
         st = chacha20_quarter_round st 1 6 11 12;
         st = chacha20_quarter_round st 2 7 8 13;
         st = chacha20_quarter_round st 3 4 9 14
     in st)"

definition chacha20_state_init :: "u8 list \<Rightarrow> u32 \<Rightarrow> u32 list \<Rightarrow> chacha20_state" where
  "chacha20_state_init key block_count nonce =
     [0x61707865, 0x3320646e, 0x79622d32, 0x6b206574] @
     map (\<lambda>i. little_to_native (word_of_le (take 4 (drop (i * 4) key)))) [0..<8] @
     [block_count] @ take 3 nonce"

definition chacha20_block :: "chacha20_state \<Rightarrow> chacha20_state" where
  "chacha20_block st = map2 (+) st ((chacha20_double_round ^^ 10) st)"

section \<open>Stream\<close>

text \<open>The bytes of an array of words in memory.\<close>

definition bytes_of_words :: "'a::len word list \<Rightarrow> u8 list" where
  "bytes_of_words ws = concat (map le_bytes ws)"

definition words_of_bytes :: "nat \<Rightarrow> u8 list \<Rightarrow> 'a::len word list" where
  "words_of_bytes n bs = map (\<lambda>i. word_of_le (take (LENGTH('a) div 8) (drop (i * (LENGTH('a) div 8)) bs))) [0..<n]"

function chacha20_keystream :: "u8 list \<Rightarrow> u32 \<Rightarrow> u32 list \<Rightarrow> nat \<Rightarrow> u8 list" where
  "chacha20_keystream key block_count nonce len = (if len = 0 then [] else
     let st = chacha20_block (chacha20_state_init key block_count nonce);
         chunk_len = min len 64;
         st = map native_to_little st
     in take chunk_len (bytes_of_words st) @
        chacha20_keystream key (block_count + 1) nonce (len - chunk_len))"
  by pat_completeness auto
termination by (relation "measure (\<lambda>(_, _, _, len). len)") auto

declare chacha20_keystream.simps [simp del]

function chacha20_encrypt :: "u8 list \<Rightarrow> u32 \<Rightarrow> u32 list \<Rightarrow> u8 list \<Rightarrow> u8 list" where
  "chacha20_encrypt key block_count nonce data = (if data = [] then [] else
     let st = chacha20_block (chacha20_state_init key block_count nonce);
         chunk_len = min (length data) 64;
         chunk = words_of_bytes 16 (take chunk_len data @ replicate (64 - chunk_len) 0);
         chunk = map2 (\<lambda>c s. c XOR native_to_little s) chunk st
     in take chunk_len (bytes_of_words chunk) @
        chacha20_encrypt key (block_count + 1) nonce (drop chunk_len data))"
  by pat_completeness auto
termination by (relation "measure (\<lambda>(_, _, _, data). length data)") auto

declare chacha20_encrypt.simps [simp del]

section \<open>Encryption is an exclusive or with the key stream\<close>

lemma length_quarter [simp]: "length (chacha20_quarter_round ws a b c d) = length ws"
  by (simp add: chacha20_quarter_round_def Let_def)

lemma length_double [simp]: "length (chacha20_double_round st) = length st"
  by (simp add: chacha20_double_round_def Let_def)

lemma length_doubles [simp]: "length ((chacha20_double_round ^^ n) st) = length st"
  by (induction n) simp_all

lemma length_block [simp]: "length (chacha20_block st) = length st"
  by (simp add: chacha20_block_def)

lemma length_init: "length nonce = 3 \<Longrightarrow> length (chacha20_state_init key n nonce) = 16"
  by (simp add: chacha20_state_init_def)

lemma length_bytes_of_words [simp]:
  "length (bytes_of_words (ws :: 'a::len word list)) = LENGTH('a) div 8 * length ws"
  by (induction ws) (simp_all add: bytes_of_words_def)

lemma length_keystream: "length nonce = 3 \<Longrightarrow> length (chacha20_keystream key n nonce len) = len"
proof (induction key n nonce len rule: chacha20_keystream.induct)
  case (1 key n nonce len)
  then show ?case
    by (subst chacha20_keystream.simps) (auto simp: Let_def length_init min_def)
qed

lemma words_of_bytes_Suc:
  "words_of_bytes (Suc n) bs = (word_of_le (take (LENGTH('a) div 8) bs) :: 'a::len word) #
     words_of_bytes n (drop (LENGTH('a) div 8) bs)"
  unfolding words_of_bytes_def by (simp add: upt_conv_Cons map_Suc_upt [symmetric] add.commute del: upt_Suc)

lemma map2_append: "length a = length c \<Longrightarrow> map2 f (a @ b) (c @ d) = map2 f a c @ map2 f b d"
  by simp

lemma xor_words_bytes:
  fixes ws :: "'a::len word list"
  assumes "8 dvd LENGTH('a)" "length bs = LENGTH('a) div 8 * length ws"
  shows "bytes_of_words (map2 (XOR) (words_of_bytes (length ws) bs) ws) = map2 (XOR) bs (bytes_of_words ws)"
  using assms(2)
proof (induction ws arbitrary: bs)
  case Nil
  then show ?case by (simp add: bytes_of_words_def words_of_bytes_def)
next
  case (Cons w ws)
  let ?k = "LENGTH('a) div 8"
  have xor: "le_bytes (v XOR w) = map2 (XOR) (le_bytes v) (le_bytes w)" for v w :: "'a word"
  proof -
    have "(ucast (drop_bit i (v XOR w)) :: u8) = ucast (drop_bit i v) XOR ucast (drop_bit i w)" for i
      by (rule bit_word_eqI) (auto simp: bit_simps)
    then show ?thesis by (simp add: le_bytes_def map2_map_map)
  qed
  have bs: "bs = take ?k bs @ drop ?k bs" "length (take ?k bs) = ?k" using Cons.prems by simp_all
  have "map2 (XOR) bs (bytes_of_words (w # ws)) =
      map2 (XOR) (take ?k bs) (le_bytes w) @ map2 (XOR) (drop ?k bs) (bytes_of_words ws)"
    using map2_append [of "take ?k bs" "le_bytes w" "(XOR)" "drop ?k bs" "concat (map le_bytes ws)"] Cons.prems
    by (simp add: bytes_of_words_def)
  moreover have "le_bytes (word_of_le (take ?k bs) :: 'a word) = take ?k bs"
    using bs(2) assms(1) by (intro le_bytes_word_of_le) simp_all
  ultimately show ?case
    using Cons.IH [of "drop ?k bs"] Cons.prems
    by (simp add: words_of_bytes_Suc bytes_of_words_def xor del: append_take_drop_id)
qed

lemma map2_xor_take: "length ys = length xs \<Longrightarrow> take n (map2 (XOR) (xs :: 'a::len word list) ys) = map2 (XOR) (take n xs) (take n ys)"
  by (simp add: take_map take_zip)

lemma map2_xor_twice: "length xs \<le> length ys \<Longrightarrow> map2 (XOR) (map2 (XOR) xs ys) ys = (xs :: 'a::len word list)"
  by (induction xs ys rule: list_induct2') (simp_all add: xor.assoc)

lemma chacha20_encrypt_xor:
  assumes "length nonce = 3"
  shows "chacha20_encrypt key n nonce data = map2 (XOR) data (chacha20_keystream key n nonce (length data))"
  using assms
proof (induction key n nonce data rule: chacha20_encrypt.induct)
  case (1 key n nonce data)
  define k where "k = min (length data) 64"
  define st where "st = chacha20_block (chacha20_state_init key n nonce)"
  define bs where "bs = take k data @ replicate (64 - k) 0"
  have k: "k \<le> 64" "k \<le> length data" by (simp_all add: k_def)
  have st: "length st = 16" unfolding st_def length_block by (rule length_init [OF "1.prems"])
  have bs: "length bs = 64" using k by (simp add: bs_def)
  show ?case
  proof (cases "data = []")
    case True
    then show ?thesis by (simp add: chacha20_encrypt.simps)
  next
    case False
    have x: "bytes_of_words (map2 (XOR) (words_of_bytes 16 bs) st) = map2 (XOR) bs (bytes_of_words st)"
      using xor_words_bytes [of bs st] st bs by simp
    have "take k (map2 (XOR) bs (bytes_of_words st)) = map2 (XOR) (take k data) (take k (bytes_of_words st))"
      using bs st k by (subst map2_xor_take) (simp_all add: bs_def)
    then have enc: "chacha20_encrypt key n nonce data =
        map2 (XOR) (take k data) (take k (bytes_of_words st)) @ chacha20_encrypt key (n + 1) nonce (drop k data)"
      using False x by (subst chacha20_encrypt.simps)
        (simp add: Let_def k_def [symmetric] st_def [symmetric] bs_def [symmetric] native_to_little_def)
    have ks: "chacha20_keystream key n nonce (length data) =
        take k (bytes_of_words st) @ chacha20_keystream key (n + 1) nonce (length data - k)"
      using False by (subst chacha20_keystream.simps)
        (simp add: Let_def k_def [symmetric] st_def [symmetric] native_to_little_def cong: map_cong)
    have ih: "chacha20_encrypt key (n + 1) nonce (drop k data) =
        map2 (XOR) (drop k data) (chacha20_keystream key (n + 1) nonce (length data - k))"
      using "1.IH" [OF False refl k_def] "1.prems" False by (simp add: k_def)
    have "map2 (XOR) data (chacha20_keystream key n nonce (length data)) =
        map2 (XOR) (take k data @ drop k data)
          (take k (bytes_of_words st) @ chacha20_keystream key (n + 1) nonce (length data - k))"
      by (simp add: ks)
    also have "\<dots> = map2 (XOR) (take k data) (take k (bytes_of_words st)) @
        map2 (XOR) (drop k data) (chacha20_keystream key (n + 1) nonce (length data - k))"
      using st k by (intro map2_append) simp
    finally show ?thesis using enc ih by simp
  qed
qed

section \<open>The self tests of the quarter round\<close>

text \<open>Sections 2.1.1 and 2.2.1 of RFC 7539.\<close>

lemma selftest_quarter_round:
  "chacha20_quarter_round [0x11111111, 0x01020304, 0x9b8d6f43, 0x01234567] 0 1 2 3 =
     [0xea2a92f4, 0xcb1cf8ce, 0x4581472e, 0x5881c4bb]"
  by code_simp

lemma selftest_quarter_round_state:
  "chacha20_quarter_round
     [0x879531e0, 0xc5ecf37d, 0x516461b1, 0xc9a62f8a, 0x44c20ef3, 0x3390af7f, 0xd9fc690b, 0x2a5f714c,
      0x53372767, 0xb00a5631, 0x974c541a, 0x359e9963, 0x5c971061, 0x3d631689, 0x2098d9d6, 0x91dbd320] 2 7 8 13 =
     [0x879531e0, 0xc5ecf37d, 0xbdb886dc, 0xc9a62f8a, 0x44c20ef3, 0x3390af7f, 0xd9fc690b, 0xcfacafd2,
      0xe46bea80, 0xb00a5631, 0x974c541a, 0x359e9963, 0x5c971061, 0xccc07c79, 0x2098d9d6, 0x91dbd320]"
  by code_simp

section \<open>Properties\<close>

text \<open>
  \<open>C19\<close>.  Encryption is the exclusive or of the data with the key stream of the same key,
  counter and nonce, whatever the length: the chunking, the padding of the last block and the
  counter agree in the two loops.
\<close>

theorem chacha20_encrypt_is_xor:
  assumes "length nonce = 3"
  shows "chacha20_encrypt key n nonce data = map2 (XOR) data (chacha20_keystream key n nonce (length data))"
  by (rule chacha20_encrypt_xor [OF assms])

theorem chacha20_encrypt_is_xor_witness:
  "chacha20_encrypt (replicate 32 7) 1 [1, 2, 3] [65, 66] =
     map2 (XOR) [65, 66] (chacha20_keystream (replicate 32 7) 1 [1, 2, 3] (length [65, 66 :: u8]))"
  by (rule chacha20_encrypt_is_xor) simp

text \<open>
  Decryption is encryption: encrypting twice with the same key, counter and nonce
  gives the data back.
\<close>

theorem chacha20_decrypts:
  assumes "length nonce = 3"
  shows "chacha20_encrypt key n nonce (chacha20_encrypt key n nonce data) = data"
  using assms by (simp add: chacha20_encrypt_xor length_keystream map2_xor_twice)

theorem chacha20_decrypts_witness:
  "chacha20_encrypt (replicate 32 7) 1 [1, 2, 3] (chacha20_encrypt (replicate 32 7) 1 [1, 2, 3] [65, 66]) = [65, 66]"
  by (rule chacha20_decrypts) simp
end
