(* ===== verification/Blake2.thy ===== *)
theory Blake2
  imports Chacha
begin

text \<open>
  The BLAKE2 hash functions, \<^verbatim>\<open>crypto/subtle/rfc7693.c\<close>: the streaming BLAKE2s and the
  one-shot BLAKE2b, and their equality with a reference that folds the compression over the
  blocks of the message.  Buffers are byte lists with their length as the length
  argument; clearing stack copies is left out.
\<close>

unbundle bit_operations_syntax

section \<open>Compression\<close>

definition blake2_sigma :: "nat list list" where
  "blake2_sigma = [
     [0, 1, 2, 3, 4, 5, 6, 7, 8, 9, 10, 11, 12, 13, 14, 15],
     [14, 10, 4, 8, 9, 15, 13, 6, 1, 12, 0, 2, 11, 7, 5, 3],
     [11, 8, 12, 0, 5, 2, 15, 13, 10, 14, 3, 6, 7, 1, 9, 4],
     [7, 9, 3, 1, 13, 12, 11, 14, 2, 6, 5, 10, 4, 0, 15, 8],
     [9, 0, 5, 7, 2, 4, 10, 15, 14, 1, 11, 12, 6, 8, 3, 13],
     [2, 12, 6, 10, 0, 11, 8, 3, 4, 13, 7, 5, 15, 14, 1, 9],
     [12, 5, 1, 15, 14, 13, 4, 10, 0, 7, 6, 3, 9, 2, 8, 11],
     [13, 11, 7, 14, 12, 1, 3, 9, 5, 0, 15, 4, 8, 6, 2, 10],
     [6, 15, 14, 9, 11, 3, 0, 8, 12, 2, 13, 7, 1, 4, 10, 5],
     [10, 2, 8, 4, 7, 6, 1, 5, 15, 11, 9, 14, 3, 12, 13, 0],
     [0, 1, 2, 3, 4, 5, 6, 7, 8, 9, 10, 11, 12, 13, 14, 15],
     [14, 10, 4, 8, 9, 15, 13, 6, 1, 12, 0, 2, 11, 7, 5, 3]]"

definition blake2b_iv :: "u64 list" where
  "blake2b_iv = [0x6a09e667f3bcc908, 0xbb67ae8584caa73b, 0x3c6ef372fe94f82b, 0xa54ff53a5f1d36f1, 0x510e527fade682d1, 0x9b05688c2b3e6c1f, 0x1f83d9abfb41bd6b, 0x5be0cd19137e2179]"

definition blake2s_iv :: "u32 list" where
  "blake2s_iv = [0x6a09e667, 0xbb67ae85, 0x3c6ef372, 0xa54ff53a, 0x510e527f, 0x9b05688c, 0x1f83d9ab, 0x5be0cd19]"

definition blake2s_mix_quarter_round :: "u32 list \<Rightarrow> nat \<Rightarrow> nat \<Rightarrow> nat \<Rightarrow> nat \<Rightarrow> u32 \<Rightarrow> u32 \<Rightarrow> u32 list" where
  "blake2s_mix_quarter_round words a b c d x y = (
     let words = words[a := words ! a + (words ! b + x)];
         words = words[d := word_rotr 16 (words ! d XOR words ! a)];
         words = words[c := words ! c + words ! d];
         words = words[b := word_rotr 12 (words ! b XOR words ! c)];
         words = words[a := words ! a + (words ! b + y)];
         words = words[d := word_rotr 8 (words ! d XOR words ! a)];
         words = words[c := words ! c + words ! d];
         words = words[b := word_rotr 7 (words ! b XOR words ! c)]
     in words)"

definition blake2s_mix_double_round :: "u32 list \<Rightarrow> u32 list \<Rightarrow> nat \<Rightarrow> u32 list" where
  "blake2s_mix_double_round words chunk i = (
     let s = blake2_sigma ! i;
         words = blake2s_mix_quarter_round words 0 4 8 12 (chunk ! (s ! 0)) (chunk ! (s ! 1));
         words = blake2s_mix_quarter_round words 1 5 9 13 (chunk ! (s ! 2)) (chunk ! (s ! 3));
         words = blake2s_mix_quarter_round words 2 6 10 14 (chunk ! (s ! 4)) (chunk ! (s ! 5));
         words = blake2s_mix_quarter_round words 3 7 11 15 (chunk ! (s ! 6)) (chunk ! (s ! 7));
         words = blake2s_mix_quarter_round words 0 5 10 15 (chunk ! (s ! 8)) (chunk ! (s ! 9));
         words = blake2s_mix_quarter_round words 1 6 11 12 (chunk ! (s ! 10)) (chunk ! (s ! 11));
         words = blake2s_mix_quarter_round words 2 7 8 13 (chunk ! (s ! 12)) (chunk ! (s ! 13));
         words = blake2s_mix_quarter_round words 3 4 9 14 (chunk ! (s ! 14)) (chunk ! (s ! 15))
     in words)"

definition blake2s_compress :: "u32 list \<Rightarrow> u32 list \<Rightarrow> u32 \<Rightarrow> u32 \<Rightarrow> bool \<Rightarrow> u32 list" where
  "blake2s_compress st chunk byte_count_lo byte_count_hi final = (
     let words = take 8 st @ blake2s_iv;
         words = words[12 := words ! 12 XOR byte_count_lo];
         words = words[13 := words ! 13 XOR byte_count_hi];
         words = (if final then words[14 := NOT (words ! 14)] else words);
         words = fold (\<lambda>i words. blake2s_mix_double_round words chunk i) [0..<10] words;
         st = map2 (XOR) st (take 8 words);
         st = map2 (XOR) st (drop 8 words)
     in st)"

definition blake2b_mix_quarter_round :: "u64 list \<Rightarrow> nat \<Rightarrow> nat \<Rightarrow> nat \<Rightarrow> nat \<Rightarrow> u64 \<Rightarrow> u64 \<Rightarrow> u64 list" where
  "blake2b_mix_quarter_round words a b c d x y = (
     let words = words[a := words ! a + (words ! b + x)];
         words = words[d := word_rotr 32 (words ! d XOR words ! a)];
         words = words[c := words ! c + words ! d];
         words = words[b := word_rotr 24 (words ! b XOR words ! c)];
         words = words[a := words ! a + (words ! b + y)];
         words = words[d := word_rotr 16 (words ! d XOR words ! a)];
         words = words[c := words ! c + words ! d];
         words = words[b := word_rotr 63 (words ! b XOR words ! c)]
     in words)"

definition blake2b_mix_double_round :: "u64 list \<Rightarrow> u64 list \<Rightarrow> nat \<Rightarrow> u64 list" where
  "blake2b_mix_double_round words chunk i = (
     let s = blake2_sigma ! i;
         words = blake2b_mix_quarter_round words 0 4 8 12 (chunk ! (s ! 0)) (chunk ! (s ! 1));
         words = blake2b_mix_quarter_round words 1 5 9 13 (chunk ! (s ! 2)) (chunk ! (s ! 3));
         words = blake2b_mix_quarter_round words 2 6 10 14 (chunk ! (s ! 4)) (chunk ! (s ! 5));
         words = blake2b_mix_quarter_round words 3 7 11 15 (chunk ! (s ! 6)) (chunk ! (s ! 7));
         words = blake2b_mix_quarter_round words 0 5 10 15 (chunk ! (s ! 8)) (chunk ! (s ! 9));
         words = blake2b_mix_quarter_round words 1 6 11 12 (chunk ! (s ! 10)) (chunk ! (s ! 11));
         words = blake2b_mix_quarter_round words 2 7 8 13 (chunk ! (s ! 12)) (chunk ! (s ! 13));
         words = blake2b_mix_quarter_round words 3 4 9 14 (chunk ! (s ! 14)) (chunk ! (s ! 15))
     in words)"

definition blake2b_compress :: "u64 list \<Rightarrow> u64 list \<Rightarrow> u64 \<Rightarrow> u64 \<Rightarrow> bool \<Rightarrow> u64 list" where
  "blake2b_compress st chunk byte_count_lo byte_count_hi final = (
     let words = take 8 st @ blake2b_iv;
         words = words[12 := words ! 12 XOR byte_count_lo];
         words = words[13 := words ! 13 XOR byte_count_hi];
         words = (if final then words[14 := NOT (words ! 14)] else words);
         words = fold (\<lambda>i words. blake2b_mix_double_round words chunk i) [0..<12] words;
         st = map2 (XOR) st (take 8 words);
         st = map2 (XOR) st (drop 8 words)
     in st)"

section \<open>BLAKE2s\<close>

record blake2s_hasher =
  buffer :: "u8 list"
  hash_state :: "u32 list"
  byte_count_lo :: u32
  byte_count_hi :: u32
  buffer_len :: u8
  hash_len :: u8

text \<open>
  The two checked additions to the byte count: \<^verbatim>\<open>ckd_add\<close> on the low word, and on a carry
  the assertion that the high word does not overflow.
\<close>

definition count_bytes :: "u32 \<Rightarrow> u32 \<Rightarrow> u32 \<Rightarrow> (u32 \<times> u32) option" where
  "count_bytes lo hi n = (
     let (overflow, lo) = ckd_add lo n in
     if overflow then let (overflow, hi) = ckd_add hi 1 in do { assert_that (\<not> overflow); Some (lo, hi) }
     else Some (lo, hi))"

text \<open>The compression of a full buffer in \<^verbatim>\<open>blake2s_update\<close>.\<close>

definition flush_buffer :: "blake2s_hasher \<Rightarrow> blake2s_hasher option" where
  "flush_buffer hasher = do {
     let chunk = map little_to_native (words_of_bytes 16 (buffer hasher));
     (lo, hi) \<leftarrow> count_bytes (byte_count_lo hasher) (byte_count_hi hasher) 64;
     Some (hasher\<lparr>byte_count_lo := lo, byte_count_hi := hi,
       hash_state := blake2s_compress (hash_state hasher) chunk lo hi False, buffer_len := 0\<rparr>)
   }"

text \<open>A \<^verbatim>\<open>memcpy\<close> into the middle of a buffer.\<close>

definition splice :: "'a list \<Rightarrow> nat \<Rightarrow> 'a list \<Rightarrow> 'a list" where
  "splice xs i ys = take i xs @ ys @ drop (i + length ys) xs"

text \<open>The loop; with a buffer length above 64 the \<^verbatim>\<open>memcpy\<close> would leave the buffer.\<close>

function update_loop :: "blake2s_hasher \<Rightarrow> u8 list \<Rightarrow> blake2s_hasher option" where
  "update_loop hasher data = (if data = [] then Some hasher else if 64 < buffer_len hasher then None else do {
     hasher \<leftarrow> (if buffer_len hasher = 64 then flush_buffer hasher else Some hasher);
     let chunk_len = min (length data) (64 - unat (buffer_len hasher));
     update_loop (hasher\<lparr>buffer := splice (buffer hasher) (unat (buffer_len hasher)) (take chunk_len data),
       buffer_len := buffer_len hasher + of_nat chunk_len\<rparr>) (drop chunk_len data)
   })"
  by pat_completeness auto
termination
proof (relation "measure (\<lambda>(_, data). length data)", goal_cases)
  case (2 hasher data h n)
  have "unat (buffer_len h) < 64"
    using 2 by (auto simp: flush_buffer_def word_less_nat_alt word_unat_eq_iff bind_eq_Some_conv split: if_splits)
  then show ?case using 2 by simp
qed simp

declare update_loop.simps [simp del]

definition blake2s_update :: "blake2s_hasher \<Rightarrow> u8 list \<Rightarrow> blake2s_hasher option" where
  "blake2s_update hasher data = do { assert_that (buffer_len hasher \<le> 64); update_loop hasher data }"

definition blake2s_init :: "u8 list \<Rightarrow> usize \<Rightarrow> u8 list \<Rightarrow> blake2s_hasher option" where
  "blake2s_init buf out_len key = do {
     assert_that (1 \<le> out_len \<and> out_len \<le> 32);
     assert_that (length key \<le> 32);
     let hasher = \<lparr>buffer = buf,
       hash_state = blake2s_iv[0 := blake2s_iv ! 0 XOR
         (0x01010000 XOR push_bit 8 (of_nat (length key)) XOR ucast out_len)],
       byte_count_lo = 0, byte_count_hi = 0, buffer_len = 0, hash_len = ucast out_len\<rparr>;
     if key \<noteq> [] then do {
       hasher \<leftarrow> blake2s_update hasher (splice (replicate 64 0) 0 key);
       assert_that (byte_count_lo hasher = 0);
       assert_that (byte_count_hi hasher = 0);
       assert_that (buffer_len hasher = 64);
       Some hasher
     } else Some hasher
   }"

definition blake2s_finish :: "blake2s_hasher \<Rightarrow> u8 list option" where
  "blake2s_finish hasher = do {
     assert_that (buffer_len hasher \<le> 64);
     let st = take 8 (hash_state hasher);
     let chunk = map little_to_native
       (words_of_bytes 16 (splice (replicate 64 0) 0 (take (unat (buffer_len hasher)) (buffer hasher))));
     (lo, hi) \<leftarrow> count_bytes (byte_count_lo hasher) (byte_count_hi hasher) (ucast (buffer_len hasher));
     let st = blake2s_compress st chunk lo hi True;
     let st = map native_to_little st;
     Some (take (unat (hash_len hasher)) (bytes_of_words st))
   }"

text \<open>\<open>buf\<close> is the uninitialized buffer of the hasher on the stack.\<close>

definition blake2s_hash :: "u8 list \<Rightarrow> usize \<Rightarrow> u8 list \<Rightarrow> u8 list \<Rightarrow> u8 list option" where
  "blake2s_hash buf out_len key data = do {
     hasher \<leftarrow> blake2s_init buf out_len key;
     hasher \<leftarrow> blake2s_update hasher data;
     blake2s_finish hasher
   }"

section \<open>BLAKE2b\<close>

text \<open>The padded block \<^verbatim>\<open>chunk\<close> of 128 bytes, as native words.\<close>

definition blake2b_chunk :: "u8 list \<Rightarrow> u64 list" where
  "blake2b_chunk bs = map little_to_native (words_of_bytes 16 (splice (replicate 128 0) 0 bs))"

definition blake2b_count :: "u64 \<Rightarrow> u64 \<Rightarrow> u64 \<Rightarrow> u64 \<times> u64" where
  "blake2b_count lo hi n = (let (overflow, lo) = ckd_add lo n in (lo, if overflow then hi + 1 else hi))"

function blake2b_loop :: "u64 list \<Rightarrow> u64 \<Rightarrow> u64 \<Rightarrow> u8 list \<Rightarrow> u64 list" where
  "blake2b_loop st lo hi data = (if data = [] then st else
     let chunk_len = min (length data) 128;
         (lo, hi) = blake2b_count lo hi (of_nat chunk_len);
         st = blake2b_compress st (blake2b_chunk (take chunk_len data)) lo hi (length data = chunk_len)
     in blake2b_loop st lo hi (drop chunk_len data))"
  by pat_completeness auto
termination by (relation "measure (\<lambda>(_, _, _, data). length data)") (auto simp: min_def)

declare blake2b_loop.simps [simp del]

definition blake2b_hash :: "usize \<Rightarrow> u8 list \<Rightarrow> u8 list \<Rightarrow> u8 list option" where
  "blake2b_hash out_len key data = do {
     assert_that (1 \<le> out_len \<and> out_len \<le> 64);
     assert_that (length key \<le> 64);
     let st = blake2b_iv[0 := blake2b_iv ! 0 XOR
       (0x01010000 XOR ucast (push_bit 8 (of_nat (length key)) :: u32) XOR ucast (ucast out_len :: u32))];
     let (st, lo, hi) = (if key \<noteq> [] then
         let (lo, hi) = blake2b_count 0 0 128 in
         (blake2b_compress st (blake2b_chunk (take 128 key)) lo hi (data = []), lo, hi)
       else (st, 0, 0));
     let st = (if key = [] \<and> data = [] then blake2b_compress st (blake2b_chunk []) 0 0 True else st);
     let st = blake2b_loop st lo hi data;
     let st = map native_to_little st;
     Some (take (unat out_len) (bytes_of_words st))
   }"

lemma map_native [simp]: "map native_to_little ws = ws" "map little_to_native ws = ws"
  by (simp_all add: native_to_little_def little_to_native_def map_idI)

section \<open>The reference: a fold over the blocks\<close>

text \<open>
  RFC 7693 compresses the blocks of a message one after the other, the last one, which
  may be shorter and is padded with zeros, with the final flag; \<open>t\<close> is the byte count.
  \<open>cf\<close> stands for the compression of a padded block.
\<close>

function blake2_ref :: "nat \<Rightarrow> ('s \<Rightarrow> u8 list \<Rightarrow> nat \<Rightarrow> bool \<Rightarrow> 's) \<Rightarrow> 's \<Rightarrow> nat \<Rightarrow> u8 list \<Rightarrow> 's" where
  "blake2_ref bs cf st t msg = (if length msg \<le> bs \<or> bs = 0 then cf st msg (t + length msg) True
     else blake2_ref bs cf (cf st (take bs msg) (t + bs) False) (t + bs) (drop bs msg))"
  by pat_completeness auto
termination by (relation "measure (\<lambda>(_, _, _, _, msg). length msg)") auto

declare blake2_ref.simps [simp del]

definition pad :: "nat \<Rightarrow> u8 list \<Rightarrow> u8 list" where
  "pad n bs = bs @ replicate (n - length bs) 0"

lemma splice_zeros: "length bs \<le> n \<Longrightarrow> splice (replicate n 0) 0 bs = pad n bs"
  by (simp add: splice_def pad_def)

definition comp2s :: "u32 list \<Rightarrow> u8 list \<Rightarrow> nat \<Rightarrow> bool \<Rightarrow> u32 list" where
  "comp2s st bs t f = blake2s_compress st (words_of_bytes 16 (pad 64 bs)) (of_nat t) (of_nat (t div 2 ^ 32)) f"

definition comp2b :: "u64 list \<Rightarrow> u8 list \<Rightarrow> nat \<Rightarrow> bool \<Rightarrow> u64 list" where
  "comp2b st bs t f = blake2b_compress st (words_of_bytes 16 (pad 128 bs)) (of_nat t) (of_nat (t div 2 ^ 64)) f"

section \<open>The streaming interface, a byte at a time\<close>

definition put :: "blake2s_hasher \<Rightarrow> u8 \<Rightarrow> blake2s_hasher option" where
  "put h b = do {
     h \<leftarrow> (if buffer_len h = 64 then flush_buffer h else Some h);
     Some (h\<lparr>buffer := (buffer h)[unat (buffer_len h) := b], buffer_len := buffer_len h + 1\<rparr>)
   }"

primrec puts :: "blake2s_hasher \<Rightarrow> u8 list \<Rightarrow> blake2s_hasher option" where
  "puts h [] = Some h"
| "puts h (b # bs) = do { h \<leftarrow> put h b; puts h bs }"

lemma puts_append: "puts h (a @ b) = do { h \<leftarrow> puts h a; puts h b }"
proof (induction a arbitrary: h)
  case (Cons x a)
  then show ?case by (cases "put h x") simp_all
qed simp

definition hinv :: "blake2s_hasher \<Rightarrow> bool" where
  "hinv h \<longleftrightarrow> length (buffer h) = 64 \<and> unat (buffer_len h) \<le> 64"

lemma flush_hinv: "flush_buffer h = Some h' \<Longrightarrow> hinv h \<Longrightarrow> hinv h' \<and> buffer_len h' = 0 \<and> hash_len h' = hash_len h"
  by (auto simp: flush_buffer_def hinv_def bind_eq_Some_conv)

lemma puts_room:
  assumes "length (buffer h) = 64" "unat (buffer_len h) + length bs \<le> 64"
  shows "puts h bs = Some (h\<lparr>buffer := splice (buffer h) (unat (buffer_len h)) bs, buffer_len := buffer_len h + of_nat (length bs)\<rparr>)"
  using assms
proof (induction bs arbitrary: h)
  case Nil
  then show ?case by (simp add: splice_def)
next
  case (Cons b bs)
  let ?n = "unat (buffer_len h)"
  have n: "?n < 64" using Cons.prems(2) by simp
  then have ne: "buffer_len h \<noteq> 64" by auto
  have s: "unat (buffer_len h + 1) = Suc ?n"
    using n unat_plus_small [of "buffer_len h" 1] by simp
  let ?h = "h\<lparr>buffer := (buffer h)[?n := b], buffer_len := buffer_len h + 1\<rparr>"
  have "puts h (b # bs) = puts ?h bs" using ne by (simp add: put_def)
  also have "\<dots> = Some (?h\<lparr>buffer := splice (buffer ?h) (unat (buffer_len ?h)) bs,
      buffer_len := buffer_len ?h + of_nat (length bs)\<rparr>)"
    by (rule Cons.IH) (use Cons.prems s in simp_all)
  also have "splice (buffer ?h) (unat (buffer_len ?h)) bs = splice (buffer h) ?n (b # bs)"
    using n Cons.prems(1) by (simp add: s splice_def take_Suc_conv_app_nth)
  finally show ?case by (simp add: s algebra_simps)
qed

lemma update_loop_puts: "hinv h \<Longrightarrow> update_loop h data = puts h data"
proof (induction h data rule: update_loop.induct)
  case (1 h data)
  show ?case
  proof (cases "data = []")
    case True
    then show ?thesis by (simp add: update_loop.simps)
  next
    case False
    have le: "\<not> 64 < buffer_len h" using "1.prems" by (simp add: hinv_def word_less_nat_alt)
    define f where "f = (if buffer_len h = 64 then flush_buffer h else Some h)"
    have step: "puts h data = do { g \<leftarrow> f; puts g data }"
    proof (cases "buffer_len h = 64")
      case full: True
      show ?thesis
      proof (cases "flush_buffer h")
        case None
        then show ?thesis using False full by (cases data) (simp_all add: put_def f_def)
      next
        case (Some g)
        then have "buffer_len g = 0" using flush_hinv "1.prems" by blast
        then show ?thesis using False full Some by (cases data) (simp_all add: put_def f_def)
      qed
    qed (simp add: f_def)
    show ?thesis
    proof (cases f)
      case None
      then show ?thesis using False le step by (subst update_loop.simps) (simp add: f_def)
    next
      case (Some g)
      define n where "n = min (length data) (64 - unat (buffer_len g))"
      define g' where "g' = g\<lparr>buffer := splice (buffer g) (unat (buffer_len g)) (take n data), buffer_len := buffer_len g + of_nat n\<rparr>"
      have g: "hinv g" using Some "1.prems" flush_hinv by (auto simp: f_def split: if_splits)
      have n: "length (take n data) = n" "unat (buffer_len g) + n \<le> 64" using g by (auto simp: n_def hinv_def)
      have pg: "puts g (take n data) = Some g'"
        using puts_room [of g "take n data"] g n by (simp add: g'_def hinv_def)
      have g': "hinv g'"
      proof -
        have "unat (of_nat n :: u8) = n" using n(2) by (intro unat_of_nat_small) simp
        then have "unat (buffer_len g + of_nat n) = unat (buffer_len g) + n"
          using n(2) unat_plus_small [of "buffer_len g" "of_nat n"] by simp
        then show ?thesis using g n by (simp add: hinv_def g'_def splice_def)
      qed
      have "update_loop h data = update_loop g' (drop n data)"
        using False le Some by (subst update_loop.simps) (simp add: f_def [symmetric] Let_def n_def g'_def)
      also have "\<dots> = puts g' (drop n data)"
        using "1.IH" [OF False le Some [unfolded f_def] n_def] g' by (simp add: g'_def)
      also have "\<dots> = puts g (take n data @ drop n data)" unfolding puts_append pg by simp
      finally show ?thesis using step Some by simp
    qed
  qed
qed

lemma blake2s_update_puts: "hinv h \<Longrightarrow> blake2s_update h data = puts h data"
  by (simp add: blake2s_update_def update_loop_puts hinv_def word_le_nat_alt)

lemma puts_hinv: "puts h bs = Some h' \<Longrightarrow> hinv h \<Longrightarrow> hinv h' \<and> hash_len h' = hash_len h"
proof (induction bs arbitrary: h)
  case (Cons b bs)
  obtain g where g: "put h b = Some g" "puts g bs = Some h'" using Cons.prems(1) by (auto elim: bind_someE)
  obtain f where f: "(if buffer_len h = 64 then flush_buffer h else Some h) = Some f"
    "g = f\<lparr>buffer := (buffer f)[unat (buffer_len f) := b], buffer_len := buffer_len f + 1\<rparr>"
    using g(1) unfolding put_def by (auto elim!: bind_someE)
  have h: "hinv f \<and> hash_len f = hash_len h \<and> unat (buffer_len f) < 64"
  proof (cases "buffer_len h = 64")
    case True
    then show ?thesis using f(1) flush_hinv [of h f] Cons.prems(2) by auto
  next
    case False
    then show ?thesis using f(1) Cons.prems(2) by (auto simp: hinv_def word_unat_eq_iff)
  qed
  then have "unat (buffer_len f + 1) = unat (buffer_len f) + 1"
    using unat_plus_small [of "buffer_len f" 1] by simp
  then have "hinv g \<and> hash_len g = hash_len h" using h f(2) by (auto simp: hinv_def)
  then show ?case using Cons.IH [OF g(2)] by simp
qed simp

section \<open>The streaming interface computes the reference\<close>

definition counted :: "blake2s_hasher \<Rightarrow> nat" where
  "counted h = unat (byte_count_hi h) * 2 ^ 32 + unat (byte_count_lo h)"

lemma count_bytes_eq:
  assumes "unat hi * 2 ^ 32 + unat lo + n < 2 ^ 64" "n < 2 ^ 32"
  shows "count_bytes lo hi (of_nat n) =
    Some (of_nat (unat hi * 2 ^ 32 + unat lo + n), of_nat ((unat hi * 2 ^ 32 + unat lo + n) div 2 ^ 32))"
proof -
  have lo: "unat lo < 2 ^ 32" using unsigned_less [of lo, where 'a = nat] by simp
  have un: "unat (of_nat n :: u32) = n" using assms(2) by (intro unat_of_nat_small) simp
  have sum: "(of_nat (unat hi * 2 ^ 32 + unat lo + n) :: u32) = lo + of_nat n"
  proof -
    have "(of_nat (2 ^ 32) :: u32) = 0" by (simp add: word_unat_eq_iff unat_of_nat)
    then have "(of_nat (unat hi * 2 ^ 32) :: u32) = 0" by (metis mult_zero_right of_nat_mult)
    then show ?thesis by (simp del: of_nat_mult)
  qed
  have hi: "(of_nat (unat hi + 1) :: u32) = hi + 1" "(of_nat (unat hi) :: u32) = hi" by simp_all
  show ?thesis
  proof (cases "2 ^ 32 \<le> unat lo + n")
    case True
    have d: "(unat hi * 2 ^ 32 + unat lo + n) div 2 ^ 32 = unat hi + 1"
    proof -
      have "unat hi * 2 ^ 32 + unat lo + n = (unat hi + 1) * 2 ^ 32 + (unat lo + n - 2 ^ 32)" using True by simp
      moreover have "unat lo + n - 2 ^ 32 < 2 ^ 32" using lo assms(2) by simp
      ultimately show ?thesis by simp
    qed
    then have "unat hi + 1 < 2 ^ 32" using assms(1) by (simp add: div_less_iff_less_mult flip: d)
    then show ?thesis using True un d sum hi(1)
      by (simp add: count_bytes_def ckd_add_def Let_def)
  next
    case False
    have d: "(unat hi * 2 ^ 32 + unat lo + n) div 2 ^ 32 = unat hi" using False by simp
    show ?thesis using False un sum hi(2) unfolding d by (simp add: count_bytes_def ckd_add_def Let_def)
  qed
qed

definition pending :: "blake2s_hasher \<Rightarrow> u8 list" where
  "pending h = take (unat (buffer_len h)) (buffer h)"

text \<open>The hasher has absorbed \<open>msg\<close>: whatever follows, the reference can go on from its state.\<close>

definition absorbed :: "u32 list \<Rightarrow> u8 list \<Rightarrow> blake2s_hasher \<Rightarrow> bool" where
  "absorbed st msg h \<longleftrightarrow> hinv h \<and> counted h + length (pending h) = length msg \<and>
     (\<forall>more. blake2_ref 64 comp2s st 0 (msg @ more) = blake2_ref 64 comp2s (hash_state h) (counted h) (pending h @ more))"

lemma length_pending: "hinv h \<Longrightarrow> length (pending h) = unat (buffer_len h)"
  by (simp add: pending_def hinv_def)

lemma absorbed_put:
  assumes a: "absorbed st msg h" and l: "length msg < 2 ^ 64 - 1"
  obtains h' where "put h b = Some h'" "absorbed st (msg @ [b]) h'"
proof -
  have inv: "hinv h" and len: "counted h + length (pending h) = length msg"
    and ref: "\<And>more. blake2_ref 64 comp2s st 0 (msg @ more) = blake2_ref 64 comp2s (hash_state h) (counted h) (pending h @ more)"
    using a by (auto simp: absorbed_def)
  have lp: "length (pending h) = unat (buffer_len h)" by (rule length_pending [OF inv])
  show thesis
  proof (cases "buffer_len h = 64")
    case False
    then have n: "unat (buffer_len h) < 64" using inv by (simp add: hinv_def word_unat_eq_iff)
    then have s: "unat (buffer_len h + 1) = Suc (unat (buffer_len h))"
      using unat_plus_small [of "buffer_len h" 1] by simp
    define h' where "h' = h\<lparr>buffer := (buffer h)[unat (buffer_len h) := b], buffer_len := buffer_len h + 1\<rparr>"
    have p: "pending h' = pending h @ [b]"
      using n inv by (simp add: pending_def h'_def s hinv_def take_Suc_conv_app_nth)
    have "put h b = Some h'" using False by (simp add: put_def h'_def)
    moreover have "absorbed st (msg @ [b]) h'"
      using n s inv len ref [of "b # _"] p by (auto simp: absorbed_def h'_def hinv_def counted_def)
    ultimately show thesis by (rule that)
  next
    case True
    have full: "pending h = buffer h" "length (buffer h) = 64" using True inv by (simp_all add: pending_def hinv_def)
    have c: "counted h + 64 < 2 ^ 64" using len l full by simp
    let ?lo = "of_nat (counted h + 64) :: u32" and ?hi = "of_nat ((counted h + 64) div 2 ^ 32) :: u32"
    have cb: "count_bytes (byte_count_lo h) (byte_count_hi h) 64 = Some (?lo, ?hi)"
      using count_bytes_eq [of "byte_count_hi h" "byte_count_lo h" 64] c by (simp add: counted_def)
    define f where "f = h\<lparr>byte_count_lo := ?lo, byte_count_hi := ?hi,
       hash_state := comp2s (hash_state h) (buffer h) (counted h + 64) False, buffer_len := 0\<rparr>"
    have fl: "flush_buffer h = Some f"
      using cb full by (simp add: flush_buffer_def f_def comp2s_def pad_def)
    define h' where "h' = f\<lparr>buffer := (buffer f)[0 := b], buffer_len := 1\<rparr>"
    have put: "put h b = Some h'" using True fl by (simp add: put_def h'_def f_def)
    have p: "pending h' = [b]" using full by (cases "buffer h") (simp_all add: pending_def h'_def f_def)
    have "counted f = counted h + 64"
    proof -
      have "unat ?lo = (counted h + 64) mod 2 ^ 32" by (simp add: unat_of_nat take_bit_eq_mod del: of_nat_add)
      moreover have "unat ?hi = (counted h + 64) div 2 ^ 32"
        using c by (intro unat_of_nat_small) (simp add: div_less_iff_less_mult)
      ultimately show ?thesis by (simp add: counted_def f_def)
    qed
    then have ch: "counted h' = counted h + 64" by (simp add: h'_def counted_def)
    have hs: "hash_state h' = comp2s (hash_state h) (buffer h) (counted h + 64) False"
      by (simp add: h'_def f_def)
    have "blake2_ref 64 comp2s (hash_state h) (counted h) (pending h @ b # more) =
        blake2_ref 64 comp2s (hash_state h') (counted h') ([b] @ more)" for more
      using full by (subst blake2_ref.simps) (simp add: ch hs)
    moreover have "hinv h'" using full by (simp add: hinv_def h'_def f_def)
    ultimately have "absorbed st (msg @ [b]) h'"
      using ref [of "b # _"] len full p ch by (simp add: absorbed_def)
    with put show thesis by (rule that)
  qed
qed

lemma absorbed_puts:
  assumes "absorbed st msg h" "length msg + length data < 2 ^ 64"
  obtains h' where "puts h data = Some h'" "absorbed st (msg @ data) h'"
  using assms
proof (induction data arbitrary: h msg thesis)
  case (Cons b data)
  obtain g where g: "put h b = Some g" "absorbed st (msg @ [b]) g"
    using absorbed_put [OF Cons.prems(2)] Cons.prems(3) by auto
  show ?case using Cons.IH [OF _ g(2)] Cons.prems(1,3) g(1) by auto
qed simp

lemma hasher_start:
  assumes "length buf = 64" "hash_state h = st" "byte_count_lo h = 0" "byte_count_hi h = 0" "buffer_len h = 0" "buffer h = buf"
  shows "absorbed st [] h"
  using assms by (simp add: absorbed_def hinv_def counted_def pending_def)

lemma finish_absorbed:
  assumes a: "absorbed st msg h" and l: "length msg < 2 ^ 64" "length (hash_state h) = 8"
  shows "blake2s_finish h = Some (take (unat (hash_len h)) (bytes_of_words (blake2_ref 64 comp2s st 0 msg)))"
proof -
  have inv: "hinv h" and len: "counted h + length (pending h) = length msg"
    and ref: "blake2_ref 64 comp2s st 0 msg = blake2_ref 64 comp2s (hash_state h) (counted h) (pending h)"
    using a by (auto simp: absorbed_def) (metis append_Nil2)
  have lp: "length (pending h) = unat (buffer_len h)" "unat (buffer_len h) \<le> 64"
    using length_pending [OF inv] inv by (simp_all add: hinv_def)
  have "(ucast (buffer_len h) :: u32) = of_nat (length (pending h))" using lp by simp
  then have cb: "count_bytes (byte_count_lo h) (byte_count_hi h) (ucast (buffer_len h)) =
      Some (of_nat (length msg), of_nat (length msg div 2 ^ 32))"
    using count_bytes_eq [of "byte_count_hi h" "byte_count_lo h" "length (pending h)"] len l lp
    by (simp add: counted_def del: of_nat_add)
  have "blake2_ref 64 comp2s st 0 msg =
      blake2s_compress (hash_state h) (words_of_bytes 16 (pad 64 (pending h))) (of_nat (length msg)) (of_nat (length msg div 2 ^ 32)) True"
    unfolding ref by (subst blake2_ref.simps) (use lp len in \<open>simp add: comp2s_def del: of_nat_add\<close>)
  then show ?thesis
    using cb inv lp l(2) by (simp add: blake2s_finish_def hinv_def word_le_nat_alt splice_zeros pending_def [symmetric])
qed

lemma length_quarter2s: "length (blake2s_mix_quarter_round ws a b c d x y) = length ws"
  by (simp add: blake2s_mix_quarter_round_def Let_def)

lemma length_mix2s [simp]: "length (blake2s_mix_double_round ws c i) = length ws"
  by (simp add: blake2s_mix_double_round_def length_quarter2s Let_def)

lemma length_compress2s: "length st = 8 \<Longrightarrow> length (blake2s_compress st c lo hi f) = 8"
proof -
  assume st: "length st = 8"
  have "length (fold (\<lambda>i ws. blake2s_mix_double_round ws c i) is ws) = length ws" for "is" ws
    by (induction "is" arbitrary: ws) simp_all
  then show ?thesis using st by (simp add: blake2s_compress_def blake2s_iv_def Let_def)
qed

lemma puts_state_length: "puts h bs = Some h' \<Longrightarrow> length (hash_state h) = 8 \<Longrightarrow> length (hash_state h') = 8"
proof (induction bs arbitrary: h)
  case (Cons b bs)
  obtain g where g: "put h b = Some g" "puts g bs = Some h'" using Cons.prems(1) by (auto elim: bind_someE)
  then have "length (hash_state g) = 8"
    using Cons.prems(2) unfolding put_def flush_buffer_def Let_def
    by (auto elim!: bind_someE simp: length_compress2s split: if_splits prod.splits)
  then show ?case using Cons.IH [OF g(2)] by simp
qed simp

definition blake2s_start :: "usize \<Rightarrow> u8 list \<Rightarrow> u32 list" where
  "blake2s_start out_len key = blake2s_iv[0 := blake2s_iv ! 0 XOR
     (0x01010000 XOR push_bit 8 (of_nat (length key)) XOR ucast out_len)]"

definition key_block :: "nat \<Rightarrow> u8 list \<Rightarrow> u8 list" where
  "key_block n key = (if key = [] then [] else pad n key)"

lemma blake2s_init_spec:
  assumes "1 \<le> out_len" "out_len \<le> 32" "length key \<le> 32" "length buf = 64"
  obtains h where "blake2s_init buf out_len key = Some h" "absorbed (blake2s_start out_len key) (key_block 64 key) h"
    "length (hash_state h) = 8" "hash_len h = ucast out_len" "hinv h"
proof -
  let ?st = "blake2s_start out_len key"
  define h0 where "h0 = \<lparr>buffer = buf, hash_state = ?st, byte_count_lo = 0, byte_count_hi = 0, buffer_len = 0,
    hash_len = ucast out_len\<rparr>"
  have h0: "absorbed ?st [] h0" by (rule hasher_start) (use assms(4) in \<open>simp_all add: h0_def\<close>)
  have i0: "hinv h0" "length (hash_state h0) = 8" using assms(4) by (simp_all add: h0_def hinv_def blake2s_start_def blake2s_iv_def)
  show thesis
  proof (cases "key = []")
    case True
    have "blake2s_init buf out_len key = Some h0"
      using assms True by (simp add: blake2s_init_def h0_def blake2s_start_def)
    then show thesis using that [of h0] h0 i0 True by (simp add: key_block_def h0_def)
  next
    case False
    have l: "length (pad 64 key) = 64" using assms(3) by (simp add: pad_def)
    define h1 where "h1 = h0\<lparr>buffer := splice (buffer h0) (unat (buffer_len h0)) (pad 64 key), buffer_len := buffer_len h0 + of_nat (length (pad 64 key))\<rparr>"
    have p: "puts h0 (pad 64 key) = Some h1"
      unfolding h1_def by (rule puts_room) (use assms(4) l in \<open>simp_all add: h0_def\<close>)
    then have u: "blake2s_update h0 (pad 64 key) = Some h1" using blake2s_update_puts [OF i0(1)] by simp
    have "absorbed ?st ([] @ pad 64 key) h1"
      using absorbed_puts [OF h0, of "pad 64 key"] l p by auto
    moreover have "hinv h1" "hash_len h1 = hash_len h0" using puts_hinv [OF p i0(1)] by simp_all
    moreover have "length (hash_state h1) = 8" using puts_state_length [OF p i0(2)] .
    moreover have "blake2s_init buf out_len key = Some h1"
    proof -
      have "byte_count_lo h1 = 0" "byte_count_hi h1 = 0" "buffer_len h1 = 64"
        by (simp_all only: h1_def l) (simp_all add: h0_def)
      moreover have "blake2s_update \<lparr>buffer = buf, hash_state = blake2s_iv[0 := blake2s_iv ! 0 XOR
          (0x01010000 XOR push_bit 8 (of_nat (length key)) XOR ucast out_len)],
        byte_count_lo = 0, byte_count_hi = 0, buffer_len = 0, hash_len = ucast out_len\<rparr>
        (splice (replicate 64 0) 0 key) = Some h1"
        using u assms(3) by (simp add: h0_def blake2s_start_def splice_zeros)
      ultimately show ?thesis using assms(1-3) False unfolding blake2s_init_def Let_def by simp
    qed
    ultimately show thesis using that [of h1] False by (simp add: key_block_def h0_def)
  qed
qed

section \<open>BLAKE2b\<close>

lemma div_carry: "0 < m \<Longrightarrow> (t + n) div m = t div m + (t mod m + n) div (m :: nat)"
proof -
  assume m: "0 < m"
  have "t + n = (t mod m + n) + t div m * m" by simp
  then show ?thesis using m by (metis add.commute div_mult_self1 less_not_refl)
qed

lemma blake2b_count_eq:
  assumes "n < 2 ^ 64"
  shows "blake2b_count (of_nat t) (of_nat (t div 2 ^ 64)) (of_nat n) = (of_nat (t + n), of_nat ((t + n) div 2 ^ 64))"
proof -
  have un: "unat (of_nat n :: u64) = n" "unat (of_nat t :: u64) = t mod 2 ^ 64"
    using assms by (simp_all add: unat_of_nat take_bit_eq_mod)
  have m: "t mod 2 ^ 64 < 2 ^ 64" by simp
  have "(t + n) div 2 ^ 64 = t div 2 ^ 64 + (t mod 2 ^ 64 + n) div 2 ^ 64" by (rule div_carry) simp
  also have "(t mod 2 ^ 64 + n) div 2 ^ 64 = (if 2 ^ 64 \<le> t mod 2 ^ 64 + n then 1 else 0)"
    using m assms by (auto simp: div_eq_dividend_iff intro: div_nat_eqI)
  finally show ?thesis using un by (simp add: blake2b_count_def ckd_add_def Let_def)
qed

lemma blake2b_loop_ref:
  "data \<noteq> [] \<Longrightarrow> blake2b_loop st (of_nat t) (of_nat (t div 2 ^ 64)) data = blake2_ref 128 comp2b st t data"
proof (induction "length data" arbitrary: data st t rule: less_induct)
  case less
  let ?n = "min (length data) 128"
  let ?st = "comp2b st (take ?n data) (t + ?n) (length data = ?n)"
  have c: "blake2b_count (of_nat t) (of_nat (t div 2 ^ 64)) (of_nat ?n) = (of_nat (t + ?n), of_nat ((t + ?n) div 2 ^ 64))"
    by (rule blake2b_count_eq) simp
  have "blake2b_loop st (of_nat t) (of_nat (t div 2 ^ 64)) data =
      blake2b_loop ?st (of_nat (t + ?n)) (of_nat ((t + ?n) div 2 ^ 64)) (drop ?n data)"
    using less.prems c by (subst blake2b_loop.simps) (simp add: Let_def comp2b_def blake2b_chunk_def splice_zeros del: of_nat_add)
  also have "\<dots> = blake2_ref 128 comp2b st t data"
  proof (cases "length data \<le> 128")
    case True
    then show ?thesis by (subst blake2_ref.simps) (simp add: blake2b_loop.simps)
  next
    case False
    then have "blake2b_loop ?st (of_nat (t + 128)) (of_nat ((t + 128) div 2 ^ 64)) (drop 128 data) =
        blake2_ref 128 comp2b ?st (t + 128) (drop 128 data)"
      using less.prems by (intro less.hyps) auto
    then show ?thesis using False by (subst blake2_ref.simps) (simp add: min_def)
  qed
  finally show ?case .
qed

definition blake2b_start :: "usize \<Rightarrow> u8 list \<Rightarrow> u64 list" where
  "blake2b_start out_len key = blake2b_iv[0 := blake2b_iv ! 0 XOR
     (0x01010000 XOR ucast (push_bit 8 (of_nat (length key)) :: u32) XOR ucast (ucast out_len :: u32))]"

text \<open>
  \<open>C17\<close>.  The one-shot BLAKE2b computes the reference on the padded key block followed by the
  data: its separate treatment of the key block and of an empty message sets the final flag
  exactly on the last block, and its two-word byte count is exact.
\<close>

theorem blake2b_hash_correct:
  assumes "1 \<le> out_len" "out_len \<le> 64" "length key \<le> 64"
  shows "blake2b_hash out_len key data = Some (take (unat out_len)
    (bytes_of_words (blake2_ref 128 comp2b (blake2b_start out_len key) 0 (key_block 128 key @ data))))"
proof -
  let ?st = "blake2b_start out_len key"
  let ?k = "comp2b ?st (take 128 key) 128 (data = [])"
  have c: "blake2b_count 0 0 128 = (of_nat 128, of_nat (128 div 2 ^ 64))"
    using blake2b_count_eq [of 128 0] by simp
  have chunk: "blake2b_chunk bs = words_of_bytes 16 (pad 128 bs)" if "length bs \<le> 128" for bs
    using that by (simp add: blake2b_chunk_def splice_zeros)
  have pk: "length (pad 128 key) = 128" "pad 128 (pad 128 key) = pad 128 key" "take 128 key = key"
    using assms(3) by (simp_all add: pad_def)
  have kb: "comp2b ?st (pad 128 key) t f = comp2b ?st key t f" for t f by (simp add: comp2b_def pk)
  consider "key = []" "data = []" | "key = []" "data \<noteq> []" | "key \<noteq> []" "data = []" | "key \<noteq> []" "data \<noteq> []" by blast
  then show ?thesis
  proof cases
    case 1
    then show ?thesis using assms
      by (subst blake2_ref.simps)
        (simp add: blake2b_hash_def key_block_def blake2b_loop.simps blake2b_start_def comp2b_def chunk Let_def)
  next
    case 2
    then show ?thesis using assms blake2b_loop_ref [of data ?st 0]
      by (simp add: blake2b_hash_def key_block_def blake2b_start_def Let_def)
  next
    case 3
    then show ?thesis using assms
      by (subst blake2_ref.simps)
        (simp add: blake2b_hash_def key_block_def blake2b_loop.simps blake2b_start_def comp2b_def chunk Let_def c pk)
  next
    case 4
    have "blake2_ref 128 comp2b ?st 0 (pad 128 key @ data) = blake2_ref 128 comp2b (comp2b ?st key 128 False) 128 data"
      using 4 pk kb by (subst blake2_ref.simps) simp
    then show ?thesis using 4 assms blake2b_loop_ref [of data "comp2b ?st key 128 False" 128]
      by (simp add: blake2b_hash_def key_block_def blake2b_start_def Let_def c pk chunk comp2b_def)
  qed
qed

theorem blake2b_hash_correct_witness:
  "blake2b_hash 64 [1, 2] [97, 98, 99] = Some (take (unat (64 :: u64))
    (bytes_of_words (blake2_ref 128 comp2b (blake2b_start 64 [1, 2]) 0 (key_block 128 [1, 2] @ [97, 98, 99]))))"
  by (rule blake2b_hash_correct) simp_all

text \<open>
  \<open>C18\<close>.  Hashing with the streaming BLAKE2s functions computes the reference on the padded key
  block followed by the data, for every split into blocks the buffer makes; no assertion fails.
\<close>

theorem blake2s_hash_correct:
  assumes "1 \<le> out_len" "out_len \<le> 32" "length key \<le> 32" "length buf = 64" "length data + 64 < 2 ^ 64"
  shows "blake2s_hash buf out_len key data = Some (take (unat out_len)
    (bytes_of_words (blake2_ref 64 comp2s (blake2s_start out_len key) 0 (key_block 64 key @ data))))"
proof -
  let ?st = "blake2s_start out_len key"
  obtain h where h: "blake2s_init buf out_len key = Some h" "absorbed ?st (key_block 64 key) h"
    "length (hash_state h) = 8" "hash_len h = ucast out_len" "hinv h"
    using blake2s_init_spec [OF assms(1-4)] .
  have lk: "length (key_block 64 key @ data) < 2 ^ 64" using assms(3,5) by (simp add: key_block_def pad_def)
  then obtain g where g: "puts h data = Some g" "absorbed ?st (key_block 64 key @ data) g"
    using absorbed_puts [OF h(2), of data] by auto
  have hl: "hash_len g = ucast out_len" "length (hash_state g) = 8"
    using puts_hinv [OF g(1) h(5)] h(4) puts_state_length [OF g(1) h(3)] by simp_all
  have "unat (ucast out_len :: u8) = unat out_len"
    using assms(2) by (simp add: unsigned_ucast_eq word_le_nat_alt take_bit_nat_eq_self)
  then show ?thesis
    using h(1) g(1) blake2s_update_puts [OF h(5)] finish_absorbed [OF g(2) lk hl(2)] hl(1)
    by (simp add: blake2s_hash_def)
qed

theorem blake2s_hash_correct_witness:
  "blake2s_hash (replicate 64 0xee) 32 [] [97, 98, 99] = Some (take (unat (32 :: u64))
    (bytes_of_words (blake2_ref 64 comp2s (blake2s_start 32 []) 0 (key_block 64 [] @ [97, 98, 99]))))"
  by (rule blake2s_hash_correct) simp_all

text \<open>
  Updating a hasher with two pieces one after the other is updating it with their
  concatenation, errors included.
\<close>

theorem blake2s_update_append:
  assumes "length (buffer h) = 64" "buffer_len h \<le> 64"
  shows "blake2s_update h (a @ b) = do { h \<leftarrow> blake2s_update h a; blake2s_update h b }"
proof -
  have h: "hinv h" using assms by (simp add: hinv_def word_le_nat_alt)
  then show ?thesis
    using puts_hinv [of h a] by (cases "puts h a") (auto simp: blake2s_update_puts puts_append)
qed

theorem blake2s_update_append_witness:
  "\<exists>h. blake2s_init (replicate 64 0) 32 [5] = Some h \<and>
    blake2s_update h ([1, 2] @ [3]) = do { h \<leftarrow> blake2s_update h [1, 2]; blake2s_update h [3] }"
proof -
  obtain h where h: "blake2s_init (replicate 64 0) 32 [5] = Some h" "hinv h"
    using blake2s_init_spec [of 32 "[5]" "replicate 64 0"] by auto
  then show ?thesis using blake2s_update_append [of h "[1, 2]" "[3]"] by (simp add: hinv_def word_le_nat_alt)
qed

end
