(* ===== verification/Rng.thy ===== *)
theory Rng
  imports Blake2
begin

text \<open>
  The random number generator, \<^verbatim>\<open>random.c\<close>: the entropy pool, a BLAKE2s hasher, and the
  hart's generator on the ChaCha20 block function.  One hart is modelled; the state holds the
  two globals and the hart's generator.  \<^verbatim>\<open>wait_for_entropy\<close> is declared and never defined
  in the source.
\<close>

unbundle bit_operations_syntax

section \<open>State\<close>

text \<open>The estimate of the hart's generator is a bit-field of 63 bits.\<close>

record random_rng =
  rng_state :: "u8 list"
  inited :: bool
  entropy_estimate :: "63 word"

record random_state =
  entropy_pool :: blake2s_hasher
  global_entropy_estimate :: u64
  hart_rng :: random_rng

definition zero_nonce :: "u32 list" where
  "zero_nonce = [0, 0, 0]"

section \<open>The entropy pool\<close>

definition entropy_pool_init :: "random_state \<Rightarrow> random_state option" where
  "entropy_pool_init s = do {
     pool \<leftarrow> blake2s_init (buffer (entropy_pool s)) 32 [];
     Some (s\<lparr>entropy_pool := pool\<rparr>)
   }"

definition entropy_pool_credit :: "random_state \<Rightarrow> usize \<Rightarrow> random_state" where
  "entropy_pool_credit s bits = s\<lparr>global_entropy_estimate := global_entropy_estimate s + bits\<rparr>"

definition entropy_pool_mix :: "random_state \<Rightarrow> u8 list \<Rightarrow> random_state option" where
  "entropy_pool_mix s buf = do {
     pool \<leftarrow> blake2s_update (entropy_pool s) buf;
     Some (s\<lparr>entropy_pool := pool\<rparr>)
   }"

text \<open>\<^verbatim>\<open>arch_entropy_pool_seed_early\<close>, with the two counters it reads as arguments.\<close>

definition arch_entropy_pool_seed_early :: "u64 \<Rightarrow> u64 \<Rightarrow> random_state \<Rightarrow> random_state option" where
  "arch_entropy_pool_seed_early cycle time s = entropy_pool_mix s (bytes_of_words [cycle, time])"

section \<open>The generators\<close>

definition rng_getrandom :: "random_rng \<Rightarrow> nat \<Rightarrow> (u8 list \<times> random_rng) option" where
  "rng_getrandom rng len = do {
     assert_that (inited rng);
     let st = chacha20_block (chacha20_state_init (rng_state rng) 0 zero_nonce);
     let rng = rng\<lparr>rng_state := take 32 (bytes_of_words st)\<rparr>;
     Some (chacha20_keystream (drop 32 (bytes_of_words st)) 0 zero_nonce len, rng)
   }"

definition should_reinit :: "random_state \<Rightarrow> bool" where
  "should_reinit s \<longleftrightarrow> (let rng = hart_rng s in
     \<not> inited rng \<or>
     entropy_estimate rng = 0 \<and> global_entropy_estimate s \<noteq> 0 \<or>
     256 < global_entropy_estimate s - ucast (entropy_estimate rng))"

definition ensure_hart_local_rng :: "random_state \<Rightarrow> random_state option" where
  "ensure_hart_local_rng s = (if should_reinit s then do {
       seed \<leftarrow> blake2s_finish (entropy_pool s);
       let state' = splice (rng_state (hart_rng s)) 0 seed;
       pool \<leftarrow> blake2s_init (buffer (entropy_pool s)) 32 state';
       Some (s\<lparr>entropy_pool := pool, hart_rng := (hart_rng s)\<lparr>rng_state := state', inited := True,
         entropy_estimate := ucast (global_entropy_estimate s AND 0x7fffffffffffffff)\<rparr>\<rparr>)
     } else Some s)"

definition getrandom :: "random_state \<Rightarrow> nat \<Rightarrow> (u8 list \<times> random_state) option" where
  "getrandom s len = do {
     s \<leftarrow> ensure_hart_local_rng s;
     (out, rng) \<leftarrow> rng_getrandom (hart_rng s) len;
     Some (out, s\<lparr>hart_rng := rng\<rparr>)
   }"

definition random :: "random_state \<Rightarrow> (usize \<times> random_state) option" where
  "random s = do { (buf, s) \<leftarrow> getrandom s 8; Some (word_of_le buf, s) }"

definition random_u32 :: "random_state \<Rightarrow> (u32 \<times> random_state) option" where
  "random_u32 s = do { (buf, s) \<leftarrow> getrandom s 4; Some (word_of_le buf, s) }"

definition random_u64 :: "random_state \<Rightarrow> (u64 \<times> random_state) option" where
  "random_u64 s = do { (buf, s) \<leftarrow> getrandom s 8; Some (word_of_le buf, s) }"

section \<open>The invariant\<close>

text \<open>
  The pool is a hasher for 32 bytes that has absorbed some message; its byte count is far
  from overflowing.
\<close>

definition pool_ok :: "blake2s_hasher \<Rightarrow> bool" where
  "pool_ok h \<longleftrightarrow> hash_len h = 32 \<and> length (hash_state h) = 8 \<and>
     (\<exists>st msg. length st = 8 \<and> absorbed st msg h \<and> length msg < 2 ^ 63)"

definition rng_inv :: "random_state \<Rightarrow> bool" where
  "rng_inv s \<longleftrightarrow> pool_ok (entropy_pool s) \<and> length (rng_state (hart_rng s)) = 32"

lemma pool_init:
  assumes "length buf = 64" "length key \<le> 32"
  obtains h where "blake2s_init buf 32 key = Some h" "pool_ok h"
proof -
  obtain h where h: "blake2s_init buf 32 key = Some h" "absorbed (blake2s_start 32 key) (key_block 64 key) h"
    "length (hash_state h) = 8" "hash_len h = ucast (32 :: u64)"
    using blake2s_init_spec [of 32 key buf] assms by auto
  have "length (key_block 64 key) < 2 ^ 63" using assms(2) by (simp add: key_block_def pad_def)
  moreover have "length (blake2s_start 32 key) = 8" by (simp add: blake2s_start_def blake2s_iv_def)
  ultimately have "pool_ok h" using h(2-4) unfolding pool_ok_def by auto
  with h(1) show thesis by (rule that)
qed

lemma pool_hinv: "pool_ok h \<Longrightarrow> hinv h"
  by (auto simp: pool_ok_def absorbed_def)

lemma length_ref2s: "length st = 8 \<Longrightarrow> length (blake2_ref 64 comp2s st t msg) = 8"
proof (induction "length msg" arbitrary: st t msg rule: less_induct)
  case less
  have c: "length (comp2s st bs n f) = 8" for bs n f
    unfolding comp2s_def by (rule length_compress2s [OF less.prems])
  show ?case
  proof (cases "length msg \<le> 64")
    case False
    then show ?thesis using less.hyps [of "drop 64 msg"] c by (subst blake2_ref.simps) simp
  qed (subst blake2_ref.simps, simp add: c)
qed

lemma pool_finish:
  assumes "pool_ok h"
  obtains seed where "blake2s_finish h = Some seed" "length seed = 32"
proof -
  obtain st msg where m: "length st = 8" "absorbed st msg h" "length msg < 2 ^ 63" using assms by (auto simp: pool_ok_def)
  then have l: "length msg < 2 ^ 64" by simp
  have "blake2s_finish h = Some (take 32 (bytes_of_words (blake2_ref 64 comp2s st 0 msg)))"
    using finish_absorbed [OF m(2) l] assms by (simp add: pool_ok_def)
  moreover have "length (take 32 (bytes_of_words (blake2_ref 64 comp2s st 0 msg))) = 32"
    using length_ref2s [OF m(1)] by simp
  ultimately show thesis by (rule that)
qed

lemma reinit:
  assumes "rng_inv s" "should_reinit s"
  obtains s' where "ensure_hart_local_rng s = Some s'" "rng_inv s'" "inited (hart_rng s')"
    "global_entropy_estimate s' = global_entropy_estimate s"
    "entropy_estimate (hart_rng s') = ucast (global_entropy_estimate s AND 0x7fffffffffffffff)"
proof -
  have p: "pool_ok (entropy_pool s)" "length (rng_state (hart_rng s)) = 32" using assms(1) by (simp_all add: rng_inv_def)
  obtain seed where seed: "blake2s_finish (entropy_pool s) = Some seed" "length seed = 32" using pool_finish [OF p(1)] .
  have sp: "splice (rng_state (hart_rng s)) 0 seed = seed" using seed p by (simp add: splice_def)
  have "length (buffer (entropy_pool s)) = 64" using pool_hinv [OF p(1)] by (simp add: hinv_def)
  then obtain h where h: "blake2s_init (buffer (entropy_pool s)) 32 seed = Some h" "pool_ok h"
    using pool_init [of "buffer (entropy_pool s)" seed] seed(2) by auto
  show thesis
    by (rule that [of "s\<lparr>entropy_pool := h, hart_rng := (hart_rng s)\<lparr>rng_state := seed, inited := True,
         entropy_estimate := ucast (global_entropy_estimate s AND 0x7fffffffffffffff)\<rparr>\<rparr>"])
      (use assms(2) seed h sp in \<open>simp_all add: ensure_hart_local_rng_def rng_inv_def\<close>)
qed

lemma length_chacha_init: "length (bytes_of_words (chacha20_block (chacha20_state_init key n zero_nonce))) = 64"
  by (simp add: zero_nonce_def length_init)

lemma fresh_estimate:
  assumes "(g :: u64) < 2 ^ 63"
  shows "(ucast (ucast (g AND 0x7fffffffffffffff) :: 63 word) :: u64) = g"
proof -
  have m: "(0x7fffffffffffffff :: u64) = mask 63" by (simp add: mask_eq_exp_minus_1)
  have "unat g < 2 ^ 63" using assms by (simp add: word_less_nat_alt)
  then show ?thesis
    unfolding m take_bit_eq_mask [symmetric]
    by (simp add: word_unat_eq_iff unsigned_ucast_eq unsigned_take_bit_eq take_bit_nat_eq_self)
qed

lemma getrandom_spec:
  assumes "rng_inv s"
  shows "\<exists>out s'. getrandom s len = Some (out, s') \<and> length out = len \<and> rng_inv s' \<and> inited (hart_rng s') \<and>
    (\<not> should_reinit s \<longrightarrow> entropy_pool s' = entropy_pool s) \<and>
    (global_entropy_estimate s < 2 ^ 63 \<longrightarrow> \<not> should_reinit s')"
proof -
  have gen: "rng_getrandom rng len = Some (chacha20_keystream (drop 32 (bytes_of_words st)) 0 zero_nonce len,
      rng\<lparr>rng_state := take 32 (bytes_of_words st)\<rparr>) \<and> length (take 32 (bytes_of_words st)) = 32"
    if "inited rng" "st = chacha20_block (chacha20_state_init (rng_state rng) 0 zero_nonce)" for rng st
    using that length_chacha_init by (simp add: rng_getrandom_def Let_def)
  have kl: "length (chacha20_keystream k n zero_nonce len) = len" for k n
    by (rule length_keystream) (simp add: zero_nonce_def)
  show ?thesis
  proof (cases "should_reinit s")
    case False
    then have i: "inited (hart_rng s)" by (simp add: should_reinit_def Let_def)
    then show ?thesis using gen [OF i refl] kl assms False
      by (auto simp: getrandom_def ensure_hart_local_rng_def rng_inv_def should_reinit_def Let_def)
  next
    case True
    obtain s' where s': "ensure_hart_local_rng s = Some s'" "rng_inv s'" "inited (hart_rng s')"
      "global_entropy_estimate s' = global_entropy_estimate s"
      "entropy_estimate (hart_rng s') = ucast (global_entropy_estimate s AND 0x7fffffffffffffff)"
      using reinit [OF assms True] .
    have "\<not> should_reinit s''" if "global_entropy_estimate s < 2 ^ 63" "inited (hart_rng s'')"
      "global_entropy_estimate s'' = global_entropy_estimate s"
      "entropy_estimate (hart_rng s'') = entropy_estimate (hart_rng s')" for s''
      using that fresh_estimate [OF that(1)] s'(5) by (auto simp: should_reinit_def Let_def)
    then show ?thesis using gen [OF s'(3) refl] kl s' True
      by (auto simp: getrandom_def rng_inv_def)
  qed
qed

definition example_random :: random_state where
  "example_random = \<lparr>entropy_pool = the (blake2s_init (replicate 64 0) 32 []), global_entropy_estimate = 0,
     hart_rng = \<lparr>rng_state = replicate 32 0, inited = False, entropy_estimate = 0\<rparr>\<rparr>"

lemma example_rng_inv: "rng_inv example_random"
proof -
  obtain h where "blake2s_init (replicate 64 0) 32 [] = Some h" "pool_ok h"
    using pool_init [of "replicate 64 0" "[]"] by auto
  then show ?thesis by (simp add: rng_inv_def example_random_def)
qed

lemma random_spec:
  assumes "rng_inv s"
  obtains r s' where "random s = Some (r, s')" "rng_inv s'"
  using getrandom_spec [OF assms, of 8] by (auto simp: random_def)

lemma random_u64_spec:
  assumes "rng_inv s"
  obtains r s' where "random_u64 s = Some (r, s')" "rng_inv s'"
  using getrandom_spec [OF assms, of 8] by (auto simp: random_u64_def)

text \<open>
  \<open>C20\<close>.  From every state with a working entropy pool, \<^verbatim>\<open>getrandom\<close> returns as many bytes as
  asked for; the hart's generator is seeded afterwards, the state stays a working one, and a
  call that does not reseed leaves the pool alone.  Right after a call no reseeding is due, as
  long as the entropy estimate stays below \<open>2 ^ 63\<close>.
\<close>

theorem getrandom_correct:
  assumes "rng_inv s"
  shows "\<exists>out s'. getrandom s len = Some (out, s') \<and> length out = len \<and> rng_inv s' \<and> inited (hart_rng s') \<and>
    (\<not> should_reinit s \<longrightarrow> entropy_pool s' = entropy_pool s) \<and>
    (global_entropy_estimate s < 2 ^ 63 \<longrightarrow> \<not> should_reinit s')"
  by (rule getrandom_spec [OF assms])

theorem getrandom_correct_witness:
  "\<exists>out s'. getrandom example_random 100 = Some (out, s') \<and> length out = 100 \<and> rng_inv s' \<and> inited (hart_rng s') \<and>
    \<not> should_reinit s'"
proof -
  have "global_entropy_estimate example_random < 2 ^ 63" by (simp add: example_random_def)
  then show ?thesis using getrandom_correct [OF example_rng_inv, of 100] by auto
qed

lemma mixed_absorbed:
  assumes "absorbed st msg (entropy_pool s)" "length msg + sum_list (map length bufs) < 2 ^ 64"
    "length (hash_state (entropy_pool s)) = 8"
  shows "\<exists>s'. each_call entropy_pool_mix s bufs = Some s' \<and> absorbed st (msg @ concat bufs) (entropy_pool s') \<and>
    hart_rng s' = hart_rng s \<and> length (hash_state (entropy_pool s')) = 8 \<and>
    hash_len (entropy_pool s') = hash_len (entropy_pool s)"
  using assms
proof (induction bufs arbitrary: s msg)
  case (Cons b bufs)
  have inv: "hinv (entropy_pool s)" using Cons.prems(1) by (simp add: absorbed_def)
  obtain h where h: "puts (entropy_pool s) b = Some h" "absorbed st (msg @ b) h"
    using absorbed_puts [OF Cons.prems(1), of b] Cons.prems(2) by auto
  let ?s = "s\<lparr>entropy_pool := h\<rparr>"
  have m: "entropy_pool_mix s b = Some ?s" using h(1) by (simp add: entropy_pool_mix_def blake2s_update_puts [OF inv])
  have k: "length (hash_state h) = 8" "hash_len h = hash_len (entropy_pool s)"
    using puts_state_length [OF h(1) Cons.prems(3)] puts_hinv [OF h(1) inv] by simp_all
  show ?case using Cons.IH [of "msg @ b" ?s] h(2) Cons.prems(2) k m by simp
qed simp

text \<open>
  The pool, once initialized, accepts any sequence of fewer than \<open>2 ^ 63\<close> bytes in
  any pieces, and is then a working pool, as \<^verbatim>\<open>getrandom\<close> needs it.
\<close>

theorem entropy_pool_accepts:
  assumes "length (buffer (entropy_pool s)) = 64" "length (rng_state (hart_rng s)) = 32"
    and "sum_list (map length bufs) < 2 ^ 63"
  shows "\<exists>s'. (do { s \<leftarrow> entropy_pool_init s; each_call entropy_pool_mix s bufs }) = Some s' \<and> rng_inv s'"
proof -
  obtain h where h: "blake2s_init (buffer (entropy_pool s)) 32 [] = Some h" "absorbed (blake2s_start 32 []) (key_block 64 []) h"
    "length (hash_state h) = 8" "hash_len h = ucast (32 :: u64)"
    using blake2s_init_spec [of 32 "[]" "buffer (entropy_pool s)"] assms(1) by auto
  let ?s = "s\<lparr>entropy_pool := h\<rparr>"
  have "absorbed (blake2s_start 32 []) [] (entropy_pool ?s)" using h(2) by (simp add: key_block_def)
  then obtain s' where s': "each_call entropy_pool_mix ?s bufs = Some s'"
    "absorbed (blake2s_start 32 []) (concat bufs) (entropy_pool s')" "hart_rng s' = hart_rng s"
    "length (hash_state (entropy_pool s')) = 8" "hash_len (entropy_pool s') = 32"
    using mixed_absorbed [of "blake2s_start 32 []" "[]" ?s bufs] h(3,4) assms(3) by auto
  have "length (concat bufs) < 2 ^ 63" using assms(3) by (simp add: length_concat)
  moreover have "length (blake2s_start 32 []) = 8" by (simp add: blake2s_start_def blake2s_iv_def)
  ultimately have "pool_ok (entropy_pool s')" using s'(2,4,5) unfolding pool_ok_def by auto
  then show ?thesis using h(1) s'(1,3) assms(2) by (simp add: entropy_pool_init_def rng_inv_def)
qed

theorem entropy_pool_accepts_witness:
  "\<exists>s'. (do { s \<leftarrow> entropy_pool_init example_random; each_call entropy_pool_mix s [[1, 2, 3], [4]] }) = Some s' \<and> rng_inv s'"
proof -
  have "hinv (entropy_pool example_random)" using example_rng_inv pool_hinv by (simp add: rng_inv_def)
  then show ?thesis
    by (intro entropy_pool_accepts) (simp_all add: hinv_def example_random_def)
qed

end
