(* ===== verification/Swar.thy ===== *)
theory Swar
  imports Machine
begin

unbundle bit_operations_syntax

text \<open>
  The vectors of eight bytes in one 64-bit word (\<^verbatim>\<open>src/kernel/include/swar.h\<close>):
  \<open>u8x8\<close> is the word, its entries are the bytes of the word in memory order,
  \<open>le_bytes\<close>.  The code searches all eight entries with one subtraction whose borrows
  run across entries; the lemmas on \<open>byte_at\<close> show that a borrow can only start at a zero
  entry, so the lowest set bit of the mask is exact, and with it both searches.
\<close>

section \<open>Vectors of eight bytes\<close>

type_synonym u8x8 = u64

definition u8x8_broadcast :: "u8 \<Rightarrow> u8x8" where
  "u8x8_broadcast value = (
     let out = ucast value;
         out = out OR push_bit 8 out;
         out = out OR push_bit 16 out;
         out = out OR push_bit 32 out
     in out)"

text \<open>The mask both searches compute; its set bits are the high bits of entries.\<close>

definition hi_set_if_00 :: "u8x8 \<Rightarrow> u8x8" where
  "hi_set_if_00 vec = (
     let mask_81_to_00 = vec - u8x8_broadcast 0x01;
         mask_00_to_7f = NOT vec;
         mask_00 = mask_00_to_7f AND mask_81_to_00
     in mask_00 AND u8x8_broadcast 0x80)"

definition u8x8_contains_zero :: "u8x8 \<Rightarrow> bool" where
  "u8x8_contains_zero vec \<longleftrightarrow> hi_set_if_00 vec \<noteq> 0"

text \<open>\<^verbatim>\<open>stdc_first_trailing_one\<close>: one plus the index of the lowest set bit, or zero.\<close>

definition stdc_first_trailing_one :: "u64 \<Rightarrow> nat" where
  "stdc_first_trailing_one w = (case find (bit w) [0..<64] of None \<Rightarrow> 0 | Some n \<Rightarrow> n + 1)"

definition u8x8_find_first_zero :: "u8x8 \<Rightarrow> usize" where
  "u8x8_find_first_zero vec = drop_bit 3 (of_nat (stdc_first_trailing_one (hi_set_if_00 vec)))"

definition u8x8_contains_match :: "u8x8 \<Rightarrow> u8 \<Rightarrow> bool" where
  "u8x8_contains_match vec value \<longleftrightarrow> u8x8_contains_zero (vec XOR u8x8_broadcast value)"

definition u8x8_find_first_match :: "u8x8 \<Rightarrow> u8 \<Rightarrow> usize" where
  "u8x8_find_first_match vec value = u8x8_find_first_zero (vec XOR u8x8_broadcast value)"

section \<open>Bytes of integers\<close>

definition byte_at :: "int \<Rightarrow> nat \<Rightarrow> int" where
  "byte_at x i = x div 2 ^ (8 * i) mod 256"

lemma mod_byte: "x mod 2 ^ (8 * Suc j) = x mod 2 ^ (8 * j) + 2 ^ (8 * j) * byte_at x j"
proof -
  have "(2 :: int) ^ (8 * Suc j) = 2 ^ (8 * j) * 256" by (simp add: power_add)
  then show ?thesis using zmod_zmult2_eq [of 256 x "2 ^ (8 * j)"] by (simp add: byte_at_def)
qed

lemma mod_mono_bytes: "(\<And>i. i < j \<Longrightarrow> byte_at y i \<le> byte_at x i) \<Longrightarrow> y mod 2 ^ (8 * j) \<le> x mod 2 ^ (8 * j)"
proof (induction j)
  case (Suc j)
  then have "y mod 2 ^ (8 * j) \<le> x mod 2 ^ (8 * j)" "byte_at y j \<le> byte_at x j" by simp_all
  then show ?case unfolding mod_byte by (intro add_mono mult_left_mono) simp_all
qed simp

lemma byte_diff:
  assumes "\<And>i. i < j \<Longrightarrow> byte_at y i \<le> byte_at x i"
  shows "byte_at (x - y) j = (byte_at x j - byte_at y j) mod 256"
proof -
  let ?m = "(2 :: int) ^ (8 * j)"
  have le: "y mod ?m \<le> x mod ?m" by (rule mod_mono_bytes) (rule assms)
  have "x - y = (x mod ?m - y mod ?m) + ?m * (x div ?m - y div ?m)"
    by (simp add: algebra_simps minus_mod_eq_mult_div [symmetric])
  moreover have "0 \<le> x mod ?m - y mod ?m" "x mod ?m - y mod ?m < ?m"
    using le pos_mod_bound [of ?m x] pos_mod_sign [of ?m y] zero_less_power [of "2 :: int" "8 * j"] by linarith+
  ultimately have "(x - y) div ?m = x div ?m - y div ?m"
    by (simp add: div_add1_eq)
  then show ?thesis by (simp add: byte_at_def mod_diff_eq)
qed

lemma odd_div_128: "odd (w div 128) \<longleftrightarrow> 128 \<le> w mod 256" for w :: int
proof -
  have "w mod 256 = 128 * (w div 128 mod 2) + w mod 128" using zmod_zmult2_eq [of 2 w 128] by simp
  moreover have "0 \<le> w mod 128" "w mod 128 < 128" by simp_all
  ultimately show ?thesis by (cases "odd (w div 128)") (simp_all add: odd_iff_mod_2_eq_one)
qed

lemma bit_high: "bit (x :: int) (8 * j + 7) \<longleftrightarrow> 128 \<le> byte_at x j"
proof -
  have "x div 2 ^ (8 * j + 7) = x div 2 ^ (8 * j) div 128" by (simp add: power_add zdiv_zmult2_eq)
  then show ?thesis by (simp add: bit_iff_odd byte_at_def odd_div_128)
qed

section \<open>The mask\<close>

lemma broadcast_values: "u8x8_broadcast 0x01 = 0x0101010101010101" "u8x8_broadcast 0x80 = 0x8080808080808080"
  by code_simp+

lemma byte_ones: "i < 8 \<Longrightarrow> byte_at 0x0101010101010101 i = 1"
  by (auto simp: byte_at_def less_Suc_eq numeral_nat)

lemma bit_80: "n < 64 \<Longrightarrow> bit (0x8080808080808080 :: u64) n \<longleftrightarrow> n mod 8 = 7"
proof -
  have "list_all (\<lambda>n. bit (0x8080808080808080 :: u64) n = (n mod 8 = 7)) [0..<64]" by code_simp
  then show "n < 64 \<Longrightarrow> bit (0x8080808080808080 :: u64) n \<longleftrightarrow> n mod 8 = 7" by (simp add: list_all_iff)
qed

lemma byte_at_range: "0 \<le> byte_at x i" "byte_at x i < 256"
  by (simp_all add: byte_at_def)

lemma hi_bit:
  assumes j: "j < 8" and nz: "\<And>i. i < j \<Longrightarrow> byte_at (uint vec) i \<noteq> 0"
  shows "bit (hi_set_if_00 vec) (8 * j + 7) \<longleftrightarrow> byte_at (uint vec) j = 0"
proof -
  let ?n = "8 * j + 7"
  have n: "?n < 64" using j by simp
  have le: "byte_at 0x0101010101010101 i \<le> byte_at (uint vec) i" if "i < j" for i
    using nz [OF that] byte_ones [of i] that j byte_at_range(1) [of "uint vec" i] by simp
  have "bit (vec - 0x0101010101010101) ?n \<longleftrightarrow> bit (uint vec - 0x0101010101010101) ?n"
  proof -
    have "vec - 0x0101010101010101 = word_of_int (uint vec - 0x0101010101010101)" by simp
    then show ?thesis using n by (simp only: bit_word_of_int_iff) simp
  qed
  also have "\<dots> \<longleftrightarrow> 128 \<le> (byte_at (uint vec) j - 1) mod 256"
    unfolding bit_high using byte_diff [of j "0x0101010101010101" "uint vec"] le byte_ones [OF j] by simp
  finally have d: "bit (vec - 0x0101010101010101) ?n \<longleftrightarrow> 128 \<le> (byte_at (uint vec) j - 1) mod 256" .
  have v: "bit vec ?n \<longleftrightarrow> 128 \<le> byte_at (uint vec) j"
    using n bit_high [of "uint vec" j] by (simp add: bit_uint_iff)
  have "bit (hi_set_if_00 vec) ?n \<longleftrightarrow> \<not> bit vec ?n \<and> bit (vec - 0x0101010101010101) ?n"
    using n bit_80 [OF n] unfolding hi_set_if_00_def Let_def broadcast_values
    by (simp only: bit_and_iff bit_not_iff possible_bit_word) simp
  then show ?thesis unfolding v d using byte_at_range [of "uint vec" j] by (cases "byte_at (uint vec) j = 0") auto
qed

lemma hi_bits: "bit (hi_set_if_00 vec) n \<Longrightarrow> n < 64 \<and> n mod 8 = 7"
  unfolding hi_set_if_00_def Let_def broadcast_values using bit_80 [of n] bit_imp_le_length [of _ n]
  by (simp only: bit_and_iff) fastforce

section \<open>The searches\<close>

lemma le_bytes_byte_at: "i < 8 \<Longrightarrow> uint (le_bytes (vec :: u64) ! i) = byte_at (uint vec) i"
proof -
  assume "i < 8"
  then have "uint (le_bytes vec ! i) = take_bit 8 (drop_bit (8 * i) (uint vec))"
    using take_bit_int_eq_self [of "uint vec" 64] unsigned_less [of vec, where 'a = int]
    by (simp add: le_bytes_def unsigned_ucast_eq unsigned_drop_bit_eq)
  then show ?thesis by (simp add: byte_at_def drop_bit_eq_div take_bit_eq_mod)
qed

lemma zero_byte: "i < 8 \<Longrightarrow> byte_at (uint vec) i = 0 \<longleftrightarrow> le_bytes (vec :: u64) ! i = 0"
  using le_bytes_byte_at [of i vec] by (metis uint_0_iff)

lemma first_zero:
  assumes k: "k < 8" "le_bytes vec ! k = 0" "\<And>i. i < k \<Longrightarrow> le_bytes vec ! i \<noteq> (0 :: u8)"
  shows "stdc_first_trailing_one (hi_set_if_00 vec) = 8 * k + 8"
proof -
  have nz: "byte_at (uint vec) i \<noteq> 0" if "i < k" for i using k(1,3) that zero_byte [of i vec] by simp
  have "bit (hi_set_if_00 vec) (8 * k + 7)" using hi_bit [OF k(1) nz] zero_byte [of k vec] k by simp
  moreover have "\<not> bit (hi_set_if_00 vec) n" if "n < 8 * k + 7" for n
  proof
    assume b: "bit (hi_set_if_00 vec) n"
    then have n: "n < 64" "n mod 8 = 7" using hi_bits by simp_all
    define j where "j = n div 8"
    have nj: "n = 8 * j + 7" using n(2) unfolding j_def by presburger
    then have jk: "j < k" using that by simp
    have "byte_at (uint vec) j = 0" using b hi_bit [of j vec] nz jk k(1) nj by simp
    then show False using nz [OF jk] by simp
  qed
  ultimately have "find (bit (hi_set_if_00 vec)) [0..<64] = Some (8 * k + 7)"
    using k(1) by (auto simp: find_Some_iff intro!: exI [of _ "8 * k + 7"])
  then show ?thesis by (simp add: stdc_first_trailing_one_def)
qed

lemma no_zero:
  assumes "\<And>i. i < 8 \<Longrightarrow> le_bytes vec ! i \<noteq> (0 :: u8)"
  shows "hi_set_if_00 vec = 0"
proof (rule bit_word_eqI)
  fix n assume "n < LENGTH(64)"
  have nz: "byte_at (uint vec) i \<noteq> 0" if "i < 8" for i using assms that zero_byte [of i vec] by simp
  have "\<not> bit (hi_set_if_00 vec) n"
  proof
    assume b: "bit (hi_set_if_00 vec) n"
    then have n: "n < 64" "n mod 8 = 7" using hi_bits by simp_all
    define j where "j = n div 8"
    have "n = 8 * j + 7" "j < 8" using n unfolding j_def by presburger+
    then show False using b hi_bit [of j vec] nz by simp
  qed
  then show "bit (hi_set_if_00 vec) n = bit 0 n" by simp
qed

lemma double_copy:
  fixes x :: u64
  assumes "\<And>k. bit x k \<longleftrightarrow> k < w \<and> bit v (k mod 8)" "8 dvd w" "2 * w \<le> 64"
  shows "bit (x OR push_bit w x) k \<longleftrightarrow> k < 2 * w \<and> bit v (k mod 8)"
proof -
  obtain c where c: "w = 8 * c" using assms(2) by blast
  have m: "(k - w) mod 8 = k mod 8" if "w \<le> k"
  proof -
    have "k = (k - w) + 8 * c" using that c by simp
    then show ?thesis by (metis mod_mult_self2)
  qed
  have "bit (push_bit w x) k \<longleftrightarrow> w \<le> k \<and> k < 2 * w \<and> bit v (k mod 8)"
    using assms(1) [of "k - w"] assms(3) m by (cases "w \<le> k") (auto simp: bit_push_bit_iff)
  then show ?thesis using assms(1) [of k] by (cases "w \<le> k") (simp_all add: bit_or_iff)
qed

lemma bit_broadcast: "bit (u8x8_broadcast v) k \<longleftrightarrow> k < 64 \<and> bit v (k mod 8)"
proof -
  have 0: "bit (ucast v :: u64) k \<longleftrightarrow> k < 8 \<and> bit v (k mod 8)" for k
    using bit_imp_le_length [of v k] by (auto simp: bit_ucast_iff)
  let ?a = "ucast v OR push_bit 8 (ucast v) :: u64"
  let ?b = "?a OR push_bit 16 ?a"
  have 1: "bit ?a k \<longleftrightarrow> k < 16 \<and> bit v (k mod 8)" for k
    using double_copy [of "ucast v" 8 v k, OF 0] by simp
  have 2: "bit ?b k \<longleftrightarrow> k < 32 \<and> bit v (k mod 8)" for k
    using double_copy [of ?a 16 v k, OF 1] by simp
  show ?thesis using double_copy [of ?b 32 v k, OF 2] by (simp add: u8x8_broadcast_def Let_def)
qed

lemma byte_broadcast: "i < 8 \<Longrightarrow> le_bytes (u8x8_broadcast v) ! i = v"
  by (rule bit_word_eqI) (simp add: bit_le_bytes_nth bit_broadcast)

lemma byte_xor_broadcast: "i < 8 \<Longrightarrow> le_bytes (vec XOR u8x8_broadcast v) ! i = le_bytes vec ! i XOR v"
  by (rule bit_word_eqI) (simp add: bit_le_bytes_nth bit_broadcast bit_xor_iff)

lemma find_first_zero_spec:
  "u8x8_find_first_zero vec = (case find (\<lambda>i. le_bytes vec ! i = 0) [0..<8] of None \<Rightarrow> 0 | Some i \<Rightarrow> of_nat (i + 1))"
proof (cases "find (\<lambda>i. le_bytes vec ! i = 0) [0..<8]")
  case None
  then have "hi_set_if_00 vec = 0" by (intro no_zero) (auto simp: find_None_iff)
  moreover have "find (bit (0 :: u64)) [0..<64] = None" by (simp add: find_None_iff)
  ultimately show ?thesis using None by (simp add: u8x8_find_first_zero_def stdc_first_trailing_one_def)
next
  case (Some k)
  then have k: "k < 8" "le_bytes vec ! k = 0" "\<And>i. i < k \<Longrightarrow> le_bytes vec ! i \<noteq> 0"
    by (auto simp: find_Some_iff)
  have "drop_bit 3 (of_nat (8 * k + 8) :: u64) = of_nat (k + 1)"
  proof -
    have "8 * k + 8 < 2 ^ 64" using k(1) by simp
    then have "unat (drop_bit 3 (of_nat (8 * k + 8) :: u64)) = k + 1"
      unfolding unsigned_drop_bit_eq using k(1) by (subst unat_of_nat_small) (simp_all add: drop_bit_eq_div take_bit_nat_eq_self)
    moreover have "unat (of_nat (k + 1) :: u64) = k + 1" using k(1) by (intro unat_of_nat_small) simp
    ultimately show ?thesis by (simp only: word_unat_eq_iff)
  qed
  then show ?thesis using Some first_zero [OF k] by (simp add: u8x8_find_first_zero_def del: of_nat_add)
qed

lemma contains_zero_spec: "u8x8_contains_zero vec \<longleftrightarrow> 0 \<in> set (le_bytes vec)"
proof
  assume "u8x8_contains_zero vec"
  then have "\<not> (\<forall>i<8. le_bytes vec ! i \<noteq> (0 :: u8))" using no_zero [of vec] by (auto simp: u8x8_contains_zero_def)
  then show "0 \<in> set (le_bytes vec)" by (auto simp: in_set_conv_nth)
next
  assume "0 \<in> set (le_bytes vec)"
  then obtain k where "k < 8 \<and> le_bytes vec ! k = 0" by (auto simp: in_set_conv_nth)
  then obtain k where k: "k < 8" "le_bytes vec ! k = 0" "\<And>i. i < k \<Longrightarrow> \<not> (i < 8 \<and> le_bytes vec ! i = 0)"
    using exists_least_iff [of "\<lambda>k. k < 8 \<and> le_bytes vec ! k = 0"] by auto
  then have "stdc_first_trailing_one (hi_set_if_00 vec) = 8 * k + 8" by (intro first_zero) auto
  moreover have "stdc_first_trailing_one 0 = 0" by (simp add: stdc_first_trailing_one_def find_None_iff split: option.split)
  ultimately show "u8x8_contains_zero vec" by (auto simp: u8x8_contains_zero_def)
qed

lemma xor_eq_0: "(x XOR y = 0) \<longleftrightarrow> (x = (y :: 'a :: len word))"
  by (metis xor.assoc xor_self_eq xor.right_neutral xor.left_neutral)

text \<open>The values the self test checks.\<close>

lemma selftest_swar:
  "u8x8_broadcast 0x12 = 0x1212121212121212" "u8x8_find_first_zero 0x0000000000000000 = 1"
  "u8x8_find_first_zero 0x0034567890abcd00 = 1"
  by code_simp+

text \<open>
  \<open>C21\<close>.  The search for a byte in a word of eight bytes, without a loop, finds what a scan of
  the bytes in memory order finds: one plus the index of the first match, or zero.  The carries
  of the subtraction never produce a wrong match.
\<close>

theorem u8x8_find_first_match_correct:
  "u8x8_find_first_match vec v =
     (case find (\<lambda>i. le_bytes vec ! i = v) [0..<8] of None \<Rightarrow> 0 | Some i \<Rightarrow> of_nat (i + 1)) \<and>
   (u8x8_contains_match vec v \<longleftrightarrow> v \<in> set (le_bytes vec))"
proof -
  have e: "le_bytes (vec XOR u8x8_broadcast v) ! i = 0 \<longleftrightarrow> le_bytes vec ! i = v" if "i < 8" for i
    using byte_xor_broadcast [OF that, of vec v] by (simp add: xor_eq_0)
  then have "find (\<lambda>i. le_bytes (vec XOR u8x8_broadcast v) ! i = 0) [0..<8] = find (\<lambda>i. le_bytes vec ! i = v) [0..<8]"
    by (intro find_cong) simp_all
  moreover have "0 \<in> set (le_bytes (vec XOR u8x8_broadcast v)) \<longleftrightarrow> v \<in> set (le_bytes vec)"
    using e by (auto simp: in_set_conv_nth)
  ultimately show ?thesis
    by (simp add: u8x8_find_first_match_def u8x8_contains_match_def find_first_zero_spec contains_zero_spec)
qed
end
