(* ===== verification/Size_Classes.thy ===== *)
theory Size_Classes
  imports Machine
begin

unbundle bit_operations_syntax

text \<open>
  The size classes of the kernel heap (\<^verbatim>\<open>mm/alloc/size_classes.h\<close> and the index functions
  of \<^verbatim>\<open>mm/alloc/heap.h\<close>).  \<open>in_class\<close> says in plain arithmetic which sizes a class
  serves; the bit tricks of the code compute it, and the slots of the array of direct
  pointers fall into the same classes.
\<close>


section \<open>Sizes\<close>

definition size_is_small :: "usize \<Rightarrow> bool" where
  "size_is_small sz \<longleftrightarrow> sz \<le> 8 * 1024"

definition size_is_huge :: "usize \<Rightarrow> bool" where
  "size_is_huge sz \<longleftrightarrow> 512 * 1024 < sz"

definition PAGE_SMALL_SHIFT :: usize where "PAGE_SMALL_SHIFT = 16"
definition PAGE_LARGE_SHIFT :: usize where "PAGE_LARGE_SHIFT = 22"
definition PAGE_HUGE_SHIFT :: usize where "PAGE_HUGE_SHIFT = 14"
definition SEGMENT_SHIFT :: nat where "SEGMENT_SHIFT = 22"
definition SIZE_CLASS_HUGE_SENTINEL :: usize where "SIZE_CLASS_HUGE_SENTINEL = 17"

definition size_class_is_valid :: "usize \<Rightarrow> bool" where
  "size_class_is_valid c \<longleftrightarrow> c < 17"

definition size_class_is_small :: "usize \<Rightarrow> bool option" where
  "size_class_is_small c = do { assert_that (size_class_is_valid c); Some (c < 11) }"

text \<open>\<^verbatim>\<open>stdc_bit_ceil\<close>: the smallest power of two that is not below its argument.\<close>

definition bit_width :: "u64 \<Rightarrow> nat" where
  "bit_width w = (case find (bit w) (rev [0..<64]) of None \<Rightarrow> 0 | Some n \<Rightarrow> Suc n)"

definition stdc_bit_ceil :: "u64 \<Rightarrow> u64" where
  "stdc_bit_ceil w = (if w \<le> 1 then 1 else push_bit (bit_width (w - 1)) 1)"

definition size_class_of_size :: "usize \<Rightarrow> usize option" where
  "size_class_of_size sz = do {
     assert_that (\<not> size_is_huge sz);
     if sz < 8 then Some 0
     else do {
       let log2_size = of_nat (trailing_zeros (stdc_bit_ceil sz));
       assert_that (3 \<le> log2_size);
       let c = log2_size - 3;
       assert_that (size_class_is_valid c);
       Some c
     }
   }"

definition log2_size_of_size_class :: "usize \<Rightarrow> usize option" where
  "log2_size_of_size_class c = do { assert_that (size_class_is_valid c); Some (3 + c) }"

definition size_of_size_class :: "usize \<Rightarrow> usize option" where
  "size_of_size_class c = do { l \<leftarrow> log2_size_of_size_class c; Some (push_bit (unat l) 1) }"

text \<open>The array of direct pointers goes in steps of eight bytes (\<^verbatim>\<open>heap.h\<close>).\<close>

definition size_class_in_pages_direct :: "usize \<Rightarrow> bool option" where
  "size_class_in_pages_direct c = do { sz \<leftarrow> size_of_size_class c; Some (sz \<le> 1024) }"

definition pages_direct_index_of_size :: "usize \<Rightarrow> usize option" where
  "pages_direct_index_of_size sz = do {
     assert_that (0 < sz \<and> sz \<le> 1024);
     let sz = (sz + 7) AND NOT 7;
     let i = drop_bit 3 sz - 1;
     assert_that (i < 128);
     Some i
   }"

definition size_of_pages_direct_index :: "usize \<Rightarrow> usize option" where
  "size_of_pages_direct_index i = do { assert_that (i < 128); Some (push_bit 3 (i + 1)) }"

section \<open>The size class of a size\<close>

lemma bit_width_bounds:
  assumes "w \<noteq> 0"
  shows "0 < bit_width w" "bit_width w \<le> 64" "2 ^ (bit_width w - 1) \<le> unat w" "unat w < 2 ^ bit_width w"
proof -
  let ?P = "\<lambda>n. n < 64 \<and> bit w n"
  obtain k where k: "bit w k" using assms by (metis bit_eqI bit_0_eq bot_apply bot_bool_def)
  then have "find (bit w) (rev [0..<64]) \<noteq> None"
    using bit_imp_le_length [OF k] by (auto simp: find_None_iff)
  then obtain n where n: "find (bit w) (rev [0..<64]) = Some n" by auto
  then obtain i where i: "i < 64" "n = rev [0..<64] ! i" "bit w n" "\<And>j. j < i \<Longrightarrow> \<not> bit w (rev [0..<64] ! j)"
    by (auto simp: find_Some_iff)
  have n_eq: "n = 63 - i" using i(1,2) by (simp add: rev_nth)
  have above: "\<not> bit w m" if "n < m" for m
  proof (cases "m < 64")
    case True
    then have "63 - m < i" "rev [0..<64] ! (63 - m) = m" using that n_eq i(1) by (simp_all add: rev_nth)
    then show ?thesis using i(4) by metis
  next
    case False
    then show ?thesis using bit_imp_le_length [of w m] by auto
  qed
  have bw: "bit_width w = Suc n" by (simp add: bit_width_def n)
  have "take_bit (Suc n) w = w"
    by (rule bit_word_eqI) (use above not_less_eq in \<open>auto simp: bit_take_bit_iff\<close>)
  then have "take_bit (Suc n) (unat w) = unat w" by (metis unsigned_take_bit_eq)
  then have lt: "unat w < 2 ^ Suc n" by (metis take_bit_nat_less_exp)
  have "odd (unat w div 2 ^ n)" using i(3) by (simp add: bit_unsigned_iff flip: bit_iff_odd)
  then have "unat w div 2 ^ n \<noteq> 0" by (intro notI) simp
  then have "2 ^ n \<le> unat w" by (simp add: div_eq_0_iff)
  with lt bw n_eq show "0 < bit_width w" "bit_width w \<le> 64" "2 ^ (bit_width w - 1) \<le> unat w" "unat w < 2 ^ bit_width w"
    by simp_all
qed

lemma trailing_zeros_exp:
  assumes "n < 64"
  shows "trailing_zeros (push_bit n 1 :: u64) = n"
proof -
  let ?w = "push_bit n 1 :: u64"
  have b: "bit ?w i \<longleftrightarrow> i = n" for i using assms by (auto simp: bit_simps bit_1_iff)
  then have "?w \<noteq> 0" by (metis bit_0_eq bot_apply bot_bool_def)
  then show ?thesis using trailing_zeros_bit(2) [of ?w] b by simp
qed

text \<open>The size class \<open>c\<close> serves the sizes above \<open>2 ^ (2 + c)\<close> up to \<open>2 ^ (3 + c)\<close>; class 0 also the smaller ones.\<close>

definition in_class :: "nat \<Rightarrow> nat \<Rightarrow> bool" where
  "in_class n c \<longleftrightarrow> c < 17 \<and> n \<le> 2 ^ (3 + c) \<and> (c = 0 \<or> 2 ^ (2 + c) < n)"

lemma in_class_unique:
  assumes "in_class n c" "in_class n d"
  shows "c = d"
proof -
  have "\<not> c < d" if "in_class n c" "in_class n d" for c d
  proof
    assume "c < d"
    then have "(2 :: nat) ^ (3 + c) \<le> 2 ^ (2 + d)" by (intro power_increasing) simp_all
    then show False using that \<open>c < d\<close> by (auto simp: in_class_def)
  qed
  then show ?thesis using assms by (meson linorder_neqE_nat)
qed

lemma size_of_size_class_eq: "c < 17 \<Longrightarrow> size_of_size_class (of_nat c) = Some (of_nat (2 ^ (3 + c)))"
proof -
  assume c: "c < 17"
  then have "(of_nat c :: u64) < 17" by (simp add: word_less_nat_alt)
  moreover have "unat (3 + of_nat c :: u64) = 3 + c" using c by (simp add: unat_plus_small)
  ultimately show ?thesis
    by (simp add: size_of_size_class_def log2_size_of_size_class_def size_class_is_valid_def push_bit_eq_mult)
qed

lemma class_of_size:
  assumes "unat s \<le> 512 * 1024"
  obtains c where "size_class_of_size s = Some (of_nat c)" "in_class (unat s) c"
proof -
  have nh: "\<not> size_is_huge s" using assms by (simp add: size_is_huge_def word_less_nat_alt)
  show thesis
  proof (cases "s < 8")
    case True
    then have "in_class (unat s) 0" by (simp add: in_class_def word_less_nat_alt)
    with True nh show thesis by (intro that [of 0]) (simp_all add: size_class_of_size_def)
  next
    case False
    then have s8: "8 \<le> unat s" by (simp add: word_less_nat_alt)
    define bw where "bw = bit_width (s - 1)"
    have w: "unat (s - 1) = unat s - 1" using s8 by (intro unat_minus_one) auto
    then have "unat (s - 1) \<noteq> 0" using s8 by simp
    then have "s - 1 \<noteq> 0" by (metis unat_0)
    then have b: "0 < bw" "bw \<le> 64" "2 ^ (bw - 1) \<le> unat s - 1" "unat s - 1 < 2 ^ bw"
      unfolding bw_def using bit_width_bounds [of "s - 1"] w by simp_all
    have "(2 :: nat) ^ (bw - 1) < 2 ^ 19" using b(3) assms s8 by simp
    then have "bw - 1 < 19" by (rule power_less_imp_less_exp [rotated]) simp
    moreover have "(2 :: nat) ^ 2 < 2 ^ bw" using b(4) s8 by simp
    then have "2 < bw" by (rule power_less_imp_less_exp [rotated]) simp
    ultimately have bw: "3 \<le> bw" "bw \<le> 19" by simp_all
    have "stdc_bit_ceil s = push_bit bw 1" using s8 by (simp add: stdc_bit_ceil_def bw_def word_le_nat_alt)
    then have "of_nat (trailing_zeros (stdc_bit_ceil s)) = (of_nat bw :: u64)" 
      using bw trailing_zeros_exp [of bw] by (simp add: push_bit_eq_mult)
    moreover have "(3 :: u64) \<le> of_nat bw" using bw by (simp add: word_le_nat_alt)
    moreover have "of_nat bw - 3 = (of_nat (bw - 3) :: u64)" using bw by simp
    moreover have "(of_nat (bw - 3) :: u64) < 17" using bw by (simp add: word_less_nat_alt del: of_nat_diff)
    ultimately have "size_class_of_size s = Some (of_nat (bw - 3))"
      using False nh by (simp add: size_class_of_size_def size_class_is_valid_def Let_def del: of_nat_diff)
    moreover have "in_class (unat s) (bw - 3)"
    proof -
      have e: "3 + (bw - 3) = bw" "bw - 3 \<noteq> 0 \<Longrightarrow> 2 + (bw - 3) = bw - 1" using bw by simp_all
      show ?thesis unfolding in_class_def e(1) using b bw s8 e(2) by (cases "bw - 3 = 0") auto
    qed
    ultimately show thesis by (rule that)
  qed
qed

lemma size_class_iff:
  assumes "unat s \<le> 512 * 1024" "c < 17"
  shows "size_class_of_size s = Some (of_nat c) \<longleftrightarrow> in_class (unat s) c"
proof -
  obtain d where d: "size_class_of_size s = Some (of_nat d)" "in_class (unat s) d" using class_of_size [OF assms(1)] .
  then have "d < 17" by (simp add: in_class_def)
  then have "(of_nat d :: u64) = of_nat c \<longleftrightarrow> d = c" using assms(2) by (intro of_nat_eq_iff_small) simp_all
  then show ?thesis using d in_class_unique by auto
qed

lemma index_of_size:
  assumes "0 < unat s" "unat s \<le> 1024"
  shows "pages_direct_index_of_size s = Some (of_nat ((unat s + 7) div 8 - 1))" "(unat s + 7) div 8 - 1 < 128"
proof -
  have r: "unat ((s + 7) AND NOT 7) = (unat s + 7) div 8 * 8"
  proof -
    have "(7 :: u64) = mask 3" by (simp add: mask_eq_exp_minus_1)
    then have "unat ((s + 7) AND NOT 7) = unat (s + 7) div 2 ^ 3 * 2 ^ 3" by (metis unat_and_not_mask)
    then show ?thesis using assms by (simp add: unat_plus_small)
  qed
  have d: "drop_bit 3 ((s + 7) AND NOT 7) = of_nat ((unat s + 7) div 8)"
    unfolding word_unat_eq_iff using assms by (simp add: drop_bit_eq_div unat_div r [simplified])
  show b: "(unat s + 7) div 8 - 1 < 128" using assms by simp
  have "drop_bit 3 ((s + 7) AND NOT 7) - 1 = (of_nat ((unat s + 7) div 8 - 1) :: u64)"
    unfolding d using assms by (simp add: of_nat_diff)
  moreover have "(of_nat ((unat s + 7) div 8 - 1) :: u64) < 128" using b by (simp add: word_less_nat_alt del: of_nat_diff)
  moreover have "0 < s \<and> s \<le> 1024" using assms by (simp add: word_less_nat_alt word_le_nat_alt)
  ultimately show "pages_direct_index_of_size s = Some (of_nat ((unat s + 7) div 8 - 1))"
    by (simp add: pages_direct_index_of_size_def Let_def del: of_nat_diff)
qed

lemma size_of_index:
  assumes "i < 128"
  shows "size_of_pages_direct_index (of_nat i) = Some (of_nat (8 * (i + 1)))" "unat (of_nat (8 * (i + 1)) :: u64) = 8 * (i + 1)"
proof -
  have "(of_nat i :: u64) < 128" using assms by (simp add: word_less_nat_alt)
  then show "size_of_pages_direct_index (of_nat i) = Some (of_nat (8 * (i + 1)))"
    by (simp add: size_of_pages_direct_index_def push_bit_eq_mult algebra_simps)
  show "unat (of_nat (8 * (i + 1)) :: u64) = 8 * (i + 1)" using assms by (intro unat_of_nat_small) simp
qed

text \<open>Rounding up to the next multiple of eight keeps the class, for every class serves multiples of eight.\<close>

lemma in_class_round_up:
  assumes "in_class n c" "0 < n"
  shows "in_class ((n + 7) div 8 * 8) c"
proof -
  have p: "(2 :: nat) ^ (3 + c) = 8 * 2 ^ c" by (simp add: power_add)
  have "n \<le> 8 * 2 ^ c" using assms(1) unfolding p [symmetric] by (simp add: in_class_def)
  then have "(n + 7) div 8 \<le> 2 ^ c" by arith
  then have "(n + 7) div 8 * 8 \<le> 2 ^ (3 + c)" using p by simp
  moreover have "n \<le> (n + 7) div 8 * 8" by simp
  ultimately show ?thesis using assms by (auto simp: in_class_def)
qed

lemma class_of_slot:
  assumes "i < 128" "c < 8"
  shows "in_class (8 * (i + 1)) c \<longleftrightarrow> (if c = 0 then 0 else 2 ^ (c - 1)) \<le> i \<and> i \<le> 2 ^ c - 1"
proof (cases c)
  case 0
  then show ?thesis by (auto simp: in_class_def)
next
  case (Suc d)
  define k where "k = (2 :: nat) ^ d"
  have "0 < k" "(2 :: nat) ^ (3 + c) = 16 * k" "(2 :: nat) ^ (2 + c) = 8 * k" "(2 :: nat) ^ c = 2 * k"
    by (simp_all add: Suc k_def power_add)
  then show ?thesis using assms Suc unfolding in_class_def by (auto simp: k_def [symmetric])
qed

text \<open>
  \<open>C22\<close>.  The size class of a size that is not huge is the smallest class whose blocks hold
  it, and none of the assertions on the way fails.
\<close>

theorem size_class_of_size_correct:
  assumes "\<not> size_is_huge s"
  shows "\<exists>c n. size_class_of_size s = Some c \<and> size_of_size_class c = Some n \<and> s \<le> n \<and>
    (\<forall>d m. size_of_size_class d = Some m \<and> s \<le> m \<longrightarrow> c \<le> d)"
proof -
  have s: "unat s \<le> 512 * 1024" using assms by (simp add: size_is_huge_def word_less_nat_alt)
  obtain c where c: "size_class_of_size s = Some (of_nat c)" "in_class (unat s) c" using class_of_size [OF s] .
  then have c17: "c < 17" by (simp add: in_class_def)
  have pw: "(2 :: nat) ^ (3 + k) < 2 ^ 64" if "k < 17" for k using that by (intro power_strict_increasing) simp_all
  have "s \<le> of_nat (2 ^ (3 + c))"
    using c(2) pw [OF c17] by (simp add: word_le_nat_alt in_class_def unat_of_nat_small del: of_nat_power of_nat_numeral)
  moreover have "of_nat c \<le> d" if d: "size_of_size_class d = Some m" "s \<le> m" for d m
  proof (rule ccontr)
    assume "\<not> of_nat c \<le> d"
    then have dc: "unat d < c" using c17 by (simp add: word_le_nat_alt)
    then have "m = of_nat (2 ^ (3 + unat d))" using d(1) size_of_size_class_eq [of "unat d"] c17 by simp
    then have "unat s \<le> 2 ^ (3 + unat d)"
      using d(2) pw [of "unat d"] dc c17 by (simp add: word_le_nat_alt unat_of_nat_small del: of_nat_power of_nat_numeral)
    also have "\<dots> \<le> 2 ^ (2 + c)" using dc by (intro power_increasing) simp_all
    finally show False using c(2) dc by (simp add: in_class_def)
  qed
  ultimately show ?thesis using c(1) size_of_size_class_eq [OF c17] by blast
qed

theorem size_class_of_size_correct_witness:
  "\<exists>c n. size_class_of_size 100 = Some c \<and> size_of_size_class c = Some n \<and> 100 \<le> n \<and>
    (\<forall>d m. size_of_size_class d = Some m \<and> 100 \<le> m \<longrightarrow> c \<le> d)"
  by (rule size_class_of_size_correct) (simp add: size_is_huge_def)

text \<open>
  The fast path of small allocations finds its page through the size rounded up to a
  multiple of eight; the slot it looks into is one that belongs to the size class of the
  request.
\<close>

theorem pages_direct_index_correct:
  assumes "0 < s" "s \<le> 1024"
  shows "\<exists>i n c. pages_direct_index_of_size s = Some i \<and> size_of_pages_direct_index i = Some n \<and> s \<le> n \<and>
    size_class_of_size s = Some c \<and> size_class_of_size n = Some c \<and> size_class_in_pages_direct c = Some True"
proof -
  have s: "0 < unat s" "unat s \<le> 1024" using assms by (simp_all add: word_less_nat_alt word_le_nat_alt)
  let ?i = "(unat s + 7) div 8 - 1"
  have i: "pages_direct_index_of_size s = Some (of_nat ?i)" "?i < 128" using index_of_size [OF s] .
  have e: "8 * (?i + 1) = (unat s + 7) div 8 * 8" using s by simp
  obtain c where c: "size_class_of_size s = Some (of_nat c)" "in_class (unat s) c" using class_of_size [of s] s by auto
  have "in_class (8 * (?i + 1)) c" unfolding e using c(2) s(1) by (rule in_class_round_up)
  then have "size_class_of_size (of_nat (8 * (?i + 1))) = Some (of_nat c)"
    using size_class_iff [of "of_nat (8 * (?i + 1))" c] size_of_index(2) [OF i(2)] i(2) c(2) by (simp add: in_class_def)
  moreover have "s \<le> of_nat (8 * (?i + 1))" using s size_of_index(2) [OF i(2)] by (simp add: word_le_nat_alt)
  moreover have "size_class_in_pages_direct (of_nat c) = Some True"
  proof -
    have "(2 :: nat) ^ (2 + c) < 2 ^ 10 \<or> c = 0" using c(2) s by (auto simp: in_class_def)
    then have "c < 8" using power_less_imp_less_exp [of "2 :: nat" "2 + c" 10] by auto
    then have "(2 :: nat) ^ (3 + c) \<le> 2 ^ 10" by (intro power_increasing) simp_all
    then have "(of_nat (2 ^ (3 + c)) :: u64) \<le> 1024" by (simp add: word_le_nat_alt unat_of_nat_small del: of_nat_power of_nat_numeral)
    then show ?thesis using \<open>c < 8\<close> size_of_size_class_eq [of c] by (simp add: size_class_in_pages_direct_def del: of_nat_power of_nat_numeral)
  qed
  ultimately show ?thesis using i(1) size_of_index(1) [OF i(2)] c(1) by auto
qed

theorem pages_direct_index_correct_witness:
  "\<exists>i n c. pages_direct_index_of_size 100 = Some i \<and> size_of_pages_direct_index i = Some n \<and> 100 \<le> n \<and>
    size_class_of_size 100 = Some c \<and> size_class_of_size n = Some c \<and> size_class_in_pages_direct c = Some True"
  by (rule pages_direct_index_correct) simp_all
end
