(* ===== verification/Heap.thy ===== *)
theory Heap
  imports Size_Classes Address_Space Paging Rng
begin

unbundle bit_operations_syntax

text \<open>
  The kernel heap, \<^verbatim>\<open>mm/alloc/*.c\<close> and \<^verbatim>\<open>mm/alloc.c\<close>: segments of 4 MiB (or more, for huge
  objects) from the virtual and physical allocators, pages of equal blocks in them, and
  lists of free blocks in each page, threaded through the blocks as addresses XORred with
  the page's cookie.  This theory holds the state and every operation; an assertion
  that fails, a \<^verbatim>\<open>TODO\<close> and an access to a struct that is not there stop (\<open>None\<close>).

  The heap calls the random number generator, the page tables, the physical and the
  virtual allocator through their models, whose states are fields of \<open>mm_state\<close>.
\<close>


section \<open>State\<close>

record mm_alloc_segment =
  segment_hart_id :: u64
  used_pages :: usize
  page_shift :: usize

text \<open>
  \<^verbatim>\<open>struct mm_alloc_page\<close> but for its \<^verbatim>\<open>list\<close>, which is in the store of list heads.
  References to blocks are the exclusive or of the address with the cookie; the
  remote list shares its word with the flag for delayed frees in bit 0.
\<close>

record mm_alloc_page =
  free_list :: u64
  local_free :: u64
  remote_free :: u64
  used_blocks :: u32
  remote_free_length :: u32
  xor_cookie :: "56 word"
  size_class :: "7 word"
  in_full_list :: bool

definition zero_page :: mm_alloc_page where
  "zero_page = \<lparr>free_list = 0, local_free = 0, remote_free = 0, used_blocks = 0, remote_free_length = 0,
     xor_cookie = 0, size_class = 0, in_full_list = False\<rparr>"

text \<open>The list heads: those of the heap, and those that are the first member of a page's struct.\<close>

datatype heap_node = Pages nat | Unused_Pages | Full_Pages | Page uaddr

text \<open>
  The state of the boot hart's heap and of what it calls.  \<open>segments\<close> and \<open>page_meta\<close>
  hold the structs at the beginning of each segment, \<open>ram\<close> the bytes of the blocks.
  A null pointer is the address 0.
\<close>

record mm_state =
  hart_id :: u64
  heap_installed :: bool
  alloc_inited :: bool
  heap_hart_id :: u64
  pages_direct :: "uaddr list"
  heap_links :: "heap_node links"
  delayed_free :: uaddr
  segments :: "uaddr \<rightharpoonup> mm_alloc_segment"
  page_meta :: "uaddr \<rightharpoonup> mm_alloc_page"
  ram :: "uaddr \<Rightarrow> u8"
  kernel_rng :: random_state
  kernel_virtual_allocator :: va_state
  kernel_paging :: paging_state

definition update_page :: "mm_state \<Rightarrow> uaddr \<Rightarrow> (mm_alloc_page \<Rightarrow> mm_alloc_page) \<Rightarrow> mm_state option" where
  "update_page s page f = do { pg \<leftarrow> page_meta s page; Some (s\<lparr>page_meta := (page_meta s)(page \<mapsto> f pg)\<rparr>) }"

definition update_segment :: "mm_state \<Rightarrow> uaddr \<Rightarrow> (mm_alloc_segment \<Rightarrow> mm_alloc_segment) \<Rightarrow> mm_state option" where
  "update_segment s seg f = do { sg \<leftarrow> segments s seg; Some (s\<lparr>segments := (segments s)(seg \<mapsto> f sg)\<rparr>) }"

definition on_links :: "mm_state \<Rightarrow> (heap_node links \<Rightarrow> heap_node links option) \<Rightarrow> mm_state option" where
  "on_links s f = do { h \<leftarrow> f (heap_links s); Some (s\<lparr>heap_links := h\<rparr>) }"

fun page_of_node :: "heap_node \<Rightarrow> uaddr option" where
  "page_of_node (Page p) = Some p"
| "page_of_node _ = None"

definition load :: "(uaddr \<Rightarrow> u8) \<Rightarrow> uaddr \<Rightarrow> nat \<Rightarrow> u8 list" where
  "load m a n = map (\<lambda>i. m (a + of_nat i)) [0..<n]"

definition store :: "(uaddr \<Rightarrow> u8) \<Rightarrow> uaddr \<Rightarrow> u8 list \<Rightarrow> uaddr \<Rightarrow> u8" where
  "store m a bs = (\<lambda>x. if unat (x - a) < length bs then bs ! unat (x - a) else m x)"

text \<open>The members \<^verbatim>\<open>page->free\<close> and \<^verbatim>\<open>page->local_free\<close>, as \<^verbatim>\<open>page_push\<close> gets a pointer to one of them.\<close>

datatype block_list = Free | Local_Free

fun get_list :: "block_list \<Rightarrow> mm_alloc_page \<Rightarrow> u64" where
  "get_list Free pg = free_list pg"
| "get_list Local_Free pg = local_free pg"

fun set_list :: "block_list \<Rightarrow> u64 \<Rightarrow> mm_alloc_page \<Rightarrow> mm_alloc_page" where
  "set_list Free r pg = pg\<lparr>free_list := r\<rparr>"
| "set_list Local_Free r pg = pg\<lparr>local_free := r\<rparr>"

section \<open>Segments and pages by address\<close>

text \<open>The header of a segment has 24 bytes and each page struct 56.\<close>

definition page_at :: "uaddr \<Rightarrow> usize \<Rightarrow> uaddr" where
  "page_at seg i = seg + 24 + 56 * i"

definition segment_of_ptr :: "uaddr \<Rightarrow> uaddr" where
  "segment_of_ptr ptr = align_down_uaddr ptr SEGMENT_SHIFT"

definition page_segment :: "uaddr \<Rightarrow> uaddr" where
  "page_segment page = segment_of_ptr page"

text \<open>The difference of two pointers counts pages; before the first page it has no meaning in C.\<close>

definition page_index :: "uaddr \<Rightarrow> usize option" where
  "page_index page = do {
     let seg = page_segment page;
     assert_that (page_at seg 0 \<le> page);
     let i = (page - page_at seg 0) div 56;
     assert_that (i < 64);
     Some i
   }"

definition page_of_ptr :: "mm_state \<Rightarrow> uaddr \<Rightarrow> uaddr option" where
  "page_of_ptr s ptr = do {
     let seg = segment_of_ptr ptr;
     sg \<leftarrow> segments s seg;
     let offset = ptr - seg;
     let i = drop_bit (unat (page_shift sg)) offset;
     assert_that (i \<noteq> 0 \<longrightarrow> page_shift sg = PAGE_SMALL_SHIFT);
     Some (page_at seg i)
   }"

definition page_bounds :: "mm_state \<Rightarrow> uaddr \<Rightarrow> (uaddr \<times> uaddr) option" where
  "page_bounds s page = do {
     pg \<leftarrow> page_meta s page;
     assert_that (size_class_is_valid (ucast (size_class pg)));
     let seg = page_segment page;
     i \<leftarrow> page_index page;
     sg \<leftarrow> segments s seg;
     let page_start = seg + push_bit (unat (page_shift sg)) i;
     let page_end = page_start + push_bit (unat (page_shift sg)) 1;
     let page_start = (if i = 0 then page_start + push_bit 12 2 else page_start);
     assert_that (is_aligned_uaddr page_start 12);
     assert_that (is_aligned_uaddr page_end 16);
     Some (page_start, page_end)
   }"

definition page_in_bounds :: "mm_state \<Rightarrow> uaddr \<Rightarrow> uaddr \<Rightarrow> bool option" where
  "page_in_bounds s page addr = do {
     pg \<leftarrow> page_meta s page;
     if ucast (size_class pg) = SIZE_CLASS_HUGE_SENTINEL
     then Some (addr = align_down_uaddr page 12 + push_bit 12 2)
     else do {
       (page_start, page_end) \<leftarrow> page_bounds s page;
       Some (page_start \<le> addr \<and> addr < page_end)
     }
   }"

section \<open>References to blocks\<close>

definition block_ref_is_valid :: "u64 \<Rightarrow> bool" where
  "block_ref_is_valid ref \<longleftrightarrow> ref AND 7 = 7"

definition block_ref_make :: "mm_state \<Rightarrow> uaddr \<Rightarrow> uaddr \<Rightarrow> u64 option" where
  "block_ref_make s page block = do {
     pg \<leftarrow> page_meta s page;
     assert_that (xor_cookie pg AND 7 = 7);
     (if block \<noteq> 0 then do {
       ok \<leftarrow> page_in_bounds s page block;
       assert_that ok;
       assert_that (is_aligned_uaddr block 3);
       assert_that (drop_bit 56 block = 0xff)
     } else Some ());
     let out = block XOR ucast (xor_cookie pg);
     assert_that (block_ref_is_valid out);
     Some out
   }"

definition block_ref_deref :: "mm_state \<Rightarrow> uaddr \<Rightarrow> u64 \<Rightarrow> uaddr option" where
  "block_ref_deref s page ref = do {
     pg \<leftarrow> page_meta s page;
     assert_that (xor_cookie pg AND 7 = 7);
     assert_that (block_ref_is_valid ref);
     let block = ref XOR ucast (xor_cookie pg);
     (if block \<noteq> 0 then do {
       ok \<leftarrow> page_in_bounds s page block;
       assert_that ok;
       assert_that (drop_bit 56 block = 0xff)
     } else Some ());
     Some block
   }"

section \<open>The lists of blocks of a page\<close>

definition page_is_empty :: "mm_state \<Rightarrow> uaddr \<Rightarrow> bool option" where
  "page_is_empty s page = do { pg \<leftarrow> page_meta s page; Some (used_blocks pg = remote_free_length pg) }"

definition page_is_full :: "mm_state \<Rightarrow> uaddr \<Rightarrow> bool option" where
  "page_is_full s page = do {
     pg \<leftarrow> page_meta s page;
     assert_that (block_ref_is_valid (free_list pg));
     block \<leftarrow> block_ref_deref s page (free_list pg);
     Some (block = 0)
   }"

definition page_push :: "mm_state \<Rightarrow> uaddr \<Rightarrow> uaddr \<Rightarrow> block_list \<Rightarrow> mm_state option" where
  "page_push s page block l = do {
     ok \<leftarrow> page_in_bounds s page block;
     assert_that ok;
     pg \<leftarrow> page_meta s page;
     assert_that (block_ref_is_valid (get_list l pg));
     let s = s\<lparr>ram := store (ram s) block (le_bytes (get_list l pg))\<rparr>;
     ref \<leftarrow> block_ref_make s page block;
     update_page s page (set_list l ref)
   }"

definition page_free_push :: "mm_state \<Rightarrow> uaddr \<Rightarrow> uaddr \<Rightarrow> usize \<Rightarrow> mm_state option" where
  "page_free_push s page block block_size = do {
     assert_that (8 \<le> block_size);
     let s = s\<lparr>ram := store (ram s) block (replicate (unat block_size) 0)\<rparr>;
     page_push s page block Free
   }"

definition page_local_free_push :: "mm_state \<Rightarrow> uaddr \<Rightarrow> uaddr \<Rightarrow> mm_state option" where
  "page_local_free_push s page block = do {
     empty \<leftarrow> page_is_empty s page;
     assert_that (\<not> empty);
     s \<leftarrow> page_push s page block Local_Free;
     update_page s page (\<lambda>pg. pg\<lparr>used_blocks := used_blocks pg - 1\<rparr>)
   }"

definition page_free_pop :: "mm_state \<Rightarrow> uaddr \<Rightarrow> (uaddr \<times> mm_state) option" where
  "page_free_pop s page = do {
     assert_that (page \<noteq> 0);
     pg \<leftarrow> page_meta s page;
     assert_that (block_ref_is_valid (free_list pg));
     block \<leftarrow> block_ref_deref s page (free_list pg);
     if block = 0 then Some (0, s)
     else do {
       let following = word_of_le (load (ram s) block 8);
       assert_that (block_ref_is_valid following);
       s \<leftarrow> update_page s page (\<lambda>pg. pg\<lparr>free_list := following\<rparr>);
       Some (block, s)
     }
   }"

definition page_collect :: "mm_state \<Rightarrow> uaddr \<Rightarrow> mm_state option" where
  "page_collect s page = do {
     pg \<leftarrow> page_meta s page;
     block \<leftarrow> block_ref_deref s page (free_list pg);
     if block \<noteq> 0 then Some s
     else do {
       s \<leftarrow> update_page s page (\<lambda>pg. pg\<lparr>free_list := local_free pg\<rparr>);
       ref \<leftarrow> block_ref_make s page 0;
       s \<leftarrow> update_page s page (\<lambda>pg. pg\<lparr>local_free := ref\<rparr>);
       assert_that (remote_free_length pg = 0);
       Some s
     }
   }"

section \<open>Pages of the heap\<close>

text \<open>The loop sets the slots from the smallest to the largest index of the class.\<close>

fun set_direct :: "mm_state \<Rightarrow> usize \<Rightarrow> uaddr \<Rightarrow> nat list \<Rightarrow> mm_state option" where
  "set_direct s c page [] = Some s"
| "set_direct s c page (i # is) = do {
     n \<leftarrow> size_of_pages_direct_index (of_nat i);
     d \<leftarrow> size_class_of_size n;
     assert_that (d = c);
     set_direct (s\<lparr>pages_direct := (pages_direct s)[i := page]\<rparr>) c page is
   }"

definition heap_update_pages_direct :: "mm_state \<Rightarrow> usize \<Rightarrow> mm_state option" where
  "heap_update_pages_direct s c = do {
     empty \<leftarrow> list_is_empty (heap_links s) (Pages (unat c));
     assert_that (\<not> empty);
     head \<leftarrow> heap_links s (Pages (unat c));
     page \<leftarrow> page_of_node (lnext head);
     direct \<leftarrow> size_class_in_pages_direct c;
     if \<not> direct then Some s
     else do {
       smallest \<leftarrow> (if c = 0 then Some 1 else do { n \<leftarrow> size_of_size_class (c - 1); Some (n + 1) });
       smallest_index \<leftarrow> pages_direct_index_of_size smallest;
       largest \<leftarrow> size_of_size_class c;
       largest_index \<leftarrow> pages_direct_index_of_size largest;
       set_direct s c page [unat smallest_index..<Suc (unat largest_index)]
     }
   }"

definition heap_push_unused_page :: "mm_state \<Rightarrow> uaddr \<Rightarrow> mm_state option" where
  "heap_push_unused_page s page = do {
     sg \<leftarrow> segments s (page_segment page);
     assert_that (page_shift sg = PAGE_SMALL_SHIFT);
     unlinked \<leftarrow> list_is_empty (heap_links s) (Page page);
     assert_that unlinked;
     empty \<leftarrow> page_is_empty s page;
     assert_that empty;
     s \<leftarrow> update_page s page (\<lambda>_. zero_page);
     let s = s\<lparr>heap_links := (heap_links s)(Page page \<mapsto> LIST_INIT (Page page))\<rparr>;
     on_links s (\<lambda>h. list_push h Unused_Pages (Page page))
   }"

section \<open>Segments\<close>

text \<open>
  The frames behind a segment.  Running out of frames runs into a \<^verbatim>\<open>TODO\<close>, which stops.
\<close>

partial_function (option) map_frames :: "paging_state \<Rightarrow> uaddr \<Rightarrow> uaddr \<Rightarrow> paging_state option" where
  "map_frames pg va segment_end = (if va < segment_end then do {
       ((ok, pa), ph) \<leftarrow> mm_alloc_physical (phys pg) PHYSICAL_ALLOC_DEFAULT;
       assert_that ok;
       (ok, pg) \<leftarrow> mm_paging_map (pg\<lparr>phys := ph\<rparr>) va pa PGPERM_KRW;
       assert_that ok;
       map_frames pg (va + push_bit 12 1) segment_end
     } else Some pg)"

definition segment_alloc :: "mm_state \<Rightarrow> usize \<Rightarrow> (uaddr \<times> mm_state) option" where
  "segment_alloc s bytes = do {
     assert_that (size_is_huge bytes);
     let bytes = align_up_uaddr bytes 12;
     (v, sp) \<leftarrow> vma_alloc_aligned (kernel_virtual_allocator s) (drop_bit 12 bytes) SEGMENT_SHIFT;
     let s = s\<lparr>kernel_virtual_allocator := sp\<rparr>;
     case v of None \<Rightarrow> Some (0, s)
     | Some vma \<Rightarrow> do {
         (segment_start, segment_end) \<leftarrow> vma_bounds sp vma;
         assert_that (is_aligned_uaddr segment_start SEGMENT_SHIFT);
         assert_that (segment_end - segment_start = bytes);
         pg \<leftarrow> map_frames (kernel_paging s) segment_start segment_end;
         Some (segment_start, s\<lparr>kernel_paging := pg\<rparr>)
       }
   }"

text \<open>
  Assigning a segment struct zeroes all its page structs.  The list heads in them are null
  then, and the store has no head for them until \<^verbatim>\<open>LIST_INIT\<close>.
\<close>

definition segment_pages :: "uaddr \<Rightarrow> uaddr list" where
  "segment_pages seg = map (\<lambda>i. page_at seg (of_nat i)) [0..<64]"

definition segment_store :: "mm_state \<Rightarrow> uaddr \<Rightarrow> mm_alloc_segment \<Rightarrow> mm_state" where
  "segment_store s seg sg = s\<lparr>segments := (segments s)(seg \<mapsto> sg),
     page_meta := (\<lambda>p. if p \<in> set (segment_pages seg) then Some zero_page else page_meta s p),
     heap_links := (\<lambda>n. if n \<in> Page ` set (segment_pages seg) then None else heap_links s n)\<rparr>"

primrec push_unused_pages :: "mm_state \<Rightarrow> uaddr list \<Rightarrow> mm_state option" where
  "push_unused_pages s [] = Some s"
| "push_unused_pages s (page # ps) = do {
     s \<leftarrow> heap_push_unused_page (s\<lparr>heap_links := (heap_links s)(Page page \<mapsto> LIST_INIT (Page page))\<rparr>) page;
     push_unused_pages s ps
   }"

definition segment_init_small :: "mm_state \<Rightarrow> uaddr \<Rightarrow> mm_state option" where
  "segment_init_small s seg = do {
     assert_that (is_aligned_uaddr seg SEGMENT_SHIFT);
     assert_that (heap_hart_id s = hart_id s);
     let s = segment_store s seg \<lparr>segment_hart_id = heap_hart_id s, used_pages = 0, page_shift = PAGE_SMALL_SHIFT\<rparr>;
     push_unused_pages s (segment_pages seg)
   }"

definition segment_init_large :: "mm_state \<Rightarrow> uaddr \<Rightarrow> mm_state option" where
  "segment_init_large s seg = do {
     assert_that (is_aligned_uaddr seg SEGMENT_SHIFT);
     let s = segment_store s seg \<lparr>segment_hart_id = hart_id s, used_pages = 0, page_shift = PAGE_LARGE_SHIFT\<rparr>;
     let first = Page (page_at seg 0);
     Some (s\<lparr>heap_links := (heap_links s)(first \<mapsto> LIST_INIT first)\<rparr>)
   }"

definition segment_init_huge :: "mm_state \<Rightarrow> uaddr \<Rightarrow> mm_state option" where
  "segment_init_huge s seg = do {
     assert_that (is_aligned_uaddr seg SEGMENT_SHIFT);
     let s = segment_store s seg \<lparr>segment_hart_id = hart_id s, used_pages = 0, page_shift = PAGE_HUGE_SHIFT\<rparr>;
     let first = Page (page_at seg 0);
     Some (s\<lparr>heap_links := (heap_links s)(first \<mapsto> LIST_INIT first)\<rparr>)
   }"

fun unlink_pages :: "heap_node links \<Rightarrow> uaddr list \<Rightarrow> bool \<Rightarrow> (bool \<times> heap_node links) option" where
  "unlink_pages h [] found = Some (found, h)"
| "unlink_pages h (page # ps) found = do {
     unlinked \<leftarrow> list_is_empty h (Page page);
     if unlinked then do {
       assert_that (\<not> found);
       unlink_pages h ps True
     } else do {
       h \<leftarrow> list_remove h (Page page);
       unlink_pages h ps found
     }
   }"

partial_function (option) unmap_frames :: "paging_state \<Rightarrow> uaddr \<Rightarrow> uaddr \<Rightarrow> paging_state option" where
  "unmap_frames pg va vma_hi = (if va < vma_hi then do {
       ((ok, pa), pg) \<leftarrow> mm_paging_unmap pg va;
       assert_that ok;
       ph \<leftarrow> mm_free_physical (phys pg) pa;
       unmap_frames (pg\<lparr>phys := ph\<rparr>) (va + push_bit 12 1) vma_hi
     } else Some pg)"

text \<open>Once unmapped, the structs at the beginning of the segment are gone.\<close>

definition segment_free :: "mm_state \<Rightarrow> uaddr \<Rightarrow> mm_state option" where
  "segment_free s seg = do {
     sg \<leftarrow> segments s seg;
     assert_that (used_pages sg = 0);
     let page_count = (if page_shift sg = PAGE_SMALL_SHIFT then 64 else 1);
     (found, h) \<leftarrow> unlink_pages (heap_links s) (take page_count (segment_pages seg)) False;
     assert_that found;
     vma \<leftarrow> vma_find (kernel_virtual_allocator s) seg;
     (vma_lo, vma_hi) \<leftarrow> vma_bounds (kernel_virtual_allocator s) vma;
     assert_that (vma_lo = seg);
     assert_that (size_is_huge (vma_hi - vma_lo));
     (if page_shift sg \<noteq> PAGE_HUGE_SHIFT then assert_that (vma_hi - vma_lo = push_bit SEGMENT_SHIFT 1) else Some ());
     pg \<leftarrow> unmap_frames (kernel_paging s) vma_lo vma_hi;
     sp \<leftarrow> vma_free (kernel_virtual_allocator s) (Some vma);
     Some (s\<lparr>kernel_paging := pg, kernel_virtual_allocator := sp, segments := (segments s)(seg := None),
       page_meta := (\<lambda>p. if p \<in> set (segment_pages seg) then None else page_meta s p),
       heap_links := (\<lambda>n. if n \<in> Page ` set (segment_pages seg) then None else h n)\<rparr>)
   }"

section \<open>New pages\<close>

definition page_alloc_small :: "mm_state \<Rightarrow> usize \<Rightarrow> (uaddr \<times> mm_state) option" where
  "page_alloc_small s c = do {
     assert_that (size_class_is_valid c);
     small \<leftarrow> size_class_is_small c;
     assert_that small;
     empty \<leftarrow> list_is_empty (heap_links s) Unused_Pages;
     (ok, s) \<leftarrow> (if empty then do {
         (seg, s) \<leftarrow> segment_alloc s (push_bit SEGMENT_SHIFT 1);
         if seg = 0 then Some (False, s)
         else do {
           s \<leftarrow> segment_init_small s seg;
           empty \<leftarrow> list_is_empty (heap_links s) Unused_Pages;
           assert_that (\<not> empty);
           Some (True, s)
         }
       } else Some (True, s));
     if \<not> ok then Some (0, s)
     else do {
       (node, h) \<leftarrow> list_shift (heap_links s) Unused_Pages;
       page \<leftarrow> page_of_node node;
       let s = s\<lparr>heap_links := h\<rparr>;
       sg \<leftarrow> segments s (page_segment page);
       assert_that (segment_hart_id sg = heap_hart_id s);
       assert_that (page_shift sg = PAGE_SMALL_SHIFT);
       s \<leftarrow> update_segment s (page_segment page) (\<lambda>sg. sg\<lparr>used_pages := used_pages sg + 1\<rparr>);
       Some (page, s)
     }
   }"

text \<open>The cookie has 56 bits, of which the low three are set.\<close>

definition page_init_common :: "mm_state \<Rightarrow> uaddr \<Rightarrow> usize \<Rightarrow> mm_state option" where
  "page_init_common s page c = do {
     assert_that (size_class_is_valid c \<or> c = SIZE_CLASS_HUGE_SENTINEL);
     (r, rng) \<leftarrow> random_u64 (kernel_rng s);
     let s = s\<lparr>kernel_rng := rng\<rparr>;
     s \<leftarrow> update_page s page (\<lambda>pg. pg\<lparr>xor_cookie := ucast (r AND (push_bit 56 1 - 1))\<rparr>);
     s \<leftarrow> update_page s page (\<lambda>pg. pg\<lparr>xor_cookie := xor_cookie pg OR 7\<rparr>);
     null \<leftarrow> block_ref_make s page 0;
     s \<leftarrow> update_page s page (\<lambda>pg. pg\<lparr>free_list := null\<rparr>);
     s \<leftarrow> update_page s page (\<lambda>pg. pg\<lparr>local_free := null\<rparr>);
     s \<leftarrow> update_page s page (\<lambda>pg. pg\<lparr>remote_free := null AND NOT 1\<rparr>);
     update_page s page (\<lambda>pg. pg\<lparr>used_blocks := 0, remote_free_length := 0,
       size_class := ucast (c AND 0x7f), in_full_list := False\<rparr>)
   }"

text \<open>
  The free list of a page is filled in a random order: up to 16 candidates wait in
  \<^verbatim>\<open>blocks\<close>; a full buffer gives one of them for each further block.
\<close>

primrec first_blocks :: "nat \<Rightarrow> uaddr \<Rightarrow> uaddr \<Rightarrow> usize \<Rightarrow> uaddr list \<times> uaddr" where
  "first_blocks 0 page_start page_end block_size = ([], page_start)"
| "first_blocks (Suc n) page_start page_end block_size =
     (if page_start = page_end then ([], page_start)
      else let (blocks, start) = first_blocks n (page_start + block_size) page_end block_size
           in (page_start # blocks, start))"

partial_function (option) push_rest ::
    "mm_state \<Rightarrow> uaddr \<Rightarrow> uaddr list \<Rightarrow> uaddr \<Rightarrow> uaddr \<Rightarrow> usize \<Rightarrow> (uaddr list \<times> mm_state) option" where
  "push_rest s page blocks page_start page_end block_size =
     (if page_start = page_end then Some (blocks, s)
      else do {
        assert_that (page_start < page_end);
        (r, rng) \<leftarrow> random (kernel_rng s);
        let i = unat (r AND 0xf);
        s \<leftarrow> page_free_push (s\<lparr>kernel_rng := rng\<rparr>) page (blocks ! i) block_size;
        push_rest s page (blocks[i := page_start]) (page_start + block_size) page_end block_size
      })"

primrec push_each :: "mm_state \<Rightarrow> uaddr \<Rightarrow> uaddr list \<Rightarrow> usize \<Rightarrow> mm_state option" where
  "push_each s page [] block_size = Some s"
| "push_each s page (b # bs) block_size = do { s \<leftarrow> page_free_push s page b block_size; push_each s page bs block_size }"

text \<open>\<^verbatim>\<open>blocks_len\<close> is the length of the list: the last block takes the place of the chosen one.\<close>

function push_shuffled :: "mm_state \<Rightarrow> uaddr \<Rightarrow> uaddr list \<Rightarrow> usize \<Rightarrow> mm_state option" where
  "push_shuffled s page blocks block_size =
     (if blocks = [] then Some s
      else do {
        (r, rng) \<leftarrow> random (kernel_rng s);
        let i = unat (r mod of_nat (length blocks));
        assert_that (blocks ! i \<noteq> 0);
        s \<leftarrow> page_free_push (s\<lparr>kernel_rng := rng\<rparr>) page (blocks ! i) block_size;
        push_shuffled s page (butlast (blocks[i := last blocks])) block_size
      })"
  by auto
termination by (relation "measure (\<lambda>(s, page, blocks, block_size). length blocks)") auto

declare push_shuffled.simps [simp del]

definition page_init_small_or_large :: "mm_state \<Rightarrow> uaddr \<Rightarrow> usize \<Rightarrow> mm_state option" where
  "page_init_small_or_large s page c = do {
     unlinked \<leftarrow> list_is_empty (heap_links s) (Page page);
     assert_that unlinked;
     block_size \<leftarrow> size_of_size_class c;
     s \<leftarrow> page_init_common s page c;
     (page_start, page_end) \<leftarrow> page_bounds s page;
     l \<leftarrow> log2_size_of_size_class c;
     let page_start = align_up_uaddr page_start (unat l);
     assert_that (is_aligned_uaddr page_start (unat l));
     assert_that (is_aligned_uaddr page_end (unat l));
     let (blocks, page_start) = first_blocks 16 page_start page_end block_size;
     assert_that (blocks \<noteq> []);
     assert_that (page_start \<le> page_end);
     s \<leftarrow> (if length blocks = 16 then do {
         (blocks, s) \<leftarrow> push_rest s page blocks page_start page_end block_size;
         push_each s page blocks block_size
       } else push_shuffled s page blocks block_size);
     s \<leftarrow> on_links s (\<lambda>h. list_push h (Pages (unat c)) (Page page));
     heap_update_pages_direct s c
   }"

definition page_init_huge :: "mm_state \<Rightarrow> uaddr \<Rightarrow> usize \<Rightarrow> mm_state option" where
  "page_init_huge s page bytes = do {
     unlinked \<leftarrow> list_is_empty (heap_links s) (Page page);
     assert_that unlinked;
     s \<leftarrow> page_init_common s page SIZE_CLASS_HUGE_SENTINEL;
     let page_start = page_segment page + push_bit 12 2;
     s \<leftarrow> page_free_push s page page_start (align_up_uaddr bytes 12);
     on_links s (\<lambda>h. list_push h (Pages (unat SIZE_CLASS_HUGE_SENTINEL)) (Page page))
   }"

definition page_new_small :: "mm_state \<Rightarrow> usize \<Rightarrow> (uaddr \<times> mm_state) option" where
  "page_new_small s c = do {
     assert_that (size_class_is_valid c);
     small \<leftarrow> size_class_is_small c;
     assert_that small;
     (page, s) \<leftarrow> page_alloc_small s c;
     if page = 0 then Some (0, s)
     else do { s \<leftarrow> page_init_small_or_large s page c; Some (page, s) }
   }"

definition page_new_large :: "mm_state \<Rightarrow> usize \<Rightarrow> (uaddr \<times> mm_state) option" where
  "page_new_large s c = do {
     assert_that (size_class_is_valid c);
     small \<leftarrow> size_class_is_small c;
     assert_that (\<not> small);
     (seg, s) \<leftarrow> segment_alloc s (push_bit SEGMENT_SHIFT 1);
     if seg = 0 then Some (0, s)
     else do {
       s \<leftarrow> segment_init_large s seg;
       let page = page_at seg 0;
       s \<leftarrow> page_init_small_or_large s page c;
       sg \<leftarrow> segments s seg;
       assert_that (segment_hart_id sg = heap_hart_id s);
       assert_that (page_shift sg = PAGE_LARGE_SHIFT);
       s \<leftarrow> update_segment s seg (\<lambda>sg. sg\<lparr>used_pages := used_pages sg + 1\<rparr>);
       Some (page, s)
     }
   }"

definition page_new_huge :: "mm_state \<Rightarrow> usize \<Rightarrow> (uaddr \<times> mm_state) option" where
  "page_new_huge s bytes = do {
     assert_that (size_is_huge bytes);
     (seg, s) \<leftarrow> segment_alloc s (bytes + push_bit 12 2);
     if seg = 0 then Some (0, s)
     else do {
       s \<leftarrow> segment_init_huge s seg;
       let page = page_at seg 0;
       s \<leftarrow> page_init_huge s page bytes;
       sg \<leftarrow> segments s seg;
       assert_that (segment_hart_id sg = heap_hart_id s);
       assert_that (page_shift sg = PAGE_HUGE_SHIFT);
       s \<leftarrow> update_segment s seg (\<lambda>sg. sg\<lparr>used_pages := used_pages sg + 1\<rparr>);
       Some (page, s)
     }
   }"

text \<open>The last page of a size class with direct pointers stays where it is.\<close>

definition page_free :: "mm_state \<Rightarrow> uaddr \<Rightarrow> mm_state option" where
  "page_free s page = do {
     empty \<leftarrow> page_is_empty s page;
     assert_that empty;
     pg \<leftarrow> page_meta s page;
     let c = ucast (size_class pg);
     direct \<leftarrow> (if size_class_is_valid c then size_class_in_pages_direct c else Some False);
     head \<leftarrow> heap_links s (Page page);
     if direct \<and> lprev head = lnext head then Some s
     else do {
       s \<leftarrow> on_links s (\<lambda>h. list_remove h (Page page));
       s \<leftarrow> (if direct then heap_update_pages_direct s c else Some s);
       let seg = page_segment page;
       sg \<leftarrow> segments s seg;
       assert_that (used_pages sg \<noteq> 0);
       s \<leftarrow> update_segment s seg (\<lambda>sg. sg\<lparr>used_pages := used_pages sg - 1\<rparr>);
       if used_pages sg - 1 \<noteq> 0 then heap_push_unused_page s page
       else segment_free s seg
     }
   }"

section \<open>The heap of the boot hart\<close>

primrec new_pages :: "mm_state \<Rightarrow> nat list \<Rightarrow> mm_state option" where
  "new_pages s [] = Some s"
| "new_pages s (c # cs) = do {
     (page, s) \<leftarrow> page_new_small s (of_nat c);
     assert_that (page \<noteq> 0);
     new_pages s cs
   }"

primrec check_direct :: "mm_state \<Rightarrow> nat list \<Rightarrow> unit option" where
  "check_direct s [] = Some ()"
| "check_direct s (i # is) = do {
     assert_that (pages_direct s ! i \<noteq> 0);
     n \<leftarrow> size_of_pages_direct_index (of_nat i);
     c \<leftarrow> size_class_of_size n;
     pg \<leftarrow> page_meta s (pages_direct s ! i);
     assert_that (c = ucast (size_class pg));
     check_direct s is
   }"

definition heap_init :: "mm_state \<Rightarrow> uaddr \<Rightarrow> mm_state option" where
  "heap_init s seg = do {
     let s = s\<lparr>heap_hart_id := hart_id s, pages_direct := replicate 128 0, delayed_free := 0,
       heap_links := (\<lambda>n. if n \<in> {Unused_Pages, Full_Pages} \<union> Pages ` {..<18} then Some (LIST_INIT n) else heap_links s n)\<rparr>;
     s \<leftarrow> segment_init_small s seg;
     s \<leftarrow> new_pages s [0..<8];
     check_direct s [0..<128];
     Some s
   }"

definition mm_alloc_init :: "mm_state \<Rightarrow> mm_state option" where
  "mm_alloc_init s = do {
     assert_that (\<not> alloc_inited s);
     s \<leftarrow> heap_init (s\<lparr>alloc_inited := True\<rparr>) 0xffffffe000000000;
     assert_that (\<not> heap_installed s);
     Some (s\<lparr>heap_installed := True\<rparr>)
   }"

section \<open>Allocation and release\<close>

text \<open>A free from another hart is a \<^verbatim>\<open>TODO\<close>, which stops.\<close>

definition free :: "mm_state \<Rightarrow> uaddr \<Rightarrow> mm_state option" where
  "free s ptr = (if ptr = 0 then Some s else do {
     let seg = segment_of_ptr ptr;
     page \<leftarrow> page_of_ptr s ptr;
     sg \<leftarrow> segments s seg;
     assert_that (segment_hart_id sg = hart_id s);
     s \<leftarrow> page_local_free_push s page ptr;
     empty \<leftarrow> page_is_empty s page;
     pg \<leftarrow> page_meta s page;
     if empty then page_free s page
     else if in_full_list pg then do {
       s \<leftarrow> on_links s (\<lambda>h. list_remove h (Page page));
       s \<leftarrow> on_links s (\<lambda>h. list_push h (Pages (unat (size_class pg))) (Page page));
       update_page s page (\<lambda>pg. pg\<lparr>remote_free := remote_free pg AND NOT 1, in_full_list := False\<rparr>)
     } else Some s
   })"

definition alloc_generic_from_page :: "mm_state \<Rightarrow> uaddr \<Rightarrow> (uaddr \<times> mm_state) option" where
  "alloc_generic_from_page s page = do {
     unlinked \<leftarrow> list_is_empty (heap_links s) (Page page);
     assert_that (\<not> unlinked);
     sg \<leftarrow> segments s (page_segment page);
     assert_that (used_pages sg \<noteq> 0);
     (block, s) \<leftarrow> page_free_pop s page;
     assert_that (block \<noteq> 0);
     s \<leftarrow> update_page s page (\<lambda>pg. pg\<lparr>used_blocks := used_blocks pg + 1\<rparr>);
     Some (block, s)
   }"

definition alloc_huge :: "mm_state \<Rightarrow> usize \<Rightarrow> (uaddr \<times> mm_state) option" where
  "alloc_huge s bytes = do {
     assert_that (size_is_huge bytes);
     (page, s) \<leftarrow> page_new_huge s bytes;
     if page = 0 then Some (0, s) else alloc_generic_from_page s page
   }"

text \<open>The delayed free list is linked with plain pointers.\<close>

partial_function (option) free_delayed :: "mm_state \<Rightarrow> mm_state option" where
  "free_delayed s = (if delayed_free s = 0 then Some s else do {
     let block = delayed_free s;
     s \<leftarrow> free (s\<lparr>delayed_free := word_of_le (load (ram s) block 8)\<rparr>) block;
     free_delayed s
   })"

text \<open>
  The walk over the pages of a size class; it gives the page to allocate from, or 0 at the end
  of the list.
\<close>

partial_function (option) scan_pages :: "mm_state \<Rightarrow> nat \<Rightarrow> heap_node \<Rightarrow> (uaddr \<times> mm_state) option" where
  "scan_pages s c page_head = (if page_head = Pages c then Some (0, s) else do {
     page \<leftarrow> page_of_node page_head;
     head \<leftarrow> heap_links s page_head;
     let page_head = lnext head;
     empty \<leftarrow> page_is_empty s page;
     if empty then do { s \<leftarrow> page_free s page; scan_pages s c page_head }
     else do {
       s \<leftarrow> page_collect s page;
       full \<leftarrow> page_is_full s page;
       if \<not> full then Some (page, s)
       else do {
         s \<leftarrow> on_links s (\<lambda>h. list_remove h (Page page));
         s \<leftarrow> on_links s (\<lambda>h. list_push h Full_Pages (Page page));
         s \<leftarrow> update_page s page (\<lambda>pg. pg\<lparr>remote_free := remote_free pg OR 1, in_full_list := True\<rparr>);
         scan_pages s c page_head
       }
     }
   })"

definition alloc_generic :: "mm_state \<Rightarrow> usize \<Rightarrow> (uaddr \<times> mm_state) option" where
  "alloc_generic s bytes = do {
     assert_that (bytes \<noteq> 0);
     s \<leftarrow> free_delayed s;
     if size_is_huge bytes then alloc_huge s bytes
     else do {
       c \<leftarrow> size_class_of_size bytes;
       head \<leftarrow> heap_links s (Pages (unat c));
       (page, s) \<leftarrow> scan_pages s (unat c) (lnext head);
       if page \<noteq> 0 then alloc_generic_from_page s page
       else do {
         empty \<leftarrow> list_is_empty (heap_links s) (Pages (unat c));
         assert_that empty;
         (page, s) \<leftarrow> (if size_is_small bytes then page_new_small s c else page_new_large s c);
         if page = 0 then Some (0, s) else alloc_generic_from_page s page
       }
     }
   }"

definition alloc_small :: "mm_state \<Rightarrow> usize \<Rightarrow> (uaddr \<times> mm_state) option" where
  "alloc_small s bytes = do {
     assert_that (0 < bytes \<and> bytes \<le> 1024);
     i \<leftarrow> pages_direct_index_of_size bytes;
     let page = pages_direct s ! unat i;
     assert_that (page \<noteq> 0);
     (block, s) \<leftarrow> page_free_pop s page;
     if block = 0 then alloc_generic s bytes
     else do {
       s \<leftarrow> update_page s page (\<lambda>pg. pg\<lparr>used_blocks := used_blocks pg + 1\<rparr>);
       Some (block, s)
     }
   }"

definition alloc :: "mm_state \<Rightarrow> usize \<Rightarrow> (uaddr \<times> mm_state) option" where
  "alloc s bytes =
     (if bytes = 0 then alloc_small s 1
      else if bytes \<le> 1024 then alloc_small s bytes
      else alloc_generic s bytes)"

definition zalloc :: "mm_state \<Rightarrow> usize \<Rightarrow> (uaddr \<times> mm_state) option" where
  "zalloc s bytes = do {
     (out, s) \<leftarrow> alloc s bytes;
     Some (out, if out \<noteq> 0 then s\<lparr>ram := store (ram s) out (replicate (unat bytes) 0)\<rparr> else s)
   }"

definition memdup :: "mm_state \<Rightarrow> u8 list \<Rightarrow> (uaddr \<times> mm_state) option" where
  "memdup s bs = do {
     (out, s) \<leftarrow> alloc s (of_nat (length bs));
     if out = 0 then Some (0, s) else Some (out, s\<lparr>ram := store (ram s) out bs\<rparr>)
   }"

text \<open>\<^verbatim>\<open>strdup\<close> copies the bytes of the string and the terminating zero.\<close>

definition strdup :: "mm_state \<Rightarrow> u8 list \<Rightarrow> (uaddr \<times> mm_state) option" where
  "strdup s str = memdup s (str @ [0])"

definition realloc :: "mm_state \<Rightarrow> uaddr \<Rightarrow> usize \<Rightarrow> (uaddr \<times> mm_state) option" where
  "realloc s ptr new_size = do {
     page \<leftarrow> page_of_ptr s ptr;
     new_class \<leftarrow> size_class_of_size new_size;
     pg \<leftarrow> page_meta s page;
     if ucast (size_class pg) = new_class then Some (ptr, s)
     else do {
       old_size \<leftarrow> size_of_size_class (ucast (size_class pg));
       (out, s) \<leftarrow> alloc s new_size;
       if out = 0 then Some (0, s)
       else do {
         let s = s\<lparr>ram := store (ram s) out (load (ram s) ptr (unat old_size))\<rparr>;
         s \<leftarrow> free s ptr;
         Some (out, s)
       }
     }
   }"
end
