(* ===== verification/Heap_Pages.thy ===== *)
theory Heap_Pages
  imports Heap
begin

unbundle bit_operations_syntax

text \<open>
  The pages of the heap: what the lists of free blocks threaded through a page contain
  (\<open>page_lists\<close>), the effect on them of each operation on one page, and the shuffled
  initialization, which puts every block of the page on its free list exactly once.
\<close>


section \<open>Loads and stores\<close>

lemma length_load [simp]: "length (load m a n) = n"
  by (simp add: load_def)

lemma load_store_same:
  assumes "length bs < 2 ^ 64"
  shows "load (store m a bs) a (length bs) = bs"
  by (rule nth_equalityI) (use assms in \<open>simp_all add: load_def store_def\<close>)

text \<open>Multiples of \<open>2 ^ l\<close> that differ are at least that far apart, in both directions around the address space.\<close>

lemma aligned_apart:
  assumes "is_aligned_uaddr a l" "is_aligned_uaddr b l" "a \<noteq> b" "l < 64" "i < 2 ^ l"
  shows "2 ^ l \<le> unat (b + of_nat i - a)"
proof -
  have d: "2 ^ l dvd unat (b - a)"
  proof -
    have "2 ^ l dvd unat a" "2 ^ l dvd unat b" using assms(1,2) by (simp_all add: is_aligned_iff_dvd)
    moreover have "unat (b - a) = (if unat a \<le> unat b then unat b - unat a else unat b + 2 ^ 64 - unat a)"
      using unat_sub_if_size [of b a] by (simp add: word_size)
    moreover have "(2 :: nat) ^ l dvd 2 ^ 64" using assms(4) by (intro le_imp_power_dvd) simp
    ultimately show ?thesis by (auto intro!: dvd_diff_nat intro: dvd_add simp del: power_numeral)
  qed
  have nz: "unat (b - a) \<noteq> 0" using assms(3) by (simp add: unat_eq_zero)
  obtain k where k: "unat (b - a) = 2 ^ l * k" using d by (rule dvdE)
  have p64: "(2 :: nat) ^ 64 = 2 ^ l * 2 ^ (64 - l)" using assms(4) by (simp flip: power_add)
  have "2 ^ l * k < 2 ^ l * 2 ^ (64 - l)" using k p64 unat_u64_less [of "b - a"] by simp
  then have "k < 2 ^ (64 - l)" by simp
  then have "2 ^ l * (k + 1) \<le> 2 ^ 64" unfolding p64 by (intro mult_le_mono2) simp
  then have "unat (b - a) + i < 2 ^ 64" using k assms(5) by simp
  moreover have "i < 2 ^ 64" using calculation by simp
  ultimately have "unat (b - a + of_nat i) = unat (b - a) + i" by (simp add: unat_plus_small)
  moreover have "2 ^ l \<le> unat (b - a)" using k nz by (cases k) simp_all
  ultimately show ?thesis by (simp add: algebra_simps)
qed

lemma load_store_other:
  assumes "is_aligned_uaddr a l" "is_aligned_uaddr b l" "a \<noteq> b" "l < 64" "length bs \<le> 2 ^ l" "n \<le> 2 ^ l"
  shows "load (store m a bs) b n = load m b n"
proof -
  have "store m a bs (b + of_nat i) = m (b + of_nat i)" if "i < n" for i
    using aligned_apart [OF assms(1-4), of i] assms(5,6) that by (simp add: store_def)
  then show ?thesis by (simp add: load_def)
qed

section \<open>References to blocks\<close>

text \<open>An address the assertions accept as a block of the page.\<close>

definition block_ok :: "mm_state \<Rightarrow> uaddr \<Rightarrow> uaddr \<Rightarrow> bool" where
  "block_ok s page b \<longleftrightarrow> page_in_bounds s page b = Some True \<and> is_aligned_uaddr b 3 \<and> drop_bit 56 b = 0xff"

lemma block_ok_nonzero: "block_ok s page b \<Longrightarrow> b \<noteq> 0"
  by (auto simp: block_ok_def)

lemma valid_xor:
  assumes "is_aligned_uaddr b 3" "(c :: 56 word) AND 7 = 7"
  shows "block_ref_is_valid (b XOR ucast c)"
proof -
  have m: "(7 :: u64) = mask 3" "(7 :: 56 word) = mask 3" by (simp_all add: mask_eq_exp_minus_1)
  have b: "\<not> bit b n" if "n < 3" for n
  proof -
    have "unat (take_bit 3 b) = take_bit 3 (unat b)" by (rule unsigned_take_bit_eq)
    also have "\<dots> = 0" using assms(1) unfolding is_aligned_iff_dvd take_bit_eq_mod by (rule dvd_imp_mod_0)
    finally have "unat (take_bit 3 b) = 0" .
    then have "b AND mask 3 = 0" by (simp add: unat_eq_zero take_bit_eq_mask)
    then have "\<not> bit (b AND mask 3) n" by simp
    then show ?thesis using that by (simp add: bit_simps)
  qed
  have c: "bit c n" if "n < 3" for n
  proof -
    have "bit (c AND mask 3) n" unfolding assms(2) [unfolded m] using that by (simp add: bit_simps)
    then show ?thesis by (simp add: bit_simps)
  qed
  show ?thesis unfolding block_ref_is_valid_def m
    by (rule bit_word_eqI) (use b c in \<open>auto simp: bit_simps\<close>)
qed

lemma block_ref_make_ok:
  assumes "page_meta s page = Some pg" "xor_cookie pg AND 7 = 7" "b = 0 \<or> block_ok s page b"
  shows "block_ref_make s page b = Some (b XOR ucast (xor_cookie pg))"
proof -
  have "is_aligned_uaddr b 3" using assms(3) by (auto simp: block_ok_def is_aligned_iff_dvd)
  then show ?thesis using assms valid_xor [of b "xor_cookie pg"]
    by (auto simp: block_ref_make_def block_ok_def)
qed

lemma block_ref_deref_ok:
  assumes "page_meta s page = Some pg" "xor_cookie pg AND 7 = 7" "b = 0 \<or> block_ok s page b"
  shows "block_ref_deref s page (b XOR ucast (xor_cookie pg)) = Some b"
proof -
  have "is_aligned_uaddr b 3" using assms(3) by (auto simp: block_ok_def is_aligned_iff_dvd)
  then show ?thesis using assms valid_xor [of b "xor_cookie pg"]
    by (auto simp: block_ref_deref_def block_ok_def xor.assoc)
qed

text \<open>The bounds of a page depend on its place, its size class and the shift of its segment.\<close>

definition same_bounds :: "uaddr \<Rightarrow> mm_state \<Rightarrow> mm_state \<Rightarrow> bool" where
  "same_bounds page s s' \<longleftrightarrow> map_option size_class (page_meta s' page) = map_option size_class (page_meta s page) \<and>
     map_option page_shift (segments s' (page_segment page)) = map_option page_shift (segments s (page_segment page))"

lemma page_bounds_cong: "same_bounds page s s' \<Longrightarrow> page_bounds s' page = page_bounds s page"
  unfolding same_bounds_def page_bounds_def Let_def
  by (cases "page_meta s page"; cases "page_meta s' page"; cases "segments s (page_segment page)";
      cases "segments s' (page_segment page)"; cases "page_index page") simp_all

lemma page_in_bounds_cong: "same_bounds page s s' \<Longrightarrow> page_in_bounds s' page b = page_in_bounds s page b"
  using page_bounds_cong [of page s s'] unfolding same_bounds_def page_in_bounds_def
  by (cases "page_meta s page"; cases "page_meta s' page") simp_all

lemma block_ok_cong: "same_bounds page s s' \<Longrightarrow> block_ok s' page b = block_ok s page b"
  by (simp add: block_ok_def page_in_bounds_cong)

lemma same_bounds_ram [simp]: "same_bounds page s (s\<lparr>ram := m\<rparr>)" "same_bounds page s (s\<lparr>kernel_rng := g\<rparr>)"
  by (simp_all add: same_bounds_def)

lemma same_bounds_update:
  "page_meta s page = Some pg \<Longrightarrow> size_class pg' = size_class pg \<Longrightarrow>
   same_bounds page s (s\<lparr>page_meta := (page_meta s)(page \<mapsto> pg')\<rparr>)"
  by (simp add: same_bounds_def)

section \<open>Lists of free blocks\<close>

fun chain :: "(uaddr \<Rightarrow> u8) \<Rightarrow> 56 word \<Rightarrow> u64 \<Rightarrow> uaddr list \<Rightarrow> bool" where
  "chain m cookie r [] \<longleftrightarrow> r = ucast cookie"
| "chain m cookie r (b # bs) \<longleftrightarrow> r = b XOR ucast cookie \<and> chain m cookie (word_of_le (load m b 8)) bs"

lemma chain_store_other:
  assumes "chain m c r bs" "b \<notin> set bs" "\<forall>x \<in> set (b # bs). is_aligned_uaddr x l" "length ws \<le> 2 ^ l" "3 \<le> l" "l < 64"
  shows "chain (store m b ws) c r bs"
  using assms(1-3)
proof (induction bs arbitrary: r)
  case (Cons x bs)
  have "(8 :: nat) \<le> 2 ^ l" using power_increasing [OF assms(5), of "2 :: nat"] by simp
  then have "load (store m b ws) x 8 = load m x 8"
    using Cons.prems assms(4,6) by (intro load_store_other) auto
  then show ?case using Cons by simp
qed simp

lemma chain_head:
  "chain m c r bs \<Longrightarrow> r = (if bs = [] then 0 else hd bs) XOR ucast c"
  by (cases bs) simp_all

text \<open>
  A page and its two lists of free blocks, the one to allocate from and the one
  \<^verbatim>\<open>free\<close> pushes to.  Blocks are multiples of \<open>2 ^ l\<close> bytes.
\<close>

definition page_lists :: "mm_state \<Rightarrow> uaddr \<Rightarrow> nat \<Rightarrow> uaddr list \<Rightarrow> uaddr list \<Rightarrow> bool" where
  "page_lists s page l fs ls \<longleftrightarrow> (\<exists>pg. page_meta s page = Some pg \<and> xor_cookie pg AND 7 = 7 \<and>
     chain (ram s) (xor_cookie pg) (free_list pg) fs \<and> chain (ram s) (xor_cookie pg) (local_free pg) ls) \<and>
     distinct (fs @ ls) \<and> (\<forall>b \<in> set (fs @ ls). block_ok s page b \<and> is_aligned_uaddr b l) \<and> 3 \<le> l \<and> l < 64"

lemma page_listsE:
  assumes "page_lists s page l fs ls"
  obtains pg where "page_meta s page = Some pg" "xor_cookie pg AND 7 = 7"
    "chain (ram s) (xor_cookie pg) (free_list pg) fs" "chain (ram s) (xor_cookie pg) (local_free pg) ls"
  using assms by (auto simp: page_lists_def)

lemma page_lists_update:
  assumes "page_lists s page l fs ls" "page_meta s page = Some pg"
    "xor_cookie pg' = xor_cookie pg" "size_class pg' = size_class pg" "free_list pg' = free_list pg" "local_free pg' = local_free pg"
  shows "page_lists (s\<lparr>page_meta := (page_meta s)(page \<mapsto> pg')\<rparr>) page l fs ls"
  using assms block_ok_cong [OF same_bounds_update [OF assms(2,4)]] by (simp add: page_lists_def)

lemma valid_cookie: "(c :: 56 word) AND 7 = 7 \<Longrightarrow> block_ref_is_valid (ucast c)"
  using valid_xor [of 0 c] by (simp add: is_aligned_iff_dvd)

lemma chain_valid:
  assumes "chain m c r bs" "\<forall>b \<in> set bs. is_aligned_uaddr b 3" "c AND 7 = 7"
  shows "block_ref_is_valid r"
  using assms valid_xor [OF _ assms(3)] valid_cookie [OF assms(3)] by (cases bs) simp_all

text \<open>The lists an operation on the list \<open>l\<close> of the two leaves.\<close>

fun pushed :: "block_list \<Rightarrow> uaddr \<Rightarrow> uaddr list \<times> uaddr list \<Rightarrow> uaddr list \<times> uaddr list" where
  "pushed Free b (fs, ls) = (b # fs, ls)"
| "pushed Local_Free b (fs, ls) = (fs, b # ls)"

text \<open>What an operation on one page leaves alone.\<close>

definition page_frame :: "mm_state \<Rightarrow> uaddr \<Rightarrow> mm_state \<Rightarrow> bool" where
  "page_frame s page s' \<longleftrightarrow> (\<exists>pg' m g. s' = s\<lparr>page_meta := (page_meta s)(page \<mapsto> pg'), ram := m, kernel_rng := g\<rparr> \<and>
     map_option size_class (page_meta s page) = Some (size_class pg'))"

lemma page_frame_refl: "page_meta s page = Some pg \<Longrightarrow> page_frame s page s"
  unfolding page_frame_def by (rule exI [of _ pg], rule exI [of _ "ram s"], rule exI [of _ "kernel_rng s"]) (simp add: map_upd_triv)

lemma page_frame_trans: "page_frame s page t \<Longrightarrow> page_frame t page u \<Longrightarrow> page_frame s page u"
  by (auto simp: page_frame_def) blast

lemma page_frame_bounds: "page_frame s page s' \<Longrightarrow> same_bounds page s s'"
  by (auto simp: page_frame_def same_bounds_def)

lemma page_push_spec:
  assumes "page_lists s page l fs ls" "block_ok s page b" "is_aligned_uaddr b l" "b \<notin> set (fs @ ls)"
  obtains s' where "page_push s page b w = Some s'" "page_lists s' page l (fst (pushed w b (fs, ls))) (snd (pushed w b (fs, ls)))"
    "page_frame s page s'" "kernel_rng s' = kernel_rng s"
    "map_option used_blocks (page_meta s' page) = map_option used_blocks (page_meta s page)"
    "\<And>x. x - b \<ge> 8 \<Longrightarrow> ram s' x = ram s x"
proof -
  obtain pg where pg: "page_meta s page = Some pg" "xor_cookie pg AND 7 = 7"
    "chain (ram s) (xor_cookie pg) (free_list pg) fs" "chain (ram s) (xor_cookie pg) (local_free pg) ls"
    using assms(1) by (rule page_listsE)
  have ok: "distinct (fs @ ls)" "\<forall>b \<in> set (fs @ ls). block_ok s page b \<and> is_aligned_uaddr b l" "3 \<le> l" "l < 64"
    using assms(1) by (simp_all add: page_lists_def)
  let ?r = "get_list w pg"
  have "block_ref_is_valid (free_list pg)" "block_ref_is_valid (local_free pg)"
    using chain_valid [OF pg(3)] chain_valid [OF pg(4)] ok(2) pg(2) by (auto simp: block_ok_def)
  then have v: "block_ref_is_valid ?r" by (cases w) simp_all
  let ?m = "store (ram s) b (le_bytes ?r)"
  let ?t = "s\<lparr>ram := ?m\<rparr>"
  let ?pg = "set_list w (b XOR ucast (xor_cookie pg)) pg"
  let ?s = "s\<lparr>ram := ?m, page_meta := (page_meta s)(page \<mapsto> ?pg)\<rparr>"
  have "block_ref_make ?t page b = Some (b XOR ucast (xor_cookie pg))"
    by (rule block_ref_make_ok) (use pg(1,2) assms(2) block_ok_cong [of page s ?t b] in simp_all)
  then have e: "page_push s page b w = Some ?s"
    using pg(1) v assms(2) by (simp add: page_push_def block_ok_def update_page_def)
  have "(8 :: nat) \<le> 2 ^ l" using power_increasing [OF ok(3), of "2 :: nat"] by simp
  then have c: "chain ?m (xor_cookie pg) (free_list pg) fs" "chain ?m (xor_cookie pg) (local_free pg) ls"
    using chain_store_other [OF pg(3), of b l "le_bytes ?r"] chain_store_other [OF pg(4), of b l "le_bytes ?r"] assms(3,4) ok
    by simp_all
  have ld: "word_of_le (load ?m b 8) = ?r" using load_store_same [of "le_bytes ?r" "ram s" b] by simp
  have f: "page_frame s page ?s" unfolding page_frame_def
    by (rule exI [of _ ?pg], rule exI [of _ ?m], rule exI [of _ "kernel_rng s"]) (use pg(1) in \<open>cases w; simp\<close>)
  have "page_lists ?s page l (fst (pushed w b (fs, ls))) (snd (pushed w b (fs, ls)))"
    using c ld ok assms(2-4) pg(1,2) block_ok_cong [OF page_frame_bounds [OF f]]
    by (cases w) (auto simp: page_lists_def)
  then show thesis
    by (rule that [OF e _ f]) (use pg(1) in \<open>cases w; simp add: store_def word_le_nat_alt\<close>)+
qed

lemma page_free_pop_nil: "page_lists s page l [] ls \<Longrightarrow> page \<noteq> 0 \<Longrightarrow> page_free_pop s page = Some (0, s)"
  by (erule page_listsE)
    (simp add: page_free_pop_def valid_cookie block_ref_deref_ok [where b = 0, simplified])

lemma page_free_pop_cons:
  assumes "page_lists s page l (b # fs) ls" "page \<noteq> 0"
  obtains s' where "page_free_pop s page = Some (b, s')" "page_lists s' page l fs ls" "page_frame s page s'"
    "ram s' = ram s" "kernel_rng s' = kernel_rng s"
    "map_option used_blocks (page_meta s' page) = map_option used_blocks (page_meta s page)"
proof -
  obtain pg where pg: "page_meta s page = Some pg" "xor_cookie pg AND 7 = 7"
    "chain (ram s) (xor_cookie pg) (free_list pg) (b # fs)" "chain (ram s) (xor_cookie pg) (local_free pg) ls"
    using assms(1) by (rule page_listsE)
  have ok: "distinct (b # fs @ ls)" "\<forall>b \<in> set (b # fs @ ls). block_ok s page b \<and> is_aligned_uaddr b l" "3 \<le> l" "l < 64"
    using assms(1) by (simp_all add: page_lists_def)
  let ?r = "word_of_le (load (ram s) b 8) :: u64"
  let ?s = "s\<lparr>page_meta := (page_meta s)(page \<mapsto> pg\<lparr>free_list := ?r\<rparr>)\<rparr>"
  have bok: "block_ok s page b" using ok(2) by simp
  have v: "block_ref_is_valid (free_list pg)" "block_ref_is_valid ?r"
    using chain_valid [OF pg(3) _ pg(2)] chain_valid [of "ram s" "xor_cookie pg" ?r fs] pg(2,3) ok(2) by (auto simp: block_ok_def)
  have d: "block_ref_deref s page (free_list pg) = Some b"
    using block_ref_deref_ok [OF pg(1,2), of b] bok pg(3) by simp
  have e: "page_free_pop s page = Some (b, ?s)"
    using pg(1) v d block_ok_nonzero [OF bok] assms(2) by (simp add: page_free_pop_def update_page_def)
  have f: "page_frame s page ?s" unfolding page_frame_def
    by (rule exI [of _ "pg\<lparr>free_list := ?r\<rparr>"], rule exI [of _ "ram s"], rule exI [of _ "kernel_rng s"]) (use pg(1) in simp)
  have "page_lists ?s page l fs ls"
    using pg ok block_ok_cong [OF page_frame_bounds [OF f]] by (simp add: page_lists_def)
  then show thesis by (rule that [OF e _ f]) (use pg(1) in simp_all)
qed

lemma store_zero_chain:
  assumes "page_lists s page l fs ls" "is_aligned_uaddr b l" "b \<notin> set (fs @ ls)"
  shows "page_lists (s\<lparr>ram := store (ram s) b (replicate (2 ^ l) v)\<rparr>) page l fs ls"
proof -
  obtain pg where pg: "page_meta s page = Some pg" "xor_cookie pg AND 7 = 7"
    "chain (ram s) (xor_cookie pg) (free_list pg) fs" "chain (ram s) (xor_cookie pg) (local_free pg) ls"
    using assms(1) by (rule page_listsE)
  then show ?thesis using assms chain_store_other [OF pg(3), of b l] chain_store_other [OF pg(4), of b l]
    by (simp add: page_lists_def block_ok_cong [of page s])
qed

lemma page_free_push_spec:
  assumes "page_lists s page l fs ls" "block_ok s page b" "is_aligned_uaddr b l" "b \<notin> set (fs @ ls)"
  obtains s' where "page_free_push s page b (of_nat (2 ^ l)) = Some s'" "page_lists s' page l (b # fs) ls"
    "page_frame s page s'" "kernel_rng s' = kernel_rng s"
    "map_option used_blocks (page_meta s' page) = map_option used_blocks (page_meta s page)"
proof -
  have l: "3 \<le> l" "l < 64" using assms(1) by (simp_all add: page_lists_def)
  let ?t = "s\<lparr>ram := store (ram s) b (replicate (2 ^ l) 0)\<rparr>"
  have t: "page_lists ?t page l fs ls" by (rule store_zero_chain [OF assms(1,3,4)])
  have b: "block_ok ?t page b" using assms(2) by (simp add: block_ok_cong [of page s])
  obtain s' where s': "page_push ?t page b Free = Some s'" "page_lists s' page l (b # fs) ls"
    "page_frame ?t page s'" "kernel_rng s' = kernel_rng ?t"
    "map_option used_blocks (page_meta s' page) = map_option used_blocks (page_meta ?t page)"
    using page_push_spec [OF t b assms(3,4), of Free] by auto
  have u: "unat (of_nat (2 ^ l) :: u64) = 2 ^ l"
    using l by (intro unat_of_nat_small) (simp add: power_strict_increasing [of l 64 "2 :: nat", simplified])
  have "(2 :: nat) ^ 3 \<le> 2 ^ l" using l by (intro power_increasing) simp_all
  then have "(8 :: u64) \<le> of_nat (2 ^ l)" using u by (simp add: word_le_nat_alt del: of_nat_power)
  then have "page_free_push s page b (of_nat (2 ^ l)) = Some s'"
    using s'(1) u by (simp add: page_free_push_def del: of_nat_power)
  moreover have "page_frame s page s'" using s'(3) by (auto simp: page_frame_def)
  ultimately show thesis using s' by (intro that [of s']) simp_all
qed

lemma page_local_free_push_spec:
  assumes "page_lists s page l fs ls" "block_ok s page b" "is_aligned_uaddr b l" "b \<notin> set (fs @ ls)"
    and "page_meta s page = Some pg" "used_blocks pg \<noteq> remote_free_length pg"
  obtains s' where "page_local_free_push s page b = Some s'" "page_lists s' page l fs (b # ls)"
    "page_frame s page s'" "kernel_rng s' = kernel_rng s"
    "map_option used_blocks (page_meta s' page) = Some (used_blocks pg - 1)"
    "\<And>x. x - b \<ge> 8 \<Longrightarrow> ram s' x = ram s x"
proof -
  obtain t where t: "page_push s page b Local_Free = Some t" "page_lists t page l fs (b # ls)"
    "page_frame s page t" "kernel_rng t = kernel_rng s"
    "map_option used_blocks (page_meta t page) = map_option used_blocks (page_meta s page)"
    "\<And>x. x - b \<ge> 8 \<Longrightarrow> ram t x = ram s x"
    using page_push_spec [OF assms(1-4), of Local_Free] by auto
  obtain pt where pt: "page_meta t page = Some pt" using t(2) by (rule page_listsE)
  let ?pt = "pt\<lparr>used_blocks := used_blocks pt - 1\<rparr>"
  let ?s = "t\<lparr>page_meta := (page_meta t)(page \<mapsto> ?pt)\<rparr>"
  have "page_local_free_push s page b = Some ?s"
    using t(1) pt assms(5,6) by (simp add: page_local_free_push_def page_is_empty_def update_page_def)
  moreover have "page_lists ?s page l fs (b # ls)" by (rule page_lists_update [OF t(2) pt]) simp_all
  moreover have "page_frame t page ?s" unfolding page_frame_def
    by (rule exI [of _ ?pt], rule exI [of _ "ram t"], rule exI [of _ "kernel_rng t"]) (use pt in simp)
  then have "page_frame s page ?s" by (rule page_frame_trans [OF t(3)])
  ultimately show thesis by (rule that) (use t pt assms(5) in simp_all)
qed

lemma page_collect_spec:
  assumes "page_lists s page l fs ls" "page_meta s page = Some pg" "remote_free_length pg = 0"
  obtains s' where "page_collect s page = Some s'" "page_frame s page s'" "ram s' = ram s" "kernel_rng s' = kernel_rng s"
    "page_lists s' page l (if fs = [] then ls else fs) (if fs = [] then [] else ls)"
    "map_option used_blocks (page_meta s' page) = Some (used_blocks pg)"
proof -
  obtain pg' where pg': "page_meta s page = Some pg'" "xor_cookie pg' AND 7 = 7"
    "chain (ram s) (xor_cookie pg') (free_list pg') fs" "chain (ram s) (xor_cookie pg') (local_free pg') ls"
    using assms(1) by (rule page_listsE)
  then have pg: "xor_cookie pg AND 7 = 7" "chain (ram s) (xor_cookie pg) (free_list pg) fs"
    "chain (ram s) (xor_cookie pg) (local_free pg) ls" using assms(2) by simp_all
  have ok: "distinct (fs @ ls)" "\<forall>b \<in> set (fs @ ls). block_ok s page b \<and> is_aligned_uaddr b l" "3 \<le> l" "l < 64"
    using assms(1) by (simp_all add: page_lists_def)
  have d: "block_ref_deref s page (free_list pg) = Some (if fs = [] then 0 else hd fs)"
    using block_ref_deref_ok [OF assms(2) pg(1), of "if fs = [] then 0 else hd fs"] ok(2) chain_head [OF pg(2)]
    by (cases fs) simp_all
  show thesis
  proof (cases "fs = []")
    case True
    let ?p1 = "pg\<lparr>free_list := local_free pg\<rparr>"
    let ?p2 = "?p1\<lparr>local_free := ucast (xor_cookie pg)\<rparr>"
    let ?s = "s\<lparr>page_meta := (page_meta s)(page \<mapsto> ?p2)\<rparr>"
    have e: "page_collect s page = Some ?s"
      using True d assms(2,3) pg(1) block_ref_make_ok [of "s\<lparr>page_meta := (page_meta s)(page \<mapsto> ?p1)\<rparr>" page ?p1 0]
      by (simp add: page_collect_def update_page_def)
    have f: "page_frame s page ?s" unfolding page_frame_def
      by (rule exI [of _ ?p2], rule exI [of _ "ram s"], rule exI [of _ "kernel_rng s"]) (use assms(2) in simp)
    have "page_lists ?s page l ls []"
      using True pg ok block_ok_cong [OF page_frame_bounds [OF f]] by (simp add: page_lists_def)
    then show thesis by (intro that [OF e f]) (use True assms(2) in simp_all)
  next
    case False
    then have "hd fs \<noteq> 0" using ok(2) block_ok_nonzero by (cases fs) auto
    then have "page_collect s page = Some s" using False d assms(2) by (simp add: page_collect_def)
    then show thesis using False assms(1,2) page_frame_refl by (intro that) auto
  qed
qed

section \<open>Filling the free list of a new page\<close>

definition page_ready :: "mm_state \<Rightarrow> uaddr \<Rightarrow> nat \<Rightarrow> uaddr list \<Rightarrow> uaddr list \<Rightarrow> bool" where
  "page_ready s page l fs bs \<longleftrightarrow> page_lists s page l fs [] \<and> rng_inv (kernel_rng s) \<and>
     distinct (fs @ bs) \<and> (\<forall>b \<in> set bs. block_ok s page b \<and> is_aligned_uaddr b l)"

lemma page_ready_frame:
  assumes "page_ready s page l fs bs" "page_frame s page s'" "page_lists s' page l fs' []" "rng_inv (kernel_rng s')"
    "distinct (fs' @ bs')" "set bs' \<subseteq> set bs"
  shows "page_ready s' page l fs' bs'"
  using assms block_ok_cong [OF page_frame_bounds [OF assms(2)]] by (auto simp: page_ready_def)

lemma page_ready_push:
  assumes "page_ready s page l fs bs" "b \<in> set bs" "distinct bs'" "set bs' = set bs - {b}" "rng_inv g"
  obtains s' where "page_free_push (s\<lparr>kernel_rng := g\<rparr>) page b (of_nat (2 ^ l)) = Some s'" "page_ready s' page l (b # fs) bs'"
    "page_frame s page s'" "map_option used_blocks (page_meta s' page) = map_option used_blocks (page_meta s page)"
proof -
  have r: "page_lists s page l fs []" "distinct (fs @ bs)" "\<forall>b \<in> set bs. block_ok s page b \<and> is_aligned_uaddr b l"
    using assms(1) by (simp_all add: page_ready_def)
  let ?t = "s\<lparr>kernel_rng := g\<rparr>"
  have t: "page_lists ?t page l fs []" using r(1) by (simp add: page_lists_def block_ok_cong [of page s])
  have b: "block_ok ?t page b" "is_aligned_uaddr b l" "b \<notin> set (fs @ [])"
    using r(2,3) assms(2) by (auto simp: block_ok_cong [of page s])
  obtain s' where s': "page_free_push ?t page b (of_nat (2 ^ l)) = Some s'" "page_lists s' page l (b # fs) []"
    "page_frame ?t page s'" "kernel_rng s' = kernel_rng ?t"
    "map_option used_blocks (page_meta s' page) = map_option used_blocks (page_meta ?t page)"
    using page_free_push_spec [OF t b] .
  have f: "page_frame s page s'" using s'(3) by (auto simp: page_frame_def)
  have "page_ready s' page l (b # fs) bs'"
    by (rule page_ready_frame [OF assms(1) f s'(2)]) (use s'(4) assms(3-5) r(2) b(3) in auto)
  then show thesis using s' f by (intro that [of s']) simp_all
qed

lemma push_each_spec:
  assumes "page_ready s page l fs bs"
  obtains s' where "push_each s page bs (of_nat (2 ^ l)) = Some s'" "page_ready s' page l (rev bs @ fs) []"
    "page_frame s page s'" "map_option used_blocks (page_meta s' page) = map_option used_blocks (page_meta s page)"
proof -
  have "\<exists>s'. push_each s page bs (of_nat (2 ^ l)) = Some s' \<and> page_ready s' page l (rev bs @ fs) [] \<and>
    page_frame s page s' \<and> map_option used_blocks (page_meta s' page) = map_option used_blocks (page_meta s page)"
    using assms
  proof (induction bs arbitrary: s fs)
    case Nil
    then show ?case using page_frame_refl by (auto simp: page_ready_def elim: page_listsE)
  next
    case (Cons b bs)
    have d: "distinct bs" "set bs = set (b # bs) - {b}" "rng_inv (kernel_rng s)"
      using Cons.prems by (auto simp: page_ready_def)
    obtain t where t: "page_free_push (s\<lparr>kernel_rng := kernel_rng s\<rparr>) page b (of_nat (2 ^ l)) = Some t"
      "page_ready t page l (b # fs) bs" "page_frame s page t"
      "map_option used_blocks (page_meta t page) = map_option used_blocks (page_meta s page)"
      using page_ready_push [OF Cons.prems _ d] by auto
    then show ?case using Cons.IH [OF t(2)] page_frame_trans [OF t(3)] by auto
  qed
  then show thesis using that by blast
qed

lemma set_list_update_distinct: "distinct xs \<Longrightarrow> i < length xs \<Longrightarrow> set (xs[i := y]) = insert y (set xs - {xs ! i})"
  by (rule set_update_distinct)

lemma push_shuffled_spec:
  assumes "page_ready s page l fs bs" "length bs \<le> 16"
  obtains s' fs' where "push_shuffled s page bs (of_nat (2 ^ l)) = Some s'" "page_ready s' page l fs' []"
    "set fs' = set bs \<union> set fs" "page_frame s page s'"
    "map_option used_blocks (page_meta s' page) = map_option used_blocks (page_meta s page)"
proof -
  have "\<exists>s' fs'. push_shuffled s page bs (of_nat (2 ^ l)) = Some s' \<and> page_ready s' page l fs' [] \<and>
    set fs' = set bs \<union> set fs \<and> page_frame s page s' \<and>
    map_option used_blocks (page_meta s' page) = map_option used_blocks (page_meta s page)"
    using assms
  proof (induction "length bs" arbitrary: s fs bs)
    case 0
    then have "bs = []" "page_ready s page l fs []" by simp_all
    moreover from this obtain pg where "page_meta s page = Some pg" by (auto simp: page_ready_def elim: page_listsE)
    ultimately show ?case using page_frame_refl [of s page pg]
      by (subst push_shuffled.simps) (auto intro!: exI [of _ fs])
  next
    case (Suc n)
    have g: "rng_inv (kernel_rng s)" and d: "distinct bs" and ok: "\<forall>b \<in> set bs. block_ok s page b"
      using Suc.prems(1) by (auto simp: page_ready_def)
    obtain r g' where r: "random (kernel_rng s) = Some (r, g')" "rng_inv g'" using random_spec [OF g] .
    define i where "i = unat (r mod of_nat (length bs))"
    have len: "0 < length bs" "length bs \<le> 16" using Suc.hyps(2) Suc.prems(2) by auto
    have u: "unat (of_nat (length bs) :: u64) = length bs" using len by (intro unat_of_nat_small) simp
    have i: "i < length bs" unfolding i_def using len u by (simp add: unat_mod)
    let ?b = "bs ! i"
    let ?rest = "butlast (bs[i := last bs])"
    have rest: "distinct ?rest" "set ?rest = set bs - {?b}" "length ?rest = n"
    proof -
      obtain ys z where bs: "bs = ys @ [z]" using len by (metis length_greater_0_conv rev_exhaust)
      show "distinct ?rest" "set ?rest = set bs - {?b}"
        using d i unfolding bs by (cases "i < length ys"; auto simp: nth_append list_update_append butlast_append
          set_list_update_distinct distinct_list_update less_Suc_eq)+
      show "length ?rest = n" using Suc(2) by simp
    qed
    obtain t where t: "page_free_push (s\<lparr>kernel_rng := g'\<rparr>) page ?b (of_nat (2 ^ l)) = Some t"
      "page_ready t page l (?b # fs) ?rest" "page_frame s page t"
      "map_option used_blocks (page_meta t page) = map_option used_blocks (page_meta s page)"
      using page_ready_push [OF Suc.prems(1) nth_mem [OF i] rest(1,2) r(2)] .
    have "?b \<noteq> 0" using ok nth_mem [OF i] block_ok_nonzero by metis
    then have e: "push_shuffled s page bs (of_nat (2 ^ l)) = push_shuffled t page ?rest (of_nat (2 ^ l))"
      using r(1) t(1) len by (subst push_shuffled.simps) (auto simp: i_def [symmetric] simp del: of_nat_power)
    obtain s' fs' where s': "push_shuffled t page ?rest (of_nat (2 ^ l)) = Some s'" "page_ready s' page l fs' []"
      "set fs' = set ?rest \<union> set (?b # fs)" "page_frame t page s'"
      "map_option used_blocks (page_meta s' page) = map_option used_blocks (page_meta t page)"
      using Suc.hyps(1) [OF rest(3) [symmetric] t(2)] rest(3) len(2) Suc(2) by auto
    have "set fs' = set bs \<union> set fs" using s'(3) rest(2) nth_mem [OF i] by auto
    then show ?case using e s'(1,2,5) t(4) page_frame_trans [OF t(3) s'(4)] by auto
  qed
  then show thesis using that by blast
qed

text \<open>The blocks from \<open>start\<close> on, as many as fit, and the loop over those that the buffer did not take.\<close>

definition blocks_from :: "uaddr \<Rightarrow> nat \<Rightarrow> nat \<Rightarrow> uaddr list" where
  "blocks_from start l n = map (\<lambda>j. start + of_nat (j * 2 ^ l)) [0..<n]"

lemma blocks_from_0 [simp]: "blocks_from start l 0 = []"
  by (simp add: blocks_from_def)

lemma blocks_from_Suc: "blocks_from start l (Suc n) = start # blocks_from (start + of_nat (2 ^ l)) l n"
proof -
  have "[0..<Suc n] = 0 # map Suc [0..<n]" by (simp add: map_Suc_upt upt_conv_Cons del: upt_Suc)
  then show ?thesis by (simp add: blocks_from_def comp_def algebra_simps del: upt_Suc)
qed

lemma length_blocks_from [simp]: "length (blocks_from start l n) = n"
  by (simp add: blocks_from_def)

lemma blocks_from_append: "blocks_from start l (m + n) = blocks_from start l m @ blocks_from (start + of_nat (m * 2 ^ l)) l n"
proof (induction m arbitrary: start)
  case (Suc m)
  have "start + of_nat (2 ^ l) + of_nat (m * 2 ^ l) = start + of_nat (Suc m * 2 ^ l)"
    by (simp only: mult_Suc of_nat_add add.assoc)
  then show ?case using Suc by (simp only: add_Suc blocks_from_Suc append_Cons)
qed simp

text \<open>The space from \<open>start\<close> to \<open>stop\<close> is \<open>n\<close> blocks, without a wrap.\<close>

definition span :: "uaddr \<Rightarrow> uaddr \<Rightarrow> nat \<Rightarrow> nat \<Rightarrow> bool" where
  "span start stop l n \<longleftrightarrow> unat stop = unat start + n * 2 ^ l"

lemma span_next:
  assumes "span start stop l (Suc n)"
  shows "span (start + of_nat (2 ^ l)) stop l n" "start < stop" "start \<noteq> stop"
proof -
  have s: "unat stop = unat start + (2 ^ l + n * 2 ^ l)" using assms by (simp add: span_def)
  have "unat start + 2 ^ l < 2 ^ 64" using unat_u64_less [of stop] unfolding s by simp
  then have "unat (start + of_nat (2 ^ l)) = unat start + 2 ^ l"
    by (simp add: unat_plus_small unat_of_nat_small del: of_nat_power)
  with s show "span (start + of_nat (2 ^ l)) stop l n" by (simp add: span_def)
  show "start < stop" using s by (simp add: word_less_nat_alt)
  then show "start \<noteq> stop" by simp
qed

lemma span_0: "span start stop l 0 \<Longrightarrow> start = stop"
  by (simp add: span_def word_unat_eq_iff)

lemma span_le: "span start stop l n \<Longrightarrow> start \<le> stop"
  by (simp add: span_def word_le_nat_alt)

lemma first_blocks_spec:
  assumes "span start stop l n"
  shows "first_blocks k start stop (of_nat (2 ^ l)) =
      (blocks_from start l (min k n), start + of_nat (min k n * 2 ^ l))"
    "span (start + of_nat (min k n * 2 ^ l)) stop l (n - k)"
proof -
  have "first_blocks k start stop (of_nat (2 ^ l)) = (blocks_from start l (min k n), start + of_nat (min k n * 2 ^ l)) \<and>
    span (start + of_nat (min k n * 2 ^ l)) stop l (n - k)"
    using assms
  proof (induction k arbitrary: start n)
    case (Suc k)
    show ?case
    proof (cases n)
      case 0
      then show ?thesis using Suc.prems span_0 [of start stop l] by simp
    next
      case (Suc m)
      have s: "span (start + of_nat (2 ^ l)) stop l m" "start \<noteq> stop"
        using span_next [of start stop l m] Suc.prems Suc by simp_all
      show ?thesis using Suc.IH [OF s(1)] s(2) Suc by (simp add: blocks_from_Suc algebra_simps split: prod.split)
    qed
  qed (simp add: span_def)
  then show "first_blocks k start stop (of_nat (2 ^ l)) =
      (blocks_from start l (min k n), start + of_nat (min k n * 2 ^ l))"
    "span (start + of_nat (min k n * 2 ^ l)) stop l (n - k)" by simp_all
qed

lemma push_rest_spec:
  assumes "page_ready s page l fs (bs @ blocks_from start l n)" "length bs = 16" "span start stop l n"
  obtains s' fs' bs' where "push_rest s page bs start stop (of_nat (2 ^ l)) = Some (bs', s')" "page_ready s' page l fs' bs'"
    "length bs' = 16" "set (fs' @ bs') = set (fs @ bs @ blocks_from start l n)" "page_frame s page s'"
    "map_option used_blocks (page_meta s' page) = map_option used_blocks (page_meta s page)"
proof -
  have "\<exists>s' fs' bs'. push_rest s page bs start stop (of_nat (2 ^ l)) = Some (bs', s') \<and> page_ready s' page l fs' bs' \<and>
    length bs' = 16 \<and> set (fs' @ bs') = set (fs @ bs @ blocks_from start l n) \<and> page_frame s page s' \<and>
    map_option used_blocks (page_meta s' page) = map_option used_blocks (page_meta s page)"
    using assms
  proof (induction n arbitrary: s fs bs start)
    case 0
    then obtain pg where "page_meta s page = Some pg" by (auto simp: page_ready_def elim: page_listsE)
    then show ?case using 0 span_0 page_frame_refl [of s page pg]
      by (subst push_rest.simps) auto
  next
    case (Suc n)
    let ?next = "start + of_nat (2 ^ l)"
    let ?rest = "blocks_from ?next l n"
    have g: "rng_inv (kernel_rng s)" and d: "distinct (bs @ start # ?rest)"
      using Suc.prems(1) by (auto simp: page_ready_def blocks_from_Suc)
    obtain r g' where r: "random (kernel_rng s) = Some (r, g')" "rng_inv g'" using random_spec [OF g] .
    define i where "i = unat (r AND 0xf)"
    have m: "(0xf :: u64) = mask 4" by (simp add: mask_eq_exp_minus_1)
    have "unat (r AND 0xf) = take_bit 4 (unat r)" unfolding m take_bit_eq_mask [symmetric] by (rule unsigned_take_bit_eq)
    then have "unat (r AND 0xf) < 16" using take_bit_nat_less_exp [of 4 "unat r"] by simp
    then have i: "i < length bs" using Suc.prems(2) by (simp add: i_def)
    let ?b = "bs ! i" and ?bs = "bs[i := start]"
    have ns: "start \<notin> set bs" "distinct bs" "start \<notin> set ?rest" "distinct ?rest" "set bs \<inter> set ?rest = {}" using d by auto
    have sub: "set ?bs = insert start (set bs - {?b})" using set_list_update_distinct [OF ns(2) i] .
    have b: "?b \<in> set bs" using i by simp
    have d': "distinct (?bs @ ?rest)" "set (?bs @ ?rest) = set (bs @ blocks_from start l (Suc n)) - {?b}"
      using ns sub b by (auto simp: blocks_from_Suc distinct_list_update)
    obtain t where t: "page_free_push (s\<lparr>kernel_rng := g'\<rparr>) page ?b (of_nat (2 ^ l)) = Some t"
      "page_ready t page l (?b # fs) (?bs @ ?rest)" "page_frame s page t"
      "map_option used_blocks (page_meta t page) = map_option used_blocks (page_meta s page)"
      using page_ready_push [OF Suc.prems(1) _ d' r(2)] b by auto
    have sp: "span ?next stop l n" "start < stop" "start \<noteq> stop" using span_next [OF Suc.prems(3)] by simp_all
    have e: "push_rest s page bs start stop (of_nat (2 ^ l)) = push_rest t page ?bs ?next stop (of_nat (2 ^ l))"
      using r(1) t(1) sp(2,3) by (subst push_rest.simps) (auto simp: i_def [symmetric] simp del: of_nat_power)
    obtain s' fs' bs' where s': "push_rest t page ?bs ?next stop (of_nat (2 ^ l)) = Some (bs', s')" "page_ready s' page l fs' bs'"
      "length bs' = 16" "set (fs' @ bs') = set ((?b # fs) @ ?bs @ ?rest)" "page_frame t page s'"
      "map_option used_blocks (page_meta s' page) = map_option used_blocks (page_meta t page)"
      using Suc.IH [OF t(2) _ sp(1)] Suc.prems(2) by auto
    have "set (fs' @ bs') = set (fs @ bs @ blocks_from start l (Suc n))"
      unfolding s'(4) using sub b by (auto simp: blocks_from_Suc)
    then show ?case using e s'(1-3,6) t(4) page_frame_trans [OF t(3) s'(5)] by auto
  qed
  then show thesis using that by blast
qed

section \<open>The place of a page\<close>

text \<open>
  A segment lies on a 4 MiB boundary in the last 1/256th of the address space.  \<open>page_place\<close>
  is page \<open>i\<close> of a segment whose pages have \<open>2 ^ sh\<close> bytes.
\<close>

definition segment_ok :: "uaddr \<Rightarrow> bool" where
  "segment_ok seg \<longleftrightarrow> is_aligned_uaddr seg 22 \<and> 0xff00000000000000 \<le> unat seg \<and> unat seg + 2 ^ 22 < 2 ^ 64"

definition page_place :: "mm_state \<Rightarrow> uaddr \<Rightarrow> nat \<Rightarrow> nat \<Rightarrow> bool" where
  "page_place s seg i sh \<longleftrightarrow> segment_ok seg \<and> (\<exists>sg. segments s seg = Some sg \<and> page_shift sg = of_nat sh) \<and>
     (sh = 16 \<and> i < 64 \<or> sh = 22 \<and> i = 0)"

definition page_lo :: "nat \<Rightarrow> nat \<Rightarrow> nat" where
  "page_lo i sh = i * 2 ^ sh + (if i = 0 then 8192 else 0)"

definition page_hi :: "nat \<Rightarrow> nat \<Rightarrow> nat" where
  "page_hi i sh = (i + 1) * 2 ^ sh"

lemma unat_in_segment: "segment_ok seg \<Longrightarrow> x \<le> 2 ^ 22 \<Longrightarrow> unat (seg + of_nat x) = unat seg + x"
  by (simp add: segment_ok_def unat_plus_small)

lemma segment_of_offset:
  assumes "segment_ok seg" "x < 2 ^ 22"
  shows "segment_of_ptr (seg + of_nat x) = seg"
proof -
  obtain k where k: "unat seg = 2 ^ 22 * k" using assms(1) by (auto simp: segment_ok_def is_aligned_iff_dvd)
  have "unat (segment_of_ptr (seg + of_nat x)) = (2 ^ 22 * k + x) div 2 ^ 22 * 2 ^ 22"
    using unat_in_segment [OF assms(1), of x] assms(2)
    by (simp add: segment_of_ptr_def SEGMENT_SHIFT_def unat_align_down k)
  also have "\<dots> = unat seg" using assms(2) by (simp add: k)
  finally show ?thesis by (simp add: word_unat_eq_iff)
qed

lemma page_at_offset: "page_at seg (of_nat i) = seg + of_nat (24 + 56 * i)"
  by (simp add: page_at_def)

lemma page_segment_at: "segment_ok seg \<Longrightarrow> i < 64 \<Longrightarrow> page_segment (page_at seg (of_nat i)) = seg"
  unfolding page_segment_def page_at_offset by (rule segment_of_offset) simp_all

lemma page_index_at:
  assumes "segment_ok seg" "i < 64"
  shows "page_index (page_at seg (of_nat i)) = Some (of_nat i)"
proof -
  have z: "page_at seg 0 = seg + of_nat 24" by (simp add: page_at_def)
  have "page_at seg 0 \<le> page_at seg (of_nat i)"
    unfolding z page_at_offset word_le_nat_alt
    by (subst (1 2) unat_in_segment [OF assms(1)]) (use assms(2) in simp_all)
  moreover have "(page_at seg (of_nat i) - page_at seg 0) div 56 = of_nat i"
  proof -
    have "page_at seg (of_nat i) - page_at seg 0 = of_nat (56 * i)" by (simp add: page_at_def)
    then have "unat ((page_at seg (of_nat i) - page_at seg 0) div 56) = unat (of_nat i :: usize)"
      using assms(2) by (simp add: unat_div unat_of_nat_small del: of_nat_mult)
    then show ?thesis by (simp only: word_unat_eq_iff)
  qed
  moreover have "(of_nat i :: usize) < 64" using assms(2) by (simp add: word_less_nat_alt)
  ultimately show ?thesis using page_segment_at [OF assms] by (simp add: page_index_def)
qed

lemma page_at_nonzero:
  assumes "segment_ok seg" "i < 64"
  shows "page_at seg (of_nat i) \<noteq> 0"
proof -
  have "unat (page_at seg (of_nat i)) = unat seg + (24 + 56 * i)"
    unfolding page_at_offset using assms(2) by (intro unat_in_segment [OF assms(1)]) simp
  then show ?thesis by (metis add_is_0 unat_0 zero_neq_numeral)
qed

lemma page_offsets:
  assumes "page_place s seg i sh"
  shows "page_lo i sh \<le> page_hi i sh" "page_hi i sh \<le> 2 ^ 22" "4096 dvd page_lo i sh" "2 ^ 16 dvd page_hi i sh"
  using assms by (auto simp: page_place_def page_lo_def page_hi_def intro: dvd_mult)

lemma page_bounds_at:
  assumes "page_place s seg i sh" "page_meta s (page_at seg (of_nat i)) = Some pg" "size_class_is_valid (ucast (size_class pg))"
  shows "page_bounds s (page_at seg (of_nat i)) = Some (seg + of_nat (page_lo i sh), seg + of_nat (page_hi i sh))"
proof -
  have ok: "segment_ok seg" and i: "i < 64" using assms(1) by (auto simp: page_place_def)
  obtain sg where sg: "segments s seg = Some sg" "page_shift sg = of_nat sh" using assms(1) by (auto simp: page_place_def)
  have sh: "unat (of_nat sh :: usize) = sh" using assms(1) by (auto simp: page_place_def)
  have off: "page_lo i sh \<le> page_hi i sh" "page_hi i sh \<le> 2 ^ 22" "4096 dvd page_lo i sh" "2 ^ 16 dvd page_hi i sh"
    using page_offsets [OF assms(1)] by simp_all
  have lo: "(if (of_nat i :: usize) = 0 then seg + push_bit (unat (page_shift sg)) (of_nat i) + push_bit 12 2
      else seg + push_bit (unat (page_shift sg)) (of_nat i)) = seg + of_nat (page_lo i sh)"
    unfolding sg(2) sh using i of_nat_eq_iff_small [of i 0] by (simp add: page_lo_def push_bit_eq_mult mult.commute)
  have hi: "seg + push_bit sh (of_nat i) + 2 ^ sh = seg + of_nat (page_hi i sh)"
    by (simp add: page_hi_def push_bit_eq_mult algebra_simps)
  have "(2 :: nat) ^ 22 dvd unat seg" using ok by (simp add: segment_ok_def is_aligned_iff_dvd)
  then have "4096 dvd unat seg" "65536 dvd unat seg" by (auto elim: dvd_trans [rotated])
  then have "is_aligned_uaddr (seg + of_nat (page_lo i sh)) 12" "is_aligned_uaddr (seg + of_nat (page_hi i sh)) 16"
    using off unat_in_segment [OF ok, of "page_lo i sh"] unat_in_segment [OF ok, of "page_hi i sh"]
    by (simp_all add: is_aligned_iff_dvd)
  then show ?thesis
    using assms(2,3) page_segment_at [OF ok i] page_index_at [OF ok i] sg
    by (simp add: page_bounds_def Let_def lo sh hi split del: if_split)
qed

text \<open>Classes of small objects belong in pages of 64 KiB, the others in pages of 4 MiB.\<close>

definition class_fits :: "nat \<Rightarrow> nat \<Rightarrow> bool" where
  "class_fits c sh \<longleftrightarrow> sh = 16 \<and> c < 11 \<or> sh = 22 \<and> 11 \<le> c \<and> c < 17"

definition first_block :: "nat \<Rightarrow> nat \<Rightarrow> nat \<Rightarrow> nat" where
  "first_block i sh c = (if i = 0 then max 8192 (2 ^ (3 + c)) else i * 2 ^ sh)"

definition block_count :: "nat \<Rightarrow> nat \<Rightarrow> nat \<Rightarrow> nat" where
  "block_count i sh c = (page_hi i sh - first_block i sh c) div 2 ^ (3 + c)"

definition page_blocks :: "uaddr \<Rightarrow> nat \<Rightarrow> nat \<Rightarrow> nat \<Rightarrow> uaddr list" where
  "page_blocks seg i sh c = blocks_from (seg + of_nat (first_block i sh c)) (3 + c) (block_count i sh c)"

lemma block_layout:
  assumes "page_place s seg i sh" "class_fits c sh"
  shows "2 ^ (3 + c) dvd first_block i sh c" "page_hi i sh = first_block i sh c + block_count i sh c * 2 ^ (3 + c)"
    "0 < block_count i sh c" "page_lo i sh \<le> first_block i sh c"
proof -
  have hi: "2 ^ (3 + c) dvd page_hi i sh \<and> 2 ^ (3 + c) dvd first_block i sh c \<and>
      page_lo i sh \<le> first_block i sh c \<and> first_block i sh c < page_hi i sh"
  proof (cases "sh = 16")
    case True
    then have "c < 11" "i < 64" using assms by (auto simp: class_fits_def page_place_def)
    then have d: "(2 :: nat) ^ (3 + c) dvd 2 ^ 13" "(2 :: nat) ^ (3 + c) \<le> 2 ^ 13"
      using le_imp_power_dvd [of "3 + c" 13 "2 :: nat"] power_increasing [of "3 + c" 13 "2 :: nat"] by simp_all
    then have "(2 :: nat) ^ (3 + c) dvd 2 ^ 16" by (auto elim: dvd_trans)
    then show ?thesis using True d by (auto simp: first_block_def page_hi_def page_lo_def max_def)
  next
    case False
    then have sh: "sh = 22" "i = 0" and c: "11 \<le> c" "c < 17" using assms by (auto simp: class_fits_def page_place_def)
    have "(2 :: nat) ^ 14 \<le> 2 ^ (3 + c)" "(2 :: nat) ^ (3 + c) < 2 ^ 22" "(2 :: nat) ^ (3 + c) dvd 2 ^ 22"
      using c power_increasing [of 14 "3 + c" "2 :: nat"] power_strict_increasing [of "3 + c" 22 "2 :: nat"]
        le_imp_power_dvd [of "3 + c" 22 "2 :: nat"] by simp_all
    then show ?thesis using sh by (simp add: first_block_def page_hi_def page_lo_def)
  qed
  then show "2 ^ (3 + c) dvd first_block i sh c" "page_lo i sh \<le> first_block i sh c" by simp_all
  have d: "2 ^ (3 + c) dvd page_hi i sh - first_block i sh c" using hi by (intro dvd_diff_nat) simp_all
  then have e: "block_count i sh c * 2 ^ (3 + c) = page_hi i sh - first_block i sh c" by (simp add: block_count_def)
  then show "page_hi i sh = first_block i sh c + block_count i sh c * 2 ^ (3 + c)" using hi by linarith
  have "page_hi i sh - first_block i sh c \<noteq> 0" using hi by simp
  then show "0 < block_count i sh c" using e by (cases "block_count i sh c") simp_all
qed

lemma class_fits_less: "class_fits c sh \<Longrightarrow> c < 17"
  by (auto simp: class_fits_def)

lemma page_block_offset:
  assumes "page_place s seg i sh" "class_fits c sh" "b \<in> set (page_blocks seg i sh c)"
  obtains x where "b = seg + of_nat x" "first_block i sh c \<le> x" "x < page_hi i sh" "2 ^ (3 + c) dvd x" "unat b = unat seg + x"
proof -
  obtain j where j: "j < block_count i sh c" "b = seg + of_nat (first_block i sh c) + of_nat (j * 2 ^ (3 + c))"
    using assms(3) by (auto simp: page_blocks_def blocks_from_def)
  let ?x = "first_block i sh c + j * 2 ^ (3 + c)"
  have "j * 2 ^ (3 + c) < block_count i sh c * 2 ^ (3 + c)" using j(1) by simp
  then have x: "?x < page_hi i sh" using block_layout(2) [OF assms(1,2)] by linarith
  have b: "b = seg + of_nat ?x" using j(2) by (simp only: of_nat_add add.assoc)
  have "segment_ok seg" using assms(1) by (simp add: page_place_def)
  then have "unat b = unat seg + ?x" unfolding b using x page_offsets(2) [OF assms(1)] by (intro unat_in_segment) simp_all
  then show thesis using x block_layout(1) [OF assms(1,2)] by (intro that [OF b]) simp_all
qed

text \<open>Every block of the layout passes the assertions on blocks.\<close>

lemma page_block_ok:
  assumes "page_place s seg i sh" "class_fits c sh" "page_meta s (page_at seg (of_nat i)) = Some pg" "size_class pg = of_nat c"
    and "b \<in> set (page_blocks seg i sh c)"
  shows "block_ok s (page_at seg (of_nat i)) b" "is_aligned_uaddr b (3 + c)"
proof -
  obtain x where x: "b = seg + of_nat x" "first_block i sh c \<le> x" "x < page_hi i sh" "2 ^ (3 + c) dvd x" "unat b = unat seg + x"
    using page_block_offset [OF assms(1,2,5)] .
  have ok: "segment_ok seg" using assms(1) by (simp add: page_place_def)
  have c: "c < 17" using class_fits_less [OF assms(2)] .
  have off: "page_lo i sh \<le> x" "page_hi i sh \<le> 2 ^ 22" "page_lo i sh \<le> 2 ^ 22"
    using x(2) block_layout(4) [OF assms(1,2)] page_offsets [OF assms(1)] by linarith+
  have lo: "unat (seg + of_nat (page_lo i sh)) = unat seg + page_lo i sh" using off by (intro unat_in_segment [OF ok])
  have hi: "unat (seg + of_nat (page_hi i sh)) = unat seg + page_hi i sh" using off by (intro unat_in_segment [OF ok])
  have cw: "ucast (of_nat c :: 7 word) = (of_nat c :: usize)"
    using c by (simp add: word_unat_eq_iff unsigned_ucast_eq take_bit_nat_eq_self unat_of_nat_small)
  have cc: "(of_nat c :: usize) < 17" using c by (simp add: word_less_nat_alt)
  then have "page_bounds s (page_at seg (of_nat i)) = Some (seg + of_nat (page_lo i sh), seg + of_nat (page_hi i sh))"
    using assms(4) by (intro page_bounds_at [OF assms(1,3)]) (simp add: size_class_is_valid_def cw)
  moreover have "(of_nat c :: usize) \<noteq> SIZE_CLASS_HUGE_SENTINEL" using cc by (auto simp: SIZE_CLASS_HUGE_SENTINEL_def)
  moreover have "seg + of_nat (page_lo i sh) \<le> b \<and> b < seg + of_nat (page_hi i sh)"
    unfolding word_le_nat_alt word_less_nat_alt lo hi x(5) using off x(3) by simp
  ultimately have "page_in_bounds s (page_at seg (of_nat i)) b = Some True"
    using assms(3,4) by (simp add: page_in_bounds_def cw)
  moreover have al: "is_aligned_uaddr b (3 + c)"
  proof -
    have "(2 :: nat) ^ (3 + c) dvd 2 ^ 22" using c by (intro le_imp_power_dvd) simp
    then have "2 ^ (3 + c) dvd unat seg" using ok by (auto simp: segment_ok_def is_aligned_iff_dvd elim: dvd_trans)
    then show ?thesis using x(4,5) by (simp add: is_aligned_iff_dvd)
  qed
  moreover have "is_aligned_uaddr b 3"
    using al unfolding is_aligned_iff_dvd by (rule dvd_trans [rotated]) (simp add: power_add)
  moreover have "drop_bit 56 b = 0xff"
  proof -
    have "unat b div 2 ^ 56 = 0xff"
      by (rule div_nat_eqI) (use ok x(5) unat_u64_less [of b] in \<open>simp_all add: segment_ok_def\<close>)
    then show ?thesis by (simp add: word_unat_eq_iff drop_bit_eq_div unat_div)
  qed
  ultimately show "block_ok s (page_at seg (of_nat i)) b" "is_aligned_uaddr b (3 + c)" by (simp_all add: block_ok_def)
qed

lemma distinct_page_blocks:
  assumes "page_place s seg i sh" "class_fits c sh"
  shows "distinct (page_blocks seg i sh c)"
proof -
  have ok: "segment_ok seg" using assms(1) by (simp add: page_place_def)
  have u: "unat (seg + of_nat (first_block i sh c) + of_nat (j * 2 ^ (3 + c))) = unat seg + first_block i sh c + j * 2 ^ (3 + c)"
    if "j < block_count i sh c" for j
  proof -
    have "j * 2 ^ (3 + c) < block_count i sh c * 2 ^ (3 + c)" using that by simp
    then have "first_block i sh c + j * 2 ^ (3 + c) \<le> 2 ^ 22"
      using block_layout(2) [OF assms] page_offsets(2) [OF assms(1)] by linarith
    then have "unat (seg + of_nat (first_block i sh c + j * 2 ^ (3 + c))) = unat seg + (first_block i sh c + j * 2 ^ (3 + c))"
      by (rule unat_in_segment [OF ok])
    then show ?thesis by (simp only: of_nat_add add.assoc)
  qed
  have "inj_on (\<lambda>j. seg + of_nat (first_block i sh c) + of_nat (j * 2 ^ (3 + c))) {0..<block_count i sh c}"
  proof (rule inj_onI)
    fix j k
    assume j: "j \<in> {0..<block_count i sh c}" and k: "k \<in> {0..<block_count i sh c}"
      and e: "seg + of_nat (first_block i sh c) + of_nat (j * 2 ^ (3 + c)) = seg + of_nat (first_block i sh c) + of_nat (k * 2 ^ (3 + c))"
    have "j * 2 ^ (3 + c) = k * 2 ^ (3 + c)" using u [of j] u [of k] j k unfolding e by simp
    then show "j = k" by simp
  qed
  then show ?thesis by (simp add: page_blocks_def blocks_from_def distinct_map)
qed

section \<open>Initializing a page\<close>

lemma cookie_low_bits: "(c OR 7) AND 7 = (7 :: 56 word)"
  by (rule bit_word_eqI) (auto simp: bit_simps)

lemma page_init_common_spec:
  assumes "page_meta s page = Some pg0" "c \<le> 17" "rng_inv (kernel_rng s)"
  obtains pg g where "page_init_common s page (of_nat c) = Some (s\<lparr>kernel_rng := g, page_meta := (page_meta s)(page \<mapsto> pg)\<rparr>)"
    "rng_inv g" "xor_cookie pg AND 7 = 7" "free_list pg = ucast (xor_cookie pg)" "local_free pg = ucast (xor_cookie pg)"
    "used_blocks pg = 0" "remote_free_length pg = 0" "size_class pg = of_nat c" "\<not> in_full_list pg"
proof -
  obtain r g where r: "random_u64 (kernel_rng s) = Some (r, g)" "rng_inv g" using random_u64_spec [OF assms(3)] .
  define cookie :: "56 word" where "cookie = ucast (r AND (push_bit 56 1 - 1)) OR 7"
  have ck: "cookie AND 7 = 7" unfolding cookie_def by (rule cookie_low_bits)
  have ck2: "ucast (r AND 72057594037927935) OR 7 = cookie" by (simp add: cookie_def)
  define pg where "pg = pg0\<lparr>xor_cookie := cookie, free_list := ucast cookie, local_free := ucast cookie,
    remote_free := ucast cookie AND NOT 1, used_blocks := 0, remote_free_length := 0, size_class := of_nat c, in_full_list := False\<rparr>"
  have cl: "size_class_is_valid (of_nat c) \<or> of_nat c = SIZE_CLASS_HUGE_SENTINEL"
    using assms(2) by (cases "c = 17") (simp_all add: size_class_is_valid_def SIZE_CLASS_HUGE_SENTINEL_def word_less_nat_alt)
  have cw: "ucast ((of_nat c :: usize) AND 0x7f) = (of_nat c :: 7 word)"
  proof -
    have "(0x7f :: usize) = mask 7" by (simp add: mask_eq_exp_minus_1)
    then have "unat ((of_nat c :: usize) AND 0x7f) = take_bit 7 (unat (of_nat c :: usize))"
      by (simp only: take_bit_eq_mask [symmetric] unsigned_take_bit_eq)
    then have "unat ((of_nat c :: usize) AND 0x7f) = c" using assms(2) by (simp add: take_bit_nat_eq_self unat_of_nat_small)
    moreover have "ucast w = (of_nat (unat w) :: 7 word)" for w :: usize by simp
    ultimately show ?thesis by metis
  qed
  let ?s = "s\<lparr>kernel_rng := g, page_meta := (page_meta s)(page \<mapsto> pg0\<lparr>xor_cookie := cookie\<rparr>)\<rparr>"
  have null: "block_ref_make ?s page 0 = Some (ucast cookie)"
    using block_ref_make_ok [of ?s page "pg0\<lparr>xor_cookie := cookie\<rparr>" 0] ck by simp
  have "page_init_common s page (of_nat c) = Some (s\<lparr>kernel_rng := g, page_meta := (page_meta s)(page \<mapsto> pg)\<rparr>)"
    using assms(1) cl r(1) null cw
    by (simp add: page_init_common_def update_page_def Let_def ck2 pg_def)
  then show thesis by (rule that [OF _ r(2)]) (simp_all add: pg_def ck)
qed

text \<open>The direct pointers after the update for a class.\<close>

definition slots_of :: "nat \<Rightarrow> nat list" where
  "slots_of c = filter (\<lambda>i. in_class (8 * (i + 1)) c) [0..<128]"

lemma set_direct_spec:
  assumes "\<forall>i \<in> set is. i < 128 \<and> in_class (8 * (i + 1)) c" "c < 17"
  shows "set_direct s (of_nat c) page is = Some (s\<lparr>pages_direct := fold (\<lambda>i d. d[i := page]) is (pages_direct s)\<rparr>)"
  using assms(1)
proof (induction "is" arbitrary: s)
  case (Cons i "is")
  have i: "i < 128" "in_class (8 * (i + 1)) c" using Cons.prems by simp_all
  have "size_class_of_size (of_nat (8 * (i + 1))) = Some (of_nat c)"
    using size_class_iff [of "of_nat (8 * (i + 1))" c] size_of_index(2) [OF i(1)] i assms(2) by simp
  then show ?case using Cons size_of_index(1) [OF i(1)] by simp
qed simp

lemma nth_fold_update:
  "j < length d \<Longrightarrow> fold (\<lambda>i d. d[i := x]) is d ! j = (if j \<in> set is then x else d ! j)"
  by (induction "is" arbitrary: d) auto

lemma length_fold_update [simp]: "length (fold (\<lambda>i d. d[i := x]) is d) = length d"
  by (induction "is" arbitrary: d) auto

lemma heap_update_pages_direct_spec:
  assumes "is_list (heap_links s) (Pages c) (Page p # ns)" "c < 17"
  obtains ds where "heap_update_pages_direct s (of_nat c) = Some (s\<lparr>pages_direct := ds\<rparr>)"
    "length ds = length (pages_direct s)"
    "\<And>j. j < length (pages_direct s) \<Longrightarrow> j < 128 \<Longrightarrow> ds ! j = (if in_class (8 * (j + 1)) c then p else pages_direct s ! j)"
proof -
  have u: "unat (of_nat c :: usize) = c" using assms(2) by (intro unat_of_nat_small) simp
  obtain n where n: "heap_links s (Pages c) = Some n" "lnext n = Page p"
    using is_list_end [OF assms(1)] by auto
  have ne: "list_is_empty (heap_links s) (Pages c) = Some False" using list_is_empty_spec [OF assms(1)] by simp
  have sz: "unat (of_nat (2 ^ (3 + k)) :: usize) = 2 ^ (3 + k)" if "k < 17" for k
    using that power_strict_increasing [of "3 + k" 64 "2 :: nat"] by (intro unat_of_nat_small) simp
  show thesis
  proof (cases "c < 8")
    case False
    have "(2 :: nat) ^ 11 \<le> 2 ^ (3 + c)" using False by (intro power_increasing) simp_all
    then have "\<not> (of_nat (2 ^ (3 + c)) :: usize) \<le> 1024" using sz [OF assms(2)] by (simp add: word_le_nat_alt del: of_nat_power)
    then have "heap_update_pages_direct s (of_nat c) = Some s"
      using n ne u size_of_size_class_eq [OF assms(2)]
      by (simp add: heap_update_pages_direct_def size_class_in_pages_direct_def del: of_nat_power)
    moreover have "\<not> in_class (8 * (j + 1)) c" if "j < 128" for j
    proof -
      have "(2 :: nat) ^ 10 \<le> 2 ^ (2 + c)" using False by (intro power_increasing) simp_all
      then show ?thesis using that False by (auto simp: in_class_def)
    qed
    ultimately show thesis by (intro that [of "pages_direct s"]) simp_all
  next
    case True
    define k where "k = (2 :: nat) ^ c"
    have k: "0 < k" "k \<le> 128" using True power_increasing [of c 7 "2 :: nat"] by (simp_all add: k_def)
    have szc: "size_of_size_class (of_nat c) = Some (of_nat (8 * k))" "unat (of_nat (8 * k) :: usize) = 8 * k"
      using size_of_size_class_eq [OF assms(2)] sz [OF assms(2)] by (simp_all add: k_def power_add)
    then have large: "pages_direct_index_of_size (of_nat (8 * k)) = Some (of_nat (k - 1))"
      using index_of_size(1) [of "of_nat (8 * k)"] k by simp
    define lo where "lo = (if c = 0 then 0 else 2 ^ (c - 1) :: nat)"
    have "(2 :: nat) ^ (c - 1) \<le> 2 ^ 6" using True by (intro power_increasing) auto
    then have lok: "lo < 128" by (simp add: lo_def)
    have small: "(if (of_nat c :: usize) = 0 then Some 1 else do { n \<leftarrow> size_of_size_class (of_nat c - 1); Some (n + 1) }) =
        Some (of_nat (8 * lo + 1))"
    proof (cases c)
      case (Suc d)
      then have "(of_nat c :: usize) \<noteq> 0" using u by (metis unat_0 nat.distinct(2))
      moreover have "size_of_size_class (of_nat c - 1) = Some (of_nat (8 * lo))"
        using size_of_size_class_eq [of d] assms(2) Suc by (simp add: lo_def power_add)
      ultimately show ?thesis by simp
    qed (simp add: lo_def)
    have "unat (of_nat (8 * lo + 1) :: usize) = 8 * lo + 1" using lok by (intro unat_of_nat_small) simp
    then have smi: "pages_direct_index_of_size (of_nat (8 * lo + 1)) = Some (of_nat lo)"
      using index_of_size(1) [of "of_nat (8 * lo + 1)"] lok by simp
    have "(of_nat (8 * k) :: usize) \<le> 1024" using szc(2) k by (simp add: word_le_nat_alt del: of_nat_mult)
    then have dir: "size_class_in_pages_direct (of_nat c) = Some True"
      using szc(1) by (simp add: size_class_in_pages_direct_def del: of_nat_mult)
    have ul: "unat (of_nat lo :: usize) = lo" "unat (of_nat (k - 1) :: usize) = k - 1"
      using lok k by (simp_all del: of_nat_diff)
    have sl: "\<forall>i \<in> set [lo..<Suc (k - 1)]. i < 128 \<and> in_class (8 * (i + 1)) c"
    proof
      fix i
      assume "i \<in> set [lo..<Suc (k - 1)]"
      then have "lo \<le> i" "i \<le> k - 1" by auto
      then show "i < 128 \<and> in_class (8 * (i + 1)) c"
        using class_of_slot [of i c] True k by (simp add: lo_def k_def)
    qed
    let ?ds = "fold (\<lambda>i d. d[i := p]) [lo..<Suc (k - 1)] (pages_direct s)"
    have "heap_update_pages_direct s (of_nat c) = Some (s\<lparr>pages_direct := ?ds\<rparr>)"
      unfolding heap_update_pages_direct_def u ne small using n dir szc(1) large smi set_direct_spec [OF sl assms(2), of s p] ul
      by (simp del: of_nat_mult of_nat_diff of_nat_add upt_Suc)
    moreover have "?ds ! j = (if in_class (8 * (j + 1)) c then p else pages_direct s ! j)"
      if "j < length (pages_direct s)" "j < 128" for j
    proof -
      have "in_class (8 * (j + 1)) c \<longleftrightarrow> j \<in> set [lo..<Suc (k - 1)]"
      proof -
        have "j \<in> set [lo..<Suc (k - 1)] \<longleftrightarrow> lo \<le> j \<and> j \<le> k - 1" by auto
        then show ?thesis using class_of_slot [OF that(2) True] unfolding lo_def k_def by blast
      qed
      then show ?thesis using nth_fold_update [OF that(1), of p "[lo..<Suc (k - 1)]"] by simp
    qed
    ultimately show thesis by (intro that [of ?ds]) simp_all
  qed
qed

lemma align_up_first_block:
  assumes "page_place s seg i sh" "class_fits c sh"
  shows "align_up_uaddr (seg + of_nat (page_lo i sh)) (3 + c) = seg + of_nat (first_block i sh c)"
proof -
  have ok: "segment_ok seg" using assms(1) by (simp add: page_place_def)
  have c: "c < 17" using class_fits_less [OF assms(2)] .
  have off: "page_lo i sh \<le> 2 ^ 22" "first_block i sh c \<le> 2 ^ 22"
    using page_offsets [OF assms(1)] block_layout [OF assms] by linarith+
  have lo: "unat (seg + of_nat (page_lo i sh)) = unat seg + page_lo i sh" using off by (intro unat_in_segment [OF ok])
  have fb: "unat (seg + of_nat (first_block i sh c)) = unat seg + first_block i sh c" using off by (intro unat_in_segment [OF ok])
  have p: "(2 :: nat) ^ (3 + c) dvd 2 ^ 22" "(2 :: nat) ^ (3 + c) \<le> 2 ^ 19"
    using c le_imp_power_dvd [of "3 + c" 22 "2 :: nat"] power_increasing [of "3 + c" 19 "2 :: nat"] by simp_all
  then have "2 ^ (3 + c) dvd unat seg" using ok by (auto simp: segment_ok_def is_aligned_iff_dvd elim: dvd_trans)
  then have d: "2 ^ (3 + c) dvd unat seg + first_block i sh c" using block_layout(1) [OF assms] by simp
  have near: "first_block i sh c < page_lo i sh + 2 ^ (3 + c)"
  proof (cases "i = 0")
    case False
    then show ?thesis by (simp add: first_block_def page_lo_def)
  qed (simp add: first_block_def page_lo_def max_def)
  have room: "unat seg + page_lo i sh + 2 ^ (3 + c) \<le> 2 ^ 64"
  proof -
    obtain k where k: "unat seg = 2 ^ 22 * k" using ok by (auto simp: segment_ok_def is_aligned_iff_dvd)
    have "page_lo i sh + 2 ^ (3 + c) \<le> 2 ^ 22"
    proof (cases "sh = 16")
      case True
      then have "c < 11" "i < 64" using assms by (auto simp: class_fits_def page_place_def)
      then show ?thesis using True power_increasing [of "3 + c" 13 "2 :: nat"] by (simp add: page_lo_def)
    next
      case False
      then have "i = 0" "sh = 22" using assms(1) by (auto simp: page_place_def)
      then show ?thesis using p(2) by (simp add: page_lo_def)
    qed
    then show ?thesis using ok by (simp add: segment_ok_def)
  qed
  obtain q where q: "unat seg + first_block i sh c = 2 ^ (3 + c) * q" using d by (rule dvdE)
  have "(unat seg + page_lo i sh + 2 ^ (3 + c) - 1) div 2 ^ (3 + c) = q"
    by (rule div_nat_eqI) (use q near block_layout(4) [OF assms] in \<open>simp_all add: algebra_simps\<close>)
  then have "unat (align_up_uaddr (seg + of_nat (page_lo i sh)) (3 + c)) = unat seg + first_block i sh c"
    using unat_align_up [of "3 + c" "seg + of_nat (page_lo i sh)"] lo room c q by (simp add: mult.commute)
  then show ?thesis using fb by (simp add: word_unat_eq_iff)
qed

lemma span_page:
  assumes "page_place s seg i sh" "class_fits c sh"
  shows "span (seg + of_nat (first_block i sh c)) (seg + of_nat (page_hi i sh)) (3 + c) (block_count i sh c)"
proof -
  have ok: "segment_ok seg" using assms(1) by (simp add: page_place_def)
  have hi: "page_hi i sh \<le> 2 ^ 22" using page_offsets [OF assms(1)] by simp
  then have "first_block i sh c \<le> 2 ^ 22" using block_layout(2) [OF assms] by linarith
  then have "unat (seg + of_nat (first_block i sh c)) = unat seg + first_block i sh c" by (rule unat_in_segment [OF ok])
  then show ?thesis unfolding span_def unat_in_segment [OF ok hi] using block_layout(2) [OF assms] by linarith
qed

text \<open>The shuffle as one step: whatever the random numbers, the free list ends up with every block.\<close>

definition push_page_blocks :: "mm_state \<Rightarrow> uaddr \<Rightarrow> uaddr list \<Rightarrow> uaddr \<Rightarrow> uaddr \<Rightarrow> usize \<Rightarrow> mm_state option" where
  "push_page_blocks s page blocks page_start page_end block_size = (if length blocks = 16 then do {
       (blocks, s) \<leftarrow> push_rest s page blocks page_start page_end block_size;
       push_each s page blocks block_size
     } else push_shuffled s page blocks block_size)"

lemma push_page_blocks_spec:
  assumes "page_ready s page l [] (blocks_from start l n)" "span start stop l n"
    and f: "first_blocks 16 start stop (of_nat (2 ^ l)) = (blocks, start')"
  obtains s' fs where "push_page_blocks s page blocks start' stop (of_nat (2 ^ l)) = Some s'" "page_lists s' page l fs []"
    "set fs = set (blocks_from start l n)" "page_frame s page s'" "rng_inv (kernel_rng s')"
    "map_option used_blocks (page_meta s' page) = map_option used_blocks (page_meta s page)"
proof -
  have b: "blocks = blocks_from start l (min 16 n)" "start' = start + of_nat (min 16 n * 2 ^ l)"
    and sp: "span start' stop l (n - 16)"
    using first_blocks_spec [OF assms(2), of 16] f by simp_all
  show thesis
  proof (cases "n < 16")
    case True
    then have b': "blocks = blocks_from start l n" "length blocks \<le> 16" "length blocks \<noteq> 16" using b by simp_all
    have r: "page_ready s page l [] blocks" using assms(1) b'(1) by simp
    obtain s' fs where s': "push_shuffled s page blocks (of_nat (2 ^ l)) = Some s'" "page_ready s' page l fs []"
      "set fs = set blocks \<union> set []" "page_frame s page s'"
      "map_option used_blocks (page_meta s' page) = map_option used_blocks (page_meta s page)"
      using push_shuffled_spec [OF r b'(2)] .
    then show thesis using b'(1,3) by (intro that [of s' fs]) (simp_all add: push_page_blocks_def page_ready_def)
  next
    case False
    then have m: "min 16 n = 16" "16 + (n - 16) = n" by simp_all
    have split: "blocks_from start l n = blocks @ blocks_from start' l (n - 16)"
      using blocks_from_append [of start l 16 "n - 16"] unfolding m(2) b m(1) .
    have len: "length blocks = 16" using b(1) m(1) by simp
    have r: "page_ready s page l [] (blocks @ blocks_from start' l (n - 16))" using assms(1) split by simp
    obtain t fs bs where t: "push_rest s page blocks start' stop (of_nat (2 ^ l)) = Some (bs, t)" "page_ready t page l fs bs"
      "length bs = 16" "set (fs @ bs) = set ([] @ blocks @ blocks_from start' l (n - 16))" "page_frame s page t"
      "map_option used_blocks (page_meta t page) = map_option used_blocks (page_meta s page)"
      using push_rest_spec [OF r len sp] .
    obtain s' where s': "push_each t page bs (of_nat (2 ^ l)) = Some s'" "page_ready s' page l (rev bs @ fs) []"
      "page_frame t page s'" "map_option used_blocks (page_meta s' page) = map_option used_blocks (page_meta t page)"
      using push_each_spec [OF t(2)] .
    have "set (rev bs @ fs) = set (blocks_from start l n)" using t(4) split by auto
    then show thesis using t(1,6) s' len page_frame_trans [OF t(5) s'(3)]
      by (intro that [of s' "rev bs @ fs"]) (simp_all add: push_page_blocks_def page_ready_def)
  qed
qed

lemma page_init_spec:
  assumes place: "page_place s seg i sh" "class_fits c sh"
    and meta: "page_meta s (page_at seg (of_nat i)) = Some pg0" and g: "rng_inv (kernel_rng s)"
    and link: "self_linked (heap_links s) (Page (page_at seg (of_nat i)))"
    and pl: "is_list (heap_links s) (Pages c) (map Page ps)" "page_at seg (of_nat i) \<notin> set ps"
  obtains s' fs where "page_init_small_or_large s (page_at seg (of_nat i)) (of_nat c) = Some s'"
    "page_lists s' (page_at seg (of_nat i)) (3 + c) fs []" "set fs = set (page_blocks seg i sh c)"
    "is_list (heap_links s') (Pages c) (map Page (ps @ [page_at seg (of_nat i)]))"
    "map_option used_blocks (page_meta s' (page_at seg (of_nat i))) = Some 0"
    "\<And>j. j < length (pages_direct s) \<Longrightarrow> j < 128 \<Longrightarrow>
      pages_direct s' ! j = (if in_class (8 * (j + 1)) c then hd (ps @ [page_at seg (of_nat i)]) else pages_direct s ! j)"
    "rng_inv (kernel_rng s')"
proof -
  define page where "page = page_at seg (of_nat i)"
  note folded = meta [folded page_def] link [folded page_def] pl(2) [folded page_def]
  have c: "c < 17" using class_fits_less [OF place(2)] .
  have u: "unat (of_nat c :: usize) = c" using c by (intro unat_of_nat_small) simp
  have szl: "size_of_size_class (of_nat c) = Some (of_nat (2 ^ (3 + c)))" by (rule size_of_size_class_eq [OF c])
  have szl2: "log2_size_of_size_class (of_nat c) = Some (of_nat (3 + c))"
    using c by (simp add: log2_size_of_size_class_def size_class_is_valid_def word_less_nat_alt unat_of_nat_small)
  have szl3: "unat (of_nat (3 + c) :: usize) = 3 + c" using c by (intro unat_of_nat_small) simp
  obtain pg g' where t: "page_init_common s page (of_nat c) = Some (s\<lparr>kernel_rng := g', page_meta := (page_meta s)(page \<mapsto> pg)\<rparr>)"
    "rng_inv g'" "xor_cookie pg AND 7 = 7" "free_list pg = ucast (xor_cookie pg)" "local_free pg = ucast (xor_cookie pg)"
    "used_blocks pg = 0" "size_class pg = of_nat c"
    using page_init_common_spec [OF folded(1) less_imp_le [OF c] g] by blast
  let ?t = "s\<lparr>kernel_rng := g', page_meta := (page_meta s)(page \<mapsto> pg)\<rparr>"
  have tp: "page_place ?t seg i sh" "page_meta ?t (page_at seg (of_nat i)) = Some pg"
    using place(1) by (simp_all add: page_place_def page_def)
  have valid: "size_class_is_valid (ucast (size_class pg))"
  proof -
    have "unat (ucast (of_nat c :: 7 word) :: usize) = c"
      using c by (simp add: unsigned_ucast_eq take_bit_nat_eq_self unat_of_nat_small)
    then show ?thesis using c t(7) by (simp add: size_class_is_valid_def word_less_nat_alt)
  qed
  have bounds: "page_bounds ?t page = Some (seg + of_nat (page_lo i sh), seg + of_nat (page_hi i sh))"
    using page_bounds_at [OF tp valid] by (simp only: page_def)
  let ?start = "seg + of_nat (first_block i sh c)" and ?stop = "seg + of_nat (page_hi i sh)"
  have al: "align_up_uaddr (seg + of_nat (page_lo i sh)) (3 + c) = ?start" using align_up_first_block [OF place] .
  have sp: "span ?start ?stop (3 + c) (block_count i sh c)" using span_page [OF place] .
  have al1: "is_aligned_uaddr ?start (3 + c)" using align_up_aligned [of "seg + of_nat (page_lo i sh)" "3 + c"] al by simp
  then have al2: "is_aligned_uaddr ?stop (3 + c)" using sp by (simp add: span_def is_aligned_iff_dvd)
  have ready: "page_ready ?t page (3 + c) [] (blocks_from ?start (3 + c) (block_count i sh c))"
    using t c page_block_ok [OF tp(1) place(2) tp(2) t(7)] distinct_page_blocks [OF place]
    by (simp add: page_ready_def page_lists_def page_blocks_def page_def [symmetric])
  obtain blocks start' where fb: "first_blocks 16 ?start ?stop (of_nat (2 ^ (3 + c))) = (blocks, start')" by fastforce
  have ne: "blocks \<noteq> []" and le: "start' \<le> ?stop"
    using first_blocks_spec [OF sp, of 16] fb block_layout(3) [OF place] span_le
    by (auto dest!: arg_cong [of _ "[]" length])
  obtain v fs where v: "push_page_blocks ?t page blocks start' ?stop (of_nat (2 ^ (3 + c))) = Some v" "page_lists v page (3 + c) fs []"
    "set fs = set (page_blocks seg i sh c)" "page_frame ?t page v" "rng_inv (kernel_rng v)"
    "map_option used_blocks (page_meta v page) = map_option used_blocks (page_meta ?t page)"
    using push_page_blocks_spec [OF ready sp fb] by (auto simp: page_blocks_def)
  have vl: "heap_links v = heap_links s" "pages_direct v = pages_direct s" using v(4) by (auto simp: page_frame_def)
  have self: "self_linked (heap_links v) (Page page)" "Page page \<notin> set (Pages c # map Page ps)"
    using folded(2,3) vl by auto
  obtain h where h: "list_push (heap_links v) (Pages c) (Page page) = Some h" "is_list h (Pages c) (map Page ps @ [Page page])"
    using list_push_spec [OF pl(1) [folded vl(1)] self] by auto
  have il: "is_list (heap_links (v\<lparr>heap_links := h\<rparr>)) (Pages c) (Page (hd (ps @ [page])) # tl (map Page ps @ [Page page]))"
    using h(2) by (cases ps) simp_all
  let ?v = "v\<lparr>heap_links := h\<rparr>"
  obtain ds where ds: "heap_update_pages_direct ?v (of_nat c) = Some (?v\<lparr>pages_direct := ds\<rparr>)"
    "length ds = length (pages_direct ?v)"
    "\<And>j. j < length (pages_direct ?v) \<Longrightarrow> j < 128 \<Longrightarrow>
      ds ! j = (if in_class (8 * (j + 1)) c then hd (ps @ [page]) else pages_direct ?v ! j)"
    by (rule heap_update_pages_direct_spec [OF il c]) (rule that)
  let ?s = "v\<lparr>heap_links := h, pages_direct := ds\<rparr>"
  have un: "list_is_empty (heap_links s) (Page page) = Some True"
    using folded(2) by (simp add: list_is_empty_def self_linked_def LIST_INIT_def)
  have e: "page_init_small_or_large s page (of_nat c) = Some ?s"
    unfolding page_init_small_or_large_def un szl t(1)
    using v(1) ds(1) h(1) bounds al al1 al2 fb ne le szl2 szl3 u
    by (simp add: on_links_def push_page_blocks_def del: of_nat_power of_nat_add)
  have pl': "page_lists ?s page (3 + c) fs []"
  proof -
    have "same_bounds page v ?s" by (simp add: same_bounds_def)
    then show ?thesis using v(2) by (simp add: page_lists_def block_ok_cong)
  qed
  show thesis
    by (rule that [folded page_def, OF e pl' v(3)]) (use h(2) v(5,6) t(6) ds(3) vl in simp_all)
qed

section \<open>A page whose blocks are all given back\<close>

lemma page_block_index:
  assumes "page_place s seg i sh" "class_fits c sh" "b \<in> set (page_blocks seg i sh c)"
  shows "page_of_ptr s b = Some (page_at seg (of_nat i))" "segment_of_ptr b = seg"
proof -
  obtain x where x: "b = seg + of_nat x" "first_block i sh c \<le> x" "x < page_hi i sh" "unat b = unat seg + x"
    using page_block_offset [OF assms] by metis
  have ok: "segment_ok seg" using assms(1) by (simp add: page_place_def)
  have x22: "x < 2 ^ 22" using x(3) page_offsets(2) [OF assms(1)] by linarith
  then show seg: "segment_of_ptr b = seg" unfolding x(1) by (rule segment_of_offset [OF ok])
  obtain sg where sg: "segments s seg = Some sg" "page_shift sg = of_nat sh" using assms(1) by (auto simp: page_place_def)
  have sh: "unat (of_nat sh :: usize) = sh" using assms(1) by (auto simp: page_place_def)
  have "i * 2 ^ sh \<le> x" using x(2) block_layout(4) [OF assms(1,2)] by (simp add: page_lo_def)
  then have "x div 2 ^ sh = i" using x(3) by (intro div_nat_eqI) (simp_all add: page_hi_def mult.commute)
  moreover have "unat (of_nat x :: usize) = x" using x22 by (intro unat_of_nat_small) simp
  moreover have "unat (drop_bit sh (of_nat x :: usize)) = drop_bit sh (take_bit 64 (unat (of_nat x :: usize)))"
    by (simp add: unsigned_drop_bit_eq)
  ultimately have "unat (drop_bit sh (of_nat x :: usize)) = i"
    using x22 by (simp add: drop_bit_eq_div take_bit_nat_eq_self)
  then have "unat (drop_bit sh (of_nat x :: usize)) = unat (of_nat i :: usize)"
    using assms(1) by (auto simp: page_place_def)
  then have dx: "drop_bit sh (of_nat x) = (of_nat i :: usize)" by (simp only: word_unat_eq_iff)
  have "b - seg = of_nat x" using x(1) by simp
  then have d: "drop_bit sh (b - seg) = (of_nat i :: usize)" using dx by simp
  have "(of_nat i :: usize) \<noteq> 0 \<longrightarrow> page_shift sg = PAGE_SMALL_SHIFT"
    using assms(1) sg(2) by (auto simp: page_place_def PAGE_SMALL_SHIFT_def)
  then show "page_of_ptr s b = Some (page_at seg (of_nat i))"
    using sg seg sh d by (simp add: page_of_ptr_def)
qed

text \<open>The state in which the only page of a size class is empty, and its free list used up.\<close>

definition drained :: "mm_state \<Rightarrow> uaddr \<Rightarrow> nat \<Rightarrow> bool" where
  "drained s page c \<longleftrightarrow> page \<noteq> 0 \<and> c < 8 \<and> (\<exists>l ls. page_lists s page l [] ls) \<and>
     (\<exists>pg. page_meta s page = Some pg \<and> used_blocks pg = remote_free_length pg \<and> size_class pg = of_nat c) \<and>
     is_list (heap_links s) (Pages c) [Page page] \<and> delayed_free s = 0"

lemma class_word: "c < 17 \<Longrightarrow> ucast (of_nat c :: 7 word) = (of_nat c :: usize)"
  by (simp add: word_unat_eq_iff unsigned_ucast_eq take_bit_nat_eq_self unat_of_nat_small)

lemma small_class_direct:
  assumes "c < 8"
  shows "size_class_is_valid (of_nat c)" "size_class_in_pages_direct (of_nat c) = Some True"
proof -
  have "(2 :: nat) ^ (3 + c) \<le> 2 ^ 10" using assms by (intro power_increasing) simp_all
  then have "(of_nat (2 ^ (3 + c)) :: usize) \<le> 1024"
    by (simp add: word_le_nat_alt unat_of_nat_small del: of_nat_power)
  then show "size_class_in_pages_direct (of_nat c) = Some True"
    using size_of_size_class_eq [of c] assms by (simp add: size_class_in_pages_direct_def del: of_nat_power)
  show "size_class_is_valid (of_nat c)" using assms by (simp add: size_class_is_valid_def word_less_nat_alt)
qed

lemma single_page_links:
  assumes "is_list h (Pages c) [Page page]"
  shows "h (Page page) = Some \<lparr>lprev = Pages c, lnext = Pages c\<rparr>" "\<exists>n. h (Pages c) = Some n \<and> lnext n = Page page"
    "list_is_empty h (Pages c) = Some False"
proof -
  have "is_list h (Page page) [Pages c]" using assms is_list_rotate [of h "Pages c" "[]" "Page page" "[]"] by simp
  from is_list_end [OF this] obtain n where "h (Page page) = Some n" "lnext n = Pages c" "lprev n = Pages c" by auto
  then show "h (Page page) = Some \<lparr>lprev = Pages c, lnext = Pages c\<rparr>" by (cases n) simp
  show "\<exists>n. h (Pages c) = Some n \<and> lnext n = Page page" using is_list_end [OF assms] by auto
  show "list_is_empty h (Pages c) = Some False" using list_is_empty_spec [OF assms] by simp
qed

lemma last_page_stays:
  assumes "drained s page c"
  shows "page_free s page = Some s"
proof -
  obtain pg where pg: "page_meta s page = Some pg" "used_blocks pg = remote_free_length pg" "size_class pg = of_nat c" "c < 8"
    and l: "is_list (heap_links s) (Pages c) [Page page]" using assms by (auto simp: drained_def)
  then show ?thesis using small_class_direct [OF pg(4)] class_word [of c] single_page_links(1) [OF l]
    by (simp add: page_free_def page_is_empty_def)
qed

lemma drained_alloc_stops:
  assumes "drained s page c" "size_class_of_size bytes = Some (of_nat c)" "bytes \<noteq> 0"
  shows "alloc_generic s bytes = None"
proof -
  obtain pg where pg: "page_meta s page = Some pg" "used_blocks pg = remote_free_length pg" "c < 8" "delayed_free s = 0"
    and l: "is_list (heap_links s) (Pages c) [Page page]" using assms(1) by (auto simp: drained_def)
  obtain n where n: "heap_links s (Pages c) = Some n" "lnext n = Page page" using single_page_links(2) [OF l] by auto
  have u: "unat (of_nat c :: usize) = c" using pg(3) by (intro unat_of_nat_small) simp
  have nh: "\<not> size_is_huge bytes" using assms(2) by (auto simp: size_class_of_size_def bind_eq_Some_conv)
  have stop: "scan_pages s c (Pages c) = Some (0, s)" by (subst scan_pages.simps) simp
  have "scan_pages s c (Page page) = Some (0, s)"
    using pg(1,2) last_page_stays [OF assms(1)] single_page_links(1) [OF l] stop
    by (subst scan_pages.simps) (simp add: page_is_empty_def)
  moreover have "free_delayed s = Some s" using pg(4) by (subst free_delayed.simps) simp
  ultimately show ?thesis
    using assms(2,3) nh n u single_page_links(3) [OF l] by (simp add: alloc_generic_def)
qed

text \<open>
  A page of a class of small objects that is the only one of its class, with one block handed
  out and nothing left to allocate from.
\<close>

definition one_block_out :: "mm_state \<Rightarrow> uaddr \<Rightarrow> nat \<Rightarrow> nat \<Rightarrow> nat \<Rightarrow> uaddr \<Rightarrow> bool" where
  "one_block_out s seg i sh c b \<longleftrightarrow> page_place s seg i sh \<and> class_fits c sh \<and> c < 8 \<and>
     b \<in> set (page_blocks seg i sh c) \<and> map_option segment_hart_id (segments s seg) = Some (hart_id s) \<and>
     (\<exists>ls. page_lists s (page_at seg (of_nat i)) (3 + c) [] ls \<and> b \<notin> set ls) \<and>
     (\<exists>pg. page_meta s (page_at seg (of_nat i)) = Some pg \<and> size_class pg = of_nat c \<and> used_blocks pg = 1 \<and>
        remote_free_length pg = 0) \<and>
     is_list (heap_links s) (Pages c) [Page (page_at seg (of_nat i))] \<and> delayed_free s = 0 \<and>
     (\<forall>j < 128. in_class (8 * (j + 1)) c \<longrightarrow> pages_direct s ! j = page_at seg (of_nat i))"

lemma free_last_block:
  assumes "one_block_out s seg i sh c b"
  obtains s' where "free s b = Some s'" "drained s' (page_at seg (of_nat i)) c" "pages_direct s' = pages_direct s"
proof -
  define page where "page = page_at seg (of_nat i)"
  obtain ls pg where a: "page_place s seg i sh" "class_fits c sh" "c < 8" "b \<in> set (page_blocks seg i sh c)"
    "map_option segment_hart_id (segments s seg) = Some (hart_id s)" "page_lists s page (3 + c) [] ls" "b \<notin> set ls"
    "page_meta s page = Some pg" "size_class pg = of_nat c" "used_blocks pg = 1" "remote_free_length pg = 0"
    "is_list (heap_links s) (Pages c) [Page page]" "delayed_free s = 0"
    using assms by (auto simp: one_block_out_def page_def)
  obtain sg where sg: "segments s seg = Some sg" "segment_hart_id sg = hart_id s" using a(5) by auto
  have bo: "block_ok s page b" "is_aligned_uaddr b (3 + c)"
    using page_block_ok [OF a(1,2) _ a(9,4)] a(8) by (simp_all add: page_def)
  have ub: "used_blocks pg \<noteq> remote_free_length pg" "b \<notin> set ([] @ ls)" using a(7,10,11) by simp_all
  obtain t where t: "page_local_free_push s page b = Some t" "page_lists t page (3 + c) [] (b # ls)" "page_frame s page t"
    "map_option used_blocks (page_meta t page) = Some (used_blocks pg - 1)"
    using page_local_free_push_spec [OF a(6) bo ub(2) a(8) ub(1)] by metis
  obtain pt where pt: "page_meta t page = Some pt" "used_blocks pt = 0" using t(4) a(10) by auto
  have fr: "heap_links t = heap_links s" "delayed_free t = delayed_free s" "pages_direct t = pages_direct s" "size_class pt = of_nat c"
    using t(3) pt(1) a(8,9) by (auto simp: page_frame_def)
  have rf: "remote_free_length pt = 0"
    using t(1) pt(1) a(8,11) by (auto simp: page_local_free_push_def page_push_def update_page_def bind_eq_Some_conv Let_def)
  have "segment_ok seg" "i < 64" using a(1) by (auto simp: page_place_def)
  then have nz: "page \<noteq> 0" unfolding page_def by (rule page_at_nonzero)
  have d: "drained t page c"
    using a(3,12,13) t(2) pt rf fr nz by (auto simp: drained_def)
  have "b \<noteq> 0" using bo(1) by (rule block_ok_nonzero)
  then have "free s b = Some t"
    using page_block_index [OF a(1,2,4)] sg t(1) pt rf last_page_stays [OF d]
    by (simp add: free_def page_is_empty_def page_def [symmetric])
  then show thesis using d fr(3) unfolding page_def by (rule that)
qed

lemma drained_small_alloc_stops:
  assumes "drained s page c" "0 < bytes" "bytes \<le> 1024" "size_class_of_size bytes = Some (of_nat c)"
    and "\<forall>j < 128. in_class (8 * (j + 1)) c \<longrightarrow> pages_direct s ! j = page"
  shows "alloc s bytes = None"
proof -
  have b: "0 < unat bytes" "unat bytes \<le> 1024" using assms(2,3) by (simp_all add: word_less_nat_alt word_le_nat_alt)
  let ?i = "(unat bytes + 7) div 8 - 1"
  have i: "pages_direct_index_of_size bytes = Some (of_nat ?i)" "?i < 128" using index_of_size [OF b] .
  have c: "c < 17" and pz: "page \<noteq> 0" using assms(1) by (auto simp: drained_def)
  obtain l ls where pl: "page_lists s page l [] ls" using assms(1) by (auto simp: drained_def)
  have "in_class (unat bytes) c" using size_class_iff [OF _ c, of bytes] b(2) assms(4) by simp
  then have "in_class (8 * (?i + 1)) c" using in_class_round_up [of "unat bytes" c] b by (simp add: mult.commute)
  then have d: "pages_direct s ! ?i = page" using assms(5) i(2) by simp
  have u: "unat (of_nat ?i :: usize) = ?i" using i(2) by (intro unat_of_nat_small) simp
  have "alloc_generic s bytes = None" using drained_alloc_stops [OF assms(1,4)] assms(2) by simp
  then have "alloc_small s bytes = None"
    unfolding alloc_small_def i(1) using assms(2,3) d pz page_free_pop_nil [OF pl pz] u
    by (simp del: of_nat_diff)
  then show ?thesis using assms(2,3) by (auto simp: alloc_def)
qed

section \<open>Examples\<close>

text \<open>Page 1 of the first segment of the kernel, for blocks of 1 KiB.\<close>

definition example_seg :: uaddr where
  "example_seg = 0xffffffe000000000"

definition example_heap :: mm_state where
  "example_heap = \<lparr>hart_id = 3, heap_installed = True, alloc_inited = True, heap_hart_id = 3,
     pages_direct = replicate 128 0,
     heap_links = [Pages 7 \<mapsto> LIST_INIT (Pages 7), Page (page_at example_seg 1) \<mapsto> LIST_INIT (Page (page_at example_seg 1))],
     delayed_free = 0, segments = [example_seg \<mapsto> \<lparr>segment_hart_id = 3, used_pages = 1, page_shift = 16\<rparr>],
     page_meta = [page_at example_seg 1 \<mapsto> zero_page], ram = (\<lambda>_. 0), kernel_rng = example_random,
     kernel_virtual_allocator = blank_va, kernel_paging = \<lparr>phys = boot_state, satp_csr = 0\<rparr>\<rparr>"

lemma example_segment: "segment_ok example_seg"
  by (simp add: segment_ok_def example_seg_def is_aligned_iff_dvd)

lemma example_place: "segments s example_seg = Some \<lparr>segment_hart_id = 3, used_pages = 1, page_shift = 16\<rparr> \<Longrightarrow> page_place s example_seg 1 16"
  using example_segment by (simp add: page_place_def)

lemma example_links:
  "self_linked (heap_links example_heap) (Page (page_at example_seg 1))"
  "is_list (heap_links example_heap) (Pages 7) []"
  by (simp_all add: example_heap_def self_linked_def is_list_Nil)

lemma example_fits: "class_fits 7 16"
  by (simp add: class_fits_def)

text \<open>The same page with its first block out and empty lists.\<close>

definition example_drained :: mm_state where
  "example_drained = example_heap\<lparr>pages_direct := replicate 128 (page_at example_seg 1),
     heap_links := [Pages 7 \<mapsto> \<lparr>lprev = Page (page_at example_seg 1), lnext = Page (page_at example_seg 1)\<rparr>,
       Page (page_at example_seg 1) \<mapsto> \<lparr>lprev = Pages 7, lnext = Pages 7\<rparr>],
     page_meta := [page_at example_seg 1 \<mapsto> zero_page\<lparr>free_list := 7, local_free := 7, xor_cookie := 7,
       used_blocks := 1, size_class := 7\<rparr>]\<rparr>"

lemma example_one_block_out: "one_block_out example_drained example_seg 1 16 7 (example_seg + 0x10000)"
proof -
  have "page_place example_drained example_seg 1 16"
    by (rule example_place) (simp add: example_drained_def example_heap_def)
  moreover have "example_seg + 0x10000 \<in> set (page_blocks example_seg 1 16 7)"
  proof -
    have "block_count 1 16 7 = 64" by (simp add: block_count_def page_hi_def first_block_def)
    then have "page_blocks example_seg 1 16 7 = blocks_from (example_seg + 0x10000) 10 (Suc 63)"
      by (simp add: page_blocks_def first_block_def)
    then show ?thesis unfolding blocks_from_Suc by simp
  qed
  moreover have "page_lists example_drained (page_at example_seg 1) 10 [] []"
    by (simp add: page_lists_def example_drained_def)
  moreover have "is_list (heap_links example_drained) (Pages 7) [Page (page_at example_seg 1)]"
    by (simp add: is_list_def example_drained_def)
  ultimately show ?thesis
    using example_fits by (auto simp: one_block_out_def example_drained_def example_heap_def zero_page_def)
qed

section \<open>The properties\<close>

text \<open>
  \<open>C23\<close>.  Initializing a page for a size class succeeds whatever the random numbers are: the free
  list then holds every block of the page exactly once, in some order, nothing is on the list
  of freed blocks, the page is the last of its class and the direct pointers of the class name
  the first page of the class.
\<close>

theorem page_init_small_or_large_correct:
  assumes "page_place s seg i sh" "class_fits c sh"
    and "page_meta s (page_at seg (of_nat i)) = Some pg0" "rng_inv (kernel_rng s)"
    and "self_linked (heap_links s) (Page (page_at seg (of_nat i)))"
    and "is_list (heap_links s) (Pages c) (map Page ps)" "page_at seg (of_nat i) \<notin> set ps"
  shows "\<exists>s' fs. page_init_small_or_large s (page_at seg (of_nat i)) (of_nat c) = Some s' \<and>
    page_lists s' (page_at seg (of_nat i)) (3 + c) fs [] \<and> distinct fs \<and> set fs = set (page_blocks seg i sh c) \<and>
    is_list (heap_links s') (Pages c) (map Page (ps @ [page_at seg (of_nat i)])) \<and>
    map_option used_blocks (page_meta s' (page_at seg (of_nat i))) = Some 0 \<and>
    (\<forall>j < 128. j < length (pages_direct s) \<longrightarrow> pages_direct s' ! j =
      (if in_class (8 * (j + 1)) c then hd (ps @ [page_at seg (of_nat i)]) else pages_direct s ! j)) \<and>
    rng_inv (kernel_rng s')"
proof (rule page_init_spec [OF assms])
  fix s' fs
  let ?page = "page_at seg (of_nat i)"
  assume a: "page_init_small_or_large s ?page (of_nat c) = Some s'" "page_lists s' ?page (3 + c) fs []"
    "set fs = set (page_blocks seg i sh c)" "is_list (heap_links s') (Pages c) (map Page (ps @ [?page]))"
    "map_option used_blocks (page_meta s' ?page) = Some 0" "rng_inv (kernel_rng s')"
    and d: "\<And>j. j < length (pages_direct s) \<Longrightarrow> j < 128 \<Longrightarrow>
      pages_direct s' ! j = (if in_class (8 * (j + 1)) c then hd (ps @ [?page]) else pages_direct s ! j)"
  have "distinct fs" using a(2) by (simp add: page_lists_def)
  then show ?thesis using a d by blast
qed

theorem page_init_small_or_large_correct_witness:
  "\<exists>s' fs. page_init_small_or_large example_heap (page_at example_seg (of_nat 1)) (of_nat 7) = Some s' \<and>
    page_lists s' (page_at example_seg (of_nat 1)) (3 + 7) fs [] \<and> distinct fs \<and> set fs = set (page_blocks example_seg 1 16 7)"
proof -
  have "page_place example_heap example_seg 1 16" by (rule example_place) (simp add: example_heap_def)
  moreover have "page_meta example_heap (page_at example_seg (of_nat 1)) = Some zero_page" "kernel_rng example_heap = example_random"
    by (simp_all add: example_heap_def)
  ultimately show ?thesis
    using page_init_small_or_large_correct [of example_heap example_seg 1 16 7 zero_page "[]"] example_fits example_rng_inv example_links
    by auto
qed

text \<open>
  \<open>C24\<close>.  When all blocks of the only page of a small size class have been handed out and are
  freed again, freeing the last one succeeds, keeps the page, and the next allocation of that
  class stops in a failed assertion: the search takes the empty page for freed, but it is
  still in the list.
\<close>

theorem emptied_last_page_stops_allocation:
  assumes "one_block_out s seg i sh c b" "0 < bytes" "bytes \<le> 1024" "size_class_of_size bytes = Some (of_nat c)"
  shows "\<exists>s'. free s b = Some s' \<and> alloc s' bytes = None"
proof (rule free_last_block [OF assms(1)])
  fix s'
  assume s': "free s b = Some s'" "drained s' (page_at seg (of_nat i)) c" "pages_direct s' = pages_direct s"
  have "\<forall>j < 128. in_class (8 * (j + 1)) c \<longrightarrow> pages_direct s' ! j = page_at seg (of_nat i)"
    using assms(1) s'(3) by (simp add: one_block_out_def)
  then show ?thesis using drained_small_alloc_stops [OF s'(2) assms(2-4)] s'(1) by blast
qed

theorem emptied_last_page_stops_allocation_witness:
  "\<exists>s'. free example_drained (example_seg + 0x10000) = Some s' \<and> alloc s' 1000 = None"
proof -
  have "size_class_of_size 1000 = Some (of_nat 7)" by code_simp
  then show ?thesis using emptied_last_page_stops_allocation [OF example_one_block_out, of 1000] by simp
qed
end
