(* ===== verification/Print.thy ===== *)
theory Print
  imports Heap
begin

unbundle bit_operations_syntax

text \<open>
  Formatted output, \<^verbatim>\<open>print.c\<close>.  Every format function gives the text it writes and the
  arguments it leaves; \<open>vfprint\<close> reads a format as the code does, nested formats
  included, and terminates.  Its meaning is stated on formats as pieces of text and holes;
  numbers are read back from their digits.
\<close>


section \<open>Arguments and numbers\<close>

text \<open>
  A C string is the list of its characters before the terminating zero.  The bytes written
  one by one through the formatter are the result of each function; what a formatter does
  with a byte does not influence them.

  An entry of a \<^verbatim>\<open>va_list\<close>: an \<^verbatim>\<open>int\<close> or \<^verbatim>\<open>u32\<close>, a 64-bit integer, a physical address, a
  string, the bytes a pointer leads to, and another \<^verbatim>\<open>va_list\<close>.  Reading an entry at another
  type is undefined and stops, as is reading past the end.
\<close>

datatype va_entry = Va_Int u32 | Va_Long u64 | Va_Paddr paddr | Va_Cstr string | Va_Bytes "u8 list" | Va_List "va_entry list"

definition NUMBER_ALPHABET :: string where
  "NUMBER_ALPHABET = ''0123456789abcdef''"

record number_spec =
  pad_byte :: char
  number_base :: u64
  pad_to :: usize
  escaped :: bool
  pad_after_prefix :: bool

definition default_spec :: number_spec where
  "default_spec = \<lparr>pad_byte = CHR '' '', number_base = 10, pad_to = 0, escaped = False, pad_after_prefix = False\<rparr>"

definition is_digit :: "char \<Rightarrow> bool" where
  "is_digit c \<longleftrightarrow> c \<in> set ''0123456789''"

definition digit_value :: "char \<Rightarrow> u64" where
  "digit_value c = of_nat (of_char c - of_char (CHR ''0''))"

text \<open>
  The inner loop over the digits of the width.  It looks one character past the arguments,
  where the closing brace or the end of the string is.
\<close>

fun pad_digits :: "usize \<Rightarrow> string \<Rightarrow> usize \<times> string" where
  "pad_digits width [] = (width, [])"
| "pad_digits width (c # args) =
     (if is_digit c then pad_digits (width * 10 + digit_value c) args else (width, c # args))"

lemma length_pad_digits: "length (snd (pad_digits width args)) \<le> length args"
  by (induction width args rule: pad_digits.induct) (auto intro: le_SucI)

text \<open>The arguments of a number; \<open>Inl\<close> carries what comes after the first character that is none.\<close>

function number_args :: "number_spec \<Rightarrow> string \<Rightarrow> string + number_spec" where
  "number_args sp [] = Inr sp"
| "number_args sp (c # args) =
     (if c = CHR ''#'' then number_args (sp\<lparr>escaped := True\<rparr>) args
      else if c = CHR ''0'' then number_args (sp\<lparr>pad_byte := CHR ''0'', pad_after_prefix := True\<rparr>) args
      else if is_digit c then
        number_args (sp\<lparr>pad_to := fst (pad_digits (digit_value c) args)\<rparr>) (snd (pad_digits (digit_value c) args))
      else if c = CHR ''b'' then number_args (sp\<lparr>number_base := 2\<rparr>) args
      else if c = CHR ''o'' then number_args (sp\<lparr>number_base := 8\<rparr>) args
      else if c = CHR ''x'' then number_args (sp\<lparr>number_base := 16\<rparr>) args
      else Inl args)"
  by pat_completeness auto
termination
  by (relation "measure (\<lambda>(sp, args). length args)")
    (auto simp: less_Suc_eq_le length_pad_digits)

definition number_prefix :: "number_spec \<Rightarrow> string" where
  "number_prefix sp = (if escaped sp then
       if number_base sp = 2 then ''0b'' else if number_base sp = 8 then ''0o''
       else if number_base sp = 16 then ''0x'' else []
     else [])"

text \<open>The digits in the buffer, the last one first.  A base below 2 would not end in C.\<close>

function digits_rev :: "u64 \<Rightarrow> u64 \<Rightarrow> string" where
  "digits_rev base number = (if number = 0 \<or> base \<le> 1 then []
     else NUMBER_ALPHABET ! unat (number mod base) # digits_rev base (number div base))"
  by auto
termination
proof (relation "measure (\<lambda>(base, number). unat number)")
  fix base number :: u64
  assume "\<not> (number = 0 \<or> base \<le> 1)"
  then have "0 < unat number" "1 < unat base" by (auto simp: word_le_nat_alt unat_gt_0)
  then show "((base, number div base), base, number) \<in> measure (\<lambda>(base, number). unat number)"
    by (simp add: unat_div)
qed simp

declare digits_rev.simps [simp del]

definition format_number :: "string \<Rightarrow> bool \<Rightarrow> u64 \<Rightarrow> string" where
  "format_number args sign number = (case number_args default_spec args of
     Inl rest \<Rightarrow> ''{{invalid arguments for numeric type: '' @ rest @ ''}}''
   | Inr sp \<Rightarrow>
      (let prefix_len = (if sign then 1 else 0) + (if escaped sp \<and> number_base sp \<in> {2, 8, 16} then 2 else 0);
           number = (if sign then - number else number);
           buf_rev = (if number = 0 then ''0'' else digits_rev (number_base sp) number);
           buf_len = of_nat (length buf_rev);
           pad_len = (if prefix_len + buf_len < pad_to sp then pad_to sp - (prefix_len + buf_len) else 0);
           padding = replicate (unat pad_len) (pad_byte sp)
       in (if \<not> pad_after_prefix sp then padding else []) @ (if sign then ''-'' else []) @ number_prefix sp @
          (if pad_after_prefix sp then padding else []) @ rev buf_rev))"

section \<open>The types of arguments\<close>

datatype format_func = F_bool | F_bytes | F_cstr | F_i8 | F_i16 | F_i32 | F_i64 | F_indent | F_isize | F_paddr
  | F_u8 | F_u16 | F_u32 | F_u64 | F_uaddr | F_uptr | F_usize | F_va

definition invalid_arguments :: "string \<Rightarrow> string \<Rightarrow> string" where
  "invalid_arguments type_name args = ''{{invalid arguments for type '' @ type_name @ '': '' @ args @ ''}}''"

definition format_bool :: "string \<Rightarrow> va_entry list \<Rightarrow> (string \<times> va_entry list) option" where
  "format_bool args ap = (if args \<noteq> [] then Some (invalid_arguments ''bool'' args, ap)
     else case ap of Va_Int n # ap \<Rightarrow> Some (if n \<noteq> 0 then ''true'' else ''false'', ap) | _ \<Rightarrow> None)"

text \<open>\<^verbatim>\<open>format_bytes\<close>: its one argument is a question mark, given once.\<close>

fun bytes_args :: "bool \<Rightarrow> string \<Rightarrow> bool option" where
  "bytes_args string_like [] = Some string_like"
| "bytes_args string_like (c # args) =
     (if c = CHR ''?'' \<and> \<not> string_like then bytes_args True args else None)"

definition escape_byte :: "u8 \<Rightarrow> string option" where
  "escape_byte b =
     (if b = 0 then Some [CHR 0x5C, CHR ''0'']
      else if b = 7 then Some [CHR 0x5C, CHR ''a'']
      else if b = 8 then Some [CHR 0x5C, CHR ''b'']
      else if b = 12 then Some [CHR 0x5C, CHR ''f'']
      else if b = 10 then Some [CHR 0x5C, CHR ''n'']
      else if b = 13 then Some [CHR 0x5C, CHR ''r'']
      else if b = 9 then Some [CHR 0x5C, CHR ''t'']
      else if b = 11 then Some [CHR 0x5C, CHR ''v'']
      else if 32 \<le> b \<and> b \<le> 126 then Some [char_of (unat b)]
      else None)"

definition hex_byte :: "u8 \<Rightarrow> string" where
  "hex_byte b = [NUMBER_ALPHABET ! unat (drop_bit 4 b), NUMBER_ALPHABET ! unat (b AND 15)]"

fun hex_bytes :: "u8 list \<Rightarrow> string" where
  "hex_bytes [] = []"
| "hex_bytes [b] = hex_byte b"
| "hex_bytes (b # bs) = hex_byte b @ '' '' @ hex_bytes bs"

definition bytes_text :: "bool \<Rightarrow> u8 list \<Rightarrow> string" where
  "bytes_text string_like bs = (if string_like then
       if list_all (\<lambda>b. escape_byte b \<noteq> None) bs
       then [CHR 0x22] @ concat (map (\<lambda>b. the (escape_byte b)) bs) @ [CHR 0x22]
       else ''['' @ hex_bytes bs @ '']''
     else hex_bytes bs)"

definition format_bytes :: "string \<Rightarrow> va_entry list \<Rightarrow> (string \<times> va_entry list) option" where
  "format_bytes args ap = (case bytes_args False args of
     None \<Rightarrow> Some (invalid_arguments ''bytes'' args, ap)
   | Some string_like \<Rightarrow> (case ap of
       Va_Bytes bs # Va_Long len # ap \<Rightarrow>
         if unat len \<le> length bs then Some (bytes_text string_like (take (unat len) bs), ap) else None
     | _ \<Rightarrow> None))"

definition format_cstr :: "string \<Rightarrow> va_entry list \<Rightarrow> (string \<times> va_entry list) option" where
  "format_cstr args ap = (if args \<noteq> [] then Some (invalid_arguments ''cstr'' args, ap)
     else case ap of Va_Cstr str # ap \<Rightarrow> Some (str, ap) | _ \<Rightarrow> None)"

text \<open>Narrow arguments come as \<^verbatim>\<open>int\<close> and are cut to their width; the sign goes with the widened value.\<close>

definition format_i8 :: "string \<Rightarrow> va_entry list \<Rightarrow> (string \<times> va_entry list) option" where
  "format_i8 args ap = (case ap of Va_Int w # ap \<Rightarrow>
     (let n = ucast w :: 8 word in Some (format_number args (n <s 0) (scast n), ap)) | _ \<Rightarrow> None)"

definition format_i16 :: "string \<Rightarrow> va_entry list \<Rightarrow> (string \<times> va_entry list) option" where
  "format_i16 args ap = (case ap of Va_Int w # ap \<Rightarrow>
     (let n = ucast w :: 16 word in Some (format_number args (n <s 0) (scast n), ap)) | _ \<Rightarrow> None)"

definition format_i32 :: "string \<Rightarrow> va_entry list \<Rightarrow> (string \<times> va_entry list) option" where
  "format_i32 args ap = (case ap of Va_Int n # ap \<Rightarrow> Some (format_number args (n <s 0) (scast n), ap) | _ \<Rightarrow> None)"

definition format_i64 :: "string \<Rightarrow> va_entry list \<Rightarrow> (string \<times> va_entry list) option" where
  "format_i64 args ap = (case ap of Va_Long n # ap \<Rightarrow> Some (format_number args (n <s 0) n, ap) | _ \<Rightarrow> None)"

definition format_indent :: "string \<Rightarrow> va_entry list \<Rightarrow> (string \<times> va_entry list) option" where
  "format_indent args ap = (if args \<noteq> [] then Some (invalid_arguments ''indent'' args, ap)
     else case ap of Va_Long i # ap \<Rightarrow> Some (replicate (unat i) (CHR '' ''), ap) | _ \<Rightarrow> None)"

definition format_isize :: "string \<Rightarrow> va_entry list \<Rightarrow> (string \<times> va_entry list) option" where
  "format_isize args ap = (case ap of Va_Long n # ap \<Rightarrow> Some (format_number args (n <s 0) n, ap) | _ \<Rightarrow> None)"

definition address_args :: "string \<Rightarrow> string" where
  "address_args args = (if args = [] then ''#018x'' else args)"

definition format_paddr :: "string \<Rightarrow> va_entry list \<Rightarrow> (string \<times> va_entry list) option" where
  "format_paddr args ap = (case ap of Va_Paddr p # ap \<Rightarrow>
     do { b \<leftarrow> bits_of_paddr p; Some (format_number (address_args args) False b, ap) } | _ \<Rightarrow> None)"

definition format_u8 :: "string \<Rightarrow> va_entry list \<Rightarrow> (string \<times> va_entry list) option" where
  "format_u8 args ap = (case ap of Va_Int w # ap \<Rightarrow> Some (format_number args False (ucast (ucast w :: u8)), ap) | _ \<Rightarrow> None)"

definition format_u16 :: "string \<Rightarrow> va_entry list \<Rightarrow> (string \<times> va_entry list) option" where
  "format_u16 args ap = (case ap of Va_Int w # ap \<Rightarrow> Some (format_number args False (ucast (ucast w :: u16)), ap) | _ \<Rightarrow> None)"

definition format_u32 :: "string \<Rightarrow> va_entry list \<Rightarrow> (string \<times> va_entry list) option" where
  "format_u32 args ap = (case ap of Va_Int w # ap \<Rightarrow> Some (format_number args False (ucast w), ap) | _ \<Rightarrow> None)"

definition format_u64 :: "string \<Rightarrow> va_entry list \<Rightarrow> (string \<times> va_entry list) option" where
  "format_u64 args ap = (case ap of Va_Long n # ap \<Rightarrow> Some (format_number args False n, ap) | _ \<Rightarrow> None)"

definition format_uaddr :: "string \<Rightarrow> va_entry list \<Rightarrow> (string \<times> va_entry list) option" where
  "format_uaddr args ap = (case ap of Va_Long n # ap \<Rightarrow> Some (format_number (address_args args) False n, ap) | _ \<Rightarrow> None)"

definition format_uptr :: "string \<Rightarrow> va_entry list \<Rightarrow> (string \<times> va_entry list) option" where
  "format_uptr args ap = (case ap of Va_Long n # ap \<Rightarrow> Some (format_number (address_args args) False n, ap) | _ \<Rightarrow> None)"

definition format_usize :: "string \<Rightarrow> va_entry list \<Rightarrow> (string \<times> va_entry list) option" where
  "format_usize args ap = (case ap of Va_Long n # ap \<Rightarrow> Some (format_number args False n, ap) | _ \<Rightarrow> None)"

text \<open>
  The type name is compared as bytes, by its length.  The case of three characters has no
  \<^verbatim>\<open>break\<close> and goes on with the names of four.
\<close>

definition named :: "string \<Rightarrow> string \<Rightarrow> nat \<Rightarrow> bool" where
  "named type_name_ptr type_name n \<longleftrightarrow> take n type_name_ptr = take n type_name"

definition find_format_func4 :: "string \<Rightarrow> format_func option" where
  "find_format_func4 p =
     (if named p ''bool'' 4 then Some F_bool
      else if named p ''cstr'' 4 then Some F_cstr
      else if named p ''uptr'' 4 then Some F_uptr
      else None)"

definition find_format_func :: "string \<Rightarrow> nat \<Rightarrow> format_func option" where
  "find_format_func p len =
     (if len = 2 then
        (if named p ''i8'' 2 then Some F_i8
         else if named p ''u8'' 2 then Some F_u8
         else if named p ''va'' 2 then Some F_va
         else None)
      else if len = 3 then
        (if named p ''i16'' 3 then Some F_i16
         else if named p ''i32'' 3 then Some F_i32
         else if named p ''i64'' 3 then Some F_i64
         else if named p ''u16'' 3 then Some F_u16
         else if named p ''u32'' 3 then Some F_u32
         else if named p ''u64'' 3 then Some F_u64
         else find_format_func4 p)
      else if len = 4 then find_format_func4 p
      else if len = 5 then
        (if named p ''bytes'' 5 then Some F_bytes
         else if named p ''isize'' 5 then Some F_isize
         else if named p ''paddr'' 5 then Some F_paddr
         else if named p ''uaddr'' 5 then Some F_uaddr
         else if named p ''usize'' 5 then Some F_usize
         else None)
      else if len = 6 then (if named p ''indent'' 6 then Some F_indent else None)
      else None)"

text \<open>The call through the function pointer; \<^verbatim>\<open>format_va\<close> is a case of \<open>vfprint\<close>.\<close>

fun call_format :: "format_func \<Rightarrow> string \<Rightarrow> va_entry list \<Rightarrow> (string \<times> va_entry list) option" where
  "call_format F_bool = format_bool"
| "call_format F_bytes = format_bytes"
| "call_format F_cstr = format_cstr"
| "call_format F_i8 = format_i8"
| "call_format F_i16 = format_i16"
| "call_format F_i32 = format_i32"
| "call_format F_i64 = format_i64"
| "call_format F_indent = format_indent"
| "call_format F_isize = format_isize"
| "call_format F_paddr = format_paddr"
| "call_format F_u8 = format_u8"
| "call_format F_u16 = format_u16"
| "call_format F_u32 = format_u32"
| "call_format F_u64 = format_u64"
| "call_format F_uaddr = format_uaddr"
| "call_format F_uptr = format_uptr"
| "call_format F_usize = format_usize"
| "call_format F_va = (\<lambda>args ap. None)"

section \<open>Format strings\<close>

text \<open>
  What \<^verbatim>\<open>print_specifier\<close> reads: text to write in place of the argument, or the
  function and its arguments; and the rest of the format.
\<close>

datatype specifier = Failed string string | Call format_func string string

definition read_specifier :: "string \<Rightarrow> specifier" where
  "read_specifier format =
     (let name = takeWhile (\<lambda>c. c \<noteq> CHR '':'' \<and> c \<noteq> CHR ''}'') format;
          rest = dropWhile (\<lambda>c. c \<noteq> CHR '':'' \<and> c \<noteq> CHR ''}'') format;
          args = (if rest \<noteq> [] \<and> hd rest = CHR '':'' then takeWhile (\<lambda>c. c \<noteq> CHR ''}'') (tl rest) else []);
          rest = (if rest \<noteq> [] \<and> hd rest = CHR '':'' then dropWhile (\<lambda>c. c \<noteq> CHR ''}'') (tl rest) else rest)
      in if rest = [] then Failed ''{{specifier parse error}}'' []
         else case find_format_func format (length name) of
           None \<Rightarrow> Failed (''{{unknown type: '' @ name @ ''}}'') (tl rest)
         | Some f \<Rightarrow> Call f args (tl rest))"

fun rest_of :: "specifier \<Rightarrow> string" where
  "rest_of (Failed out format) = format"
| "rest_of (Call f args format) = format"

lemma length_rest_of: "length (rest_of (read_specifier format)) \<le> length format"
proof -
  have d: "length (dropWhile P xs) \<le> length xs" for P and xs :: string by (rule length_dropWhile_le)
  have "length (tl (dropWhile P (tl (dropWhile Q format)))) \<le> length format" for P Q
    using d [of P "tl (dropWhile Q format)"] d [of Q format] by simp
  moreover have "length (tl (dropWhile Q format)) \<le> length format" for Q
    using d [of Q format] by simp
  ultimately show ?thesis
    by (auto simp: read_specifier_def Let_def split: option.split)
qed

lemma call_format_rest:
  assumes "call_format f args ap = Some (out, ap')"
  shows "size_list size ap' \<le> size_list size ap"
  using assms
  by (cases f) (auto simp: format_bool_def format_bytes_def format_cstr_def format_i8_def format_i16_def format_i32_def
      format_i64_def format_indent_def format_isize_def format_paddr_def format_u8_def format_u16_def format_u32_def format_u64_def
      format_uaddr_def format_uptr_def format_usize_def Let_def bind_eq_Some_conv split: if_splits list.splits va_entry.splits option.splits)

function vfprint :: "string \<Rightarrow> va_entry list \<Rightarrow> string option" where
  "vfprint [] ap = Some []"
| "vfprint (ch # format) ap =
     (if ch = CHR ''{'' then
        (if format \<noteq> [] \<and> hd format = CHR ''{'' then map_option ((@) ''{'') (vfprint (tl format) ap)
         else case read_specifier format of
           Failed out format' \<Rightarrow> map_option ((@) out) (vfprint format' ap)
         | Call f args format' \<Rightarrow>
             (if f = F_va then
                (if args \<noteq> [] then map_option ((@) (invalid_arguments ''va'' args)) (vfprint format' ap)
                 else case ap of
                   Va_Cstr sub_format # Va_List sub_ap # ap' \<Rightarrow>
                     (case vfprint sub_format sub_ap of None \<Rightarrow> None
                      | Some out \<Rightarrow> map_option ((@) out) (vfprint format' ap'))
                 | _ \<Rightarrow> None)
              else case call_format f args ap of None \<Rightarrow> None
                | Some (out, ap') \<Rightarrow> map_option ((@) out) (vfprint format' ap')))
      else if ch = CHR ''}'' then
        (if format \<noteq> [] \<and> hd format = CHR ''}'' then map_option ((@) ''}'') (vfprint (tl format) ap)
         else map_option ((@) ''{{unexpected close brace}}'') (vfprint format ap))
      else map_option ((@) [ch]) (vfprint format ap))"
  by pat_completeness auto
termination
proof (relation "(\<lambda>(format, ap). size_list size ap) <*mlex*> measure (\<lambda>(format, ap). length format)", goal_cases)
  case 1
  show ?case by (intro wf_mlex wf_measure)
next
  case (2 ch format ap)
  then show ?case by (auto simp: mlex_prod_def)
next
  case (3 ch format ap out format')
  then show ?case using length_rest_of [of format] by (auto simp: mlex_prod_def)
next
  case (4 ch format ap f args format')
  then show ?case using length_rest_of [of format] by (auto simp: mlex_prod_def)
next
  case (5 ch format ap f args format' e sub_format tl e' sub_ap ap')
  then show ?case by (auto simp: mlex_prod_def)
next
  case (6 ch format ap f args format' e sub_format tl e' sub_ap ap' out)
  then show ?case by (auto simp: mlex_prod_def)
next
  case (7 ch format ap f args format' p out ap')
  then show ?case using length_rest_of [of format] call_format_rest [of f args ap out ap'] by (auto simp: mlex_prod_def)
qed (auto simp: mlex_prod_def)

section \<open>Reading numbers back\<close>

definition digit_of :: "char \<Rightarrow> nat" where
  "digit_of c = length (takeWhile (\<lambda>d. d \<noteq> c) NUMBER_ALPHABET)"

definition read_number :: "nat \<Rightarrow> string \<Rightarrow> nat" where
  "read_number base ds = foldl (\<lambda>n c. n * base + digit_of c) 0 ds"

lemma read_number_snoc [simp]: "read_number base (ds @ [c]) = read_number base ds * base + digit_of c"
  by (simp add: read_number_def)

lemma digit_of_alphabet: "i < 16 \<Longrightarrow> digit_of (NUMBER_ALPHABET ! i) = i"
proof -
  have "list_all (\<lambda>i. digit_of (NUMBER_ALPHABET ! i) = i) [0..<16]" by code_simp
  then show "i < 16 \<Longrightarrow> ?thesis" by (simp add: list_all_iff)
qed

lemma alphabet_zero: "i < 16 \<Longrightarrow> NUMBER_ALPHABET ! i = CHR ''0'' \<longleftrightarrow> i = 0"
  by (metis digit_of_alphabet zero_less_numeral NUMBER_ALPHABET_def nth_Cons_0)

definition base_ok :: "u64 \<Rightarrow> bool" where
  "base_ok b \<longleftrightarrow> b \<in> {2, 8, 10, 16}"

lemma base_ok_nat: "base_ok b \<Longrightarrow> 2 \<le> unat b \<and> unat b \<le> 16 \<and> \<not> b \<le> 1"
  by (auto simp: base_ok_def word_le_nat_alt)

lemma digits_rev_step:
  assumes "base_ok base" "n \<noteq> 0"
  shows "digits_rev base n = NUMBER_ALPHABET ! (unat n mod unat base) # digits_rev base (n div base)"
  using assms base_ok_nat [OF assms(1)] by (subst digits_rev.simps) (simp add: unat_mod)

lemma digits_rev_0 [simp]: "digits_rev base 0 = []"
  by (subst digits_rev.simps) simp

lemma digits_induct [consumes 1, case_names 0 step]:
  fixes n :: u64
  assumes "base_ok base" "P 0" "\<And>n. n \<noteq> 0 \<Longrightarrow> P (n div base) \<Longrightarrow> P n"
  shows "P n"
proof (induction "unat n" arbitrary: n rule: less_induct)
  case less
  show ?case
  proof (cases "n = 0")
    case False
    then have "0 < unat n" by (simp add: unat_gt_0)
    then have "unat (n div base) < unat n" using base_ok_nat [OF assms(1)] by (simp add: unat_div)
    then show ?thesis using less assms(3) False by blast
  qed (simp add: assms(2))
qed

lemma read_digits:
  assumes "base_ok base"
  shows "read_number (unat base) (rev (digits_rev base n)) = unat n"
proof (induction n rule: digits_induct [OF assms])
  case (2 n)
  have "unat n mod unat base < unat base" using base_ok_nat [OF assms] by (intro mod_less_divisor) simp
  from less_le_trans [OF this, of 16] have "unat n mod unat base < 16" using base_ok_nat [OF assms] by blast
  then show ?case using 2 assms by (simp add: digits_rev_step digit_of_alphabet unat_div)
qed (simp add: read_number_def)

lemma length_digits:
  assumes "base_ok base" "unat n < 2 ^ k"
  shows "length (digits_rev base n) \<le> k"
  using assms(2)
proof (induction n arbitrary: k rule: digits_induct [OF assms(1)])
  case (2 n)
  then obtain j where j: "k = Suc j" by (cases k) (auto simp: unat_gt_0 [symmetric])
  have "unat (n div base) \<le> unat n div 2"
    using base_ok_nat [OF assms(1)] by (simp add: unat_div div_le_mono2)
  then have "unat (n div base) < 2 ^ j" using 2(3) j by simp
  then show ?case using 2(1,2) j digits_rev_step [OF assms(1)] by simp
qed simp

lemma last_digit:
  assumes "base_ok base"
  shows "n \<noteq> 0 \<Longrightarrow> digits_rev base n \<noteq> [] \<and> last (digits_rev base n) \<noteq> CHR ''0''"
proof (induction n rule: digits_induct [OF assms])
  case (2 n)
  let ?d = "unat n mod unat base"
  have s: "digits_rev base n = NUMBER_ALPHABET ! ?d # digits_rev base (n div base)" using digits_rev_step [OF assms 2(3)] .
  show ?case
  proof (cases "n div base = 0")
    case True
    then have "unat n div unat base = 0" by (metis unat_0 unat_div)
    then have "unat n < unat base" using base_ok_nat [OF assms] by (simp add: div_eq_0_iff)
    then have "?d = unat n" by simp
    moreover have "unat n \<noteq> 0" "unat n < 16"
      using 2(3) \<open>unat n < unat base\<close> base_ok_nat [OF assms] by (simp_all add: unat_eq_zero)
    ultimately have "?d \<noteq> 0" "?d < 16" by simp_all
    then show ?thesis using s True alphabet_zero by simp
  next
    case False
    then show ?thesis using s 2(2) by simp
  qed
qed simp

lemma number_args_base: "number_args sp args = Inr sp' \<Longrightarrow> base_ok (number_base sp) \<Longrightarrow> base_ok (number_base sp')"
  by (induction sp args rule: number_args.induct) (auto simp: base_ok_def split: if_splits)

definition number_text :: "u64 \<Rightarrow> u64 \<Rightarrow> string" where
  "number_text base n = (if n = 0 then ''0'' else rev (digits_rev base n))"

lemma number_text_facts:
  assumes "base_ok base"
  shows "read_number (unat base) (number_text base n) = unat n" "number_text base n \<noteq> []"
    "length (number_text base n) \<le> 64" "hd (number_text base n) = CHR ''0'' \<longrightarrow> n = 0"
proof -
  have "digit_of (CHR ''0'') = 0" by code_simp
  then show "read_number (unat base) (number_text base n) = unat n"
    using read_digits [OF assms] by (simp add: number_text_def read_number_def)
  show "number_text base n \<noteq> []" "hd (number_text base n) = CHR ''0'' \<longrightarrow> n = 0"
    using last_digit [OF assms, of n] by (simp_all add: number_text_def hd_rev)
  show "length (number_text base n) \<le> 64"
    using length_digits [OF assms, of n 64] unat_u64_less [of n] by (simp add: number_text_def)
qed

lemma length_prefix: "length (number_prefix sp) = (if escaped sp \<and> number_base sp \<in> {2, 8, 16} then 2 else 0)"
  by (simp add: number_prefix_def)

lemma format_number_spec:
  fixes args sign number
  defines "n \<equiv> if sign then - number else number"
  assumes "number_args default_spec args = Inr sp"
  obtains padding where "set padding \<subseteq> {pad_byte sp}"
    "length padding = unat (pad_to sp) - (length (if sign then ''-'' else []) + length (number_prefix sp) + length (number_text (number_base sp) n))"
    "format_number args sign number = (let s = (if sign then ''-'' else []); ds = number_text (number_base sp) n in
       if pad_after_prefix sp then s @ number_prefix sp @ padding @ ds else padding @ s @ number_prefix sp @ ds)"
proof -
  let ?base = "number_base sp"
  let ?buf = "if n = 0 then ''0'' else digits_rev ?base n"
  have base: "base_ok ?base" by (rule number_args_base [OF assms(2)]) (simp add: base_ok_def default_spec_def)
  have rev_buf: "rev ?buf = number_text ?base n" "length ?buf = length (number_text ?base n)" by (simp_all add: number_text_def)
  define plen where "plen = length (if sign then ''-'' else []) + length (number_prefix sp)"
  have plen: "plen \<le> 3" by (simp add: plen_def length_prefix)
  have pw: "(if sign then 1 else 0) + (if escaped sp \<and> ?base \<in> {2, 8, 16} then 2 else 0) = (of_nat plen :: usize)"
    by (simp add: plen_def length_prefix)
  have len: "length ?buf \<le> 64" using number_text_facts(3) [OF base, of n] rev_buf(2) by simp
  have sum: "unat (of_nat plen + of_nat (length ?buf) :: usize) = plen + length ?buf"
    using plen len unat_of_nat_small [of "plen + length ?buf", where 'a = 64] by simp
  define pad_len where "pad_len = (if of_nat plen + of_nat (length ?buf) < pad_to sp
    then pad_to sp - (of_nat plen + of_nat (length ?buf)) else 0)"
  have pl: "unat pad_len = unat (pad_to sp) - (plen + length ?buf)"
  proof (cases "of_nat plen + of_nat (length ?buf) < pad_to sp")
    case True
    then have "unat (pad_to sp - (of_nat plen + of_nat (length ?buf))) = unat (pad_to sp) - unat (of_nat plen + of_nat (length ?buf) :: usize)"
      by (intro unat_minus_small) simp
    then show ?thesis using True by (simp only: pad_len_def if_True sum)
  next
    case False
    then have "unat (pad_to sp) \<le> plen + length ?buf" using sum by (simp add: word_less_nat_alt not_less del: of_nat_add)
    then show ?thesis using False by (simp only: pad_len_def if_False unat_0 diff_is_0_eq)
  qed
  let ?pad = "replicate (unat pad_len) (pad_byte sp)"
  have "format_number args sign number = (if \<not> pad_after_prefix sp then ?pad else []) @ (if sign then ''-'' else []) @
      number_prefix sp @ (if pad_after_prefix sp then ?pad else []) @ rev ?buf"
    by (simp only: format_number_def assms(2) sum.case Let_def pw pad_len_def n_def)
  then have "format_number args sign number = (let s = (if sign then ''-'' else []); ds = number_text ?base n in
       if pad_after_prefix sp then s @ number_prefix sp @ ?pad @ ds else ?pad @ s @ number_prefix sp @ ds)"
    unfolding rev_buf Let_def by simp
  moreover have "length ?pad = unat (pad_to sp) - (length (if sign then ''-'' else []) + length (number_prefix sp) + length (number_text ?base n))"
    using pl rev_buf(2) by (simp only: length_replicate plen_def)
  moreover have "set ?pad \<subseteq> {pad_byte sp}" by (simp add: set_replicate_conv_if)
  ultimately show thesis using that [of ?pad] by blast
qed

section \<open>Formats as texts with holes\<close>

text \<open>
  The abstract reading of a format: pieces of text, in which braces are doubled, and holes
  with a type and arguments.
\<close>

datatype piece = Text string | Hole format_func string

fun type_name :: "format_func \<Rightarrow> string" where
  "type_name F_bool = ''bool''"
| "type_name F_bytes = ''bytes''"
| "type_name F_cstr = ''cstr''"
| "type_name F_i8 = ''i8''"
| "type_name F_i16 = ''i16''"
| "type_name F_i32 = ''i32''"
| "type_name F_i64 = ''i64''"
| "type_name F_indent = ''indent''"
| "type_name F_isize = ''isize''"
| "type_name F_paddr = ''paddr''"
| "type_name F_u8 = ''u8''"
| "type_name F_u16 = ''u16''"
| "type_name F_u32 = ''u32''"
| "type_name F_u64 = ''u64''"
| "type_name F_uaddr = ''uaddr''"
| "type_name F_uptr = ''uptr''"
| "type_name F_usize = ''usize''"
| "type_name F_va = ''va''"

fun double_braces :: "string \<Rightarrow> string" where
  "double_braces [] = []"
| "double_braces (c # cs) = (if c = CHR ''{'' \<or> c = CHR ''}'' then [c, c] else [c]) @ double_braces cs"

fun render :: "piece \<Rightarrow> string" where
  "render (Text t) = double_braces t"
| "render (Hole f args) = ''{'' @ type_name f @ (if args = [] then [] else CHR '':'' # args) @ ''}''"

fun well_formed :: "piece \<Rightarrow> bool" where
  "well_formed (Text t) \<longleftrightarrow> True"
| "well_formed (Hole f args) \<longleftrightarrow> CHR ''}'' \<notin> set args"

fun written :: "piece list \<Rightarrow> va_entry list \<Rightarrow> string option" where
  "written [] ap = Some []"
| "written (Text t # ps) ap = map_option ((@) t) (written ps ap)"
| "written (Hole f args # ps) ap =
     (if f = F_va then
        (if args \<noteq> [] then map_option ((@) (invalid_arguments ''va'' args)) (written ps ap)
         else case ap of
           Va_Cstr sub_format # Va_List sub_ap # ap' \<Rightarrow>
             (case vfprint sub_format sub_ap of None \<Rightarrow> None | Some out \<Rightarrow> map_option ((@) out) (written ps ap'))
         | _ \<Rightarrow> None)
      else case call_format f args ap of None \<Rightarrow> None
        | Some (out, ap') \<Rightarrow> map_option ((@) out) (written ps ap'))"

lemma find_type_name: "find_format_func (type_name f @ rest) (length (type_name f)) = Some f"
  by (cases f) (simp_all add: find_format_func_def find_format_func4_def named_def)

lemma name_chars: "c \<in> set (type_name f) \<Longrightarrow> c \<noteq> CHR '':'' \<and> c \<noteq> CHR ''}'' \<and> c \<noteq> CHR ''{''"
  by (cases f) auto

lemma hd_type_name: "type_name f \<noteq> [] \<and> hd (type_name f) \<noteq> CHR ''{''"
  by (cases f) simp_all

lemma span_name:
  "takeWhile (\<lambda>c. c \<noteq> CHR '':'' \<and> c \<noteq> CHR ''}'') (type_name f @ d # rest) = type_name f"
  "dropWhile (\<lambda>c. c \<noteq> CHR '':'' \<and> c \<noteq> CHR ''}'') (type_name f @ d # rest) = d # rest"
  if "d = CHR '':'' \<or> d = CHR ''}''"
  using that name_chars by (auto simp: takeWhile_append2 dropWhile_append2)

lemma span_args:
  "takeWhile (\<lambda>c. c \<noteq> CHR ''}'') (args @ CHR ''}'' # rest) = args"
  "dropWhile (\<lambda>c. c \<noteq> CHR ''}'') (args @ CHR ''}'' # rest) = CHR ''}'' # rest"
  if "CHR ''}'' \<notin> set args"
proof -
  have "\<And>c. c \<in> set args \<Longrightarrow> c \<noteq> CHR ''}''" using that by metis
  then show "takeWhile (\<lambda>c. c \<noteq> CHR ''}'') (args @ CHR ''}'' # rest) = args"
    "dropWhile (\<lambda>c. c \<noteq> CHR ''}'') (args @ CHR ''}'' # rest) = CHR ''}'' # rest"
    by (simp_all add: takeWhile_append2 dropWhile_append2)
qed

lemma read_hole:
  assumes "CHR ''}'' \<notin> set args"
  shows "read_specifier (type_name f @ (if args = [] then [] else CHR '':'' # args) @ CHR ''}'' # rest) = Call f args rest"
proof (cases "args = []")
  case True
  then show ?thesis
    using span_name [of "CHR ''}''" f rest] find_type_name [of f "CHR ''}'' # rest"] by (simp add: read_specifier_def Let_def)
next
  case False
  then show ?thesis
    using span_name [of "CHR '':''" f "args @ CHR ''}'' # rest"] span_args [OF assms, of rest]
      find_type_name [of f "CHR '':'' # args @ CHR ''}'' # rest"] by (simp add: read_specifier_def Let_def)
qed

lemma vfprint_text: "vfprint (double_braces t @ format) ap = map_option ((@) t) (vfprint format ap)"
  by (induction t) (auto simp: option.map_comp comp_def option.map_ident cong: option.case_cong)

lemma vfprint_pieces:
  "list_all well_formed ps \<Longrightarrow> vfprint (concat (map render ps)) ap = written ps ap"
proof (induction ps ap rule: written.induct)
  case (2 t ps ap)
  then show ?case by (simp add: vfprint_text)
next
  case (3 f args ps ap)
  let ?rest = "concat (map render ps)"
  have r: "read_specifier (type_name f @ (if args = [] then [] else CHR '':'' # args) @ CHR ''}'' # ?rest) = Call f args ?rest"
    using 3(4) by (intro read_hole) simp
  let ?body = "type_name f @ (if args = [] then [] else CHR '':'' # args) @ CHR ''}'' # ?rest"
  have f: "concat (map render (Hole f args # ps)) = CHR ''{'' # ?body" by simp
  have h: "\<not> (?body \<noteq> [] \<and> hd ?body = CHR ''{'')" using hd_type_name [of f] by (simp add: hd_append)
  have wf: "list_all well_formed ps" using 3(4) by simp
  have v: "vfprint (CHR ''{'' # ?body) ap =
      (if f = F_va then
         (if args \<noteq> [] then map_option ((@) (invalid_arguments ''va'' args)) (vfprint ?rest ap)
          else case ap of
            Va_Cstr sub_format # Va_List sub_ap # ap' \<Rightarrow>
              (case vfprint sub_format sub_ap of None \<Rightarrow> None | Some out \<Rightarrow> map_option ((@) out) (vfprint ?rest ap'))
          | _ \<Rightarrow> None)
       else case call_format f args ap of None \<Rightarrow> None
         | Some (out, ap') \<Rightarrow> map_option ((@) out) (vfprint ?rest ap'))"
    unfolding vfprint.simps(2) r using h by (simp only: simp_thms if_True if_False specifier.case)
  show ?case unfolding f v
    using 3(1) [OF _ _ wf] 3(2) [OF _ _ _ _ _ _ _ wf] 3(3) [OF _ _ _ wf]
    by (auto split: option.splits list.splits va_entry.splits)
qed simp
section \<open>Where the bytes go\<close>

text \<open>The console gets each byte by an SBI call; \<open>print\<close> is the sequence of these bytes.\<close>

definition print :: "string \<Rightarrow> va_entry list \<Rightarrow> string option" where
  "print fmt ap = do { out \<leftarrow> vfprint fmt ap; Some (out @ [CHR 0x0A]) }"

record format_formatter_buffer =
  buf_ptr :: uaddr
  buf_cap :: usize
  buf_len :: usize

definition format_formatter_write_byte ::
    "format_formatter_buffer \<Rightarrow> mm_state \<Rightarrow> u8 \<Rightarrow> (format_formatter_buffer \<times> mm_state) option" where
  "format_formatter_write_byte buf s byte = (if buf_ptr buf = 0 then Some (buf, s)
     else do {
       (buf, s) \<leftarrow> (if buf_cap buf = buf_len buf then do {
           assert_that (buf_cap buf \<noteq> 0);
           let buf = buf\<lparr>buf_cap := buf_cap buf * 2\<rparr>;
           (new_ptr, s) \<leftarrow> alloc s (buf_cap buf);
           if new_ptr = 0 then do { s \<leftarrow> free s (buf_ptr buf); Some (buf\<lparr>buf_ptr := 0\<rparr>, s) }
           else do {
             let s = s\<lparr>ram := store (ram s) new_ptr (load (ram s) (buf_ptr buf) (unat (buf_len buf)))\<rparr>;
             s \<leftarrow> free s (buf_ptr buf);
             Some (buf\<lparr>buf_ptr := new_ptr\<rparr>, s)
           }
         } else Some (buf, s));
       if buf_ptr buf = 0 then Some (buf, s)
       else Some (buf\<lparr>buf_len := buf_len buf + 1\<rparr>,
         s\<lparr>ram := store (ram s) (buf_ptr buf + buf_len buf) [byte]\<rparr>)
     })"

primrec write_all :: "format_formatter_buffer \<Rightarrow> mm_state \<Rightarrow> u8 list \<Rightarrow> (format_formatter_buffer \<times> mm_state) option" where
  "write_all buf s [] = Some (buf, s)"
| "write_all buf s (b # bs) = do { (buf, s) \<leftarrow> format_formatter_write_byte buf s b; write_all buf s bs }"

text \<open>\<^verbatim>\<open>format\<close> prints into a growing buffer and ends it with a zero byte; null when memory ran out.\<close>

definition format :: "mm_state \<Rightarrow> string \<Rightarrow> va_entry list \<Rightarrow> (uaddr \<times> mm_state) option" where
  "format s fmt ap = do {
     (ptr, s) \<leftarrow> alloc s 16;
     out \<leftarrow> vfprint fmt ap;
     (buf, s) \<leftarrow> write_all \<lparr>buf_ptr = ptr, buf_cap = 16, buf_len = 0\<rparr> s (map of_char out);
     (buf, s) \<leftarrow> format_formatter_write_byte buf s 0;
     Some (buf_ptr buf, s)
   }"

section \<open>The properties\<close>

text \<open>
  \<open>C25\<close>.  Printing a format does what its reading as text and holes says: text with doubled
  braces comes out with single ones, a hole is replaced by what the function of its type
  writes for the next arguments, and nothing else is written, for all formats, nested ones
  included.
\<close>

theorem vfprint_writes_pieces:
  assumes "list_all well_formed ps"
  shows "vfprint (concat (map render ps)) ap = written ps ap"
  by (rule vfprint_pieces [OF assms])

theorem vfprint_writes_pieces_witness:
  "vfprint ''{{x}} = {u8:#04x}, {cstr}'' [Va_Int 10, Va_Cstr ''ok''] = Some ''{x} = 0x0a, ok''"
proof -
  let ?ps = "[Text ''{x} = '', Hole F_u8 ''#04x'', Text '', '', Hole F_cstr []]"
  have "written ?ps [Va_Int 10, Va_Cstr ''ok''] = Some ''{x} = 0x0a, ok''" by code_simp
  moreover have "concat (map render ?ps) = ''{{x}} = {u8:#04x}, {cstr}''" by simp
  moreover have "list_all well_formed ?ps" by simp
  ultimately show ?thesis using vfprint_writes_pieces [of ?ps "[Va_Int 10, Va_Cstr ''ok'']"] by simp
qed

text \<open>
  \<open>C26\<close>.  A number is written as its digits in the base its arguments ask for, without leading
  zeros and with at most 64 of them, so the buffer never overflows; reading the digits back gives
  the magnitude.  Before them stand the sign and then the marker of the base, with the padding before
  both or after both, and the whole has the width asked for unless it is longer already.
  \<^verbatim>\<open>doc/kernel/print.md\<close> describes the other order, the marker before the sign.
\<close>

theorem format_number_correct:
  assumes "number_args default_spec args = Inr sp" "n = (if sign then - number else number)"
  shows "\<exists>ds padding. format_number args sign number =
      (if pad_after_prefix sp then (if sign then ''-'' else []) @ number_prefix sp @ padding @ ds
       else padding @ (if sign then ''-'' else []) @ number_prefix sp @ ds) \<and>
    read_number (unat (number_base sp)) ds = unat n \<and> 0 < length ds \<and> length ds \<le> 64 \<and>
    (hd ds = CHR ''0'' \<longrightarrow> n = 0) \<and> set padding \<subseteq> {pad_byte sp} \<and>
    length padding = unat (pad_to sp) - ((if sign then 1 else 0) + length (number_prefix sp) + length ds)"
proof -
  let ?ds = "number_text (number_base sp) n"
  have base: "base_ok (number_base sp)"
    by (rule number_args_base [OF assms(1)]) (simp add: base_ok_def default_spec_def)
  obtain padding where p: "set padding \<subseteq> {pad_byte sp}"
    "length padding = unat (pad_to sp) - (length (if sign then ''-'' else []) + length (number_prefix sp) + length ?ds)"
    "format_number args sign number = (let s = (if sign then ''-'' else []); ds = ?ds in
       if pad_after_prefix sp then s @ number_prefix sp @ padding @ ds else padding @ s @ number_prefix sp @ ds)"
    using format_number_spec [OF assms(1), of sign number] unfolding assms(2) .
  show ?thesis
    by (rule exI [of _ ?ds], rule exI [of _ padding])
      (use p number_text_facts [OF base, of n] in \<open>simp add: Let_def\<close>)
qed

theorem format_number_correct_witness:
  "\<exists>ds padding. format_number ''#06x'' True (- 10) = ''-'' @ ''0x'' @ padding @ ds \<and>
    read_number 16 ds = 10 \<and> set padding \<subseteq> {CHR ''0''} \<and> length padding = 3 - length ds"
proof -
  let ?sp = "\<lparr>pad_byte = CHR ''0'', number_base = 16, pad_to = 6, escaped = True, pad_after_prefix = True\<rparr>"
  have "number_args default_spec ''#06x'' = Inr ?sp" by code_simp
  moreover have "number_prefix ?sp = ''0x''" by code_simp
  ultimately show ?thesis
    using format_number_correct [of "''#06x''" ?sp 10 True "- 10"] by auto
qed
end
