(* ===== verification/Init.thy ===== *)
theory Init
  imports Prelude "HOL-Library.Multiset"
begin

unbundle bit_operations_syntax

text \<open>
  Initializers, \<^verbatim>\<open>init.c\<close>: the table the linker collects is sorted in place by priority
  and every function in it is called.  The sort is a selection sort; the table is the
  list of its entries, and the pointer and length that move through it are the rest of the list.
\<close>

datatype initializer_priority = INIT_REGISTER_DRIVERS

fun priority_value :: "initializer_priority \<Rightarrow> 32 word" where
  "priority_value INIT_REGISTER_DRIVERS = 10"

record initializer =
  func :: uaddr
  init_file :: string
  line :: u32
  priority :: "32 word"

text \<open>The scan for the first entry of least priority; \<open>i\<close> is the index of the next entry.\<close>

fun scan_min :: "initializer list \<Rightarrow> nat \<Rightarrow> 32 word \<times> nat \<Rightarrow> 32 word \<times> nat" where
  "scan_min [] i best = best"
| "scan_min (x # xs) i (min_priority, min_index) =
     scan_min xs (i + 1)
       (if priority x <s min_priority then (priority x, i) else (min_priority, min_index))"

function sort_initializers :: "initializer list \<Rightarrow> initializer list" where
  "sort_initializers [] = []"
| "sort_initializers (x # xs) =
     (let min_index = snd (scan_min (x # xs) 0 (priority x, 0));
          ptr = (if min_index \<noteq> 0 then (x # xs)[0 := (x # xs) ! min_index, min_index := x] else x # xs)
      in hd ptr # sort_initializers (tl ptr))"
  by pat_completeness auto
termination
  by (relation "measure length") (auto split: nat.split)

declare sort_initializers.simps(2) [simp del]

text \<open>\<open>call f s\<close> is the call of the function at address \<open>f\<close> in the state \<open>s\<close>; \<open>None\<close> is a panic in it.\<close>

primrec run_all :: "(uaddr \<Rightarrow> 's \<Rightarrow> 's option) \<Rightarrow> initializer list \<Rightarrow> 's \<Rightarrow> 's option" where
  "run_all call [] s = Some s"
| "run_all call (x # xs) s = do { s \<leftarrow> call (func x) s; run_all call xs s }"

definition run_initializers :: "(uaddr \<Rightarrow> 's \<Rightarrow> 's option) \<Rightarrow> initializer list \<Rightarrow> 's \<Rightarrow> ('s \<times> initializer list) option" where
  "run_initializers call table s =
     (let table = sort_initializers table in do { s \<leftarrow> run_all call table s; Some (s, table) })"

section \<open>The scan and the sort\<close>

lemma scan_min_spec:
  assumes "scan_min xs i (p, k) = (p', k')" "i = length ys" "k < length (ys @ xs)" "priority ((ys @ xs) ! k) = p"
    and "\<forall>y \<in> set ys. sint p \<le> sint (priority y)"
  shows "k' < length (ys @ xs) \<and> priority ((ys @ xs) ! k') = p' \<and> (\<forall>y \<in> set (ys @ xs). sint p' \<le> sint (priority y))"
  using assms
proof (induction xs i "(p, k)" arbitrary: ys p k rule: scan_min.induct)
  case (2 x xs i p k)
  show ?case
  proof (cases "priority x <s p")
    case True
    then have "\<forall>y \<in> set (ys @ [x]). sint (priority x) \<le> sint (priority y)"
      using 2 by (fastforce simp: word_sless_alt)
    with 2(1) [of "priority x" i "ys @ [x]"] 2(2-) True show ?thesis by simp
  next
    case False
    then have "\<forall>y \<in> set (ys @ [x]). sint p \<le> sint (priority y)"
      using 2 by (auto simp: word_sless_alt)
    with 2(1) [of p k "ys @ [x]"] 2(2-) False show ?thesis by simp
  qed
qed simp

lemma scan_min_least:
  assumes "xs \<noteq> []" "scan_min xs 0 (priority (hd xs), 0) = (p, k)"
  shows "k < length xs \<and> (\<forall>y \<in> set xs. sint (priority (xs ! k)) \<le> sint (priority y))"
  using scan_min_spec [OF assms(2), of "[]"] assms(1) by (simp add: hd_conv_nth)

lemma mset_swap: "i < length xs \<Longrightarrow> j < length xs \<Longrightarrow> mset (xs[i := xs ! j, j := xs ! i]) = mset xs"
  by (rule mset_swap)

text \<open>One round of the loop: the first entry is a least one and the entries are the same.\<close>

lemma sort_round:
  fixes xs :: "initializer list"
  assumes "k < length (x # xs)" "ptr = (if k \<noteq> 0 then (x # xs)[0 := (x # xs) ! k, k := x] else x # xs)"
  shows "ptr = (x # xs) ! k # tl ptr \<and> mset ptr = mset (x # xs)"
  using assms mset_swap [of 0 "x # xs" k] by (cases k) auto

lemma sort_initializers_spec:
  "mset (sort_initializers xs) = mset xs \<and>
   sorted_wrt (\<lambda>x y. sint (priority x) \<le> sint (priority y)) (sort_initializers xs)"
proof (induction xs rule: sort_initializers.induct)
  case (2 x xs)
  define k where "k = snd (scan_min (x # xs) 0 (priority x, 0))"
  define ptr where "ptr = (if k \<noteq> 0 then (x # xs)[0 := (x # xs) ! k, k := x] else x # xs)"
  have k: "k < length (x # xs)" "\<forall>y \<in> set (x # xs). sint (priority ((x # xs) ! k)) \<le> sint (priority y)"
    using scan_min_least [of "x # xs" _ k] by (auto simp: k_def prod_eq_iff simp del: scan_min.simps)
  have ptr: "ptr = (x # xs) ! k # tl ptr" "mset ptr = mset (x # xs)"
    using sort_round [OF k(1) ptr_def] by auto
  have IH: "mset (sort_initializers (tl ptr)) = mset (tl ptr)"
    "sorted_wrt (\<lambda>x y. sint (priority x) \<le> sint (priority y)) (sort_initializers (tl ptr))"
    using 2 [OF k_def ptr_def] by auto
  have rest: "set (sort_initializers (tl ptr)) \<subseteq> set (x # xs)"
    using mset_eq_setD [OF IH(1)] mset_eq_setD [OF ptr(2)] ptr(1) by (metis set_subset_Cons)
  have "sort_initializers (x # xs) = hd ptr # sort_initializers (tl ptr)"
    by (simp only: sort_initializers.simps(2) Let_def k_def [symmetric] ptr_def [symmetric])
  then have "sort_initializers (x # xs) = (x # xs) ! k # sort_initializers (tl ptr)"
    using ptr(1) by (metis list.sel(1))
  moreover have "mset ((x # xs) ! k # sort_initializers (tl ptr)) = mset (x # xs)"
    using IH(1) ptr by (metis mset.simps(2))
  ultimately show ?case using IH(2) k(2) rest by auto
qed simp

section \<open>The property\<close>

text \<open>
  \<open>C27\<close>.  Running the initializers calls every function of the table exactly once, in an order
  that is a permutation of the table sorted by signed priority, and stops with the first one that panics;
  the table is left in that order.
\<close>

theorem run_initializers_in_order:
  "\<exists>order. mset order = mset table \<and>
     sorted_wrt (\<lambda>x y. sint (priority x) \<le> sint (priority y)) order \<and>
     (\<forall>call s. run_initializers call table s = map_option (\<lambda>s. (s, order)) (run_all call order s))"
  using sort_initializers_spec [of table]
  by (auto simp: run_initializers_def map_option_case intro!: exI [of _ "sort_initializers table"]
      split: option.split)

end
