(* ===== verification/Symbolicate.thy ===== *)
theory Symbolicate
  imports Prelude
begin

unbundle bit_operations_syntax

text \<open>
  Finding the function an address is in, \<^verbatim>\<open>symbolicate.c\<close>: the symbol table is scanned for the function
  symbol with the greatest value that is not above the address.
\<close>

record Elf64_Sym =
  st_name :: u32
  st_info :: u8
  st_other :: u8
  st_sndx :: u16
  st_value :: u64
  st_size :: u64

datatype Elf64_Sym_Type = STT_NOTYPE | STT_OBJECT | STT_FUNC | STT_SECTION | STT_FILE | STT_LOPROC | STT_HIPROC

definition sym_type_value :: "Elf64_Sym_Type \<Rightarrow> u8" where
  "sym_type_value t = (case t of STT_NOTYPE \<Rightarrow> 0 | STT_OBJECT \<Rightarrow> 1 | STT_FUNC \<Rightarrow> 2 | STT_SECTION \<Rightarrow> 3
     | STT_FILE \<Rightarrow> 4 | STT_LOPROC \<Rightarrow> 5 | STT_HIPROC \<Rightarrow> 6)"

definition st_type :: "u8 \<Rightarrow> u8" where
  "st_type info = info AND 15"

text \<open>
  The tables set by \<open>symbolicate_init\<close>: the entries from \<^verbatim>\<open>symtab_start\<close> to \<^verbatim>\<open>symtab_end\<close>, absent before,
  and the string table with its length.
\<close>

record symbol_tables =
  symtab :: "Elf64_Sym list option"
  strtab :: "char list"
  strtab_len :: usize

definition no_symbols :: symbol_tables where
  "no_symbols = \<lparr>symtab = None, strtab = [], strtab_len = 0\<rparr>"

text \<open>A name is a position in the string table; \<open>None\<close> is the null pointer.\<close>

record symbolicated =
  sym_name :: "u32 option"
  sym_offset :: usize

text \<open>
  The pointers are the arrays they lead to, absent when null.  An array shorter than its length says
  would be read past its end.
\<close>

definition symbolicate_init :: "Elf64_Sym list option \<Rightarrow> usize \<Rightarrow> char list option \<Rightarrow> usize \<Rightarrow> symbol_tables option" where
  "symbolicate_init syms symtab_len strs len = do {
     entries \<leftarrow> syms;
     assert_that (symtab_len mod 24 = 0);
     str_bytes \<leftarrow> strs;
     assert_that (unat (symtab_len div 24) \<le> length entries);
     Some \<lparr>symtab = Some (take (unat (symtab_len div 24)) entries), strtab = str_bytes, strtab_len = len\<rparr>
   }"

definition is_candidate :: "usize \<Rightarrow> Elf64_Sym \<Rightarrow> bool" where
  "is_candidate len entry \<longleftrightarrow> \<not> st_name entry = 0 \<and> \<not> len \<le> ucast (st_name entry) \<and>
     \<not> st_type (st_info entry) \<noteq> sym_type_value STT_FUNC"

text \<open>The loop; \<open>best_match\<close> is present when \<^verbatim>\<open>found_match\<close> is set.\<close>

fun find_best :: "usize \<Rightarrow> uaddr \<Rightarrow> Elf64_Sym list \<Rightarrow> Elf64_Sym option \<Rightarrow> Elf64_Sym option" where
  "find_best len addr [] best_match = best_match"
| "find_best len addr (entry # syms) best_match =
     find_best len addr syms
       (if is_candidate len entry \<and> st_value entry \<le> addr then
          (case best_match of
             Some best \<Rightarrow> if st_value best < st_value entry then Some entry else Some best
           | None \<Rightarrow> Some entry)
        else best_match)"

text \<open>The result and what is stored through \<^verbatim>\<open>out\<close>; nothing is, before the tables are set.\<close>

definition symbolicate :: "symbol_tables \<Rightarrow> uaddr \<Rightarrow> bool \<times> symbolicated option" where
  "symbolicate st addr = (case symtab st of
     None \<Rightarrow> (False, None)
   | Some syms \<Rightarrow> (case find_best (strtab_len st) addr syms None of
       None \<Rightarrow> (False, Some \<lparr>sym_name = None, sym_offset = 0\<rparr>)
     | Some best \<Rightarrow> (True, Some \<lparr>sym_name = Some (st_name best), sym_offset = addr - st_value best\<rparr>)))"

text \<open>Reading a name as a C string: up to the zero byte, which has to be in the table.\<close>

definition symbol_text :: "symbol_tables \<Rightarrow> u32 option \<Rightarrow> string option" where
  "symbol_text st name = do {
     off \<leftarrow> name;
     assert_that (CHR 0x00 \<in> set (drop (unat off) (strtab st)));
     Some (takeWhile (\<lambda>c. c \<noteq> CHR 0x00) (drop (unat off) (strtab st)))
   }"

section \<open>The best match\<close>

lemma find_best_spec:
  assumes "find_best len addr syms best = r"
  shows "(r = None \<longleftrightarrow> best = None \<and> (\<forall>s \<in> set syms. \<not> (is_candidate len s \<and> st_value s \<le> addr))) \<and>
    (\<forall>b. r = Some b \<longrightarrow>
       (best = Some b \<or> b \<in> set syms \<and> is_candidate len b \<and> st_value b \<le> addr) \<and>
       (\<forall>s \<in> set syms. is_candidate len s \<longrightarrow> st_value s \<le> addr \<longrightarrow> st_value s \<le> st_value b) \<and>
       (\<forall>s. best = Some s \<longrightarrow> st_value s \<le> st_value b))"
  using assms
proof (induction syms arbitrary: best)
  case (Cons entry syms)
  let ?best = "(if is_candidate len entry \<and> st_value entry \<le> addr then
      (case best of Some b \<Rightarrow> if st_value b < st_value entry then Some entry else Some b | None \<Rightarrow> Some entry) else best)"
  note IH = Cons.IH [of ?best]
  from Cons.prems have "find_best len addr syms ?best = r" by simp
  from IH [OF this] show ?case
    by (cases best) (auto split: if_splits intro: order_trans less_imp_le)
qed auto

section \<open>The property\<close>

text \<open>
  \<open>C28\<close>.  After \<open>symbolicate_init\<close>, an address is resolved exactly when a named function symbol is not above it;
  the answer is then the name of such a symbol with the greatest value and the distance from it.
\<close>

theorem symbolicate_finds_nearest:
  assumes "symtab st = Some syms"
  shows "case symbolicate st addr of
      (True, Some out) \<Rightarrow> (\<exists>b \<in> set syms. is_candidate (strtab_len st) b \<and> st_value b \<le> addr \<and>
         (\<forall>s \<in> set syms. is_candidate (strtab_len st) s \<and> st_value s \<le> addr \<longrightarrow> st_value s \<le> st_value b) \<and>
         out = \<lparr>sym_name = Some (st_name b), sym_offset = addr - st_value b\<rparr>)
    | (found, out) \<Rightarrow> \<not> found \<and> (\<forall>s \<in> set syms. is_candidate (strtab_len st) s \<longrightarrow> addr < st_value s)"
  using find_best_spec [OF refl, of "strtab_len st" addr syms None]
  by (cases "find_best (strtab_len st) addr syms None")
    (auto simp: symbolicate_def assms not_le)

theorem symbolicate_finds_nearest_witness:
  "symbolicate \<lparr>symtab = Some [\<lparr>st_name = 1, st_info = 2, st_other = 0, st_sndx = 0, st_value = 0x100, st_size = 16\<rparr>,
     \<lparr>st_name = 4, st_info = 2, st_other = 0, st_sndx = 0, st_value = 0x200, st_size = 16\<rparr>], strtab = [], strtab_len = 8\<rparr> 0x1ff =
     (True, Some \<lparr>sym_name = Some 1, sym_offset = 0xff\<rparr>)"
proof -
  let ?a = "\<lparr>st_name = 1, st_info = 2, st_other = 0, st_sndx = 0, st_value = 0x100, st_size = 16\<rparr>"
  let ?b = "\<lparr>st_name = 4, st_info = 2, st_other = 0, st_sndx = 0, st_value = 0x200, st_size = 16\<rparr>"
  let ?st = "\<lparr>symtab = Some [?a, ?b], strtab = [], strtab_len = 8\<rparr>"
  show ?thesis
    using symbolicate_finds_nearest [of ?st "[?a, ?b]" "0x1ff"]
    by (auto simp: is_candidate_def st_type_def sym_type_value_def word_le_nat_alt split: bool.splits option.splits prod.splits)
qed

end
