(* ===== verification/Trees.thy ===== *)
theory Trees
  imports Lists
begin

text \<open>
  Trees of structs with a pointer to the parent, a list head for the children and an entry
  in the list of the parent, as \<^verbatim>\<open>struct device\<close> and \<^verbatim>\<open>struct devicetree_node\<close> are.
  \<open>tree_at\<close> relates such structs to a tree; what a loop that walks them looks at (the first
  child, the next sibling, the parent) is read off the tree and the context of the
  place where the loop is.
\<close>

datatype 'n rose = Rose (rose_root: 'n) (branches: "'n rose list")

fun rose_postorder :: "'n rose \<Rightarrow> 'n list" where
  "rose_postorder (Rose n ts) = concat (map rose_postorder ts) @ [n]"

fun rose_nodes :: "'n rose \<Rightarrow> 'n list" where
  "rose_nodes (Rose n ts) = n # concat (map rose_nodes ts)"

fun rose_size :: "'n rose \<Rightarrow> nat" where
  "rose_size (Rose n ts) = Suc (sum_list (map rose_size ts))"

fun rose_height :: "'n rose \<Rightarrow> nat" where
  "rose_height (Rose n ts) = Suc (fold max (map rose_height ts) 0)"

fun tree_at :: "('n \<Rightarrow> 'n option option) \<Rightarrow> 'h links \<Rightarrow> ('n \<Rightarrow> 'h) \<Rightarrow> ('n \<Rightarrow> 'h) \<Rightarrow> 'n option \<Rightarrow> 'n rose \<Rightarrow> bool" where
  "tree_at up h children sibling p (Rose n ts) \<longleftrightarrow>
     up n = Some p \<and> is_list h (children n) (map (\<lambda>t. sibling (rose_root t)) ts) \<and>
     list_all (tree_at up h children sibling (Some n)) ts"

text \<open>A place in a tree: for each node above it, what is on its left and on its right.\<close>

type_synonym 'n place = "('n \<times> 'n rose list \<times> 'n rose list) list"

fun rose_plug :: "'n rose \<Rightarrow> 'n place \<Rightarrow> 'n rose" where
  "rose_plug t [] = t"
| "rose_plug t ((p, ls, rs) # K) = rose_plug (Rose p (ls @ t # rs)) K"

fun above :: "'n place \<Rightarrow> 'n option" where
  "above [] = None"
| "above ((p, ls, rs) # K) = Some p"

lemma postorder_last [simp]: "rose_postorder t = concat (map rose_postorder (branches t)) @ [rose_root t]"
  by (cases t) simp

declare rose_postorder.simps [simp del]

lemma fold_max_le: "fold max xs a \<le> (n :: nat) \<longleftrightarrow> a \<le> n \<and> (\<forall>x \<in> set xs. x \<le> n)"
  by (induction xs arbitrary: a) auto

lemma rose_height_branch: "t \<in> set ts \<Longrightarrow> rose_height t < rose_height (Rose n ts)"
  using fold_max_le [of "map rose_height ts" 0 "fold max (map rose_height ts) 0"] by (auto simp: less_Suc_eq_le)

text \<open>Adding a leaf as the last child of a node.\<close>

fun add_leaf :: "'n \<Rightarrow> 'n \<Rightarrow> 'n rose \<Rightarrow> 'n rose" where
  "add_leaf p c (Rose n ts) = Rose n (map (add_leaf p c) ts @ (if n = p then [Rose c []] else []))"

lemma add_leaf_root [simp]: "rose_root (add_leaf p c t) = rose_root t"
  by (cases t) simp

lemma linked_unique:
  "linked h (a # xs @ [l]) \<Longrightarrow> linked h (a # ys @ [l]) \<Longrightarrow> l \<notin> set xs \<Longrightarrow> l \<notin> set ys \<Longrightarrow> xs = ys"
proof (induction xs arbitrary: a ys)
  case Nil
  then show ?case by (cases ys) auto
next
  case (Cons x xs)
  then show ?case by (cases ys) auto
qed

lemma is_list_unique: "is_list h l xs \<Longrightarrow> is_list h l ys \<Longrightarrow> xs = ys"
  using linked_unique [of h l xs l ys] by (simp add: is_list_def)

lemma tree_at_root: "tree_at up h children sibling p t \<Longrightarrow> up (rose_root t) = Some p"
  by (cases t) simp

lemma tree_at_branches:
  "tree_at up h children sibling p t \<Longrightarrow>
     is_list h (children (rose_root t)) (map (\<lambda>t. sibling (rose_root t)) (branches t))"
  by (cases t) simp

locale sibling_tree =
  fixes children :: "'n \<Rightarrow> 'h" and sibling :: "'n \<Rightarrow> 'h" and owner :: "'h \<Rightarrow> 'n option"
  assumes owner_sibling: "owner (sibling n) = Some n"
    and sibling_not_children: "sibling n \<noteq> children m"
    and children_inject: "children n = children m \<longleftrightarrow> n = m"
begin

lemma focus_tree:
  assumes "tree_at up h children sibling None (rose_plug t K)"
  shows "tree_at up h children sibling (above K) t"
  using assms
proof (induction K arbitrary: t)
  case (Cons c K)
  obtain p ls rs where c: "c = (p, ls, rs)" by (cases c)
  have "tree_at up h children sibling (above K) (Rose p (ls @ t # rs))"
    by (rule Cons.IH) (use Cons.prems c in simp)
  then show ?case using c by simp
qed simp

lemma focus_parent:
  assumes "tree_at up h children sibling None (rose_plug t K)"
  shows "up (rose_root t) = Some (above K)"
  by (rule tree_at_root [OF focus_tree [OF assms]])

lemma focus_childless:
  assumes "tree_at up h children sibling None (rose_plug t K)"
  shows "list_is_empty h (children (rose_root t)) = Some (branches t = [])"
  using list_is_empty_spec [OF tree_at_branches [OF focus_tree [OF assms]]] by simp

lemma focus_first:
  assumes "tree_at up h children sibling None (rose_plug t K)" "branches t = c # cs"
  shows "\<exists>l. h (children (rose_root t)) = Some l \<and> lnext l = sibling (rose_root c)"
  using is_list_end [OF tree_at_branches [OF focus_tree [OF assms(1)]]] assms(2) by auto

lemma focus_next:
  assumes "tree_at up h children sibling None (rose_plug t ((p, ls, rs) # K))"
  shows "\<exists>l. h (sibling (rose_root t)) = Some l \<and>
    lnext l = (case rs of [] \<Rightarrow> children p | r # rs' \<Rightarrow> sibling (rose_root r))"
proof -
  have "tree_at up h children sibling None (rose_plug (Rose p (ls @ t # rs)) K)" using assms by simp
  then have "is_list h (children p) (map (\<lambda>t. sibling (rose_root t)) (ls @ t # rs))"
    using tree_at_branches [OF focus_tree] by fastforce
  then have "is_list h (sibling (rose_root t)) (map (\<lambda>t. sibling (rose_root t)) rs @ children p # map (\<lambda>t. sibling (rose_root t)) ls)"
    using is_list_rotate [of h "children p" "map (\<lambda>t. sibling (rose_root t)) ls" "sibling (rose_root t)"
        "map (\<lambda>t. sibling (rose_root t)) rs"] by simp
  from is_list_end [OF this] show ?thesis by (cases rs) auto
qed

lemma focus_down:
  assumes "branches t = c # cs"
  shows "rose_plug t K = rose_plug c ((rose_root t, [], cs) # K)"
  using assms by (cases t) simp

lemma focus_right: "rose_plug t ((p, ls, r # rs) # K) = rose_plug r ((p, ls @ [t], rs) # K)"
  by simp

text \<open>The children of a node of the tree, as the code finds them.\<close>

lemma kids_of_node:
  assumes "tree_at up h children sibling q t" "p \<in> set (rose_nodes t)"
  shows "\<exists>kids. is_list h (children p) (map sibling kids) \<and> (\<forall>k \<in> set kids. up k = Some (Some p)) \<and> up p \<noteq> None \<and>
    set kids \<subseteq> set (rose_nodes t)"
  using assms
proof (induction t arbitrary: q rule: rose_nodes.induct)
  case (1 n ts)
  show ?case
  proof (cases "n = p")
    case True
    have "r \<in> set ts \<Longrightarrow> rose_root r \<in> set (rose_nodes r)" for r by (cases r) simp
    then show ?thesis
      using 1(2) True
      by (intro exI [of _ "map rose_root ts"]) (fastforce simp: list_all_iff comp_def dest: tree_at_root)
  next
    case False
    then obtain t where t: "t \<in> set ts" "p \<in> set (rose_nodes t)" using 1(3) by auto
    from 1(1) [OF t(1) _ t(2)] 1(2) t(1) show ?thesis by (fastforce simp: list_all_iff)
  qed
qed

lemma add_leaf_tree:
  assumes "tree_at up h children sibling q t" "c \<notin> set (rose_nodes t)"
    and "is_list h (children p) (map sibling kids)" "\<forall>k \<in> set kids. up k = Some (Some p)"
    and "is_list h' (children p) (map sibling kids @ [sibling c])" "is_list h' (children c) []"
    and "\<And>x. x \<noteq> children p \<Longrightarrow> x \<notin> sibling ` set kids \<Longrightarrow> x \<noteq> sibling c \<Longrightarrow> h' x = h x"
    and "\<And>n. n \<noteq> c \<Longrightarrow> up' n = up n" "up' c = Some (Some p)"
  shows "tree_at up' h' children sibling q (add_leaf p c t)"
  using assms(1,2)
proof (induction t arbitrary: q rule: rose_nodes.induct)
  case (1 n ts)
  have kids: "rose_root t \<noteq> c" "up (rose_root t) = Some (Some n)" if "t \<in> set ts" for t
  proof -
    show "up (rose_root t) = Some (Some n)" using 1(2) that tree_at_root by (fastforce simp: list_all_iff)
    have "rose_root t \<in> set (rose_nodes t)" by (cases t) simp
    then show "rose_root t \<noteq> c" using 1(3) that by auto
  qed
  have below: "list_all (tree_at up' h' children sibling (Some n)) (map (add_leaf p c) ts)"
    using 1 by (auto simp: list_all_iff)
  show ?case
  proof (cases "n = p")
    case True
    then have "map sibling kids = map (\<lambda>t. sibling (rose_root t)) ts"
      using is_list_unique [OF assms(3)] 1(2) by simp
    moreover have "up' n = up n" by (rule assms(8)) (use 1(3) in auto)
    ultimately show ?thesis using True below 1(2,3) assms(5,6,9) by (simp add: comp_def)
  next
    case False
    have "is_list h' (children n) (map (\<lambda>t. sibling (rose_root t)) ts) = is_list h (children n) (map (\<lambda>t. sibling (rose_root t)) ts)"
    proof (rule is_list_cong, rule assms(7))
      fix x
      assume x: "x \<in> set (children n # map (\<lambda>t. sibling (rose_root t)) ts)"
      have snc: "children m \<noteq> sibling k" for m k by (rule not_sym, rule sibling_not_children)
      show "x \<noteq> children p" using x False by (auto simp: children_inject snc)
      show "x \<noteq> sibling c" proof
        assume "x = sibling c"
        then obtain t where "t \<in> set ts" "sibling c = sibling (rose_root t)" using x sibling_not_children by auto
        then have "c = rose_root t" using owner_sibling by (metis option.inject)
        then show False using kids(1) [OF \<open>t \<in> set ts\<close>] by simp
      qed
      show "x \<notin> sibling ` set kids"
      proof
        assume "x \<in> sibling ` set kids"
        then obtain k where k: "k \<in> set kids" "x = sibling k" by auto
        then obtain t where "t \<in> set ts" "sibling k = sibling (rose_root t)"
          using x sibling_not_children by auto
        then have "k = rose_root t" "up k = Some (Some n)"
          using owner_sibling kids(2) by (metis option.inject)+
        then show False using k(1) assms(4) False by simp
      qed
    qed
    moreover have "up' n = up n" by (rule assms(8)) (use 1(3) in auto)
    ultimately show ?thesis using False below 1(2,3) by (simp add: comp_def)
  qed
qed

end

text \<open>A tree depends on the links and parents of its nodes only.\<close>

lemma tree_at_cong:
  assumes "\<And>n. n \<in> set (rose_nodes t) \<Longrightarrow> up' n = up n \<and> h' (kids n) = h (kids n) \<and> h' (sib n) = h (sib n)"
  shows "tree_at up' h' kids sib p t = tree_at up h kids sib p t"
  using assms
proof (induction t arbitrary: p)
  case (Rose n ts)
  have in_branch: "m \<in> set (rose_nodes (Rose n ts))" if "c \<in> set ts" "m \<in> set (rose_nodes c)" for c m
    using that by auto
  have roots: "rose_root c \<in> set (rose_nodes c)" for c :: "'a rose" by (cases c) simp
  have "is_list h' (kids n) (map (\<lambda>t. sib (rose_root t)) ts) = is_list h (kids n) (map (\<lambda>t. sib (rose_root t)) ts)"
  proof (rule is_list_cong)
    fix a assume "a \<in> set (kids n # map (\<lambda>t. sib (rose_root t)) ts)"
    then consider "a = kids n" | c where "c \<in> set ts" "a = sib (rose_root c)" by auto
    then show "h' a = h a" using Rose.prems in_branch roots by cases (simp, blast)
  qed
  moreover have "list_all (tree_at up' h' kids sib (Some n)) ts = list_all (tree_at up h kids sib (Some n)) ts"
    by (rule list_all_cong [OF refl]) (use Rose.IH Rose.prems in_branch in blast)
  ultimately show ?case using Rose.prems by simp
qed

lemma tree_at_up: "tree_at up h kids sib p t \<Longrightarrow> n \<in> set (rose_nodes t) \<Longrightarrow> up n \<noteq> None"
  by (induction t arbitrary: p) (auto simp: list_all_iff)

end
