(* ===== verification/Device.thy ===== *)
theory Device
  imports Trees Print
begin

unbundle bit_operations_syntax

text \<open>
  The tree of devices, \<^verbatim>\<open>device.c\<close>: adding a device under a parent and printing the tree.
  The printing loop walks the tree by its links; it is shown to end and to print each
  device once, indented by its depth, on every tree.
\<close>

section \<open>State\<close>

text \<open>
  A \<^verbatim>\<open>struct device\<close> is the static \<open>Root_Device\<close> or inside a struct of a driver at some address.
  Its two list heads are in a store of links.
\<close>

datatype device_ptr = Root_Device | Driver_Device uaddr

datatype device_head = Parent_Children device_ptr | Device_Children device_ptr

record device =
  device_name :: "string option"
  device_parent :: "device_ptr option"

text \<open>The console is everything printed so far.\<close>

record device_state =
  devices :: "device_ptr \<rightharpoonup> device"
  device_links :: "device_head links"
  console :: string

definition console_print :: "'a device_state_scheme \<Rightarrow> string \<Rightarrow> va_entry list \<Rightarrow> 'a device_state_scheme option" where
  "console_print s fmt args = do { out \<leftarrow> print fmt args; Some (s\<lparr>console := console s @ out\<rparr>) }"

definition DEVICE_INIT :: "'a device_state_scheme \<Rightarrow> device_ptr \<Rightarrow> string option \<Rightarrow> 'a device_state_scheme" where
  "DEVICE_INIT s dev dev_name =
     s\<lparr>devices := (devices s)(dev \<mapsto> \<lparr>device_name = dev_name, device_parent = None\<rparr>),
       device_links := (device_links s)(Parent_Children dev \<mapsto> LIST_INIT (Parent_Children dev),
         Device_Children dev \<mapsto> LIST_INIT (Device_Children dev))\<rparr>"

text \<open>
  The initializer of the file.  \<open>root_name\<close> is what \<^verbatim>\<open>format\<close> returns for the name, null when
  memory ran out.
\<close>

definition init_root_device :: "'a device_state_scheme \<Rightarrow> string option \<Rightarrow> 'a device_state_scheme" where
  "init_root_device s root_name = DEVICE_INIT s Root_Device root_name"

definition device_add :: "'a device_state_scheme \<Rightarrow> device_ptr \<Rightarrow> device_ptr \<Rightarrow> 'a device_state_scheme option" where
  "device_add s par child = do {
     pd \<leftarrow> devices s par;
     assert_that (device_name pd \<noteq> None);
     cd \<leftarrow> devices s child;
     assert_that (device_name cd \<noteq> None);
     assert_that (device_parent cd = None);
     alone \<leftarrow> list_is_empty (device_links s) (Parent_Children child);
     assert_that alone;
     childless \<leftarrow> list_is_empty (device_links s) (Device_Children child);
     assert_that childless;
     let s = s\<lparr>devices := (devices s)(child \<mapsto> cd\<lparr>device_parent := Some par\<rparr>)\<rparr>;
     h \<leftarrow> list_push (device_links s) (Device_Children par) (Parent_Children child);
     Some (s\<lparr>device_links := h\<rparr>)
   }"

section \<open>Printing the tree\<close>

fun device_of_head :: "device_head \<Rightarrow> device_ptr option" where
  "device_of_head (Parent_Children dev) = Some dev"
| "device_of_head (Device_Children dev) = None"

text \<open>The test of the inner loop: \<open>dev\<close> is the last child of its parent.\<close>

definition is_last_child :: "'a device_state_scheme \<Rightarrow> device_ptr \<Rightarrow> bool option" where
  "is_last_child s dev = do {
     d \<leftarrow> devices s dev;
     (case device_parent d of None \<Rightarrow> Some False
      | Some par \<Rightarrow> do { e \<leftarrow> device_links s (Parent_Children dev); Some (lnext e = Device_Children par) })
   }"

partial_function (option) print_climb ::
    "'a device_state_scheme \<Rightarrow> device_ptr \<Rightarrow> usize \<Rightarrow> (device_ptr \<times> usize \<times> 'a device_state_scheme) option" where
  "print_climb s dev depth = do {
     last \<leftarrow> is_last_child s dev;
     if last then do {
       d \<leftarrow> devices s dev;
       par \<leftarrow> device_parent d;
       assert_that (1 < depth);
       s \<leftarrow> console_print s ''{indent}}}'' [Va_Long (2 * (depth - 1))];
       print_climb s par (depth - 1)
     } else Some (dev, depth, s)
   }"

definition print_one :: "'a device_state_scheme \<Rightarrow> device_ptr \<Rightarrow> usize \<Rightarrow> 'a device_state_scheme option" where
  "print_one s dev depth = do {
     d \<leftarrow> devices s dev;
     dev_name \<leftarrow> device_name d;
     childless \<leftarrow> list_is_empty (device_links s) (Device_Children dev);
     console_print s ''{indent}{cstr} {cstr}''
       [Va_Long (2 * depth), Va_Cstr dev_name, Va_Cstr (if childless then '''' else '' {'')]
   }"

partial_function (option) print_from ::
    "'a device_state_scheme \<Rightarrow> device_ptr \<Rightarrow> usize \<Rightarrow> 'a device_state_scheme option" where
  "print_from s dev depth = do {
     s \<leftarrow> print_one s dev depth;
     childless \<leftarrow> list_is_empty (device_links s) (Device_Children dev);
     if \<not> childless then do {
       l \<leftarrow> device_links s (Device_Children dev);
       child \<leftarrow> device_of_head (lnext l);
       print_from s child (depth + 1)
     } else do {
       (dev, depth, s) \<leftarrow> print_climb s dev depth;
       d \<leftarrow> devices s dev;
       if device_parent d = None then do { assert_that (depth = 1); Some s }
       else do {
         e \<leftarrow> device_links s (Parent_Children dev);
         right \<leftarrow> device_of_head (lnext e);
         print_from s right depth
       }
     }
   }"

definition print_devices :: "'a device_state_scheme \<Rightarrow> 'a device_state_scheme option" where
  "print_devices s = do {
     s \<leftarrow> console_print s ''devices {{'' [];
     alone \<leftarrow> list_is_empty (device_links s) (Parent_Children Root_Device);
     assert_that alone;
     s \<leftarrow> print_from s Root_Device 1;
     console_print s ''}}'' []
   }"

section \<open>What is printed\<close>

definition indentation :: "usize \<Rightarrow> string" where
  "indentation depth = replicate (unat (2 * depth)) (CHR '' '')"

definition close_line :: "usize \<Rightarrow> string" where
  "close_line depth = indentation depth @ ''}'' @ [CHR 0x0A]"

text \<open>
  The lines of a subtree: its name, an opening brace when it has children, then theirs, one level
  deeper, and a closing brace.
\<close>

definition open_line :: "(device_ptr \<Rightarrow> string) \<Rightarrow> usize \<Rightarrow> device_ptr \<Rightarrow> bool \<Rightarrow> string" where
  "open_line name depth dev childless = indentation depth @ name dev @ '' '' @ (if childless then '''' else '' {'') @ [CHR 0x0A]"

fun tree_text :: "(device_ptr \<Rightarrow> string) \<Rightarrow> usize \<Rightarrow> device_ptr rose \<Rightarrow> string" where
  "tree_text name depth (Rose dev ts) =
     open_line name depth dev (ts = []) @
     (if ts = [] then '''' else concat (map (tree_text name (depth + 1)) ts) @ close_line depth)"

definition device_tree :: "'a device_state_scheme \<Rightarrow> device_ptr rose \<Rightarrow> bool" where
  "device_tree s t \<longleftrightarrow> tree_at (\<lambda>dev. map_option device_parent (devices s dev)) (device_links s)
     Device_Children Parent_Children None t"

definition names_of :: "'a device_state_scheme \<Rightarrow> device_ptr \<Rightarrow> string" where
  "names_of s dev = (case devices s dev of Some d \<Rightarrow> (case device_name d of Some n \<Rightarrow> n | None \<Rightarrow> '''') | None \<Rightarrow> '''')"

definition all_named :: "'a device_state_scheme \<Rightarrow> bool" where
  "all_named s \<longleftrightarrow> (\<forall>dev d. devices s dev = Some d \<longrightarrow> device_name d \<noteq> None)"

interpretation dev: sibling_tree Device_Children Parent_Children device_of_head
  by unfold_locales auto

text \<open>What remains to be printed after a subtree, given the place of it.\<close>

fun text_after :: "(device_ptr \<Rightarrow> string) \<Rightarrow> device_ptr place \<Rightarrow> usize \<Rightarrow> string" where
  "text_after name [] depth = ''''"
| "text_after name ((p, ls, rs) # K) depth =
     concat (map (tree_text name depth) rs) @ close_line (depth - 1) @ text_after name K (depth - 1)"

fun right_size :: "'n place \<Rightarrow> nat" where
  "right_size [] = 0"
| "right_size ((p, ls, rs) # K) = sum_list (map rose_size rs) + right_size K"

lemma rose_size_pos: "0 < rose_size t"
  by (cases t) simp

lemma print_pieces:
  "list_all well_formed ps \<Longrightarrow> print (concat (map render ps)) ap = map_option (\<lambda>out. out @ [CHR 0x0A]) (written ps ap)"
  by (simp add: print_def vfprint_pieces map_option_case split: option.split)

lemma print_open:
  "print ''{indent}{cstr} {cstr}'' [Va_Long i, Va_Cstr a, Va_Cstr b] =
     Some (replicate (unat i) (CHR '' '') @ a @ '' '' @ b @ [CHR 0x0A])"
  using print_pieces [of "[Hole F_indent [], Hole F_cstr [], Text '' '', Hole F_cstr []]"]
  by (simp add: format_indent_def format_cstr_def)

lemma print_close: "print ''{indent}}}'' [Va_Long i] = Some (replicate (unat i) (CHR '' '') @ ''}'' @ [CHR 0x0A])"
  using print_pieces [of "[Hole F_indent [], Text ''}'']"] by (simp add: format_indent_def)

lemma print_text: "print (double_braces t) [] = Some (t @ [CHR 0x0A])"
  using print_pieces [of "[Text t]"] by simp

lemma height_place: "length K + rose_height t \<le> rose_height (rose_plug t K)"
proof (induction K arbitrary: t)
  case (Cons c K)
  obtain p ls rs where c: "c = (p, ls, rs)" by (cases c)
  have "rose_height t < rose_height (Rose p (ls @ t # rs))" by (rule rose_height_branch) simp
  with Cons [of "Rose p (ls @ t # rs)"] c show ?case by simp
qed simp

lemma is_last_child_at:
  assumes "device_tree s (rose_plug t K)"
  shows "is_last_child s (rose_root t) = Some (case K of [] \<Rightarrow> False | (p, ls, rs) # K' \<Rightarrow> rs = [])"
proof (cases K)
  case Nil
  then show ?thesis
    using dev.focus_parent [of "\<lambda>dev. map_option device_parent (devices s dev)" "device_links s" t K] assms
    by (auto simp: is_last_child_def device_tree_def)
next
  case (Cons c K')
  obtain p ls rs where c: "c = (p, ls, rs)" by (cases c)
  then show ?thesis
    using dev.focus_parent [of "\<lambda>dev. map_option device_parent (devices s dev)" "device_links s" t K]
      dev.focus_next [of "\<lambda>dev. map_option device_parent (devices s dev)" "device_links s" t p ls rs K'] assms Cons
    by (auto simp: is_last_child_def device_tree_def split: list.splits)
qed

lemma device_tree_console [simp]: "device_tree (s\<lparr>console := c\<rparr>) t = device_tree s t"
  by (simp add: device_tree_def)

lemma depth_step:
  assumes "Suc (Suc n) < 2 ^ 64"
  shows "(1 + of_nat (Suc n) :: usize) - 1 = 1 + of_nat n" "(1::usize) < 1 + of_nat (Suc n)"
proof -
  have "(1::usize) + of_nat (Suc n) = of_nat (Suc (Suc n))" by simp
  then show "(1::usize) < 1 + of_nat (Suc n)"
    using unat_of_nat_small [of "Suc (Suc n)", where ?'a = 64] assms by (simp add: word_less_nat_alt del: of_nat_Suc)
qed simp

text \<open>The inner loop goes up to the first node that has a right sibling, or to the root.\<close>

lemma print_climb_spec:
  assumes "device_tree s (rose_plug t K)" "rose_height (rose_plug t K) < 2 ^ 64"
  shows "\<exists>t' K' out. print_climb s (rose_root t) (1 + of_nat (length K)) =
      Some (rose_root t', 1 + of_nat (length K'), s\<lparr>console := console s @ out\<rparr>) \<and>
    rose_plug t' K' = rose_plug t K \<and> right_size K' = right_size K \<and>
    text_after name K (1 + of_nat (length K)) = out @ text_after name K' (1 + of_nat (length K')) \<and>
    (K' = [] \<or> (\<exists>p ls r rs K''. K' = (p, ls, r # rs) # K''))"
  using assms
proof (induction K arbitrary: t s)
  case Nil
  show ?case
    by (rule exI [of _ t], rule exI [of _ "[]"])
      (use is_last_child_at [OF Nil(1)] in \<open>simp add: print_climb.simps\<close>)
next
  case (Cons c K)
  obtain p ls rs where c: "c = (p, ls, rs)" by (cases c)
  show ?case
  proof (cases rs)
    case (Cons r rs')
    then have "print_climb s (rose_root t) (1 + of_nat (length (c # K))) = Some (rose_root t, 1 + of_nat (length (c # K)), s)"
      using is_last_child_at [OF Cons.prems(1)] c by (simp add: print_climb.simps)
    then show ?thesis using c Cons by (intro exI [of _ t] exI [of _ "c # K"] exI [of _ "[]"]) simp
  next
    case Nil
    let ?t = "Rose p (ls @ [t])" and ?d = "1 + of_nat (length K) :: usize"
    let ?s = "s\<lparr>console := console s @ close_line ?d\<rparr>"
    have pl: "rose_plug t (c # K) = rose_plug ?t K" using c Nil by simp
    have "Suc (length K) + rose_height t \<le> rose_height (rose_plug t (c # K))"
      using height_place [of "c # K" t] by simp
    moreover have "0 < rose_height t" by (cases t) simp
    ultimately have d: "(1 + of_nat (length (c # K)) :: usize) - 1 = ?d" "1 < (1 + of_nat (length (c # K)) :: usize)"
      using depth_step [of "length K"] Cons.prems(2) by simp_all
    obtain dv where dv: "devices s (rose_root t) = Some dv" "device_parent dv = Some p"
      using dev.focus_parent [of _ _ t "c # K"] Cons.prems(1) c by (fastforce simp: device_tree_def)
    have up: "print_climb s (rose_root t) (1 + of_nat (length (c # K))) = print_climb ?s p ?d"
      using is_last_child_at [OF Cons.prems(1)] c Nil dv d
      by (subst print_climb.simps)
        (simp add: console_print_def print_close close_line_def indentation_def del: length_Cons of_nat_Suc)
    have "device_tree ?s (rose_plug ?t K)" "rose_height (rose_plug ?t K) < 2 ^ 64"
      using Cons.prems pl by simp_all
    from Cons.IH [OF this] obtain t' K' out where r:
      "print_climb ?s p ?d = Some (rose_root t', 1 + of_nat (length K'), ?s\<lparr>console := console ?s @ out\<rparr>)"
      "rose_plug t' K' = rose_plug ?t K" "right_size K' = right_size K"
      "text_after name K ?d = out @ text_after name K' (1 + of_nat (length K'))"
      "K' = [] \<or> (\<exists>p ls r rs K''. K' = (p, ls, r # rs) # K'')"
      unfolding rose.sel by blast
    show ?thesis
      by (rule exI [of _ t'], rule exI [of _ K'], rule exI [of _ "close_line ?d @ out"])
        (use r up pl c Nil d in \<open>simp del: of_nat_Suc length_Cons\<close>)
  qed
qed

lemma all_named_console [simp]: "all_named (s\<lparr>console := c\<rparr>) = all_named s"
  by (simp add: all_named_def)

lemma names_of_console [simp]: "names_of (s\<lparr>console := c\<rparr>) = names_of s"
  by (simp add: names_of_def fun_eq_iff)

lemma print_one_at:
  assumes "device_tree s (rose_plug t K)" "all_named s"
  shows "print_one s (rose_root t) depth =
    Some (s\<lparr>console := console s @ open_line (names_of s) depth (rose_root t) (branches t = [])\<rparr>)"
  using dev.focus_parent [of _ _ t K] dev.focus_childless [of _ _ t K] assms
  by (fastforce simp: print_one_def device_tree_def console_print_def print_open open_line_def indentation_def
      names_of_def all_named_def split: option.split)

text \<open>The loop prints what is left of the tree from the place where it is.\<close>

lemma print_from_spec:
  assumes "device_tree s (rose_plug t K)" "all_named s" "rose_height (rose_plug t K) < 2 ^ 64"
  shows "print_from s (rose_root t) (1 + of_nat (length K)) =
    Some (s\<lparr>console := console s @ tree_text (names_of s) (1 + of_nat (length K)) t @
      text_after (names_of s) K (1 + of_nat (length K))\<rparr>)"
  using assms
proof (induction "rose_size t + right_size K" arbitrary: t K s rule: less_induct)
  case less
  let ?d = "1 + of_nat (length K) :: usize" and ?name = "names_of s"
  note one = print_one_at [OF less.prems(1,2), of ?d]
  let ?s = "s\<lparr>console := console s @ open_line ?name ?d (rose_root t) (branches t = [])\<rparr>"
  have dt: "device_tree ?s (rose_plug t K)" using less.prems by simp
  then have e: "list_is_empty (device_links ?s) (Device_Children (rose_root t)) = Some (branches t = [])"
    unfolding device_tree_def by (rule dev.focus_childless)
  show ?case
  proof (cases "branches t")
    case (Cons c cs)
    let ?K = "(rose_root t, [], cs) # K"
    have pl: "rose_plug t K = rose_plug c ?K" by (rule dev.focus_down [OF Cons])
    obtain l where l: "device_links ?s (Device_Children (rose_root t)) = Some l" "lnext l = Parent_Children (rose_root c)"
      using dev.focus_first [OF dt [unfolded device_tree_def] Cons] by auto
    have "rose_size c + right_size ?K < rose_size t + right_size K" using Cons by (cases t) simp
    then have "print_from ?s (rose_root c) (1 + of_nat (length ?K)) =
      Some (?s\<lparr>console := console ?s @ tree_text ?name (1 + of_nat (length ?K)) c @ text_after ?name ?K (1 + of_nat (length ?K))\<rparr>)"
      using less.hyps [of c ?K ?s] less.prems pl by simp
    moreover have "tree_text ?name ?d t = open_line ?name ?d (rose_root t) False @
        tree_text ?name (?d + 1) c @ concat (map (tree_text ?name (?d + 1)) cs) @ close_line ?d"
      using Cons by (cases t) simp
    ultimately show ?thesis
      using one e l Cons by (subst print_from.simps) (simp add: add.commute)
  next
    case Nil
    obtain t' K' out where k: "print_climb ?s (rose_root t) ?d =
        Some (rose_root t', 1 + of_nat (length K'), ?s\<lparr>console := console ?s @ out\<rparr>)"
      "rose_plug t' K' = rose_plug t K" "right_size K' = right_size K"
      "text_after ?name K ?d = out @ text_after ?name K' (1 + of_nat (length K'))"
      "K' = [] \<or> (\<exists>p ls r rs K''. K' = (p, ls, r # rs) # K'')"
      using print_climb_spec [OF dt less.prems(3), of ?name] by blast
    let ?s' = "?s\<lparr>console := console ?s @ out\<rparr>"
    have dt': "device_tree ?s' (rose_plug t' K')" using dt k(2) by simp
    obtain dv where dv: "devices ?s' (rose_root t') = Some dv" "device_parent dv = above K'"
      using dev.focus_parent [OF dt' [unfolded device_tree_def]] by auto
    have line: "tree_text ?name ?d t = open_line ?name ?d (rose_root t) True" using Nil by (cases t) simp
    from k(5) show ?thesis
    proof
      assume "K' = []"
      then show ?thesis using one e Nil k dv line by (subst print_from.simps) simp
    next
      assume "\<exists>p ls r rs K''. K' = (p, ls, r # rs) # K''"
      then obtain p ls r rs K'' where K': "K' = (p, ls, r # rs) # K''" by blast
      let ?K = "(p, ls @ [t'], rs) # K''"
      have pl: "rose_plug t' K' = rose_plug r ?K" unfolding K' by (rule dev.focus_right)
      obtain l where l: "device_links ?s' (Parent_Children (rose_root t')) = Some l" "lnext l = Parent_Children (rose_root r)"
        using dev.focus_next [OF dt' [unfolded device_tree_def K']] by auto
      have "rose_size r + right_size ?K < rose_size t + right_size K"
        using k(3) K' rose_size_pos [of t] by simp
      then have "print_from ?s' (rose_root r) (1 + of_nat (length ?K)) =
        Some (?s'\<lparr>console := console ?s' @ tree_text ?name (1 + of_nat (length ?K)) r @ text_after ?name ?K (1 + of_nat (length ?K))\<rparr>)"
        using less.hyps [of r ?K ?s'] less.prems dt' pl k(2) by simp
      then show ?thesis
        using one e Nil k dv line l K' by (subst print_from.simps) simp
    qed
  qed
qed

section \<open>The properties\<close>

lemma device_add_spec:
  assumes tree: "device_tree s t" and named: "all_named s" and par: "par \<in> set (rose_nodes t)"
    and child: "devices s child = Some \<lparr>device_name = Some name, device_parent = None\<rparr>" "child \<notin> set (rose_nodes t)"
    and alone: "self_linked (device_links s) (Parent_Children child)" "self_linked (device_links s) (Device_Children child)"
  shows "\<exists>s'. device_add s par child = Some s' \<and> device_tree s' (add_leaf par child t) \<and> all_named s' \<and>
    console s' = console s"
proof -
  let ?up = "\<lambda>dev. map_option device_parent (devices s dev)"
  obtain kids where kids: "is_list (device_links s) (Device_Children par) (map Parent_Children kids)"
    "\<forall>k \<in> set kids. ?up k = Some (Some par)" "?up par \<noteq> None"
    using dev.kids_of_node [OF tree [unfolded device_tree_def] par] by blast
  have "Parent_Children child \<notin> set (Device_Children par # map Parent_Children kids)"
    using kids(2) child(1) by auto
  from list_push_spec [OF kids(1) alone(1) this] obtain h' where h':
    "list_push (device_links s) (Device_Children par) (Parent_Children child) = Some h'"
    "is_list h' (Device_Children par) (map Parent_Children kids @ [Parent_Children child])"
    "\<forall>x. x \<notin> set (Device_Children par # map Parent_Children kids @ [Parent_Children child]) \<longrightarrow> h' x = device_links s x"
    by auto
  have ne: "child \<noteq> par" using child(2) par by auto
  let ?devs = "(devices s)(child \<mapsto> \<lparr>device_name = Some name, device_parent = Some par\<rparr>)"
  have "tree_at (\<lambda>dev. map_option device_parent (?devs dev)) h' Device_Children Parent_Children None (add_leaf par child t)"
  proof (rule dev.add_leaf_tree [OF tree [unfolded device_tree_def] child(2) kids(1,2)])
    show "is_list h' (Device_Children child) []"
      using h'(3) alone(2) ne by (simp add: is_list_Nil self_linked_def image_iff)
  qed (use h' in auto)
  moreover obtain pd where "devices s par = Some pd" "device_name pd \<noteq> None"
    using kids(3) named by (auto simp: all_named_def)
  ultimately show ?thesis
    using child alone h'(1) named list_is_empty_spec [of "device_links s" "Parent_Children child" "[]"]
      list_is_empty_spec [of "device_links s" "Device_Children child" "[]"]
    by (auto simp: device_add_def self_linked_def is_list_Nil device_tree_def all_named_def)
qed

text \<open>A new device can be added under the root.\<close>

lemma device_tree_init:
  assumes "device_tree s t" "devices s dev = None"
  shows "device_tree (DEVICE_INIT s dev nam) t" "dev \<notin> set (rose_nodes t)"
proof -
  show new: "dev \<notin> set (rose_nodes t)"
    using tree_at_up [OF assms(1) [unfolded device_tree_def], of dev] assms(2) by auto
  show "device_tree (DEVICE_INIT s dev nam) t"
    using assms(1) unfolding device_tree_def
    by (subst tree_at_cong [where up = "\<lambda>dev. map_option device_parent (devices s dev)" and h = "device_links s"])
      (use new in \<open>auto simp: DEVICE_INIT_def\<close>)
qed

lemma device_init_add:
  assumes "device_tree s t" "all_named s" "Root_Device \<in> set (rose_nodes t)" "devices s dev = None"
  shows "\<exists>s'. device_add (DEVICE_INIT s dev (Some nam)) Root_Device dev = Some s' \<and> device_tree s' (add_leaf Root_Device dev t)"
proof -
  have "all_named (DEVICE_INIT s dev (Some nam))" using assms(2) by (auto simp: all_named_def DEVICE_INIT_def)
  moreover have "self_linked (device_links (DEVICE_INIT s dev (Some nam))) (Parent_Children dev)"
    "self_linked (device_links (DEVICE_INIT s dev (Some nam))) (Device_Children dev)"
    "devices (DEVICE_INIT s dev (Some nam)) dev = Some \<lparr>device_name = Some nam, device_parent = None\<rparr>"
    by (simp_all add: DEVICE_INIT_def self_linked_def LIST_INIT_def)
  ultimately show ?thesis
    using device_add_spec [OF device_tree_init(1) _ assms(3) _ device_tree_init(2), OF assms(1,4) _ _ assms(1,4)] by blast
qed

text \<open>
  \<open>C29\<close>.  \<open>device_add\<close> succeeds on a named, unattached device, and the tree afterwards is the
  tree before with the device as the last child of the given parent.
\<close>

theorem device_add_extends_tree:
  assumes "device_tree s t" "all_named s" "par \<in> set (rose_nodes t)"
    and "devices s child = Some \<lparr>device_name = Some name, device_parent = None\<rparr>" "child \<notin> set (rose_nodes t)"
    and "self_linked (device_links s) (Parent_Children child)" "self_linked (device_links s) (Device_Children child)"
  shows "\<exists>s'. device_add s par child = Some s' \<and> device_tree s' (add_leaf par child t)"
  using device_add_spec [OF assms] by blast

definition one_device :: device_state where
  "one_device = DEVICE_INIT (init_root_device \<lparr>devices = Map.empty, device_links = Map.empty, console = ''''\<rparr> (Some ''root-device''))
     (Driver_Device 4096) (Some ''uart'')"

lemma one_device_facts:
  "device_tree one_device (Rose Root_Device [])" "all_named one_device"
  "self_linked (device_links one_device) (Parent_Children Root_Device)"
  "self_linked (device_links one_device) (Parent_Children (Driver_Device 4096))"
  "self_linked (device_links one_device) (Device_Children (Driver_Device 4096))"
  "devices one_device (Driver_Device 4096) = Some \<lparr>device_name = Some ''uart'', device_parent = None\<rparr>"
  by (simp_all add: device_tree_def all_named_def self_linked_def is_list_Nil one_device_def init_root_device_def DEVICE_INIT_def)

theorem device_add_extends_tree_witness:
  "\<exists>s'. device_add one_device Root_Device (Driver_Device 4096) = Some s' \<and>
     device_tree s' (Rose Root_Device [Rose (Driver_Device 4096) []])"
  using device_add_extends_tree [OF one_device_facts(1,2) _ one_device_facts(6) _ one_device_facts(4,5), of Root_Device]
  by simp

text \<open>
  \<open>C30\<close>.  Printing the devices ends on every tree (of a height that fits the depth counter), no assertion
  fails, and what it prints is each device once, before its children, with its
  name after two blanks per level, and a closing brace after the children of a device that has any.
\<close>

theorem print_devices_prints_tree:
  assumes "device_tree s t" "all_named s" "rose_root t = Root_Device" "rose_height t < 2 ^ 64"
    and "self_linked (device_links s) (Parent_Children Root_Device)"
  shows "print_devices s = Some (s\<lparr>console := console s @
    ''devices {'' @ [CHR 0x0A] @ tree_text (names_of s) 1 t @ ''}'' @ [CHR 0x0A]\<rparr>)"
proof -
  let ?s = "s\<lparr>console := console s @ ''devices {'' @ [CHR 0x0A]\<rparr>"
  have "device_tree ?s (rose_plug t [])" "all_named ?s" "rose_height (rose_plug t []) < 2 ^ 64"
    using assms by simp_all
  note print_from_spec [OF this]
  moreover have "list_is_empty (device_links s) (Parent_Children Root_Device) = Some True"
    using list_is_empty_spec [of _ _ "[]"] assms(5) by (simp add: self_linked_def is_list_Nil)
  ultimately show ?thesis
    using assms(3) print_text [of "''devices {''"] print_text [of "''}''"] by (simp add: print_devices_def console_print_def)
qed

lemma two_blanks: "replicate 2 c = [c, c]"
  by (simp add: numeral_2_eq_2)

theorem print_devices_prints_tree_witness:
  "\<exists>s. print_devices one_device = Some s \<and> console s =
     ''devices {'' @ [CHR 0x0A] @ ''  root-device '' @ [CHR 0x0A] @ ''}'' @ [CHR 0x0A]"
proof -
  have "tree_text (names_of one_device) 1 (Rose Root_Device []) = ''  root-device '' @ [CHR 0x0A]"
    by (simp add: open_line_def indentation_def two_blanks names_of_def one_device_def init_root_device_def DEVICE_INIT_def)
  moreover have "console one_device = ''''"
    by (simp add: one_device_def init_root_device_def DEVICE_INIT_def)
  ultimately show ?thesis
    using print_devices_prints_tree [OF one_device_facts(1,2) _ _ one_device_facts(3)] by simp
qed

end
