(* ===== verification/Builtins.thy ===== *)
theory Builtins
  imports Heap
begin

unbundle bit_operations_syntax

text \<open>
  The string and memory functions of \<^verbatim>\<open>builtins/*.c\<close>, loop by loop on a byte memory with
  addresses of 64 bits.  A loop that looks for a zero byte may not end; the others count down a
  length.  They are related to C strings and byte lists.
\<close>

type_synonym bytes_memory = "uaddr \<Rightarrow> u8"

partial_function (option) strlen_from :: "bytes_memory \<Rightarrow> uaddr \<Rightarrow> usize \<Rightarrow> usize option" where
  "strlen_from m s n = (if m s \<noteq> 0 then strlen_from m (s + 1) (n + 1) else Some n)"

definition strlen :: "bytes_memory \<Rightarrow> uaddr \<Rightarrow> usize option" where
  "strlen m s = strlen_from m s 0"

text \<open>The length is tested before it is decreased, and the byte is read only if it was not zero.\<close>

fun strnlen_from :: "bytes_memory \<Rightarrow> uaddr \<Rightarrow> nat \<Rightarrow> usize \<Rightarrow> usize" where
  "strnlen_from m s 0 n = n"
| "strnlen_from m s (Suc max_len) n = (if m s \<noteq> 0 then strnlen_from m (s + 1) max_len (n + 1) else n)"

definition strnlen :: "bytes_memory \<Rightarrow> uaddr \<Rightarrow> usize \<Rightarrow> usize" where
  "strnlen m s max_len = strnlen_from m s (unat max_len) 0"

text \<open>The result is the difference of the bytes as \<^verbatim>\<open>int\<close>.\<close>

partial_function (option) strcmp :: "bytes_memory \<Rightarrow> uaddr \<Rightarrow> uaddr \<Rightarrow> int option" where
  "strcmp m s1 s2 = (if m s1 \<noteq> m s2 then Some (uint (m s1) - uint (m s2))
     else if m s1 = 0 then Some (uint (m s1) - uint (m s2))
     else strcmp m (s1 + 1) (s2 + 1))"

fun memcmp_from :: "bytes_memory \<Rightarrow> uaddr \<Rightarrow> uaddr \<Rightarrow> nat \<Rightarrow> int" where
  "memcmp_from m p1 p2 0 = 0"
| "memcmp_from m p1 p2 (Suc n) =
     (if m p1 < m p2 then - 1 else if m p2 < m p1 then 1 else memcmp_from m (p1 + 1) (p2 + 1) n)"

definition memcmp :: "bytes_memory \<Rightarrow> uaddr \<Rightarrow> uaddr \<Rightarrow> usize \<Rightarrow> int" where
  "memcmp m s1 s2 n = memcmp_from m s1 s2 (unat n)"

fun memcpy_from :: "bytes_memory \<Rightarrow> uaddr \<Rightarrow> uaddr \<Rightarrow> nat \<Rightarrow> bytes_memory" where
  "memcpy_from m dst src 0 = m"
| "memcpy_from m dst src (Suc len) = memcpy_from (m(dst := m src)) (dst + 1) (src + 1) len"

definition memcpy :: "bytes_memory \<Rightarrow> uaddr \<Rightarrow> uaddr \<Rightarrow> usize \<Rightarrow> bytes_memory" where
  "memcpy m dst src len = memcpy_from m dst src (unat len)"

fun memset_from :: "bytes_memory \<Rightarrow> uaddr \<Rightarrow> u8 \<Rightarrow> nat \<Rightarrow> bytes_memory" where
  "memset_from m dst byte 0 = m"
| "memset_from m dst byte (Suc len) = memset_from (m(dst := byte)) (dst + 1) byte len"

definition memset :: "bytes_memory \<Rightarrow> uaddr \<Rightarrow> 32 word \<Rightarrow> usize \<Rightarrow> bytes_memory" where
  "memset m dst byte len = memset_from m dst (ucast byte) (unat len)"

fun bzero_from :: "bytes_memory \<Rightarrow> uaddr \<Rightarrow> nat \<Rightarrow> bytes_memory" where
  "bzero_from m p 0 = m"
| "bzero_from m p (Suc len) = bzero_from (m(p := 0)) (p + 1) len"

definition bzero :: "bytes_memory \<Rightarrow> uaddr \<Rightarrow> usize \<Rightarrow> bytes_memory" where
  "bzero m dst len = bzero_from m dst (unat len)"

definition explicit_bzero :: "bytes_memory \<Rightarrow> uaddr \<Rightarrow> usize \<Rightarrow> bytes_memory" where
  "explicit_bzero m dst len = bzero m dst len"

section \<open>Strings\<close>

text \<open>A C string with the given characters is at an address.\<close>

definition cstr_at :: "bytes_memory \<Rightarrow> uaddr \<Rightarrow> u8 list \<Rightarrow> bool" where
  "cstr_at m a bs \<longleftrightarrow> load m a (length bs) = bs \<and> 0 \<notin> set bs \<and> m (a + of_nat (length bs)) = 0"

lemma load_Suc: "load m a (Suc n) = m a # load m (a + 1) n"
  by (simp add: load_def upt_conv_Cons map_Suc_upt [symmetric] add.assoc comp_def del: upt_Suc map_Suc_upt)

lemma cstr_at_Nil [simp]: "cstr_at m a [] \<longleftrightarrow> m a = 0"
  by (simp add: cstr_at_def load_def)

lemma cstr_at_Cons [simp]: "cstr_at m a (b # bs) \<longleftrightarrow> m a = b \<and> b \<noteq> 0 \<and> cstr_at m (a + 1) bs"
  by (auto simp: cstr_at_def load_Suc add.assoc)

lemma strlen_from_cstr: "cstr_at m a bs \<Longrightarrow> strlen_from m a n = Some (n + of_nat (length bs))"
  by (induction bs arbitrary: a n) (simp_all add: strlen_from.simps add.assoc)

lemma strlen_cstr: "cstr_at m a bs \<Longrightarrow> strlen m a = Some (of_nat (length bs))"
  by (simp add: strlen_def strlen_from_cstr)

lemma strnlen_from_cstr: "cstr_at m a bs \<Longrightarrow> strnlen_from m a k n = n + of_nat (min k (length bs))"
proof (induction bs arbitrary: a n k)
  case Nil
  then show ?case by (cases k) simp_all
next
  case (Cons b bs)
  then show ?case by (cases k) simp_all
qed

lemma strnlen_cstr: "cstr_at m a bs \<Longrightarrow> strnlen m a k = of_nat (min (unat k) (length bs))"
  by (simp add: strnlen_def strnlen_from_cstr)

text \<open>The order of unsigned bytes, shorter strings first.\<close>

fun bytes_less :: "u8 list \<Rightarrow> u8 list \<Rightarrow> bool" where
  "bytes_less [] ys \<longleftrightarrow> ys \<noteq> []"
| "bytes_less (x # xs) [] \<longleftrightarrow> False"
| "bytes_less (x # xs) (y # ys) \<longleftrightarrow> x < y \<or> x = y \<and> bytes_less xs ys"

lemma strcmp_cstr:
  assumes "cstr_at m a xs" "cstr_at m b ys"
  shows "\<exists>r. strcmp m a b = Some r \<and> (r = 0 \<longleftrightarrow> xs = ys) \<and> (r < 0 \<longleftrightarrow> bytes_less xs ys)"
  using assms
proof (induction xs ys arbitrary: a b rule: bytes_less.induct)
  case (1 ys)
  then show ?case
    by (cases ys) (auto simp: strcmp.simps [of m a b] word_less_def uint_0_iff order_less_le)
next
  case (2 x xs)
  then show ?case by (auto simp: strcmp.simps [of m a b] uint_0_iff) 
next
  case (3 x xs y ys)
  show ?case
  proof (cases "x = y")
    case True
    with 3 show ?thesis by (auto simp: strcmp.simps [of m a b])
  next
    case False
    with 3(2,3) show ?thesis by (auto simp: strcmp.simps [of m a b] word_less_def word_uint_eq_iff)
  qed
qed

section \<open>Memory\<close>

lemma memcmp_from_load:
  "memcmp_from m p1 p2 n = (if load m p1 n = load m p2 n then 0 else if bytes_less (load m p1 n) (load m p2 n) then - 1 else 1)"
proof (induction n arbitrary: p1 p2)
  case 0
  then show ?case by (simp add: load_def)
next
  case (Suc n)
  then show ?case by (auto simp: load_Suc)
qed

lemma length_loaded: "length (load m a n) = n"
  by (simp add: load_def)

lemma load_frame: "(\<And>i. i < n \<Longrightarrow> m' (a + of_nat i) = m (a + of_nat i)) \<Longrightarrow> load m' a n = load m a n"
  by (simp add: load_def)

lemma store_Cons:
  assumes "length bs < 2 ^ 64"
  shows "store (m(a := b)) (a + 1) bs = store m a (b # bs)"
proof
  fix x
  show "store (m(a := b)) (a + 1) bs x = store m a (b # bs) x"
  proof (cases "x = a")
    case True
    have "unat (a - (a + 1)) = 2 ^ 64 - 1" by (simp add: unsigned_minus_1_eq_mask mask_eq_exp_minus_1)
    then show ?thesis using True assms by (simp add: store_def)
  next
    case False
    then have "0 < unat (x - a)" by (simp add: unat_gt_0)
    moreover have "unat (x - (a + 1)) = unat (x - a) - 1"
      using unat_minus_small [of 1 "x - a"] False by (simp add: word_le_nat_alt unat_gt_0 Suc_le_eq diff_diff_eq)
    ultimately show ?thesis using False by (cases "unat (x - a)") (auto simp: store_def)
  qed
qed

lemma store_Nil [simp]: "store m a [] = m"
  by (simp add: store_def)

lemma memset_from_store: "n < 2 ^ 64 \<Longrightarrow> memset_from m a b n = store m a (replicate n b)"
  by (induction n arbitrary: m a) (simp_all add: store_Cons)

lemma bzero_from_store: "n < 2 ^ 64 \<Longrightarrow> bzero_from m a n = store m a (replicate n 0)"
  by (induction n arbitrary: m a) (simp_all add: store_Cons)

text \<open>Copying forward is exact when no byte is written before it is read.\<close>

lemma memcpy_from_store:
  assumes "n < 2 ^ 64" "\<And>i j. i < j \<Longrightarrow> j < n \<Longrightarrow> dst + of_nat i \<noteq> src + of_nat j"
  shows "memcpy_from m dst src n = store m dst (load m src n)"
  using assms
proof (induction n arbitrary: m dst src)
  case 0
  then show ?case by (simp add: load_def)
next
  case (Suc n)
  have "i < j \<Longrightarrow> j < n \<Longrightarrow> dst + 1 + of_nat i \<noteq> src + 1 + of_nat j" for i j
    using Suc.prems(2) [of "Suc i" "Suc j"] by (simp add: add.assoc)
  then have "memcpy_from (m(dst := m src)) (dst + 1) (src + 1) n =
      store (m(dst := m src)) (dst + 1) (load (m(dst := m src)) (src + 1) n)"
    using Suc by simp
  also have "load (m(dst := m src)) (src + 1) n = load m (src + 1) n"
    using Suc.prems(2) [of 0 "Suc i" for i] by (intro load_frame) (fastforce simp: add.assoc)
  also have "store (m(dst := m src)) (dst + 1) (load m (src + 1) n) = store m dst (load m src (Suc n))"
    using Suc.prems(1) by (simp add: store_Cons load_Suc length_loaded)
  finally show ?case by (simp only: memcpy_from.simps)
qed

section \<open>The properties\<close>

text \<open>
  \<open>C31\<close>.  On C strings \<open>strlen\<close> and \<open>strnlen\<close> return the length and the length cut off at the bound, and
  \<open>strcmp\<close> ends and returns zero exactly for equal strings and a negative number exactly when the
  first comes before the second in the order of unsigned bytes.
\<close>

theorem string_functions_correct:
  assumes "cstr_at m a xs" "cstr_at m b ys"
  shows "strlen m a = Some (of_nat (length xs)) \<and> strnlen m a k = of_nat (min (unat k) (length xs)) \<and>
    (\<exists>r. strcmp m a b = Some r \<and> (r = 0 \<longleftrightarrow> xs = ys) \<and> (r < 0 \<longleftrightarrow> bytes_less xs ys))"
  using strlen_cstr [OF assms(1)] strnlen_cstr [OF assms(1)] strcmp_cstr [OF assms] by blast

theorem string_functions_correct_witness:
  "let m = store (\<lambda>_. 0) 100 [97, 98, 0, 97, 200, 0] in
     strlen m 100 = Some 2 \<and> strnlen m 100 1 = 1 \<and> (\<exists>r < 0. strcmp m 100 103 = Some r)"
proof -
  let ?m = "store (\<lambda>_. 0) 100 [97, 98, 0, 97, 200, 0] :: uaddr \<Rightarrow> u8"
  have "cstr_at ?m 100 [97, 98]" "cstr_at ?m 103 [97, 200]" by (simp_all add: store_def)
  from string_functions_correct [OF this, of 1] show ?thesis by (auto simp: Let_def)
qed

text \<open>
  \<open>C32\<close>.  \<open>memcpy\<close> of areas that do not overlap, \<open>memset\<close> and \<open>bzero\<close> store exactly the bytes they
  promise and nothing else, and \<open>memcmp\<close> compares two areas in the order of unsigned bytes.
\<close>

theorem memory_functions_correct:
  assumes "\<And>i j. i < unat n \<Longrightarrow> j < unat n \<Longrightarrow> dst + of_nat i \<noteq> src + of_nat j"
  shows "memcpy m dst src n = store m dst (load m src (unat n)) \<and>
    memset m dst byte n = store m dst (replicate (unat n) (ucast byte)) \<and>
    bzero m dst n = store m dst (replicate (unat n) 0) \<and>
    (memcmp m dst src n = 0 \<longleftrightarrow> load m dst (unat n) = load m src (unat n)) \<and>
    (memcmp m dst src n < 0 \<longleftrightarrow> bytes_less (load m dst (unat n)) (load m src (unat n)))"
proof -
  have n: "unat n < 2 ^ 64" by (rule unat_u64_less)
  have "bytes_less xs ys \<Longrightarrow> xs \<noteq> ys" for xs ys by (induction xs ys rule: bytes_less.induct) auto
  then show ?thesis
    using memcpy_from_store [OF n, of dst src m] assms memset_from_store [OF n] bzero_from_store [OF n]
    by (auto simp: memcpy_def memset_def bzero_def memcmp_def memcmp_from_load)
qed

theorem memory_functions_correct_witness:
  "memcpy (\<lambda>a. if a = 100 then 7 else 0) 200 100 1 = store (\<lambda>a. if a = 100 then 7 else 0) 200 [7]"
  using memory_functions_correct [of 1 200 100 "\<lambda>a. if a = 100 then 7 else 0"] by (simp add: load_def)

end
