(* ===== verification/Devicetree.thy ===== *)
theory Devicetree
  imports Device Symbolicate Physical
begin

unbundle bit_operations_syntax

text \<open>
  The device tree, \<^verbatim>\<open>devicetree.c\<close>: parsing the flattened tree out of physical memory, freeing it,
  the reservations added to it, lookups, printing, and the enumeration of devices by the handlers
  that drivers register.
\<close>

section \<open>State\<close>

text \<open>
  A null pointer is \<open>None\<close>.  The strings and values that the structs own are part of them; a
  name has no zero character.
\<close>

record devicetree_prop =
  prop_node :: uaddr
  prop_name :: string
  value_len :: usize
  prop_value :: "u8 list"

record devicetree_node =
  node_parent :: "uaddr option"
  node_name :: string

text \<open>The list heads: \<^verbatim>\<open>parent_children_head\<close>, \<^verbatim>\<open>children\<close> and \<^verbatim>\<open>props\<close> of a node, and \<^verbatim>\<open>node_props_head\<close> of a property.\<close>

datatype dt_head = Parent_Children_Head uaddr | Children uaddr | Props uaddr | Node_Props_Head uaddr

record devicetree_handler =
  compatible :: string
  compatible_len :: usize
  handler_func :: uaddr

text \<open>
  The structs by address, the answers the allocator is going to give (\<open>None\<close> is a
  null pointer), and what the functions use of other files.
\<close>

record dt_state = device_state +
  dt_nodes :: "uaddr \<rightharpoonup> devicetree_node"
  dt_props :: "uaddr \<rightharpoonup> devicetree_prop"
  dt_links :: "dt_head links"
  dt_allocs :: "uaddr option stream"
  dt_rng :: random_state
  dt_symbols :: symbol_tables
  handlers_vec :: bool
  handlers :: "devicetree_handler list"
  handlers_cap :: usize

definition dt_alloc :: "dt_state \<Rightarrow> uaddr option \<times> dt_state" where
  "dt_alloc d = (shd (dt_allocs d), d\<lparr>dt_allocs := stl (dt_allocs d)\<rparr>)"

text \<open>\<^verbatim>\<open>format\<close> into allocated memory; one answer of the allocator stands for the buffer that is returned.\<close>

definition dt_format :: "dt_state \<Rightarrow> string \<Rightarrow> va_entry list \<Rightarrow> (string option \<times> dt_state) option" where
  "dt_format d fmt args = do {
     out \<leftarrow> vfprint fmt args;
     let (p, d) = dt_alloc d;
     Some (map_option (\<lambda>_. out) p, d)
   }"

definition on_dt_links :: "dt_state \<Rightarrow> (dt_head links \<Rightarrow> dt_head links option) \<Rightarrow> dt_state option" where
  "on_dt_links d f = do { h \<leftarrow> f (dt_links d); Some (d\<lparr>dt_links := h\<rparr>) }"

text \<open>The assignments of struct literals, with self-linked list heads, and the end of a struct's life.\<close>

definition node_init :: "dt_state \<Rightarrow> uaddr \<Rightarrow> uaddr option \<Rightarrow> string \<Rightarrow> dt_state" where
  "node_init d node par name =
     d\<lparr>dt_nodes := (dt_nodes d)(node \<mapsto> \<lparr>node_parent = par, node_name = name\<rparr>),
       dt_links := (dt_links d)(Parent_Children_Head node \<mapsto> LIST_INIT (Parent_Children_Head node),
         Children node \<mapsto> LIST_INIT (Children node), Props node \<mapsto> LIST_INIT (Props node))\<rparr>"

definition node_release :: "dt_state \<Rightarrow> uaddr \<Rightarrow> dt_state" where
  "node_release d node =
     d\<lparr>dt_nodes := (dt_nodes d)(node := None),
       dt_links := (dt_links d)(Parent_Children_Head node := None, Children node := None, Props node := None)\<rparr>"

definition prop_init :: "dt_state \<Rightarrow> uaddr \<Rightarrow> devicetree_prop \<Rightarrow> dt_state" where
  "prop_init d p pr =
     d\<lparr>dt_props := (dt_props d)(p \<mapsto> pr),
       dt_links := (dt_links d)(Node_Props_Head p \<mapsto> LIST_INIT (Node_Props_Head p))\<rparr>"

definition prop_release :: "dt_state \<Rightarrow> uaddr \<Rightarrow> dt_state" where
  "prop_release d p = d\<lparr>dt_props := (dt_props d)(p := None), dt_links := (dt_links d)(Node_Props_Head p := None)\<rparr>"

text \<open>\<^verbatim>\<open>container_of\<close> from a link that is expected to be an entry of a list of children, or of properties.\<close>

fun node_of_head :: "dt_head \<Rightarrow> uaddr option" where
  "node_of_head (Parent_Children_Head n) = Some n"
| "node_of_head _ = None"

fun prop_of_head :: "dt_head \<Rightarrow> uaddr option" where
  "prop_of_head (Node_Props_Head p) = Some p"
| "prop_of_head _ = None"

section \<open>Freeing the tree\<close>

definition devicetree_prop_free :: "dt_state \<Rightarrow> uaddr \<Rightarrow> dt_state option" where
  "devicetree_prop_free d p = do {
     d \<leftarrow> on_dt_links d (\<lambda>h. list_remove h (Node_Props_Head p));
     pr \<leftarrow> dt_props d p;
     Some (prop_release d p)
   }"

partial_function (option) free_props :: "dt_state \<Rightarrow> uaddr \<Rightarrow> dt_state option" where
  "free_props d node = do {
     none \<leftarrow> list_is_empty (dt_links d) (Props node);
     if \<not> none then do {
       l \<leftarrow> dt_links d (Props node);
       p \<leftarrow> prop_of_head (lnext l);
       d \<leftarrow> devicetree_prop_free d p;
       free_props d node
     } else Some d
   }"

text \<open>The loop that frees childless nodes going up; it gives the node where it stopped, if it did before the root was freed.\<close>

partial_function (option) free_childless :: "dt_state \<Rightarrow> uaddr \<Rightarrow> (uaddr option \<times> dt_state) option" where
  "free_childless d node = do {
     childless \<leftarrow> list_is_empty (dt_links d) (Children node);
     if childless then do {
       none \<leftarrow> list_is_empty (dt_links d) (Props node);
       assert_that none;
       nd \<leftarrow> dt_nodes d node;
       d \<leftarrow> (if node_parent nd \<noteq> None then on_dt_links d (\<lambda>h. list_remove h (Parent_Children_Head node)) else Some d);
       let d = node_release d node;
       case node_parent nd of None \<Rightarrow> Some (None, d) | Some par \<Rightarrow> free_childless d par
     } else Some (Some node, d)
   }"

partial_function (option) free_from :: "dt_state \<Rightarrow> uaddr \<Rightarrow> dt_state option" where
  "free_from d node = do {
     d \<leftarrow> free_props d node;
     (rest, d) \<leftarrow> free_childless d node;
     case rest of None \<Rightarrow> Some d
     | Some node \<Rightarrow> do {
         none \<leftarrow> list_is_empty (dt_links d) (Props node);
         assert_that none;
         l \<leftarrow> dt_links d (Children node);
         child \<leftarrow> node_of_head (lnext l);
         free_from d child
       }
   }"

definition devicetree_free :: "dt_state \<Rightarrow> uaddr option \<Rightarrow> dt_state option" where
  "devicetree_free d node = (case node of None \<Rightarrow> Some d
     | Some node \<Rightarrow> do { nd \<leftarrow> dt_nodes d node; assert_that (node_parent nd = None); free_from d node })"

section \<open>The flattened tree\<close>

record fdt_header =
  magic :: u32
  totalsize :: u32
  off_dt_struct :: u32
  off_dt_strings :: u32
  off_mem_rsvmap :: u32
  version :: u32
  last_comp_version :: u32
  boot_cpuid_phys :: u32
  size_dt_strings :: u32
  size_dt_struct :: u32

record fdt_reserve_entry =
  reserve_address :: u64
  reserve_size :: u64

definition FDT_BEGIN_NODE :: u32 where "FDT_BEGIN_NODE = 1"
definition FDT_END_NODE :: u32 where "FDT_END_NODE = 2"
definition FDT_PROP :: u32 where "FDT_PROP = 3"
definition FDT_NOP :: u32 where "FDT_NOP = 4"
definition FDT_END :: u32 where "FDT_END = 9"

definition read_be_at :: "pmem \<Rightarrow> paddr \<Rightarrow> usize \<Rightarrow> ('a::len word) option" where
  "read_be_at m p off = do { q \<leftarrow> paddr_offset p off; physical_read_be m q }"

definition physical_read_fdt_header :: "pmem \<Rightarrow> paddr \<Rightarrow> fdt_header option" where
  "physical_read_fdt_header m p = do {
     mg \<leftarrow> read_be_at m p 0;
     ts \<leftarrow> read_be_at m p 4;
     st \<leftarrow> read_be_at m p 8;
     ss \<leftarrow> read_be_at m p 12;
     rs \<leftarrow> read_be_at m p 16;
     v \<leftarrow> read_be_at m p 20;
     lv \<leftarrow> read_be_at m p 24;
     b \<leftarrow> read_be_at m p 28;
     zs \<leftarrow> read_be_at m p 32;
     zt \<leftarrow> read_be_at m p 36;
     Some \<lparr>magic = mg, totalsize = ts, off_dt_struct = st, off_dt_strings = ss, off_mem_rsvmap = rs, version = v,
       last_comp_version = lv, boot_cpuid_phys = b, size_dt_strings = zs, size_dt_struct = zt\<rparr>
   }"

definition physical_read_fdt_reserve_entry :: "pmem \<Rightarrow> paddr \<Rightarrow> fdt_reserve_entry option" where
  "physical_read_fdt_reserve_entry m p = do {
     a \<leftarrow> read_be_at m p 0;
     sz \<leftarrow> read_be_at m p 8;
     Some \<lparr>reserve_address = a, reserve_size = sz\<rparr>
   }"

text \<open>The loop that computes the length of a name.\<close>

partial_function (option) name_length :: "pmem \<Rightarrow> paddr \<Rightarrow> usize \<Rightarrow> usize option" where
  "name_length m p n = do {
     q \<leftarrow> paddr_offset p n;
     b \<leftarrow> physical_read_u8 m q;
     if b \<noteq> 0 then name_length m p (n + 1) else Some n
   }"

definition string_of_bytes :: "u8 list \<Rightarrow> string" where
  "string_of_bytes bs = map (\<lambda>b. char_of (unat b)) bs"

text \<open>
  The variables of the parser.  A case of the switch gives whether the loop goes on;
  if not, the code jumps to \<^verbatim>\<open>fail\<close>.
\<close>

record dt_parser =
  here :: paddr
  current_node :: "uaddr option"
  finished_root_node :: bool
  got_end_token :: bool

definition complain :: "dt_state \<Rightarrow> string \<Rightarrow> dt_state option" where
  "complain d fmt = console_print d fmt [Va_Cstr ''devicetree_parse_structure_block'']"

definition parse_begin_node :: "pmem \<Rightarrow> dt_state \<Rightarrow> dt_parser \<Rightarrow> (bool \<times> dt_state \<times> dt_parser) option" where
  "parse_begin_node m d st =
     (if finished_root_node st then do {
        d \<leftarrow> complain d ''{cstr}: got FDT_BEGIN_NODE token after the root node?'';
        Some (False, d, st)
      } else do {
        name_len \<leftarrow> name_length m (here st) 0;
        let (node, d) = dt_alloc d;
        (case node of None \<Rightarrow> Some (False, d, st)
         | Some node \<Rightarrow> do {
             let (name, d) = dt_alloc d;
             if name = None then Some (False, d, st)
             else do {
               let d = node_init d node (current_node st) '''';
               d \<leftarrow> (case current_node st of None \<Rightarrow> Some d
                  | Some cur \<Rightarrow> on_dt_links d (\<lambda>h. list_push h (Children cur) (Parent_Children_Head node)));
               bs \<leftarrow> copy_from_physical m (here st) name_len;
               nd \<leftarrow> dt_nodes d node;
               let d = d\<lparr>dt_nodes := (dt_nodes d)(node \<mapsto> nd\<lparr>node_name := string_of_bytes bs\<rparr>)\<rparr>;
               p \<leftarrow> paddr_offset (here st) (name_len + 1);
               p \<leftarrow> align_up_paddr p 2;
               Some (True, d, st\<lparr>here := p, current_node := Some node\<rparr>)
             }
           })
      })"

definition parse_end_node :: "dt_state \<Rightarrow> dt_parser \<Rightarrow> (bool \<times> dt_state \<times> dt_parser) option" where
  "parse_end_node d st = (case current_node st of
     Some cur \<Rightarrow>
       (if finished_root_node st then do {
          d \<leftarrow> complain d ''{cstr}: got FDT_END_NODE token outside of a node?'';
          Some (False, d, st)
        } else do {
          nd \<leftarrow> dt_nodes d cur;
          Some (True, d, case node_parent nd of Some par \<Rightarrow> st\<lparr>current_node := Some par\<rparr>
            | None \<Rightarrow> st\<lparr>finished_root_node := True\<rparr>)
        })
   | None \<Rightarrow> do {
       d \<leftarrow> complain d ''{cstr}: got FDT_END_NODE token outside of a node?'';
       Some (False, d, st)
     })"

text \<open>
  The order of the three allocations is the textual one.  The value is copied with its length, the name
  with the zero byte that ends it.
\<close>

definition parse_prop :: "pmem \<Rightarrow> paddr \<Rightarrow> fdt_header \<Rightarrow> dt_state \<Rightarrow> dt_parser \<Rightarrow> (bool \<times> dt_state \<times> dt_parser) option" where
  "parse_prop m start header d st = (case current_node st of
     Some cur \<Rightarrow>
       (if finished_root_node st then do {
          d \<leftarrow> complain d ''{cstr}: got FDT_PROP token outside of a node?'';
          Some (False, d, st)
        } else do {
          len \<leftarrow> physical_read_be m (here st) :: u32 option;
          p \<leftarrow> paddr_offset (here st) 4;
          name_off \<leftarrow> physical_read_be m p :: u32 option;
          p \<leftarrow> paddr_offset p 4;
          name_start \<leftarrow> paddr_offset start (ucast (off_dt_strings header + name_off));
          name_len \<leftarrow> name_length m name_start 0;
          let value_start = p;
          p \<leftarrow> paddr_offset p (ucast len);
          p \<leftarrow> align_up_paddr p 2;
          let st = st\<lparr>here := p\<rparr>;
          let (pr, d) = dt_alloc d;
          (case pr of None \<Rightarrow> Some (False, d, st)
           | Some pr \<Rightarrow> do {
               let (name, d) = dt_alloc d;
               let (val, d) = dt_alloc d;
               if name = None \<or> val = None then Some (False, d, st)
               else do {
                 name_bytes \<leftarrow> copy_from_physical m name_start (name_len + 1);
                 value_bytes \<leftarrow> copy_from_physical m value_start (ucast len);
                 let d = prop_init d pr \<lparr>prop_node = cur, prop_name = string_of_bytes (butlast name_bytes),
                   value_len = ucast len, prop_value = value_bytes\<rparr>;
                 d \<leftarrow> on_dt_links d (\<lambda>h. list_push h (Props cur) (Node_Props_Head pr));
                 Some (True, d, st)
               }
             })
        })
   | None \<Rightarrow> do {
       d \<leftarrow> complain d ''{cstr}: got FDT_PROP token outside of a node?'';
       Some (False, d, st)
     })"

text \<open>One round of the loop over the tokens; an unknown token is a \<^verbatim>\<open>TODO\<close>, which panics.\<close>

definition parse_token :: "pmem \<Rightarrow> paddr \<Rightarrow> fdt_header \<Rightarrow> paddr \<Rightarrow> dt_state \<Rightarrow> dt_parser \<Rightarrow> (bool \<times> dt_state \<times> dt_parser) option" where
  "parse_token m start header struct_end d st = do {
     token_type \<leftarrow> physical_read_be m (here st);
     p \<leftarrow> paddr_offset (here st) 4;
     let st = st\<lparr>here := p\<rparr>;
     if token_type = FDT_BEGIN_NODE then parse_begin_node m d st
     else if token_type = FDT_END_NODE then parse_end_node d st
     else if token_type = FDT_PROP then parse_prop m start header d st
     else if token_type = FDT_NOP then Some (True, d, st)
     else if token_type = FDT_END then do {
       a \<leftarrow> bits_of_paddr (here st);
       b \<leftarrow> bits_of_paddr struct_end;
       if a \<noteq> b then do { d \<leftarrow> complain d ''{cstr}: got FDT_END token not at the end?''; Some (False, d, st) }
       else Some (True, d, st\<lparr>got_end_token := True\<rparr>)
     } else None
   }"

partial_function (option) parse_tokens ::
    "pmem \<Rightarrow> paddr \<Rightarrow> fdt_header \<Rightarrow> paddr \<Rightarrow> dt_state \<Rightarrow> dt_parser \<Rightarrow> (bool \<times> dt_state \<times> dt_parser) option" where
  "parse_tokens m start header struct_end d st = do {
     a \<leftarrow> bits_of_paddr (here st);
     b \<leftarrow> bits_of_paddr struct_end;
     if a \<noteq> b then do {
       (more, d, st) \<leftarrow> parse_token m start header struct_end d st;
       if more then parse_tokens m start header struct_end d st else Some (False, d, st)
     } else Some (True, d, st)
   }"

definition devicetree_parse_structure_block :: "pmem \<Rightarrow> dt_state \<Rightarrow> paddr \<Rightarrow> fdt_header \<Rightarrow> (uaddr option \<times> dt_state) option" where
  "devicetree_parse_structure_block m d start header = do {
     p \<leftarrow> paddr_offset start (ucast (off_dt_struct header));
     struct_end \<leftarrow> paddr_offset p (ucast (size_dt_struct header));
     (done, d, st) \<leftarrow> parse_tokens m start header struct_end d
       \<lparr>here = p, current_node = None, finished_root_node = False, got_end_token = False\<rparr>;
     (ok, d) \<leftarrow> (if \<not> done then Some (False, d)
       else if \<not> got_end_token st then do { d \<leftarrow> complain d ''{cstr}: missing FDT_END token?''; Some (False, d) }
       else if current_node st = None then do { d \<leftarrow> complain d ''{cstr}: missing root node?''; Some (False, d) }
       else if \<not> finished_root_node st then do { d \<leftarrow> complain d ''{cstr}: Devicetree ended inside a node?''; Some (False, d) }
       else Some (True, d));
     if ok then Some (current_node st, d)
     else do { d \<leftarrow> devicetree_free d (current_node st); Some (None, d) }
   }"

section \<open>Lookups\<close>

text \<open>\<^verbatim>\<open>strcmp\<close> is zero exactly on equal strings.  The loops follow the links from \<open>child\<close> until they are back at the owner.\<close>

partial_function (option) child_from :: "dt_state \<Rightarrow> uaddr \<Rightarrow> dt_head \<Rightarrow> string \<Rightarrow> uaddr option option" where
  "child_from d par child name =
     (if child = Children par then Some None
      else do {
        node \<leftarrow> node_of_head child;
        nd \<leftarrow> dt_nodes d node;
        if node_name nd = name then Some (Some node)
        else do { l \<leftarrow> dt_links d child; child_from d par (lnext l) name }
      })"

definition devicetree_child :: "dt_state \<Rightarrow> uaddr \<Rightarrow> string \<Rightarrow> uaddr option option" where
  "devicetree_child d par name = do { l \<leftarrow> dt_links d (Children par); child_from d par (lnext l) name }"

partial_function (option) prop_from :: "dt_state \<Rightarrow> uaddr \<Rightarrow> dt_head \<Rightarrow> string \<Rightarrow> uaddr option option" where
  "prop_from d par child name =
     (if child = Props par then Some None
      else do {
        p \<leftarrow> prop_of_head child;
        pr \<leftarrow> dt_props d p;
        if prop_name pr = name then Some (Some p)
        else do { l \<leftarrow> dt_links d child; prop_from d par (lnext l) name }
      })"

definition find_prop :: "dt_state \<Rightarrow> uaddr \<Rightarrow> string \<Rightarrow> uaddr option option" where
  "find_prop d par name = do { l \<leftarrow> dt_links d (Props par); prop_from d par (lnext l) name }"

text \<open>Reading bytes of a value, which must not go past its end.\<close>

definition value_bytes :: "devicetree_prop \<Rightarrow> nat \<Rightarrow> nat \<Rightarrow> u8 list option" where
  "value_bytes pr off n = (if off + n \<le> length (prop_value pr) then Some (take n (drop off (prop_value pr))) else None)"

definition devicetree_address_size_cells :: "dt_state \<Rightarrow> uaddr \<Rightarrow> ((u32 \<times> u32) option \<times> dt_state) option" where
  "devicetree_address_size_cells d node = do {
     address_cells_prop \<leftarrow> find_prop d node ''#address-cells'';
     size_cells_prop \<leftarrow> find_prop d node ''#size-cells'';
     (case address_cells_prop of None \<Rightarrow> do { d \<leftarrow> console_print d ''Missing value for #address-cells'' []; Some (None, d) }
      | Some ap \<Rightarrow> (case size_cells_prop of None \<Rightarrow> do { d \<leftarrow> console_print d ''Missing value for #size-cells'' []; Some (None, d) }
        | Some sp \<Rightarrow> do {
            a \<leftarrow> dt_props d ap;
            s \<leftarrow> dt_props d sp;
            if value_len a \<noteq> 4 then do { d \<leftarrow> console_print d ''Invalid value for #address-cells: too long'' []; Some (None, d) }
            else if value_len s \<noteq> 4 then do { d \<leftarrow> console_print d ''Invalid value for #size-cells: too long'' []; Some (None, d) }
            else do {
              ab \<leftarrow> value_bytes a 0 4;
              sb \<leftarrow> value_bytes s 0 4;
              Some (Some (big_to_native (word_of_le ab), big_to_native (word_of_le sb)), d)
            }
          }))
   }"

text \<open>
  The result is \<^verbatim>\<open>*out_addr\<close> and \<^verbatim>\<open>*out_size\<close>, absent when the code returns false.  Entries
  are addressed by their offset in the value; the product wraps as in C.
\<close>

definition devicetree_prop_reg :: "dt_state \<Rightarrow> uaddr option \<Rightarrow> usize \<Rightarrow> ((paddr \<times> usize) option \<times> dt_state) option" where
  "devicetree_prop_reg d p i = (case p of None \<Rightarrow> Some (None, d)
     | Some p \<Rightarrow> do {
         pr \<leftarrow> dt_props d p;
         nd \<leftarrow> dt_nodes d (prop_node pr);
         (case node_parent nd of None \<Rightarrow> Some (None, d)
          | Some par \<Rightarrow> do {
              (cells, d) \<leftarrow> devicetree_address_size_cells d par;
              (case cells of None \<Rightarrow> Some (None, d)
               | Some (address_cells, size_cells) \<Rightarrow> do {
                   assert_that (address_cells = 1 \<or> address_cells = 2);
                   assert_that (size_cells = 1 \<or> size_cells = 2);
                   let bytes_per_entry = (ucast ((address_cells + size_cells) * 4) :: usize);
                   if value_len pr mod bytes_per_entry \<noteq> 0 then Some (None, d)
                   else do {
                     let entry = ucast ((address_cells + size_cells) * 4) * i;
                     if value_len pr \<le> entry then Some (None, d)
                     else do {
                       (addr, entry) \<leftarrow> (if address_cells = 1 then do {
                           bs \<leftarrow> value_bytes pr (unat entry) 4;
                           a \<leftarrow> paddr_of_bits (ucast (big_to_native (word_of_le bs :: u32)));
                           Some (a, unat entry + 4)
                         } else do {
                           bs \<leftarrow> value_bytes pr (unat entry) 8;
                           a \<leftarrow> paddr_of_bits (big_to_native (word_of_le bs));
                           Some (a, unat entry + 8)
                         });
                       sz \<leftarrow> (if size_cells = 1 then do {
                           bs \<leftarrow> value_bytes pr entry 4;
                           Some (ucast (big_to_native (word_of_le bs :: u32)))
                         } else do {
                           bs \<leftarrow> value_bytes pr entry 8;
                           Some (big_to_native (word_of_le bs))
                         });
                       Some (Some (addr, sz), d)
                     }
                   }
                 })
            })
       })"

definition devicetree_reg :: "dt_state \<Rightarrow> uaddr \<Rightarrow> usize \<Rightarrow> ((paddr \<times> usize) option \<times> dt_state) option" where
  "devicetree_reg d node i = do { p \<leftarrow> find_prop d node ''reg''; devicetree_prop_reg d p i }"

section \<open>Reservations\<close>

text \<open>The result of the functions below is whether they succeeded.\<close>

definition devicetree_add_prop :: "dt_state \<Rightarrow> uaddr \<Rightarrow> string \<Rightarrow> u8 list \<Rightarrow> (bool \<times> dt_state) option" where
  "devicetree_add_prop d node name bs =
     (let (p, d) = dt_alloc d in case p of None \<Rightarrow> Some (False, d)
      | Some p \<Rightarrow>
        (let (dup, d) = dt_alloc d; (val, d) = dt_alloc d in
         if dup = None \<or> val = None then Some (False, d)
         else do {
           let d = prop_init d p \<lparr>prop_node = node, prop_name = name, value_len = of_nat (length bs), prop_value = bs\<rparr>;
           d \<leftarrow> on_dt_links d (\<lambda>h. list_push h (Props node) (Node_Props_Head p));
           Some (True, d)
         }))"

definition devicetree_add_prop_u32 :: "dt_state \<Rightarrow> uaddr \<Rightarrow> string \<Rightarrow> u32 \<Rightarrow> (bool \<times> dt_state) option" where
  "devicetree_add_prop_u32 d node name val = devicetree_add_prop d node name (le_bytes (native_to_big val))"

partial_function (option) reservation_name :: "dt_state \<Rightarrow> uaddr \<Rightarrow> usize \<Rightarrow> (string option \<times> usize \<times> dt_state) option" where
  "reservation_name d reserved_memory num = do {
     (name, d) \<leftarrow> dt_format d (''memory-reservation-block@'' @ ''{usize}'') [Va_Long num];
     (case name of None \<Rightarrow> Some (None, num + 1, d)
      | Some n \<Rightarrow> do {
          taken \<leftarrow> devicetree_child d reserved_memory n;
          if taken \<noteq> None then reservation_name d reserved_memory (num + 1) else Some (Some n, num + 1, d)
        })
   }"

text \<open>The cases of the two switches: \<open>None\<close> is the default case, which fails.\<close>

definition cell_bytes :: "u32 \<Rightarrow> u64 \<Rightarrow> u8 list option" where
  "cell_bytes cells n =
     (if cells = 1 then Some (le_bytes (ucast (native_to_big n) :: u32))
      else if cells = 2 then Some (le_bytes (native_to_big n))
      else None)"

definition abandon_node :: "dt_state \<Rightarrow> uaddr \<Rightarrow> (bool \<times> dt_state) option" where
  "abandon_node d node = do {
     d \<leftarrow> on_dt_links d (\<lambda>h. list_remove h (Parent_Children_Head node));
     Some (False, node_release d node)
   }"

text \<open>When no name can be allocated, the code unlinks the node before it was initialized, which has no defined meaning.\<close>

definition devicetree_add_reservation ::
    "dt_state \<Rightarrow> uaddr \<Rightarrow> usize \<Rightarrow> fdt_reserve_entry \<Rightarrow> u32 \<Rightarrow> u32 \<Rightarrow> (bool \<times> usize \<times> dt_state) option" where
  "devicetree_add_reservation d reserved_memory num reservation address_cells size_cells =
     (let (node, d) = dt_alloc d in case node of None \<Rightarrow> Some (False, num, d)
      | Some node \<Rightarrow> do {
          (name, num, d) \<leftarrow> reservation_name d reserved_memory num;
          n \<leftarrow> name;
          let d = node_init d node (Some reserved_memory) n;
          d \<leftarrow> on_dt_links d (\<lambda>h. list_push h (Children reserved_memory) (Parent_Children_Head node));
          (ok, d) \<leftarrow> (case cell_bytes address_cells (reserve_address reservation) of
             None \<Rightarrow> do {
               d \<leftarrow> console_print d ''Invalid value for /reserved-memory's #address-cells: {u32}'' [Va_Int address_cells];
               abandon_node d node
             }
           | Some a \<Rightarrow> (case cell_bytes size_cells (reserve_size reservation) of
               None \<Rightarrow> do {
                 d \<leftarrow> console_print d ''Invalid value for /reserved-memory's #size-cells: {u32}'' [Va_Int size_cells];
                 abandon_node d node
               }
             | Some sz \<Rightarrow> do {
                 (ok, d) \<leftarrow> devicetree_add_prop d node ''reg'' (a @ sz);
                 if ok then Some (True, d) else abandon_node d node
               }));
          Some (ok, num, d)
        })"

text \<open>The node for reservations, made when the tree has none.\<close>

definition ensure_reserved_memory :: "dt_state \<Rightarrow> uaddr \<Rightarrow> (uaddr option \<times> dt_state) option" where
  "ensure_reserved_memory d tree = do {
     found \<leftarrow> devicetree_child d tree ''reserved-memory'';
     (case found of Some node \<Rightarrow> Some (Some node, d)
      | None \<Rightarrow>
        (let (node, d) = dt_alloc d in case node of None \<Rightarrow> Some (None, d)
         | Some node \<Rightarrow>
           (let (name, d) = dt_alloc d in
            if name = None then Some (None, d)
            else do {
              let d = node_init d node (Some tree) ''reserved-memory'';
              d \<leftarrow> on_dt_links d (\<lambda>h. list_push h (Children tree) (Parent_Children_Head node));
              (ok, d) \<leftarrow> devicetree_add_prop_u32 d node ''#address-cells'' 2;
              if \<not> ok then Some (None, d)
              else do {
                (ok, d) \<leftarrow> devicetree_add_prop_u32 d node ''#size-cells'' 2;
                if \<not> ok then Some (None, d)
                else do {
                  (ok, d) \<leftarrow> devicetree_add_prop d node ''ranges'' [];
                  Some (if ok then Some node else None, d)
                }
              }
            })))
   }"

definition reserved_cells :: "dt_state \<Rightarrow> uaddr \<Rightarrow> ((u32 \<times> u32) option \<times> dt_state) option" where
  "reserved_cells d reserved_memory = do {
     address_cells_prop \<leftarrow> find_prop d reserved_memory ''#address-cells'';
     size_cells_prop \<leftarrow> find_prop d reserved_memory ''#size-cells'';
     (case address_cells_prop of None \<Rightarrow> do { d \<leftarrow> console_print d ''Invalid value for /reserved-memory's #address-cells: missing'' []; Some (None, d) }
      | Some ap \<Rightarrow> (case size_cells_prop of None \<Rightarrow> do { d \<leftarrow> console_print d ''Invalid value for /reserved-memory's #size-cells: missing'' []; Some (None, d) }
        | Some sp \<Rightarrow> do {
            a \<leftarrow> dt_props d ap;
            s \<leftarrow> dt_props d sp;
            if value_len a \<noteq> 4 then do { d \<leftarrow> console_print d ''Invalid value for /reserved-memory's #address-cells: too long'' []; Some (None, d) }
            else if value_len s \<noteq> 4 then do { d \<leftarrow> console_print d ''Invalid value for /reserved-memory's #size-cells: too long'' []; Some (None, d) }
            else do {
              ab \<leftarrow> value_bytes a 0 4;
              sb \<leftarrow> value_bytes s 0 4;
              Some (Some (big_to_native (word_of_le ab), big_to_native (word_of_le sb)), d)
            }
          }))
   }"

text \<open>The loop over the memory reservation block, up to the entry of zeros.\<close>

partial_function (option) add_block_reservations ::
    "pmem \<Rightarrow> dt_state \<Rightarrow> uaddr \<Rightarrow> paddr \<Rightarrow> usize \<Rightarrow> u32 \<Rightarrow> u32 \<Rightarrow> (bool \<times> usize \<times> dt_state) option" where
  "add_block_reservations m d reserved_memory next_reservation num address_cells size_cells = do {
     reservation \<leftarrow> physical_read_fdt_reserve_entry m next_reservation;
     p \<leftarrow> paddr_offset next_reservation 16;
     if reserve_address reservation = 0 \<and> reserve_size reservation = 0 then Some (True, num, d)
     else do {
       (ok, num, d) \<leftarrow> devicetree_add_reservation d reserved_memory num reservation address_cells size_cells;
       if \<not> ok then Some (False, num, d)
       else add_block_reservations m d reserved_memory p num address_cells size_cells
     }
   }"

definition devicetree_add_reservations ::
    "pmem \<Rightarrow> dt_state \<Rightarrow> paddr \<Rightarrow> paddr \<Rightarrow> paddr \<Rightarrow> fdt_header \<Rightarrow> uaddr \<Rightarrow> (bool \<times> dt_state) option" where
  "devicetree_add_reservations m d start kernel_start kernel_end header tree = do {
     (reserved, d) \<leftarrow> ensure_reserved_memory d tree;
     (case reserved of None \<Rightarrow> Some (False, d)
      | Some reserved_memory \<Rightarrow> do {
          (cells, d) \<leftarrow> reserved_cells d reserved_memory;
          (case cells of None \<Rightarrow> Some (False, d)
           | Some (address_cells, size_cells) \<Rightarrow> do {
               p \<leftarrow> paddr_offset start (ucast (off_mem_rsvmap header));
               (ok, num, d) \<leftarrow> add_block_reservations m d reserved_memory p 0 address_cells size_cells;
               if \<not> ok then Some (False, d)
               else do {
                 a \<leftarrow> bits_of_paddr kernel_start;
                 sz \<leftarrow> paddr_diff kernel_end kernel_start;
                 (ok, num, d) \<leftarrow> devicetree_add_reservation d reserved_memory num
                   \<lparr>reserve_address = a, reserve_size = sz\<rparr> address_cells size_cells;
                 Some (ok, d)
               }
             })
        })
   }"

definition devicetree_parse_from_physical ::
    "pmem \<Rightarrow> dt_state \<Rightarrow> paddr \<Rightarrow> paddr \<Rightarrow> paddr \<Rightarrow> (uaddr option \<times> dt_state) option" where
  "devicetree_parse_from_physical m d start kernel_start kernel_end = do {
     header \<leftarrow> physical_read_fdt_header m start;
     if magic header \<noteq> 0xd00dfeed then do {
       d \<leftarrow> console_print d ''Devicetree magic value did not match (got {u32:#010x}, expected 0xd00dfeed)'' [Va_Int (magic header)];
       Some (None, d)
     }
     else if 17 < last_comp_version header then do {
       d \<leftarrow> console_print d ''Devicetree was not compatible with our parser'' [];
       Some (None, d)
     }
     else do {
       (tree, d) \<leftarrow> devicetree_parse_structure_block m d start header;
       (case tree of None \<Rightarrow> Some (None, d)
        | Some rt \<Rightarrow> do {
            (ok, d) \<leftarrow> devicetree_add_reservations m d start kernel_start kernel_end header rt;
            if ok then Some (Some rt, d)
            else do { d \<leftarrow> devicetree_free d (Some rt); Some (None, d) }
          })
     }
   }"

section \<open>Printing\<close>

text \<open>The string built so far is null when \<^verbatim>\<open>format\<close> ran out of memory; printing it then has no defined meaning.\<close>

partial_function (option) path_from :: "dt_state \<Rightarrow> uaddr \<Rightarrow> string option \<Rightarrow> (string option \<times> dt_state) option" where
  "path_from d node out = do {
     nd \<leftarrow> dt_nodes d node;
     (case node_parent nd of None \<Rightarrow> Some (out, d)
      | Some par \<Rightarrow> do {
          pd \<leftarrow> dt_nodes d par;
          str \<leftarrow> out;
          (next', d) \<leftarrow> dt_format d ''{cstr}/{cstr}'' [Va_Cstr (node_name pd), Va_Cstr str];
          path_from d par next'
        })
   }"

definition devicetree_path :: "dt_state \<Rightarrow> uaddr \<Rightarrow> (string option \<times> dt_state) option" where
  "devicetree_path d node = do {
     nd \<leftarrow> dt_nodes d node;
     if node_parent nd = None then dt_format d ''/'' []
     else do {
       (out, d) \<leftarrow> dt_format d ''{cstr}'' [Va_Cstr (node_name nd)];
       path_from d node out
     }
   }"

partial_function (option) print_props :: "dt_state \<Rightarrow> uaddr \<Rightarrow> dt_head \<Rightarrow> usize \<Rightarrow> dt_state option" where
  "print_props d node prop_list depth =
     (if prop_list = Props node then Some d
      else do {
        p \<leftarrow> prop_of_head prop_list;
        pr \<leftarrow> dt_props d p;
        d \<leftarrow> console_print d ''{indent}{cstr} = {bytes:?};''
          [Va_Long depth, Va_Cstr (prop_name pr), Va_Bytes (prop_value pr), Va_Long (value_len pr)];
        l \<leftarrow> dt_links d prop_list;
        print_props d node (lnext l) depth
      })"

definition is_last_node :: "dt_state \<Rightarrow> uaddr \<Rightarrow> bool option" where
  "is_last_node d node = do {
     nd \<leftarrow> dt_nodes d node;
     (case node_parent nd of None \<Rightarrow> Some False
      | Some par \<Rightarrow> do { e \<leftarrow> dt_links d (Parent_Children_Head node); Some (lnext e = Children par) })
   }"

partial_function (option) dt_print_climb :: "dt_state \<Rightarrow> uaddr \<Rightarrow> usize \<Rightarrow> (uaddr \<times> usize \<times> dt_state) option" where
  "dt_print_climb d node depth = do {
     last \<leftarrow> (if 2 < depth then is_last_node d node else Some False);
     if last then do {
       nd \<leftarrow> dt_nodes d node;
       par \<leftarrow> node_parent nd;
       d \<leftarrow> console_print d ''{indent}}}'' [Va_Long (depth - 2)];
       dt_print_climb d par (depth - 2)
     } else Some (node, depth, d)
   }"

partial_function (option) dt_print_from :: "dt_state \<Rightarrow> uaddr option \<Rightarrow> usize \<Rightarrow> dt_state option" where
  "dt_print_from d node depth = (case node of None \<Rightarrow> Some d
     | Some node \<Rightarrow>
       (if depth = 0 then Some d
        else do {
          l \<leftarrow> dt_links d (Props node);
          d \<leftarrow> print_props d node (lnext l) depth;
          l \<leftarrow> dt_links d (Children node);
          if lnext l \<noteq> Children node then do {
            child \<leftarrow> node_of_head (lnext l);
            cd \<leftarrow> dt_nodes d child;
            d \<leftarrow> console_print d ''{indent}{cstr} {{'' [Va_Long depth, Va_Cstr (node_name cd)];
            dt_print_from d (Some child) (depth + 2)
          } else do {
            (node, depth, d) \<leftarrow> dt_print_climb d node depth;
            nd \<leftarrow> dt_nodes d node;
            if depth = 2 \<or> node_parent nd = None then do {
              d \<leftarrow> console_print d ''{indent}}}'' [Va_Long (depth - 2)];
              dt_print_from d (node_parent nd) (depth - 2)
            } else do {
              e \<leftarrow> dt_links d (Parent_Children_Head node);
              right \<leftarrow> node_of_head (lnext e);
              rd \<leftarrow> dt_nodes d right;
              d \<leftarrow> console_print d ''{indent}}}'' [Va_Long (depth - 2)];
              d \<leftarrow> console_print d ''{indent}{cstr} {{'' [Va_Long (depth - 2), Va_Cstr (node_name rd)];
              dt_print_from d (Some right) depth
            }
          }
        }))"

definition devicetree_print :: "dt_state \<Rightarrow> uaddr option \<Rightarrow> dt_state option" where
  "devicetree_print d node = (case node of None \<Rightarrow> console_print d ''nullptr'' []
     | Some n \<Rightarrow> do {
         (path, d) \<leftarrow> devicetree_path d n;
         str \<leftarrow> path;
         d \<leftarrow> console_print d ''{cstr} {{'' [Va_Cstr str];
         dt_print_from d (Some n) 2
       })"

section \<open>Entropy\<close>

definition devicetree_add_entropy :: "dt_state \<Rightarrow> uaddr \<Rightarrow> dt_state option" where
  "devicetree_add_entropy d tree = do {
     chosen \<leftarrow> devicetree_child d tree ''chosen'';
     (case chosen of None \<Rightarrow> Some d
      | Some node \<Rightarrow> do {
          rng_seed \<leftarrow> find_prop d node ''rng-seed'';
          (case rng_seed of None \<Rightarrow> Some d
           | Some p \<Rightarrow> do {
               pr \<leftarrow> dt_props d p;
               bs \<leftarrow> value_bytes pr 0 (unat (value_len pr));
               rng \<leftarrow> entropy_pool_mix (dt_rng d) bs;
               let d = d\<lparr>dt_rng := entropy_pool_credit rng (8 * value_len pr)\<rparr>;
               devicetree_prop_free d p
             })
        })
   }"

section \<open>Enumeration\<close>

text \<open>
  \<open>run f node d\<close> is the call of the handler at address \<open>f\<close>: the device it returns, if any, and the state
  it leaves.
\<close>

type_synonym handler_calls = "uaddr \<Rightarrow> uaddr \<Rightarrow> dt_state \<Rightarrow> (device_ptr option \<times> dt_state) option"

definition report_failure :: "dt_state \<Rightarrow> uaddr \<Rightarrow> dt_state option" where
  "report_failure d f = (case symbolicate (dt_symbols d) f of
     (True, Some out) \<Rightarrow> do {
       name \<leftarrow> symbol_text (dt_symbols d) (sym_name out);
       console_print d ''Devicetree handler <{cstr}+{usize}> failed to initialize a device''
         [Va_Cstr name, Va_Long (sym_offset out)]
     }
   | _ \<Rightarrow> console_print d ''Devicetree handler <{uaddr}> failed to initialize a device'' [Va_Long f])"

text \<open>The loop over the handlers for one string of the value; the flag says that a device was made.\<close>

fun try_handlers :: "handler_calls \<Rightarrow> uaddr \<Rightarrow> string \<Rightarrow> devicetree_handler list \<Rightarrow> dt_state \<Rightarrow> (bool \<times> dt_state) option" where
  "try_handlers run node item [] d = Some (False, d)"
| "try_handlers run node item (h # hs) d =
     (if compatible_len h \<noteq> of_nat (length item) then try_handlers run node item hs d
      else if compatible h \<noteq> item then try_handlers run node item hs d
      else do {
        (dev, d) \<leftarrow> run (handler_func h) node d;
        (case dev of
           Some dev \<Rightarrow> do { d \<leftarrow> device_add d Root_Device dev; Some (True, d) }
         | None \<Rightarrow> do { d \<leftarrow> report_failure d (handler_func h); try_handlers run node item hs d })
      })"

text \<open>
  The loop over the strings of the value.  \<^verbatim>\<open>strlen\<close> reads past the end of a value in which a
  zero byte is missing.
\<close>

function try_items :: "handler_calls \<Rightarrow> uaddr \<Rightarrow> u8 list \<Rightarrow> dt_state \<Rightarrow> (bool \<times> dt_state) option" where
  "try_items run node str d =
     (if str = [] then Some (False, d)
      else if 0 \<notin> set str then None
      else do {
        (made, d) \<leftarrow> try_handlers run node (string_of_bytes (takeWhile (\<lambda>b. b \<noteq> 0) str)) (handlers d) d;
        if made then Some (True, d)
        else try_items run node (tl (dropWhile (\<lambda>b. b \<noteq> 0) str)) d
      })"
  by auto
termination
proof (relation "measure (\<lambda>(run, node, str, d). length str)", goal_cases)
  case (2 run node str d p made d')
  have "length (dropWhile (\<lambda>b. b \<noteq> 0) str) \<le> length str" by (rule length_dropWhile_le)
  moreover have "dropWhile (\<lambda>b. b \<noteq> 0) str \<noteq> []" using 2(2) by (auto simp: dropWhile_eq_Nil_conv)
  ultimately show ?case by (cases "dropWhile (\<lambda>b. b \<noteq> 0) str") auto
qed simp

declare try_items.simps [simp del]

definition devicetree_enumerate_one :: "handler_calls \<Rightarrow> dt_state \<Rightarrow> uaddr \<Rightarrow> dt_state option" where
  "devicetree_enumerate_one run d node = do {
     prop \<leftarrow> find_prop d node ''compatible'';
     (case prop of None \<Rightarrow> Some d
      | Some p \<Rightarrow> do {
          pr \<leftarrow> dt_props d p;
          str \<leftarrow> value_bytes pr 0 (unat (value_len pr));
          (made, d) \<leftarrow> try_items run node str d;
          Some d
        })
   }"

partial_function (option) enumerate_up :: "handler_calls \<Rightarrow> dt_state \<Rightarrow> uaddr \<Rightarrow> (uaddr \<times> dt_state) option" where
  "enumerate_up run d node = do {
     last \<leftarrow> is_last_node d node;
     if last then do {
       d \<leftarrow> devicetree_enumerate_one run d node;
       nd \<leftarrow> dt_nodes d node;
       par \<leftarrow> node_parent nd;
       enumerate_up run d par
     } else Some (node, d)
   }"

partial_function (option) enumerate_from :: "handler_calls \<Rightarrow> dt_state \<Rightarrow> uaddr \<Rightarrow> dt_state option" where
  "enumerate_from run d node = do {
     childless \<leftarrow> list_is_empty (dt_links d) (Children node);
     if \<not> childless then do {
       l \<leftarrow> dt_links d (Children node);
       child \<leftarrow> node_of_head (lnext l);
       enumerate_from run d child
     } else do {
       (node, d) \<leftarrow> enumerate_up run d node;
       nd \<leftarrow> dt_nodes d node;
       if node_parent nd = None then Some d
       else do {
         par \<leftarrow> node_parent nd;
         e \<leftarrow> dt_links d (Parent_Children_Head node);
         assert_that (lnext e \<noteq> Children par);
         d \<leftarrow> devicetree_enumerate_one run d node;
         e \<leftarrow> dt_links d (Parent_Children_Head node);
         right \<leftarrow> node_of_head (lnext e);
         enumerate_from run d right
       }
     }
   }"

definition devicetree_enumerate :: "handler_calls \<Rightarrow> dt_state \<Rightarrow> uaddr \<Rightarrow> dt_state option" where
  "devicetree_enumerate run d tree = enumerate_from run d tree"

text \<open>
  Registering a handler.  The vector starts with room for 16 and doubles; both allocations are asserted
  to succeed.  The number of handlers is the length of the list.
\<close>

definition devicetree_register :: "dt_state \<Rightarrow> string \<Rightarrow> uaddr \<Rightarrow> dt_state option" where
  "devicetree_register d compatible_name handler = do {
     d \<leftarrow> (if \<not> handlers_vec d then do {
         assert_that (length (handlers d) = 0);
         let (p, d) = dt_alloc (d\<lparr>handlers_cap := 16\<rparr>);
         assert_that (p \<noteq> None);
         Some (d\<lparr>handlers_vec := True\<rparr>)
       } else Some d);
     d \<leftarrow> (if handlers_cap d = of_nat (length (handlers d)) then do {
         let (p, d) = dt_alloc (d\<lparr>handlers_cap := handlers_cap d * 2\<rparr>);
         assert_that (p \<noteq> None);
         Some d
       } else Some d);
     Some (d\<lparr>handlers := handlers d @ [\<lparr>compatible = compatible_name, compatible_len = of_nat (length compatible_name), handler_func = handler\<rparr>]\<rparr>)
   }"

section \<open>The tree the structs represent\<close>

definition dt_tree :: "dt_state \<Rightarrow> uaddr rose \<Rightarrow> bool" where
  "dt_tree d t \<longleftrightarrow> tree_at (\<lambda>n. map_option node_parent (dt_nodes d n)) (dt_links d) Children Parent_Children_Head None t"

interpretation dt: sibling_tree Children Parent_Children_Head node_of_head
  by unfold_locales auto

definition same_tree :: "dt_state \<Rightarrow> dt_state \<Rightarrow> bool" where
  "same_tree d d' \<longleftrightarrow> dt_nodes d' = dt_nodes d \<and> dt_links d' = dt_links d"

lemma same_tree_refl [simp]: "same_tree d d"
  by (simp add: same_tree_def)

lemma same_tree_trans: "same_tree d d' \<Longrightarrow> same_tree d' d'' \<Longrightarrow> same_tree d d''"
  by (simp add: same_tree_def)

lemma dt_tree_same: "same_tree d d' \<Longrightarrow> dt_tree d' t = dt_tree d t"
  by (simp add: same_tree_def dt_tree_def)

section \<open>Enumeration as a traversal\<close>

text \<open>What the enumeration is to do: handle nodes one after the other.\<close>

primrec visit_all :: "handler_calls \<Rightarrow> dt_state \<Rightarrow> uaddr list \<Rightarrow> dt_state option" where
  "visit_all run d [] = Some d"
| "visit_all run d (n # ns) = do { d \<leftarrow> devicetree_enumerate_one run d n; visit_all run d ns }"

definition handlers_keep_tree :: "handler_calls \<Rightarrow> bool" where
  "handlers_keep_tree run \<longleftrightarrow> (\<forall>f node d dev d'. run f node d = Some (dev, d') \<longrightarrow> same_tree d d')"

lemma console_print_same: "console_print d fmt args = Some d' \<Longrightarrow> same_tree d d'"
  by (auto simp: console_print_def same_tree_def bind_eq_Some_conv)

lemma device_add_same: "device_add d p c = Some d' \<Longrightarrow> same_tree d d'"
  by (auto simp: device_add_def same_tree_def bind_eq_Some_conv)

lemma report_failure_same: "report_failure d f = Some d' \<Longrightarrow> same_tree d d'"
  by (auto simp: report_failure_def bind_eq_Some_conv dest: console_print_same split: prod.splits option.splits bool.splits)

lemma try_handlers_same:
  assumes "handlers_keep_tree run" "try_handlers run node item hs d = Some (made, d')"
  shows "same_tree d d'"
  using assms(2)
proof (induction hs arbitrary: d)
  case (Cons h hs)
  show ?case
  proof (cases "compatible_len h \<noteq> of_nat (length item) \<or> compatible h \<noteq> item")
    case True
    with Cons show ?thesis by (auto split: if_splits)
  next
    case False
    with Cons.prems obtain dev d1 where r: "run (handler_func h) node d = Some (dev, d1)"
      by (auto simp: bind_eq_Some_conv)
    then have 1: "same_tree d d1" using assms(1) by (auto simp: handlers_keep_tree_def)
    show ?thesis
    proof (cases dev)
      case None
      with Cons.prems False r obtain d2 where "report_failure d1 (handler_func h) = Some d2"
        "try_handlers run node item hs d2 = Some (made, d')" by (auto simp: bind_eq_Some_conv)
      with Cons.IH 1 show ?thesis by (blast intro: same_tree_trans dest: report_failure_same)
    next
      case (Some v)
      with Cons.prems False r 1 show ?thesis
        by (auto simp: bind_eq_Some_conv intro: same_tree_trans dest: device_add_same)
    qed
  qed
qed simp

lemma try_items_same:
  assumes "handlers_keep_tree run" "try_items run node str d = Some (made, d')"
  shows "same_tree d d'"
  using assms(2)
proof (induction "length str" arbitrary: str d rule: less_induct)
  case less
  show ?case
  proof (cases "str = []")
    case True
    with less.prems show ?thesis by (simp add: try_items.simps)
  next
    case False
    with less.prems have z: "0 \<in> set str" by (subst (asm) try_items.simps) (auto split: if_splits)
    let ?rest = "tl (dropWhile (\<lambda>b. b \<noteq> 0) str)"
    have "length (dropWhile (\<lambda>b. b \<noteq> 0) str) \<le> length str" by (rule length_dropWhile_le)
    moreover have "dropWhile (\<lambda>b. b \<noteq> 0) str \<noteq> []" using z by (auto simp: dropWhile_eq_Nil_conv)
    ultimately have l: "length ?rest < length str" by (cases "dropWhile (\<lambda>b. b \<noteq> 0) str") auto
    from less.prems False z obtain made1 d1 where r:
      "try_handlers run node (string_of_bytes (takeWhile (\<lambda>b. b \<noteq> 0) str)) (handlers d) d = Some (made1, d1)"
      "if made1 then d1 = d' else try_items run node ?rest d1 = Some (made, d')"
      by (subst (asm) try_items.simps) (auto simp: bind_eq_Some_conv split: if_splits)
    have "same_tree d1 d'" using r(2) less.hyps [OF l] by (cases made1) auto
    with try_handlers_same [OF assms(1) r(1)] show ?thesis by (rule same_tree_trans)
  qed
qed

lemma enumerate_one_same:
  assumes "handlers_keep_tree run" "devicetree_enumerate_one run d node = Some d'"
  shows "same_tree d d'"
  using assms(2) try_items_same [OF assms(1)]
  by (fastforce simp: devicetree_enumerate_one_def bind_eq_Some_conv split: option.splits)

lemma visit_all_same:
  assumes "handlers_keep_tree run"
  shows "visit_all run d ns = Some d' \<Longrightarrow> same_tree d d'"
  by (induction ns arbitrary: d)
    (auto simp: bind_eq_Some_conv intro: same_tree_trans dest: enumerate_one_same [OF assms])

lemma visit_all_append: "visit_all run d (xs @ ys) = do { d \<leftarrow> visit_all run d xs; visit_all run d ys }"
  by (induction xs arbitrary: d) (auto simp: Option.bind_assoc)

text \<open>The nodes that are handled after the subtree at a place, and from a node on.\<close>

primrec nodes_after :: "uaddr place \<Rightarrow> uaddr list" where
  "nodes_after [] = []"
| "nodes_after (c # K) = concat (map rose_postorder (snd (snd c))) @ (if K = [] then [] else fst c # nodes_after K)"

definition pending :: "uaddr rose \<Rightarrow> uaddr place \<Rightarrow> uaddr list" where
  "pending t K = (if K = [] then [] else rose_root t # nodes_after K)"

lemma is_last_node_at:
  assumes "dt_tree d (rose_plug t K)"
  shows "is_last_node d (rose_root t) = Some (case K of [] \<Rightarrow> False | (p, ls, rs) # K' \<Rightarrow> rs = [])"
proof (cases K)
  case Nil
  then show ?thesis
    using dt.focus_parent [of "\<lambda>n. map_option node_parent (dt_nodes d n)" "dt_links d" t K] assms
    by (auto simp: is_last_node_def dt_tree_def)
next
  case (Cons c K')
  obtain p ls rs where c: "c = (p, ls, rs)" by (cases c)
  then show ?thesis
    using dt.focus_parent [of "\<lambda>n. map_option node_parent (dt_nodes d n)" "dt_links d" t K]
      dt.focus_next [of "\<lambda>n. map_option node_parent (dt_nodes d n)" "dt_links d" t p ls rs K'] assms Cons
    by (auto simp: is_last_node_def dt_tree_def split: list.splits)
qed

lemma enumerate_up_spec:
  assumes "handlers_keep_tree run"
  shows "\<exists>t' K' vs. rose_plug t' K' = rose_plug t K \<and> right_size K' = right_size K \<and>
    (K' = [] \<or> (\<exists>p ls r rs K''. K' = (p, ls, r # rs) # K'')) \<and> pending t K = vs @ pending t' K' \<and>
    (\<forall>d. dt_tree d (rose_plug t K) \<longrightarrow> enumerate_up run d (rose_root t) =
       do { d \<leftarrow> visit_all run d vs; Some (rose_root t', d) })"
proof (induction K arbitrary: t)
  case Nil
  show ?case
    by (rule exI [of _ t], rule exI [of _ "[]"], rule exI [of _ "[]"])
      (auto simp: enumerate_up.simps is_last_node_at [where K = "[]", simplified])
next
  case (Cons c K)
  obtain p ls rs where c: "c = (p, ls, rs)" by (cases c)
  show ?case
  proof (cases rs)
    case (Cons r rs')
    then show ?thesis using c
      by (intro exI [of _ t] exI [of _ "c # K"] exI [of _ "[]"])
        (auto simp: enumerate_up.simps is_last_node_at [of _ t "c # K"])
  next
    case Nil
    let ?t = "Rose p (ls @ [t])"
    have pl: "rose_plug t (c # K) = rose_plug ?t K" using c Nil by simp
    obtain t' K' vs where r: "rose_plug t' K' = rose_plug ?t K" "right_size K' = right_size K"
      "K' = [] \<or> (\<exists>p ls r rs K''. K' = (p, ls, r # rs) # K'')" "pending ?t K = vs @ pending t' K'"
      "\<forall>d. dt_tree d (rose_plug ?t K) \<longrightarrow> enumerate_up run d p = do { d \<leftarrow> visit_all run d vs; Some (rose_root t', d) }"
      using Cons.IH [of ?t] unfolding rose.sel by blast
    have "enumerate_up run d (rose_root t) = do { d \<leftarrow> visit_all run d (rose_root t # vs); Some (rose_root t', d) }"
      if d: "dt_tree d (rose_plug t (c # K))" for d
    proof (cases "devicetree_enumerate_one run d (rose_root t)")
      case None
      then show ?thesis
        using is_last_node_at [OF d] c Nil by (subst enumerate_up.simps) simp
    next
      case (Some d1)
      have d1: "dt_tree d1 (rose_plug t (c # K))"
        using dt_tree_same [OF enumerate_one_same [OF assms Some]] d by simp
      then obtain nd where "dt_nodes d1 (rose_root t) = Some nd" "node_parent nd = Some p"
        using dt.focus_parent [of _ _ t "c # K"] c by (fastforce simp: dt_tree_def)
      then show ?thesis
        using is_last_node_at [OF d] c Nil Some r(5) [rule_format, of d1] d1 pl by (subst enumerate_up.simps) simp
    qed
    then show ?thesis
      using r pl c Nil
      by (intro exI [of _ t'] exI [of _ K'] exI [of _ "rose_root t # vs"]) (auto simp: pending_def)
  qed
qed

lemma enumerate_from_spec:
  assumes "handlers_keep_tree run" "dt_tree d (rose_plug t K)"
  shows "enumerate_from run d (rose_root t) = visit_all run d (concat (map rose_postorder (branches t)) @ pending t K)"
  using assms(2)
proof (induction "rose_size t + right_size K" arbitrary: t K d rule: less_induct)
  case less
  have e: "list_is_empty (dt_links d) (Children (rose_root t)) = Some (branches t = [])"
    using less.prems unfolding dt_tree_def by (rule dt.focus_childless)
  show ?case
  proof (cases "branches t")
    case (Cons c cs)
    let ?K = "(rose_root t, [], cs) # K"
    have pl: "rose_plug t K = rose_plug c ?K" by (rule dt.focus_down [OF Cons])
    obtain l where l: "dt_links d (Children (rose_root t)) = Some l" "lnext l = Parent_Children_Head (rose_root c)"
      using dt.focus_first [OF less.prems [unfolded dt_tree_def] Cons] by auto
    have "rose_size c + right_size ?K < rose_size t + right_size K" using Cons by (cases t) simp
    then have "enumerate_from run d (rose_root c) = visit_all run d (concat (map rose_postorder (branches c)) @ pending c ?K)"
      using less.hyps less.prems pl by simp
    then show ?thesis
      using e l Cons by (subst enumerate_from.simps) (auto simp: pending_def)
  next
    case Nil
    obtain t' K' vs where k: "rose_plug t' K' = rose_plug t K" "right_size K' = right_size K"
      "K' = [] \<or> (\<exists>p ls r rs K''. K' = (p, ls, r # rs) # K'')" "pending t K = vs @ pending t' K'"
      "enumerate_up run d (rose_root t) = do { d \<leftarrow> visit_all run d vs; Some (rose_root t', d) }"
      using enumerate_up_spec [OF assms(1), of t K] less.prems by blast
    show ?thesis
    proof (cases "visit_all run d vs")
      case None
      then show ?thesis using e Nil k(4,5) by (subst enumerate_from.simps) (simp add: visit_all_append)
    next
      case (Some d1)
      have d1: "dt_tree d1 (rose_plug t' K')"
        using dt_tree_same [OF visit_all_same [OF assms(1) Some]] less.prems k(1) by simp
      obtain nd where nd: "dt_nodes d1 (rose_root t') = Some nd" "node_parent nd = above K'"
        using dt.focus_parent [OF d1 [unfolded dt_tree_def]] by auto
      from k(3) show ?thesis
      proof
        assume "K' = []"
        then show ?thesis using e Nil k(4,5) Some nd by (subst enumerate_from.simps) (simp add: pending_def)
      next
        assume "\<exists>p ls r rs K''. K' = (p, ls, r # rs) # K''"
        then obtain p ls r rs K'' where K': "K' = (p, ls, r # rs) # K''" by blast
        let ?K = "(p, ls @ [t'], rs) # K''"
        have pl: "rose_plug t' K' = rose_plug r ?K" unfolding K' by (rule dt.focus_right)
        have next_link: "\<exists>l. dt_links d2 (Parent_Children_Head (rose_root t')) = Some l \<and> lnext l = Parent_Children_Head (rose_root r)"
          if "dt_tree d2 (rose_plug t' K')" for d2
          using dt.focus_next [OF that [unfolded dt_tree_def K']] by auto
        have sz: "rose_size r + right_size ?K < rose_size t + right_size K"
          using k(2) K' rose_size_pos [of t] by simp
        have pend: "pending t' K' = rose_root t' # concat (map rose_postorder (branches r)) @ pending r ?K"
          using K' by (simp add: pending_def)
        show ?thesis
        proof (cases "devicetree_enumerate_one run d1 (rose_root t')")
          case None
          then show ?thesis
            using e Nil k(4,5) Some nd next_link [OF d1] K' pend
            by (subst enumerate_from.simps) (auto simp: visit_all_append)
        next
          case (Some d2)
          have d2: "dt_tree d2 (rose_plug t' K')"
            using dt_tree_same [OF enumerate_one_same [OF assms(1) Some]] d1 by simp
          then have "enumerate_from run d2 (rose_root r) = visit_all run d2 (concat (map rose_postorder (branches r)) @ pending r ?K)"
            using less.hyps [OF sz] pl by simp
          then show ?thesis
            using e Nil k(4,5) \<open>visit_all run d vs = Some d1\<close> Some nd next_link [OF d1] next_link [OF d2] K' pend
            by (subst enumerate_from.simps) (auto simp: visit_all_append)
        qed
      qed
    qed
  qed
qed

section \<open>Lookups on the lists\<close>

lemma is_list_next:
  assumes "is_list h l (xs @ p # ys)"
  shows "\<exists>e. h p = Some e \<and> lnext e = hd (ys @ [l])"
proof -
  have "is_list h p (ys @ l # xs)" using assms is_list_rotate by metis
  from is_list_end [OF this] show ?thesis by (cases ys) auto
qed

text \<open>Both lookups are a search of the list for the first entry that passes a test.\<close>

lemma search_list:
  assumes unfold: "\<And>c. search c = (if c = l then Some None else do {
      x \<leftarrow> owner c; ok \<leftarrow> test x; if ok then Some (Some x) else do { e \<leftarrow> h c; search (lnext e) } })"
    and "is_list h l (map entry xs)" "\<And>x. owner (entry x) = Some x" "\<And>x. x \<in> set xs \<Longrightarrow> test x = Some (P x)"
  shows "\<exists>e. h l = Some e \<and> search (lnext e) = Some (find P xs)"
proof -
  have "search (hd (map entry zs @ [l])) = Some (find P zs)" if "xs = ys @ zs" for ys zs
    using that
  proof (induction zs arbitrary: ys)
    case Nil
    then show ?case by (subst unfold) simp
  next
    case (Cons z zs)
    have "entry z \<noteq> l" using is_list_distinct [OF assms(2)] Cons.prems by auto
    moreover obtain e where "h (entry z) = Some e" "lnext e = hd (map entry zs @ [l])"
      using is_list_next [of h l "map entry ys" "entry z" "map entry zs"] assms(2) Cons.prems by auto
    moreover have "test z = Some (P z)" using assms(4) Cons.prems by simp
    moreover have "search (hd (map entry zs @ [l])) = Some (find P zs)"
      by (rule Cons.IH [of "ys @ [z]"]) (use Cons.prems in simp)
    ultimately show ?case by (subst unfold) (simp add: assms(3))
  qed
  from this [of "[]" xs] is_list_end [OF assms(2)] show ?thesis by auto
qed

definition node_props :: "dt_state \<Rightarrow> uaddr \<Rightarrow> uaddr list \<Rightarrow> bool" where
  "node_props d node ps \<longleftrightarrow> is_list (dt_links d) (Props node) (map Node_Props_Head ps) \<and> set ps \<subseteq> dom (dt_props d)"

lemma find_prop_spec:
  assumes "node_props d node ps"
  shows "find_prop d node name = Some (find (\<lambda>p. prop_name (the (dt_props d p)) = name) ps)"
proof -
  have unfold: "prop_from d node c name = (if c = Props node then Some None else do {
      p \<leftarrow> prop_of_head c; ok \<leftarrow> map_option (\<lambda>pr. prop_name pr = name) (dt_props d p);
      if ok then Some (Some p) else do { e \<leftarrow> dt_links d c; prop_from d node (lnext e) name } })" for c
    by (subst prop_from.simps) (auto split: Option.bind_splits)
  have "\<exists>e. dt_links d (Props node) = Some e \<and>
      prop_from d node (lnext e) name = Some (find (\<lambda>p. prop_name (the (dt_props d p)) = name) ps)"
    by (rule search_list [OF unfold, where entry = Node_Props_Head]) (use assms in \<open>auto simp: node_props_def\<close>)
  then show ?thesis by (auto simp: find_prop_def)
qed

section \<open>Entries of a property\<close>

text \<open>A number of one or two cells, in big-endian byte order.\<close>

definition be_cells :: "u32 \<Rightarrow> u64 \<Rightarrow> u8 list" where
  "be_cells cells n = (if cells = 1 then rev (le_bytes (ucast n :: u32)) else rev (le_bytes n))"

definition fits_cells :: "u32 \<Rightarrow> u64 \<Rightarrow> bool" where
  "fits_cells cells n \<longleftrightarrow> cells = 1 \<and> unat n < 2 ^ 32 \<or> cells = 2"

definition reg_entry :: "u32 \<Rightarrow> u32 \<Rightarrow> u64 \<times> u64 \<Rightarrow> u8 list" where
  "reg_entry address_cells size_cells e = be_cells address_cells (fst e) @ be_cells size_cells (snd e)"

lemma big_to_native_be: "8 dvd LENGTH('a) \<Longrightarrow> big_to_native (word_of_le (rev (le_bytes w)) :: 'a::len word) = w"
  by (simp add: big_to_native_def flip: le_bytes_bswap)

lemma be_cells_1: "fits_cells 1 n \<Longrightarrow> ucast (big_to_native (word_of_le (be_cells 1 n) :: u32)) = n"
proof -
  assume "fits_cells 1 n"
  then have "take_bit 32 (unat n) = unat n" by (simp add: fits_cells_def take_bit_nat_eq_self)
  moreover have "unat (take_bit 32 n) = take_bit 32 (unat n)" by (rule unsigned_take_bit_eq)
  ultimately have "take_bit 32 n = n" by (simp add: word_unat_eq_iff)
  moreover have "(ucast (ucast n :: u32) :: u64) = take_bit 32 n"
    by (rule bit_word_eqI) (auto simp: bit_simps)
  ultimately show ?thesis by (simp add: be_cells_def big_to_native_be)
qed

lemma be_cells_2: "big_to_native (word_of_le (be_cells 2 n)) = n"
  by (simp add: be_cells_def big_to_native_be)

lemma length_be_cells: "fits_cells cells n \<Longrightarrow> length (be_cells cells n) = 4 * unat cells"
  by (auto simp: be_cells_def fits_cells_def)

lemma drop_concat_equal:
  assumes "\<And>x. x \<in> set xs \<Longrightarrow> length (f x) = k" "i \<le> length xs"
  shows "drop (k * i) (concat (map f xs)) = concat (map f (drop i xs))"
  using assms by (induction xs arbitrary: i) (auto simp: drop_Cons split: nat.split)

lemma length_concat_equal: "(\<And>x. x \<in> set xs \<Longrightarrow> length (f x) = k) \<Longrightarrow> length (concat (map f xs)) = k * length xs"
  by (induction xs) auto

lemma value_bytes_part:
  assumes "drop off (prop_value pr) = xs @ ys @ zs" "ys \<noteq> []"
  shows "value_bytes pr (off + length xs) (length ys) = Some ys"
proof -
  have "drop (off + length xs) (prop_value pr) = ys @ zs"
    using arg_cong [OF assms(1), of "drop (length xs)"] by (simp add: add.commute)
  moreover have "off + length xs + length ys \<le> length (prop_value pr)"
    using arg_cong [OF assms(1), of length] assms(2) by (cases ys) auto
  ultimately show ?thesis by (simp add: value_bytes_def)
qed

text \<open>The cells of a node: its two properties are there, and their values are single words.\<close>

definition cell_prop :: "dt_state \<Rightarrow> uaddr list \<Rightarrow> string \<Rightarrow> u32 \<Rightarrow> bool" where
  "cell_prop d ps name n \<longleftrightarrow> (\<exists>p pr. find (\<lambda>p. prop_name (the (dt_props d p)) = name) ps = Some p \<and>
     dt_props d p = Some pr \<and> value_len pr = 4 \<and> prop_value pr = rev (le_bytes n))"

definition node_cells :: "dt_state \<Rightarrow> uaddr \<Rightarrow> u32 \<Rightarrow> u32 \<Rightarrow> bool" where
  "node_cells d node address_cells size_cells \<longleftrightarrow>
     (\<exists>ps. node_props d node ps \<and> cell_prop d ps ''#address-cells'' address_cells \<and> cell_prop d ps ''#size-cells'' size_cells)"

lemma address_size_cells_spec:
  assumes "node_cells d node a s"
  shows "devicetree_address_size_cells d node = Some (Some (a, s), d)"
proof -
  obtain ps p q pr qr where f: "find_prop d node ''#address-cells'' = Some (Some p)" "find_prop d node ''#size-cells'' = Some (Some q)"
    and pr: "dt_props d p = Some pr" "value_len pr = 4" "prop_value pr = rev (le_bytes a)"
    and qr: "dt_props d q = Some qr" "value_len qr = 4" "prop_value qr = rev (le_bytes s)"
    using assms unfolding node_cells_def cell_prop_def by (elim exE conjE) (rule that, simp_all add: find_prop_spec)
  have "value_bytes pr 0 4 = Some (rev (le_bytes a))" "value_bytes qr 0 4 = Some (rev (le_bytes s))"
    using pr(3) qr(3) by (simp_all add: value_bytes_def)
  then show ?thesis
    using f pr(1,2) qr(1,2) by (simp add: devicetree_address_size_cells_def big_to_native_be)
qed

text \<open>A well-formed list of entries, as the value of a property.\<close>

definition reg_value :: "devicetree_prop \<Rightarrow> u32 \<Rightarrow> u32 \<Rightarrow> (u64 \<times> u64) list \<Rightarrow> bool" where
  "reg_value pr a s es \<longleftrightarrow> prop_value pr = concat (map (reg_entry a s) es) \<and>
     value_len pr = of_nat (length (prop_value pr)) \<and> length (prop_value pr) < 2 ^ 64 \<and>
     (\<forall>e \<in> set es. fits_cells a (fst e) \<and> fits_cells s (snd e) \<and> unat (fst e) < 2 ^ 56)"

lemma prop_reg_spec:
  assumes pr: "dt_props d p = Some pr" "dt_nodes d (prop_node pr) = Some node" "node_parent node = Some par"
    and cells: "node_cells d par a s" "a = 1 \<or> a = 2" "s = 1 \<or> s = 2"
    and es: "reg_value pr a s es" and i: "unat i * (4 * (unat a + unat s)) < 2 ^ 64"
  shows "devicetree_prop_reg d (Some p) i =
    Some (if unat i < length es then Some (paddr_at (unat (fst (es ! unat i))), snd (es ! unat i)) else None, d)"
proof -
  define k where "k = 4 * (unat a + unat s)"
  have k: "0 < k" "k < 17" using cells(2,3) by (auto simp: k_def)
  have bpe: "unat (ucast ((a + s) * 4) :: usize) = k" using cells(2,3) by (auto simp: k_def)
  have len: "\<And>e. e \<in> set es \<Longrightarrow> length (reg_entry a s e) = k"
    using es by (auto simp: reg_value_def reg_entry_def length_be_cells k_def)
  have total: "length (prop_value pr) = k * length es"
    using es length_concat_equal [OF len] by (simp add: reg_value_def)
  have vlen: "unat (value_len pr) = k * length es"
    using es total unat_of_nat_small [of "k * length es", where ?'a = 64] by (simp add: reg_value_def del: of_nat_mult)
  have dv: "\<not> value_len pr mod ucast ((a + s) * 4) \<noteq> 0"
    using bpe vlen by (simp add: word_unat_eq_iff unat_mod)
  have entry: "unat (ucast ((a + s) * 4) * i :: usize) = k * unat i"
    using i bpe by (simp add: k_def unat_word_ariths mult.commute)
  show ?thesis
  proof (cases "unat i < length es")
    case False
    then have "value_len pr \<le> ucast ((a + s) * 4) * i"
      unfolding word_le_nat_alt vlen entry using k by simp
    with False show ?thesis using dv cells(2,3) by (simp add: pr devicetree_prop_reg_def address_size_cells_spec [OF cells(1)] Let_def)
  next
    case True
    let ?e = "es ! unat i"
    have e: "fits_cells a (fst ?e)" "fits_cells s (snd ?e)" "unat (fst ?e) < 2 ^ 56"
      using es True by (auto simp: reg_value_def)
    have lt: "\<not> value_len pr \<le> ucast ((a + s) * 4) * i"
      unfolding word_le_nat_alt vlen entry using True k by simp
    have "drop (k * unat i) (prop_value pr) = reg_entry a s ?e @ concat (map (reg_entry a s) (drop (Suc (unat i)) es))"
      using drop_concat_equal [of es "reg_entry a s" k "unat i"] len True es by (simp add: reg_value_def Cons_nth_drop_Suc [symmetric])
    then have dr: "drop (k * unat i) (prop_value pr) =
        be_cells a (fst ?e) @ be_cells s (snd ?e) @ concat (map (reg_entry a s) (drop (Suc (unat i)) es))"
      by (simp add: reg_entry_def)
    have ne: "be_cells a (fst ?e) \<noteq> []" "be_cells s (snd ?e) \<noteq> []"
      using length_be_cells [OF e(1)] length_be_cells [OF e(2)] cells(2,3) by auto
    have addr: "value_bytes pr (k * unat i) (4 * unat a) = Some (be_cells a (fst ?e))"
      using value_bytes_part [of "k * unat i" pr "[]" "be_cells a (fst ?e)"] dr ne(1) length_be_cells [OF e(1)] by simp
    have sz: "value_bytes pr (k * unat i + 4 * unat a) (4 * unat s) = Some (be_cells s (snd ?e))"
      using value_bytes_part [OF dr ne(2)] length_be_cells [OF e(1)] length_be_cells [OF e(2)] by simp
    have pa: "paddr_of_bits (fst ?e) = Some (paddr_at (unat (fst ?e)))"
      using paddr_of_bits_at [OF e(3)] by simp
    show ?thesis
      using cells(2,3) addr sz pa e(1,2) True dv lt entry
      by (auto simp: pr devicetree_prop_reg_def address_size_cells_spec [OF cells(1)] Let_def be_cells_1 be_cells_2)
  qed
qed

section \<open>The properties\<close>

text \<open>A state for examples: node 1 has the children 2 and 4, node 2 has the child 3; 1 has the cell properties 10 and 11, 2 has the property 12.\<close>

definition example_links :: "dt_head links" where
  "example_links = [
     Children 1 \<mapsto> \<lparr>lprev = Parent_Children_Head 4, lnext = Parent_Children_Head 2\<rparr>,
     Parent_Children_Head 2 \<mapsto> \<lparr>lprev = Children 1, lnext = Parent_Children_Head 4\<rparr>,
     Parent_Children_Head 4 \<mapsto> \<lparr>lprev = Parent_Children_Head 2, lnext = Children 1\<rparr>,
     Children 2 \<mapsto> \<lparr>lprev = Parent_Children_Head 3, lnext = Parent_Children_Head 3\<rparr>,
     Parent_Children_Head 3 \<mapsto> \<lparr>lprev = Children 2, lnext = Children 2\<rparr>,
     Children 3 \<mapsto> LIST_INIT (Children 3), Children 4 \<mapsto> LIST_INIT (Children 4),
     Props 1 \<mapsto> \<lparr>lprev = Node_Props_Head 11, lnext = Node_Props_Head 10\<rparr>,
     Node_Props_Head 10 \<mapsto> \<lparr>lprev = Props 1, lnext = Node_Props_Head 11\<rparr>,
     Node_Props_Head 11 \<mapsto> \<lparr>lprev = Node_Props_Head 10, lnext = Props 1\<rparr>,
     Props 2 \<mapsto> \<lparr>lprev = Node_Props_Head 12, lnext = Node_Props_Head 12\<rparr>,
     Node_Props_Head 12 \<mapsto> \<lparr>lprev = Props 2, lnext = Props 2\<rparr>]"

definition example_dt :: dt_state where
  "example_dt = \<lparr>devices = Map.empty, device_links = Map.empty, console = '''',
     dt_nodes = [1 \<mapsto> \<lparr>node_parent = None, node_name = ''''\<rparr>, 2 \<mapsto> \<lparr>node_parent = Some 1, node_name = ''soc''\<rparr>,
       3 \<mapsto> \<lparr>node_parent = Some 2, node_name = ''uart''\<rparr>, 4 \<mapsto> \<lparr>node_parent = Some 1, node_name = ''cpus''\<rparr>],
     dt_props = [10 \<mapsto> \<lparr>prop_node = 1, prop_name = ''#address-cells'', value_len = 4, prop_value = [0, 0, 0, 2]\<rparr>,
       11 \<mapsto> \<lparr>prop_node = 1, prop_name = ''#size-cells'', value_len = 4, prop_value = [0, 0, 0, 1]\<rparr>,
       12 \<mapsto> \<lparr>prop_node = 2, prop_name = ''reg'', value_len = 12, prop_value = [0, 0, 0, 0, 128, 0, 0, 0, 0, 0, 16, 0]\<rparr>],
     dt_links = example_links, dt_allocs = sconst None, dt_rng = example_random, dt_symbols = no_symbols,
     handlers_vec = False, handlers = [], handlers_cap = 0\<rparr>"

lemma example_tree: "dt_tree example_dt (Rose 1 [Rose 2 [Rose 3 []], Rose 4 []])"
  by (simp add: dt_tree_def example_dt_def example_links_def is_list_def LIST_INIT_def)

lemma example_props: "node_props example_dt 1 [10, 11]" 
  by (simp add: node_props_def example_dt_def example_links_def is_list_def)

lemma bytes_of_1: "rev (le_bytes (1 :: u32)) = [0, 0, 0, 1]" by code_simp
lemma bytes_of_2: "rev (le_bytes (2 :: u32)) = [0, 0, 0, 2]" by code_simp

lemma example_cells: "node_cells example_dt 1 2 1"
  unfolding node_cells_def cell_prop_def bytes_of_1 bytes_of_2
  by (rule exI [of _ "[10, 11]"]) (simp add: example_props, simp add: example_dt_def)

text \<open>
  \<open>C34\<close>.  Entry \<open>i\<close> of a property such as \<^verbatim>\<open>reg\<close>: when the value is a sequence of address and size
  pairs in big-endian cells of the widths the parent node declares, the function returns the \<open>i\<close>th pair, or
  fails when there are not that many, and changes nothing.
\<close>

theorem devicetree_prop_reg_correct:
  assumes "dt_props d p = Some pr" "dt_nodes d (prop_node pr) = Some node" "node_parent node = Some par"
    and "node_cells d par a s" "a = 1 \<or> a = 2" "s = 1 \<or> s = 2"
    and "reg_value pr a s es" "unat i * (4 * (unat a + unat s)) < 2 ^ 64"
  shows "devicetree_prop_reg d (Some p) i =
    Some (if unat i < length es then Some (paddr_at (unat (fst (es ! unat i))), snd (es ! unat i)) else None, d)"
  by (rule prop_reg_spec [OF assms])

theorem devicetree_prop_reg_correct_witness:
  "devicetree_prop_reg example_dt (Some 12) 0 = Some (Some (paddr_at 0x80000000, 0x1000), example_dt) \<and>
   devicetree_prop_reg example_dt (Some 12) 1 = Some (None, example_dt)"
proof -
  let ?pr = "\<lparr>prop_node = 2, prop_name = ''reg'', value_len = 12, prop_value = [0, 0, 0, 0, 128, 0, 0, 0, 0, 0, 16, 0]\<rparr>"
  let ?es = "[(0x80000000, 0x1000)] :: (u64 \<times> u64) list"
  have pr: "dt_props example_dt 12 = Some ?pr" "dt_nodes example_dt (prop_node ?pr) = Some \<lparr>node_parent = Some 1, node_name = ''soc''\<rparr>"
    by (simp_all add: example_dt_def)
  have "rev (le_bytes (0x80000000 :: u64)) = [0, 0, 0, 0, 128, 0, 0, 0]" "rev (le_bytes (ucast (0x1000 :: u64) :: u32)) = [0, 0, 16, 0]"
    by code_simp+
  then have "reg_entry 2 1 (0x80000000, 0x1000) = [0, 0, 0, 0, 128, 0, 0, 0, 0, 0, 16, 0]"
    by (simp add: reg_entry_def be_cells_def)
  then have es: "reg_value ?pr 2 1 ?es" by (simp add: reg_value_def fits_cells_def)
  show ?thesis
    using devicetree_prop_reg_correct [OF pr _ example_cells _ _ es, of 0]
      devicetree_prop_reg_correct [OF pr _ example_cells _ _ es, of 1] by simp
qed

text \<open>
  \<open>C33\<close>.  Enumerating the devices ends on every tree, whatever the handlers do short of changing the
  tree, and is the handling of every node but the root, once, in postorder: children
  in their order and before their parent.  It fails only where handling one of these nodes does.
\<close>

theorem devicetree_enumerate_visits_postorder:
  assumes "dt_tree d (Rose n ts)" "handlers_keep_tree run"
  shows "devicetree_enumerate run d n = visit_all run d (concat (map rose_postorder ts))"
  using enumerate_from_spec [OF assms(2), of d "Rose n ts" "[]"] assms(1)
  by (simp add: devicetree_enumerate_def pending_def)

theorem devicetree_enumerate_visits_postorder_witness:
  "devicetree_enumerate (\<lambda>f n d. Some (None, d)) example_dt 1 =
     visit_all (\<lambda>f n d. Some (None, d)) example_dt [3, 2, 4]"
  using devicetree_enumerate_visits_postorder [OF example_tree, of "\<lambda>f n d. Some (None, d)"]
  by (simp add: handlers_keep_tree_def)

end
