(* ===== verification/Physical_Boot.thy ===== *)
theory Physical_Boot
  imports Devicetree Physical_Alloc
begin

unbundle bit_operations_syntax

text \<open>
  How the physical allocator gets its memory, the rest of \<^verbatim>\<open>mm/physical_alloc.c\<close>: the
  reservations and the memory regions are read out of the device tree, and every region
  is considered.  Both loops over the entries of a property advance their index twice per round.
\<close>

section \<open>Reservations\<close>

text \<open>The first loop over the children counts entries; a division by zero has no defined meaning.\<close>

partial_function (option) count_reservations ::
    "dt_state \<Rightarrow> uaddr \<Rightarrow> dt_head \<Rightarrow> usize \<Rightarrow> usize \<Rightarrow> (usize \<times> dt_state) option" where
  "count_reservations d reserved_memory child reg_entry_len out_len =
     (if child = Children reserved_memory then Some (out_len, d)
      else do {
        node \<leftarrow> node_of_head child;
        reg \<leftarrow> find_prop d node ''reg'';
        (out_len, d) \<leftarrow> (case reg of
           None \<Rightarrow> do {
             d \<leftarrow> console_print d ''Missing required property reg on a /reserved-memory node'' [];
             d \<leftarrow> devicetree_print d (Some node);
             Some (out_len, d)
           }
         | Some p \<Rightarrow> do {
             pr \<leftarrow> dt_props d p;
             assert_that (reg_entry_len \<noteq> 0);
             Some (out_len + value_len pr div reg_entry_len, d)
           });
        e \<leftarrow> dt_links d child;
        count_reservations d reserved_memory (lnext e) reg_entry_len out_len
      })"

text \<open>
  The stores go to increasing indices from 0, so the array written so far is a list and \<open>i\<close> its
  length.
\<close>

partial_function (option) store_entries ::
    "dt_state \<Rightarrow> uaddr \<Rightarrow> usize \<Rightarrow> usize \<Rightarrow> memory_reservation list \<Rightarrow> (memory_reservation list \<times> dt_state) option" where
  "store_entries d reg j out_len out = do {
     (entry, d) \<leftarrow> devicetree_prop_reg d (Some reg) j;
     (case entry of None \<Rightarrow> Some (out, d)
      | Some (addr, sz) \<Rightarrow> do {
          assert_that (length out < unat out_len);
          e \<leftarrow> paddr_offset addr sz;
          store_entries d reg (j + 1 + 1) out_len (out @ [\<lparr>res_start = addr, res_end = e\<rparr>])
        })
   }"

partial_function (option) store_reservations ::
    "dt_state \<Rightarrow> uaddr \<Rightarrow> dt_head \<Rightarrow> usize \<Rightarrow> memory_reservation list \<Rightarrow> (memory_reservation list \<times> dt_state) option" where
  "store_reservations d reserved_memory child out_len out =
     (if child = Children reserved_memory then Some (out, d)
      else do {
        node \<leftarrow> node_of_head child;
        reg \<leftarrow> find_prop d node ''reg'';
        (out, d) \<leftarrow> (case reg of None \<Rightarrow> Some (out, d) | Some p \<Rightarrow> store_entries d p 0 out_len out);
        e \<leftarrow> dt_links d child;
        store_reservations d reserved_memory (lnext e) out_len out
      })"

text \<open>The array, absent when the code returns false.\<close>

definition reserved_memory_to_array :: "dt_state \<Rightarrow> uaddr \<Rightarrow> (memory_reservation list option \<times> dt_state) option" where
  "reserved_memory_to_array d tree = do {
     found \<leftarrow> devicetree_child d tree ''reserved-memory'';
     (case found of None \<Rightarrow> Some (None, d)
      | Some reserved_memory \<Rightarrow> do {
          (cells, d) \<leftarrow> devicetree_address_size_cells d reserved_memory;
          (case cells of None \<Rightarrow> Some (None, d)
           | Some (address_cells, size_cells) \<Rightarrow> do {
               let reg_entry_len = (ucast ((address_cells + size_cells) * 4) :: usize);
               l \<leftarrow> dt_links d (Children reserved_memory);
               (out_len, d) \<leftarrow> count_reservations d reserved_memory (lnext l) reg_entry_len 0;
               let (ptr, d) = dt_alloc d;
               if ptr = None then Some (None, d)
               else do {
                 l \<leftarrow> dt_links d (Children reserved_memory);
                 (out, d) \<leftarrow> store_reservations d reserved_memory (lnext l) out_len [];
                 assert_that (of_nat (length out) = out_len);
                 Some (Some out, d)
               }
             })
        })
   }"

section \<open>Initialization\<close>

fun print_reservations :: "dt_state \<Rightarrow> memory_reservation list \<Rightarrow> dt_state option" where
  "print_reservations d [] = Some d"
| "print_reservations d (r # rs) = do {
     d \<leftarrow> console_print d ''  {paddr}-{paddr}'' [Va_Paddr (res_start r), Va_Paddr (res_end r)];
     print_reservations d rs
   }"

partial_function (option) consider_entries ::
    "pstate \<Rightarrow> dt_state \<Rightarrow> uaddr \<Rightarrow> usize \<Rightarrow> memory_reservation list \<Rightarrow> (pstate \<times> dt_state) option" where
  "consider_entries s d reg i reservations = do {
     (entry, d) \<leftarrow> devicetree_prop_reg d (Some reg) i;
     (case entry of None \<Rightarrow> Some (s, d)
      | Some (addr, sz) \<Rightarrow> do {
          s \<leftarrow> consider_physical_memory s addr sz reservations;
          consider_entries s d reg (i + 1 + 1) reservations
        })
   }"

definition is_memory_name :: "string \<Rightarrow> bool" where
  "is_memory_name name \<longleftrightarrow> \<not> (length name < 7 \<or> take 7 name \<noteq> ''memory@'')"

partial_function (option) consider_children ::
    "pstate \<Rightarrow> dt_state \<Rightarrow> uaddr \<Rightarrow> dt_head \<Rightarrow> memory_reservation list \<Rightarrow> (pstate \<times> dt_state) option" where
  "consider_children s d tree child reservations =
     (if child = Children tree then Some (s, d)
      else do {
        node \<leftarrow> node_of_head child;
        n \<leftarrow> dt_nodes d node;
        (s, d) \<leftarrow> (if \<not> is_memory_name (node_name n) then Some (s, d)
          else do {
            reg \<leftarrow> find_prop d node ''reg'';
            (case reg of
               None \<Rightarrow> do { d \<leftarrow> console_print d ''Missing required property reg on a memory node'' []; Some (s, d) }
             | Some p \<Rightarrow> consider_entries s d p 0 reservations)
          });
        e \<leftarrow> dt_links d child;
        consider_children s d tree (lnext e) reservations
      })"

definition mm_init_physical :: "pstate \<Rightarrow> dt_state \<Rightarrow> uaddr \<Rightarrow> (pstate \<times> dt_state) option" where
  "mm_init_physical s d tree = do {
     (array, d) \<leftarrow> reserved_memory_to_array d tree;
     reservations \<leftarrow> array;
     d \<leftarrow> console_print d ''Found {usize} memory reservations:'' [Va_Long (of_nat (length reservations))];
     d \<leftarrow> print_reservations d reservations;
     l \<leftarrow> dt_links d (Children tree);
     consider_children s d tree (lnext l) reservations
   }"

section \<open>Entries visited\<close>

primrec fold_option :: "('x \<Rightarrow> 's \<Rightarrow> 's option) \<Rightarrow> 'x list \<Rightarrow> 's \<Rightarrow> 's option" where
  "fold_option f [] s = Some s"
| "fold_option f (x # xs) s = do { s \<leftarrow> f x s; fold_option f xs s }"

lemma fold_option_append: "fold_option f (xs @ ys) s = do { s \<leftarrow> fold_option f xs s; fold_option f ys s }"
  by (induction xs arbitrary: s) (auto simp: Option.bind_assoc)

text \<open>Every second element, which is what an index advanced twice per round visits.\<close>

fun evens :: "'a list \<Rightarrow> 'a list" where
  "evens (x # y # xs) = x # evens xs"
| "evens xs = xs"

lemma evens_Cons: "evens (x # xs) = x # evens (tl xs)"
  by (cases xs) simp_all

lemma length_evens: "length (evens xs) \<le> length xs \<and> (length (evens xs) = length xs \<longleftrightarrow> length xs \<le> 1)"
  by (induction xs rule: evens.induct) auto

section \<open>The array of reservations\<close>

definition reservation_of :: "u64 \<times> u64 \<Rightarrow> memory_reservation" where
  "reservation_of e = \<lparr>res_start = paddr_at (unat (fst e)), res_end = paddr_at (unat (fst e) + unat (snd e))\<rparr>"

text \<open>A child with a well-formed property for its addresses.\<close>

definition reg_child :: "dt_state \<Rightarrow> uaddr \<Rightarrow> u32 \<Rightarrow> u32 \<Rightarrow> uaddr \<Rightarrow> (u64 \<times> u64) list \<Rightarrow> bool" where
  "reg_child d par a s n es \<longleftrightarrow> (\<exists>ps p pr node. node_props d n ps \<and>
     find (\<lambda>p. prop_name (the (dt_props d p)) = ''reg'') ps = Some p \<and> dt_props d p = Some pr \<and>
     prop_node pr = n \<and> dt_nodes d n = Some node \<and> node_parent node = Some par \<and>
     reg_value pr a s es \<and> length (prop_value pr) < 2 ^ 32 \<and> (\<forall>e \<in> set es. unat (fst e) + unat (snd e) < 2 ^ 56))"

lemma reg_childE:
  assumes "reg_child d par a s n es"
  obtains p pr node where "find_prop d n ''reg'' = Some (Some p)" "dt_props d p = Some pr"
    "dt_nodes d (prop_node pr) = Some node" "node_parent node = Some par"
    "reg_value pr a s es" "length (prop_value pr) < 2 ^ 32" "\<forall>e \<in> set es. unat (fst e) + unat (snd e) < 2 ^ 56"
  using assms unfolding reg_child_def by (elim exE conjE) (rule that, simp_all add: find_prop_spec)

lemma entry_bytes:
  assumes "a = 1 \<or> a = (2 :: u32)" "s = 1 \<or> s = (2 :: u32)"
  shows "unat (ucast ((a + s) * 4) :: usize) = 4 * (unat a + unat s)" "0 < 4 * (unat a + unat s)" "4 * (unat a + unat s) < 17"
  using assms by auto

lemma reg_value_length:
  assumes "reg_value pr a s es" "a = 1 \<or> a = 2" "s = 1 \<or> s = 2"
  shows "length (prop_value pr) = 4 * (unat a + unat s) * length es"
    and "unat (value_len pr) = 4 * (unat a + unat s) * length es"
proof -
  have "\<And>e. e \<in> set es \<Longrightarrow> length (reg_entry a s e) = 4 * (unat a + unat s)"
    using assms by (auto simp: reg_value_def reg_entry_def length_be_cells)
  from length_concat_equal [OF this] assms(1)
  show l: "length (prop_value pr) = 4 * (unat a + unat s) * length es" by (simp add: reg_value_def)
  then show "unat (value_len pr) = 4 * (unat a + unat s) * length es"
    using assms(1) unat_of_nat_small [of "length (prop_value pr)", where ?'a = 64] by (simp add: reg_value_def del: of_nat_mult)
qed

lemma store_entries_spec:
  assumes pr: "dt_props d p = Some pr" "dt_nodes d (prop_node pr) = Some node" "node_parent node = Some par"
    and cells: "node_cells d par a s" "a = 1 \<or> a = 2" "s = 1 \<or> s = 2"
    and es: "reg_value pr a s es" "length (prop_value pr) < 2 ^ 32" "\<forall>e \<in> set es. unat (fst e) + unat (snd e) < 2 ^ 56"
    and j: "j \<le> length es + 1"
  shows "store_entries d p (of_nat j) n out =
    (if length out + length (evens (drop j es)) \<le> unat n \<or> drop j es = [] then
       Some (out @ map reservation_of (evens (drop j es)), d) else None)"
  using j
proof (induction "length es - j" arbitrary: j out rule: less_induct)
  case less
  note k = entry_bytes [OF cells(2,3)]
  have len: "4 * (unat a + unat s) * length es < 2 ^ 32" using reg_value_length(1) [OF es(1) cells(2,3)] es(2) by simp
  then have "length es < 2 ^ 32" using k(2) by (metis le_less_trans mult.commute mult_le_mono2 nat_mult_1_right Suc_leI One_nat_def)
  then have j: "unat (of_nat j :: usize) = j" using less.prems by simp
  have "j * (4 * (unat a + unat s)) \<le> (length es + 1) * (4 * (unat a + unat s))" using less.prems by (rule mult_le_mono1)
  also have "\<dots> < 2 ^ 64" using len k(3) by (simp add: algebra_simps)
  finally have reg: "devicetree_prop_reg d (Some p) (of_nat j) =
      Some (if j < length es then Some (paddr_at (unat (fst (es ! j))), snd (es ! j)) else None, d)"
    using prop_reg_spec [OF pr cells es(1), of "of_nat j"] j by simp
  show ?case
  proof (cases "j < length es")
    case False
    then show ?thesis by (subst store_entries.simps) (simp add: reg)
  next
    case True
    then have e: "unat (fst (es ! j)) + unat (snd (es ! j)) < 2 ^ 56" using es(3) by simp
    have dr: "drop j es = es ! j # drop (Suc j) es" using True by (simp add: Cons_nth_drop_Suc)
    have ev: "evens (drop j es) = es ! j # evens (drop (j + 1 + 1) es)"
      by (simp only: dr evens_Cons) (simp add: drop_Suc drop_tl)
    have off: "paddr_offset (paddr_at (unat (fst (es ! j)))) (snd (es ! j)) = Some (paddr_at (unat (fst (es ! j)) + unat (snd (es ! j))))"
      using e by (subst paddr_offset_at) auto
    have "store_entries d p (of_nat (j + 1 + 1)) n (out @ [reservation_of (es ! j)]) =
      (if length (out @ [reservation_of (es ! j)]) + length (evens (drop (j + 1 + 1) es)) \<le> unat n \<or> drop (j + 1 + 1) es = [] then
       Some ((out @ [reservation_of (es ! j)]) @ map reservation_of (evens (drop (j + 1 + 1) es)), d) else None)"
      by (rule less.hyps) (use True in simp_all)
    moreover have "(of_nat (j + 1 + 1) :: usize) = of_nat j + 1 + 1" by simp
    ultimately have rest: "store_entries d p (of_nat j + 1 + 1) n (out @ [reservation_of (es ! j)]) =
      (if Suc (length out) + length (evens (drop (j + 1 + 1) es)) \<le> unat n \<or> drop (j + 1 + 1) es = [] then
       Some (out @ map reservation_of (evens (drop j es)), d) else None)"
      using ev by simp
    have "store_entries d p (of_nat j) n out = (if length out < unat n then
        store_entries d p (of_nat j + 1 + 1) n (out @ [reservation_of (es ! j)]) else None)"
      using True off by (subst store_entries.simps) (simp add: reg reservation_of_def add.assoc)
    then show ?thesis unfolding rest using ev dr by (cases "drop (j + 1 + 1) es") auto
  qed
qed


text \<open>A list of nodes with the entries of each.\<close>

definition reg_children :: "dt_state \<Rightarrow> uaddr \<Rightarrow> u32 \<Rightarrow> u32 \<Rightarrow> (uaddr \<times> (u64 \<times> u64) list) list \<Rightarrow> bool" where
  "reg_children d par a s cs \<longleftrightarrow> is_list (dt_links d) (Children par) (map (\<lambda>c. Parent_Children_Head (fst c)) cs) \<and>
     (\<forall>c \<in> set cs. reg_child d par a s (fst c) (snd c))"

definition same_devices :: "dt_state \<Rightarrow> dt_state \<Rightarrow> bool" where
  "same_devices d d' \<longleftrightarrow> same_tree d d' \<and> dt_props d' = dt_props d"

lemma reg_child_same: "same_devices d d' \<Longrightarrow> reg_child d' par a s n es = reg_child d par a s n es"
  by (simp add: reg_child_def node_props_def same_devices_def same_tree_def)

lemma node_cells_same: "same_devices d d' \<Longrightarrow> node_cells d' n a s = node_cells d n a s"
  by (simp add: node_cells_def cell_prop_def node_props_def same_devices_def same_tree_def)

lemma reg_children_same: "same_devices d d' \<Longrightarrow> reg_children d' par a s cs = reg_children d par a s cs"
  by (simp add: reg_children_def reg_child_same) (simp add: same_devices_def same_tree_def)

lemma count_reservations_spec:
  assumes cs: "reg_children d rm a s cs" and cells: "a = 1 \<or> a = 2" "s = 1 \<or> s = 2"
  shows "\<exists>e. dt_links d (Children rm) = Some e \<and>
    count_reservations d rm (lnext e) (ucast ((a + s) * 4)) 0 = Some (of_nat (sum_list (map (\<lambda>c. length (snd c)) cs)), d)"
proof -
  define B where "B = (ucast ((a + s) * 4) :: usize)"
  note k = entry_bytes [OF cells]
  have B: "unat B = 4 * (unat a + unat s)" "B \<noteq> 0" using k unfolding B_def by (auto simp: unat_eq_zero simp flip: unat_gt_0)
  have one: "\<exists>p pr. find_prop d (fst c) ''reg'' = Some (Some p) \<and> dt_props d p = Some pr \<and> value_len pr div B = of_nat (length (snd c))"
    if "c \<in> set cs" for c
  proof -
    from cs that have "reg_child d rm a s (fst c) (snd c)" by (simp add: reg_children_def)
    then obtain p pr where p: "find_prop d (fst c) ''reg'' = Some (Some p)" "dt_props d p = Some pr" "reg_value pr a s (snd c)"
      by (rule reg_childE)
    have "unat (value_len pr div B) = length (snd c)"
      using reg_value_length(2) [OF p(3) cells] B k(2) by (simp add: unat_div)
    from arg_cong [OF this, of "of_nat :: nat \<Rightarrow> usize"] have "value_len pr div B = of_nat (length (snd c))" by simp
    with p show ?thesis by blast
  qed
  have l: "is_list (dt_links d) (Children rm) (map (\<lambda>c. Parent_Children_Head (fst c)) cs)"
    using cs by (simp add: reg_children_def)
  have walk: "count_reservations d rm (hd (map (\<lambda>c. Parent_Children_Head (fst c)) zs @ [Children rm])) B n =
      Some (n + of_nat (sum_list (map (\<lambda>c. length (snd c)) zs)), d)" if "cs = ys @ zs" for ys zs n
    using that
  proof (induction zs arbitrary: ys n)
    case Nil
    then show ?case by (simp add: count_reservations.simps)
  next
    case (Cons c zs)
    obtain e where e: "dt_links d (Parent_Children_Head (fst c)) = Some e"
      "lnext e = hd (map (\<lambda>c. Parent_Children_Head (fst c)) zs @ [Children rm])"
      using is_list_next [of "dt_links d" "Children rm" "map (\<lambda>c. Parent_Children_Head (fst c)) ys"] l Cons.prems by auto
    obtain p pr where p: "find_prop d (fst c) ''reg'' = Some (Some p)" "dt_props d p = Some pr" "value_len pr div B = of_nat (length (snd c))"
      using one [of c] Cons.prems by auto
    show ?case
      using Cons.IH [of "ys @ [c]"] Cons.prems e p B(2)
      by (subst count_reservations.simps) (simp add: add.assoc)
  qed
  from walk [of "[]" cs 0] is_list_end [OF l] show ?thesis unfolding B_def by auto
qed

text \<open>The stores of all children: every second entry of each, which fit when there is room for all entries.\<close>

lemma store_reservations_spec:
  assumes cs: "reg_children d rm a s cs" and cells: "node_cells d rm a s" "a = 1 \<or> a = 2" "s = 1 \<or> s = 2"
    and n: "sum_list (map (\<lambda>c. length (snd c)) cs) \<le> unat n"
  shows "\<exists>e. dt_links d (Children rm) = Some e \<and>
    store_reservations d rm (lnext e) n [] = Some (map reservation_of (concat (map (\<lambda>c. evens (snd c)) cs)), d)"
proof -
  have l: "is_list (dt_links d) (Children rm) (map (\<lambda>c. Parent_Children_Head (fst c)) cs)"
    using cs by (simp add: reg_children_def)
  have walk: "store_reservations d rm (hd (map (\<lambda>c. Parent_Children_Head (fst c)) zs @ [Children rm])) n out =
      Some (out @ map reservation_of (concat (map (\<lambda>c. evens (snd c)) zs)), d)"
    if "cs = ys @ zs" "length out + sum_list (map (\<lambda>c. length (snd c)) zs) \<le> unat n" for ys zs out
    using that
  proof (induction zs arbitrary: ys out)
    case Nil
    then show ?case by (simp add: store_reservations.simps)
  next
    case (Cons c zs)
    obtain e where e: "dt_links d (Parent_Children_Head (fst c)) = Some e"
      "lnext e = hd (map (\<lambda>c. Parent_Children_Head (fst c)) zs @ [Children rm])"
      using is_list_next [of "dt_links d" "Children rm" "map (\<lambda>c. Parent_Children_Head (fst c)) ys"] l Cons.prems by auto
    have "reg_child d rm a s (fst c) (snd c)" using cs Cons.prems(1) by (simp add: reg_children_def)
    then obtain p pr node where p: "find_prop d (fst c) ''reg'' = Some (Some p)" "dt_props d p = Some pr"
      "dt_nodes d (prop_node pr) = Some node" "node_parent node = Some rm"
      "reg_value pr a s (snd c)" "length (prop_value pr) < 2 ^ 32" "\<forall>e \<in> set (snd c). unat (fst e) + unat (snd e) < 2 ^ 56"
      by (rule reg_childE)
    have len: "length (evens (snd c)) \<le> length (snd c)" using length_evens by blast
    have "store_entries d p 0 n out = Some (out @ map reservation_of (evens (snd c)), d)"
      using store_entries_spec [OF p(2,3,4) cells p(5,6,7), of 0 n out] Cons.prems(2) len by simp
    moreover have "store_reservations d rm (hd (map (\<lambda>c. Parent_Children_Head (fst c)) zs @ [Children rm])) n
        (out @ map reservation_of (evens (snd c))) =
      Some ((out @ map reservation_of (evens (snd c))) @ map reservation_of (concat (map (\<lambda>c. evens (snd c)) zs)), d)"
      by (rule Cons.IH [of "ys @ [c]"]) (use Cons.prems len in simp_all)
    ultimately show ?case
      using e p(1) by (subst store_reservations.simps) simp
  qed
  from walk [of "[]" cs "[]"] is_list_end [OF l] n show ?thesis by auto
qed

lemma evens_total:
  "length (concat (map (\<lambda>c. evens (snd c)) cs)) \<le> sum_list (map (\<lambda>c. length (snd c)) cs) \<and>
   (length (concat (map (\<lambda>c. evens (snd c)) cs)) = sum_list (map (\<lambda>c. length (snd c)) cs) \<longleftrightarrow> (\<forall>c \<in> set cs. length (snd c) \<le> 1))"
proof (induction cs)
  case (Cons c cs)
  then show ?case using length_evens [of "snd c"] by auto
qed simp

lemma evens_single: "length xs \<le> 1 \<Longrightarrow> evens xs = xs"
  by (cases xs rule: evens.cases) auto

text \<open>The array is complete exactly when no child has a second entry; otherwise the last assertion fails.\<close>

lemma reserved_memory_to_array_spec:
  assumes rm: "devicetree_child d tree ''reserved-memory'' = Some (Some rm)"
    and cells: "node_cells d rm a s" "a = 1 \<or> a = 2" "s = 1 \<or> s = 2"
    and cs: "reg_children d rm a s cs" and n: "sum_list (map (\<lambda>c. length (snd c)) cs) < 2 ^ 64"
    and mem: "shd (dt_allocs d) \<noteq> None"
  shows "reserved_memory_to_array d tree =
    (if \<forall>c \<in> set cs. length (snd c) \<le> 1
     then Some (Some (map reservation_of (concat (map snd cs))), d\<lparr>dt_allocs := stl (dt_allocs d)\<rparr>) else None)"
proof -
  let ?n = "sum_list (map (\<lambda>c. length (snd c)) cs)" and ?d = "d\<lparr>dt_allocs := stl (dt_allocs d)\<rparr>"
  let ?out = "map reservation_of (concat (map (\<lambda>c. evens (snd c)) cs))"
  have same: "same_devices d ?d" by (simp add: same_devices_def same_tree_def)
  obtain e where e: "dt_links d (Children rm) = Some e"
    "count_reservations d rm (lnext e) (ucast ((a + s) * 4)) 0 = Some (of_nat ?n, d)"
    using count_reservations_spec [OF cs cells(2,3)] by auto
  have un: "unat (of_nat ?n :: usize) = ?n" by (rule unat_of_nat_small) (use n in simp)
  obtain e' where e': "dt_links ?d (Children rm) = Some e'"
    "store_reservations ?d rm (lnext e') (of_nat ?n) [] = Some (?out, ?d)"
    using store_reservations_spec [of ?d rm a s cs "of_nat ?n"] cs cells
    unfolding reg_children_same [OF same] node_cells_same [OF same] un by auto
  obtain p where p: "shd (dt_allocs d) = Some p" using mem by auto
  have full: "(of_nat (length ?out) = (of_nat ?n :: usize)) \<longleftrightarrow> (\<forall>c \<in> set cs. length (snd c) \<le> 1)"
    using evens_total [of cs] n of_nat_eq_iff_small [of "length ?out" ?n] by auto
  have "reserved_memory_to_array d tree = do { assert_that (of_nat (length ?out) = (of_nat ?n :: usize)); Some (Some ?out, ?d) }"
    using rm e e' p by (simp add: reserved_memory_to_array_def address_size_cells_spec [OF cells(1)] Let_def dt_alloc_def del: length_map length_concat)
  also have "\<dots> = (if \<forall>c \<in> set cs. length (snd c) \<le> 1 then Some (Some (map reservation_of (concat (map snd cs))), ?d) else None)"
    using full by (auto simp: evens_single cong: map_cong simp del: length_map length_concat)
  finally show ?thesis .
qed


section \<open>The regions considered\<close>

definition consider_region :: "memory_reservation list \<Rightarrow> u64 \<times> u64 \<Rightarrow> pstate \<Rightarrow> pstate option" where
  "consider_region rs e s = consider_physical_memory s (paddr_at (unat (fst e))) (snd e) rs"

lemma consider_entries_spec:
  assumes pr: "dt_props d p = Some pr" "dt_nodes d (prop_node pr) = Some node" "node_parent node = Some par"
    and cells: "node_cells d par a c" "a = 1 \<or> a = 2" "c = 1 \<or> c = 2"
    and es: "reg_value pr a c es" "length (prop_value pr) < 2 ^ 32"
    and j: "j \<le> length es + 1"
  shows "consider_entries s d p (of_nat j) rs =
    map_option (\<lambda>s. (s, d)) (fold_option (consider_region rs) (evens (drop j es)) s)"
  using j
proof (induction "length es - j" arbitrary: j s rule: less_induct)
  case less
  note k = entry_bytes [OF cells(2,3)]
  have len: "4 * (unat a + unat c) * length es < 2 ^ 32" using reg_value_length(1) [OF es(1) cells(2,3)] es(2) by simp
  then have "length es < 2 ^ 32" using k(2) by (metis le_less_trans mult.commute mult_le_mono2 nat_mult_1_right Suc_leI One_nat_def)
  then have j: "unat (of_nat j :: usize) = j" using less.prems by simp
  have "j * (4 * (unat a + unat c)) \<le> (length es + 1) * (4 * (unat a + unat c))" using less.prems by (rule mult_le_mono1)
  also have "\<dots> < 2 ^ 64" using len k(3) by (simp add: algebra_simps)
  finally have reg: "devicetree_prop_reg d (Some p) (of_nat j) =
      Some (if j < length es then Some (paddr_at (unat (fst (es ! j))), snd (es ! j)) else None, d)"
    using prop_reg_spec [OF pr cells es(1), of "of_nat j"] j by simp
  show ?case
  proof (cases "j < length es")
    case False
    then show ?thesis by (subst consider_entries.simps) (simp add: reg)
  next
    case True
    have dr: "drop j es = es ! j # drop (Suc j) es" using True by (simp add: Cons_nth_drop_Suc)
    have ev: "evens (drop j es) = es ! j # evens (drop (j + 1 + 1) es)"
      by (simp only: dr evens_Cons) (simp add: drop_Suc drop_tl)
    have idx: "(of_nat (j + 1 + 1) :: usize) = of_nat j + 1 + 1" by simp
    have "consider_entries s' d p (of_nat j + 1 + 1) rs =
        map_option (\<lambda>s. (s, d)) (fold_option (consider_region rs) (evens (drop (j + 1 + 1) es)) s')" for s'
      unfolding idx [symmetric] by (rule less.hyps) (use True in simp_all)
    then show ?thesis
      using True by (subst consider_entries.simps) (simp add: reg ev consider_region_def map_option_bind comp_def)
  qed
qed

text \<open>A list of the children of the root, with the entries of those that describe memory.\<close>

definition memory_children :: "dt_state \<Rightarrow> uaddr \<Rightarrow> u32 \<Rightarrow> u32 \<Rightarrow> (uaddr \<times> (u64 \<times> u64) list) list \<Rightarrow> bool" where
  "memory_children d par a c ms \<longleftrightarrow> is_list (dt_links d) (Children par) (map (\<lambda>m. Parent_Children_Head (fst m)) ms) \<and>
     (\<forall>m \<in> set ms. \<exists>node. dt_nodes d (fst m) = Some node \<and>
        (if is_memory_name (node_name node) then reg_child d par a c (fst m) (snd m) else snd m = []))"

lemma consider_children_spec:
  assumes ms: "memory_children d tree a c ms" and cells: "node_cells d tree a c" "a = 1 \<or> a = 2" "c = 1 \<or> c = 2"
  shows "\<exists>e. dt_links d (Children tree) = Some e \<and>
    consider_children s d tree (lnext e) rs =
      map_option (\<lambda>s. (s, d)) (fold_option (consider_region rs) (concat (map (\<lambda>m. evens (snd m)) ms)) s)"
proof -
  have l: "is_list (dt_links d) (Children tree) (map (\<lambda>m. Parent_Children_Head (fst m)) ms)"
    using ms by (simp add: memory_children_def)
  have walk: "consider_children s d tree (hd (map (\<lambda>m. Parent_Children_Head (fst m)) zs @ [Children tree])) rs =
      map_option (\<lambda>s. (s, d)) (fold_option (consider_region rs) (concat (map (\<lambda>m. evens (snd m)) zs)) s)"
    if "ms = ys @ zs" for ys zs s
    using that
  proof (induction zs arbitrary: ys s)
    case Nil
    then show ?case by (simp add: consider_children.simps)
  next
    case (Cons m zs)
    obtain e where e: "dt_links d (Parent_Children_Head (fst m)) = Some e"
      "lnext e = hd (map (\<lambda>m. Parent_Children_Head (fst m)) zs @ [Children tree])"
      using is_list_next [of "dt_links d" "Children tree" "map (\<lambda>m. Parent_Children_Head (fst m)) ys"] l Cons.prems by auto
    obtain node where node: "dt_nodes d (fst m) = Some node"
      "if is_memory_name (node_name node) then reg_child d tree a c (fst m) (snd m) else snd m = []"
      using ms Cons.prems by (auto simp: memory_children_def)
    note IH = Cons.IH [of "ys @ [m]", simplified, OF Cons.prems]
    show ?case
    proof (cases "is_memory_name (node_name node)")
      case False
      then show ?thesis using node e IH by (subst consider_children.simps) simp
    next
      case True
      then have "reg_child d tree a c (fst m) (snd m)" using node by simp
      then obtain p pr pn where p: "find_prop d (fst m) ''reg'' = Some (Some p)" "dt_props d p = Some pr"
        "dt_nodes d (prop_node pr) = Some pn" "node_parent pn = Some tree"
        "reg_value pr a c (snd m)" "length (prop_value pr) < 2 ^ 32"
        by (rule reg_childE)
      have "consider_entries s d p 0 rs = map_option (\<lambda>s. (s, d)) (fold_option (consider_region rs) (evens (snd m)) s)"
        using consider_entries_spec [OF p(2,3,4) cells p(5,6), of 0 s rs] by simp
      then show ?thesis
        using True node(1) e p(1) IH
        by (subst consider_children.simps) (auto simp: fold_option_append map_option_case split: option.split)
    qed
  qed
  from walk [of "[]" ms s] is_list_end [OF l] show ?thesis by auto
qed

text \<open>Regions that do not overlap can be considered one after the other.\<close>

definition region_ok :: "u64 \<times> u64 \<Rightarrow> bool" where
  "region_ok e \<longleftrightarrow> 0 < unat (fst e) \<and> unat (fst e) + unat (snd e) \<le> window \<and> \<not> ends_at_4g (unat (fst e) + unat (snd e))"

definition region_end :: "u64 \<times> u64 \<Rightarrow> nat" where
  "region_end e = unat (fst e) + unat (snd e)"

definition apart :: "u64 \<times> u64 \<Rightarrow> u64 \<times> u64 \<Rightarrow> bool" where
  "apart e f \<longleftrightarrow> region_end e \<le> unat (fst f) \<or> region_end f \<le> unat (fst e)"

lemma consider_regions:
  assumes "phys_inv s F" "reservations_ok rs" "\<forall>e \<in> set es. region_ok e" "sorted_wrt apart es"
    and "\<forall>e \<in> set es. usable rs (unat (fst e)) (region_end e) \<inter> F = {}"
  shows "\<exists>s'. fold_option (consider_region (map reservation_at rs)) es s = Some s' \<and>
    phys_inv s' ((\<Union>e \<in> set es. usable rs (unat (fst e)) (region_end e)) \<union> F)"
  using assms
proof (induction es arbitrary: s F)
  case (Cons e es)
  let ?U = "\<lambda>e. usable rs (unat (fst e)) (region_end e)"
  obtain s1 where s1: "consider_physical_memory s (paddr_at (unat (fst e))) (snd e) (map reservation_at rs) = Some s1"
    "phys_inv s1 (?U e \<union> F)"
    using consider_physical_memory_spec [OF Cons.prems(1,2), of "unat (fst e)" "snd e"] Cons.prems(3,5)
    by (auto simp: region_ok_def region_end_def)
  have "?U f \<inter> ?U e = {}" if "f \<in> set es" for f
    using Cons.prems(4) that by (fastforce simp: apart_def usable_def frames_between_def)
  then have "\<forall>f \<in> set es. ?U f \<inter> (?U e \<union> F) = {}" using Cons.prems(5) by auto
  from Cons.IH [OF s1(2) Cons.prems(2) _ _ this] Cons.prems(3,4) s1(1) show ?case
    by (auto simp: consider_region_def Un_assoc Un_left_commute)
qed simp


section \<open>Initialization\<close>

definition boot_reservation :: "u64 \<times> u64 \<Rightarrow> nat \<times> nat" where
  "boot_reservation e = (unat (fst e), region_end e)"

lemma reservation_of_at: "reservation_of e = reservation_at (boot_reservation e)"
  by (simp add: reservation_of_def reservation_at_def boot_reservation_def region_end_def)

lemma print_range:
  assumes "m < 2 ^ 56" "n < 2 ^ 56"
  shows "\<exists>out. print ''  {paddr}-{paddr}'' [Va_Paddr (paddr_at m), Va_Paddr (paddr_at n)] = Some out"
  using print_pieces [of "[Text ''  '', Hole F_paddr [], Text ''-'', Hole F_paddr []]"] assms
  by (simp add: format_paddr_def bits_of_paddr_at)

lemma print_reservations_spec:
  "\<forall>r \<in> set rs. fst r < 2 ^ 56 \<and> snd r < 2 ^ 56 \<Longrightarrow> \<exists>d'. print_reservations d (map reservation_at rs) = Some d' \<and> same_devices d d'"
proof (induction rs arbitrary: d)
  case Nil
  then show ?case by (simp add: same_devices_def)
next
  case (Cons r rs)
  obtain out where out: "print ''  {paddr}-{paddr}'' [Va_Paddr (paddr_at (fst r)), Va_Paddr (paddr_at (snd r))] = Some out"
    using print_range Cons.prems by force
  obtain d' where "print_reservations (d\<lparr>console := console d @ out\<rparr>) (map reservation_at rs) = Some d'"
    "same_devices (d\<lparr>console := console d @ out\<rparr>) d'"
    using Cons by fastforce
  moreover have "res_start (reservation_at r) = paddr_at (fst r)" "res_end (reservation_at r) = paddr_at (snd r)"
    by (simp_all add: reservation_at_def)
  ultimately show ?case using out by (auto simp: console_print_def same_devices_def same_tree_def)
qed

lemma memory_children_same: "same_devices d d' \<Longrightarrow> memory_children d' par a c ms = memory_children d par a c ms"
  by (simp add: memory_children_def reg_child_same) (simp add: same_devices_def same_tree_def)

lemma print_found: "\<exists>out. print ''Found {usize} memory reservations:'' [Va_Long n] = Some out"
  using print_pieces [of "[Text ''Found '', Hole F_usize [], Text '' memory reservations:'']"] by (simp add: format_usize_def)

text \<open>The reservations of a well-formed node, and the regions of memory: one entry for each child.\<close>

lemma mm_init_physical_spec:
  assumes rm: "devicetree_child d tree ''reserved-memory'' = Some (Some rm)"
    and rcells: "node_cells d rm a s" "a = 1 \<or> a = 2" "s = 1 \<or> s = 2"
    and cs: "reg_children d rm a s cs" "\<forall>c \<in> set cs. length (snd c) \<le> 1" "length cs < 2 ^ 64"
    and mem: "shd (dt_allocs d) \<noteq> None"
    and mcells: "node_cells d tree a' s'" "a' = 1 \<or> a' = 2" "s' = 1 \<or> s' = 2"
    and ms: "memory_children d tree a' s' ms" "\<forall>m \<in> set ms. length (snd m) \<le> 1"
    and inv: "phys_inv ps F" "reservations_ok (map boot_reservation (concat (map snd cs)))"
    and regions: "\<forall>e \<in> set (concat (map snd ms)). region_ok e" "sorted_wrt apart (concat (map snd ms))"
    and fresh: "\<forall>e \<in> set (concat (map snd ms)). frames_between (unat (fst e)) (region_end e) \<inter> F = {}"
  shows "\<exists>ps' d'. mm_init_physical ps d tree = Some (ps', d') \<and>
    phys_inv ps' ((\<Union>e \<in> set (concat (map snd ms)). usable (map boot_reservation (concat (map snd cs))) (unat (fst e)) (region_end e)) \<union> F)"
proof -
  define rs where "rs = map boot_reservation (concat (map snd cs))"
  define es where "es = concat (map snd ms)"
  define d1 where "d1 = d\<lparr>dt_allocs := stl (dt_allocs d)\<rparr>"
  have "sum_list (map (\<lambda>c. length (snd c)) cs) \<le> sum_list (map (\<lambda>c. 1) cs)"
    by (rule sum_list_mono) (use cs(2) in auto)
  then have n: "sum_list (map (\<lambda>c. length (snd c)) cs) < 2 ^ 64" using cs(3) by (simp add: sum_list_triv)
  have "map reservation_of (concat (map snd cs)) = map reservation_at rs"
    by (simp add: rs_def reservation_of_at)
  then have array: "reserved_memory_to_array d tree = Some (Some (map reservation_at rs), d1)"
    unfolding reserved_memory_to_array_spec [OF rm rcells cs(1) n mem] d1_def using cs(2) by simp
  obtain out where out: "print ''Found {usize} memory reservations:'' [Va_Long (of_nat (length rs))] = Some out"
    using print_found by blast
  have ok: "reservations_ok rs" using inv(2) by (simp add: rs_def)
  then have "\<forall>r \<in> set rs. fst r < 2 ^ 56 \<and> snd r < 2 ^ 56"
    using window_less(1) unfolding reservations_ok_def by (meson less_trans less_imp_le)
  then obtain d' where d': "print_reservations (d1\<lparr>console := console d1 @ out\<rparr>) (map reservation_at rs) = Some d'"
    "same_devices (d1\<lparr>console := console d1 @ out\<rparr>) d'"
    using print_reservations_spec by blast
  have same: "same_devices d d'" using d'(2) by (simp add: same_devices_def same_tree_def d1_def)
  obtain e where e: "dt_links d' (Children tree) = Some e"
    "consider_children ps d' tree (lnext e) (map reservation_at rs) =
      map_option (\<lambda>s. (s, d')) (fold_option (consider_region (map reservation_at rs)) (concat (map (\<lambda>m. evens (snd m)) ms)) ps)"
    using consider_children_spec [of d' tree a' s' ms ps "map reservation_at rs"] ms(1) mcells
    unfolding memory_children_same [OF same] node_cells_same [OF same] by blast
  have "map (\<lambda>m. evens (snd m)) ms = map snd ms"
    by (rule map_cong [OF refl]) (use ms(2) in \<open>simp add: evens_single\<close>)
  then have ev: "concat (map (\<lambda>m. evens (snd m)) ms) = es" by (simp only: es_def)
  have "\<forall>e \<in> set es. usable rs (unat (fst e)) (region_end e) \<inter> F = {}"
    using fresh unfolding usable_def es_def [symmetric] by blast
  from consider_regions [OF inv(1) ok regions [folded es_def] this] obtain ps' where ps':
    "fold_option (consider_region (map reservation_at rs)) es ps = Some ps'"
    "phys_inv ps' ((\<Union>e \<in> set es. usable rs (unat (fst e)) (region_end e)) \<union> F)" by blast
  have "mm_init_physical ps d tree = Some (ps', d')"
    using array out d'(1) e ev ps'(1) by (simp add: mm_init_physical_def console_print_def)
  with ps'(2) show ?thesis unfolding rs_def es_def by blast
qed

section \<open>The properties\<close>

text \<open>
  A device tree with 128 MiB of memory of which the first 2 MiB are reserved: node 2 under the root 1 is
  \<^verbatim>\<open>reserved-memory\<close> with the block 3, and node 4 describes the memory.
\<close>

definition list_of_one :: "dt_head \<Rightarrow> dt_head \<Rightarrow> dt_head links" where
  "list_of_one l x = [l \<mapsto> \<lparr>lprev = x, lnext = x\<rparr>, x \<mapsto> \<lparr>lprev = l, lnext = l\<rparr>]"

definition list_of_two :: "dt_head \<Rightarrow> dt_head \<Rightarrow> dt_head \<Rightarrow> dt_head links" where
  "list_of_two l x y = [l \<mapsto> \<lparr>lprev = y, lnext = x\<rparr>, x \<mapsto> \<lparr>lprev = l, lnext = y\<rparr>, y \<mapsto> \<lparr>lprev = x, lnext = l\<rparr>]"

definition boot_links :: "dt_head links" where
  "boot_links = list_of_two (Children 1) (Parent_Children_Head 2) (Parent_Children_Head 4) ++
     list_of_one (Children 2) (Parent_Children_Head 3) ++
     list_of_two (Props 1) (Node_Props_Head 10) (Node_Props_Head 11) ++
     list_of_two (Props 2) (Node_Props_Head 12) (Node_Props_Head 13) ++
     list_of_one (Props 3) (Node_Props_Head 14) ++ list_of_one (Props 4) (Node_Props_Head 15)"

definition boot_tree :: dt_state where
  "boot_tree = \<lparr>devices = Map.empty, device_links = Map.empty, console = '''',
     dt_nodes = [1 \<mapsto> \<lparr>node_parent = None, node_name = ''''\<rparr>, 2 \<mapsto> \<lparr>node_parent = Some 1, node_name = ''reserved-memory''\<rparr>,
       3 \<mapsto> \<lparr>node_parent = Some 2, node_name = ''block''\<rparr>, 4 \<mapsto> \<lparr>node_parent = Some 1, node_name = ''memory@80000000''\<rparr>],
     dt_props = [10 \<mapsto> \<lparr>prop_node = 1, prop_name = ''#address-cells'', value_len = 4, prop_value = [0, 0, 0, 2]\<rparr>,
       11 \<mapsto> \<lparr>prop_node = 1, prop_name = ''#size-cells'', value_len = 4, prop_value = [0, 0, 0, 2]\<rparr>,
       12 \<mapsto> \<lparr>prop_node = 2, prop_name = ''#address-cells'', value_len = 4, prop_value = [0, 0, 0, 2]\<rparr>,
       13 \<mapsto> \<lparr>prop_node = 2, prop_name = ''#size-cells'', value_len = 4, prop_value = [0, 0, 0, 2]\<rparr>,
       14 \<mapsto> \<lparr>prop_node = 3, prop_name = ''reg'', value_len = 16, prop_value = [0, 0, 0, 0, 128, 0, 0, 0, 0, 0, 0, 0, 0, 32, 0, 0]\<rparr>,
       15 \<mapsto> \<lparr>prop_node = 4, prop_name = ''reg'', value_len = 16, prop_value = [0, 0, 0, 0, 128, 0, 0, 0, 0, 0, 0, 0, 8, 0, 0, 0]\<rparr>],
     dt_links = boot_links, dt_allocs = sconst (Some 4096), dt_rng = example_random, dt_symbols = no_symbols,
     handlers_vec = False, handlers = [], handlers_cap = 0\<rparr>"

lemmas boot_tree_simps = boot_tree_def boot_links_def list_of_one_def list_of_two_def map_add_def is_list_def

lemma boot_tree_props:
  "node_props boot_tree 1 [10, 11]" "node_props boot_tree 2 [12, 13]" "node_props boot_tree 3 [14]" "node_props boot_tree 4 [15]"
  by (simp_all add: node_props_def boot_tree_simps)

lemma boot_tree_cells: "node_cells boot_tree 1 2 2" "node_cells boot_tree 2 2 2"
  unfolding node_cells_def cell_prop_def bytes_of_2
  by (rule exI [of _ "[10, 11]"], simp add: boot_tree_props, simp add: boot_tree_def,
      rule exI [of _ "[12, 13]"], simp add: boot_tree_props, simp add: boot_tree_def)

lemma boot_entries:
  "reg_entry 2 2 (0x80000000, 0x200000) = [0, 0, 0, 0, 128, 0, 0, 0, 0, 0, 0, 0, 0, 32, 0, 0]"
  "reg_entry 2 2 (0x80000000, 0x8000000) = [0, 0, 0, 0, 128, 0, 0, 0, 0, 0, 0, 0, 8, 0, 0, 0]"
  by code_simp+

lemma reg_childI:
  assumes "node_props d n [p]" "dt_props d p = Some pr" "prop_name pr = ''reg''" "prop_node pr = n"
    and "dt_nodes d n = Some node" "node_parent node = Some par" "reg_value pr a s es"
    and "length (prop_value pr) < 2 ^ 32" "\<forall>e \<in> set es. unat (fst e) + unat (snd e) < 2 ^ 56"
  shows "reg_child d par a s n es"
  unfolding reg_child_def by (rule exI [of _ "[p]"]) (use assms in simp)

lemma boot_reg_children: "reg_children boot_tree 2 2 2 [(3, [(0x80000000, 0x200000)])]"
proof -
  have "reg_child boot_tree 2 2 2 3 [(0x80000000, 0x200000)]"
    by (rule reg_childI [OF boot_tree_props(3)])
      (simp add: boot_tree_def, (simp add: reg_value_def fits_cells_def boot_entries boot_tree_def)+)
  then show ?thesis by (simp add: reg_children_def) (simp add: boot_tree_simps)
qed

lemma boot_memory_children: "memory_children boot_tree 1 2 2 [(2, []), (4, [(0x80000000, 0x8000000)])]"
proof -
  have "reg_child boot_tree 1 2 2 4 [(0x80000000, 0x8000000)]"
    by (rule reg_childI [OF boot_tree_props(4)])
      (simp add: boot_tree_def, (simp add: reg_value_def fits_cells_def boot_entries boot_tree_def)+)
  moreover have "dt_nodes boot_tree 2 = Some \<lparr>node_parent = Some 1, node_name = ''reserved-memory''\<rparr>"
    "dt_nodes boot_tree 4 = Some \<lparr>node_parent = Some 1, node_name = ''memory@80000000''\<rparr>"
    by (simp_all add: boot_tree_def)
  ultimately show ?thesis by (simp add: memory_children_def is_memory_name_def) (simp add: boot_tree_simps)
qed

lemma boot_reserved: "devicetree_child boot_tree 1 ''reserved-memory'' = Some (Some 2)"
  by (simp add: devicetree_child_def child_from.simps boot_tree_simps)

text \<open>
  \<open>C36\<close>.  The array of reservations holds the entry of every child of \<^verbatim>\<open>/reserved-memory\<close> when none has a second
  one.  If one has, the loop that advances its index twice leaves out entries that were counted, and the
  assertion on the number of entries panics.
\<close>

theorem reserved_memory_to_array_exact:
  assumes "devicetree_child d tree ''reserved-memory'' = Some (Some rm)"
    and "node_cells d rm a s" "a = 1 \<or> a = 2" "s = 1 \<or> s = 2"
    and "reg_children d rm a s cs" "sum_list (map (\<lambda>c. length (snd c)) cs) < 2 ^ 64" "shd (dt_allocs d) \<noteq> None"
  shows "reserved_memory_to_array d tree =
    (if \<forall>c \<in> set cs. length (snd c) \<le> 1
     then Some (Some (map reservation_of (concat (map snd cs))), d\<lparr>dt_allocs := stl (dt_allocs d)\<rparr>) else None)"
  by (rule reserved_memory_to_array_spec [OF assms])

theorem reserved_memory_to_array_exact_witness:
  "reserved_memory_to_array boot_tree 1 =
     Some (Some [\<lparr>res_start = paddr_at 0x80000000, res_end = paddr_at 0x80200000\<rparr>], boot_tree)"
proof -
  have "boot_tree\<lparr>dt_allocs := stl (dt_allocs boot_tree)\<rparr> = boot_tree" "shd (dt_allocs boot_tree) \<noteq> None"
    by (simp_all add: boot_tree_def)
  then show ?thesis
    using reserved_memory_to_array_exact [OF boot_reserved boot_tree_cells(2) _ _ boot_reg_children]
    by (simp add: reservation_of_def)
qed

text \<open>
  \<open>C35\<close>.  Initializing the physical allocator from a device tree in which every reservation and every memory node
  has one entry, the reservations in descending order of address and the regions apart: it succeeds, and the
  free frames are then exactly the frames of the memory regions that touch no reservation, besides those
  that were free before.
\<close>

theorem mm_init_physical_correct:
  assumes "devicetree_child d tree ''reserved-memory'' = Some (Some rm)"
    and "node_cells d rm a s" "a = 1 \<or> a = 2" "s = 1 \<or> s = 2"
    and "reg_children d rm a s cs" "\<forall>c \<in> set cs. length (snd c) \<le> 1" "length cs < 2 ^ 64"
    and "shd (dt_allocs d) \<noteq> None"
    and "node_cells d tree a' s'" "a' = 1 \<or> a' = 2" "s' = 1 \<or> s' = 2"
    and "memory_children d tree a' s' ms" "\<forall>m \<in> set ms. length (snd m) \<le> 1"
    and "phys_inv ps F" "reservations_ok (map boot_reservation (concat (map snd cs)))"
    and "\<forall>e \<in> set (concat (map snd ms)). region_ok e" "sorted_wrt apart (concat (map snd ms))"
    and "\<forall>e \<in> set (concat (map snd ms)). frames_between (unat (fst e)) (region_end e) \<inter> F = {}"
  shows "\<exists>ps' d'. mm_init_physical ps d tree = Some (ps', d') \<and>
    phys_inv ps' ((\<Union>e \<in> set (concat (map snd ms)). usable (map boot_reservation (concat (map snd cs))) (unat (fst e)) (region_end e)) \<union> F)"
  by (rule mm_init_physical_spec [OF assms])

theorem mm_init_physical_correct_witness:
  "\<exists>ps' d'. mm_init_physical boot_state boot_tree 1 = Some (ps', d') \<and>
     phys_inv ps' (usable [(0x80000000, 0x80200000)] 0x80000000 0x88000000)"
proof -
  have "shd (dt_allocs boot_tree) \<noteq> None" by (simp add: boot_tree_def)
  from mm_init_physical_correct [OF boot_reserved boot_tree_cells(2) _ _ boot_reg_children _ _ this boot_tree_cells(1) _ _ boot_memory_children _ boot_inv]
  show ?thesis
    by (simp add: boot_reservation_def region_end_def reservations_ok_def region_ok_def window_def ends_at_4g_def)
qed

end
