(* ===== verification/Iomem.thy ===== *)
theory Iomem
  imports Address_Space Paging
begin

unbundle bit_operations_syntax

text \<open>
  Mapping the registers of devices, \<^verbatim>\<open>iomem_map\<close> and \<^verbatim>\<open>iomem_unmap\<close> of \<^verbatim>\<open>arch/riscv64/paging.c\<close>: the
  composition of the virtual memory allocator, which chooses the pages, and the page tables.
\<close>

record iomem_state =
  io_virtual :: va_state
  io_paging :: paging_state

text \<open>The loop that maps the pages; with \<open>Some i\<close> it stopped because no table could be allocated for the page at \<open>i\<close>.\<close>

partial_function (option) iomem_map_pages ::
    "paging_state \<Rightarrow> uaddr \<Rightarrow> paddr \<Rightarrow> usize \<Rightarrow> usize \<Rightarrow> (usize option \<times> paging_state) option" where
  "iomem_map_pages s lo addr_aligned len i =
     (if i < len then do {
        pa \<leftarrow> paddr_offset addr_aligned i;
        (ok, s) \<leftarrow> mm_paging_map s (lo + i) pa PGPERM_KRW;
        if \<not> ok then Some (Some i, s)
        else iomem_map_pages s lo addr_aligned len (i + PAGE_SIZE)
      } else Some (None, s))"

text \<open>The loops that unmap the pages from \<open>j\<close> to \<open>len\<close>, each of which has to be mapped.\<close>

partial_function (option) iomem_unmap_pages :: "paging_state \<Rightarrow> uaddr \<Rightarrow> usize \<Rightarrow> usize \<Rightarrow> paging_state option" where
  "iomem_unmap_pages s lo len j =
     (if j < len then do {
        ((ok, _), s) \<leftarrow> mm_paging_unmap s (lo + j);
        assert_that ok;
        iomem_unmap_pages s lo len (j + PAGE_SIZE)
      } else Some s)"

text \<open>The pointer is null when the result is \<open>None\<close>.\<close>

definition iomem_map :: "iomem_state \<Rightarrow> paddr \<Rightarrow> usize \<Rightarrow> (uaddr option \<times> iomem_state) option" where
  "iomem_map s addr sz = do {
     addr_aligned \<leftarrow> align_down_paddr addr PAGE_BITS;
     d \<leftarrow> paddr_diff addr addr_aligned;
     let sz = align_up_uaddr (sz + d) PAGE_BITS;
     (vma, va) \<leftarrow> vma_alloc (io_virtual s) (drop_bit PAGE_BITS sz);
     let s = s\<lparr>io_virtual := va\<rparr>;
     (case vma of None \<Rightarrow> Some (None, s)
      | Some v \<Rightarrow> do {
          (lo, hi) \<leftarrow> vma_bounds va v;
          (failed, pg) \<leftarrow> iomem_map_pages (io_paging s) lo addr_aligned (hi - lo) 0;
          (case failed of None \<Rightarrow> Some (Some lo, s\<lparr>io_paging := pg\<rparr>)
           | Some i \<Rightarrow> do {
               pg \<leftarrow> iomem_unmap_pages pg lo i 0;
               Some (None, s\<lparr>io_paging := pg\<rparr>)
             })
        })
   }"

text \<open>The size that is passed is rounded but not used.\<close>

definition iomem_unmap :: "iomem_state \<Rightarrow> uaddr option \<Rightarrow> usize \<Rightarrow> iomem_state option" where
  "iomem_unmap s ptr sz = (case ptr of None \<Rightarrow> Some s
     | Some p \<Rightarrow> do {
         vma \<leftarrow> vma_find (io_virtual s) p;
         (lo, hi) \<leftarrow> vma_bounds (io_virtual s) vma;
         pg \<leftarrow> iomem_unmap_pages (io_paging s) lo (hi - lo) 0;
         va \<leftarrow> vma_free (io_virtual s) (Some vma);
         Some (s\<lparr>io_paging := pg, io_virtual := va\<rparr>)
       })"

section \<open>Pages in the page tables\<close>

text \<open>The indices of a page are its number in base 512, so up to \<open>2 ^ 27\<close> successive pages have different ones.\<close>

lemma vpn_div: "vpn level va = unat va div 2 ^ (12 + 9 * level) mod 512"
proof -
  have "drop_bit (12 + 9 * level) va AND 0x1ff = take_bit 9 (drop_bit (12 + 9 * level) va)"
    by (simp add: take_bit_eq_mask mask_eq_exp_minus_1)
  moreover have "unat (take_bit 9 w) = unat w mod 512" for w :: u64
    using unsigned_take_bit_eq [of 9 w, where ?'a = nat] by (simp add: take_bit_eq_mod)
  moreover have "unat (drop_bit (12 + 9 * level) va) = unat va div 2 ^ (12 + 9 * level)"
    by (simp only: unsigned_drop_bit_eq) (simp add: drop_bit_eq_div take_bit_unat_64)
  ultimately show ?thesis by (simp only: vpn_def)
qed

lemma indices_page:
  assumes "indices va = indices vb"
  shows "unat va div 4096 mod 2 ^ 27 = unat vb div 4096 mod 2 ^ 27"
proof -
  have split: "n mod 2 ^ 27 = n mod 512 + 512 * (n div 512 mod 512) + 2 ^ 18 * (n div 2 ^ 18 mod 512)" for n :: nat
  proof -
    have "n mod (512 * 2 ^ 18) = 512 * (n div 512 mod 2 ^ 18) + n mod 512" by (rule mod_mult2_eq)
    moreover have "n div 512 mod (512 * 512) = 512 * (n div 512 div 512 mod 512) + n div 512 mod 512" by (rule mod_mult2_eq)
    moreover have "n div 512 div 512 = n div 2 ^ 18" by (simp add: div_mult2_eq [symmetric])
    ultimately show ?thesis by simp
  qed
  have v: "vpn 0 w = unat w div 4096 mod 512" "vpn 1 w = unat w div 4096 div 512 mod 512"
    "vpn 2 w = unat w div 4096 div 2 ^ 18 mod 512" for w
    by (simp_all add: vpn_div div_mult2_eq [symmetric])
  show ?thesis
    using assms unfolding split [of "unat va div 4096"] split [of "unat vb div 4096"] v [symmetric] by (simp add: indices_def)
qed

lemma mod_shift_eq:
  fixes b p q m :: nat
  assumes "(b + p) mod m = (b + q) mod m" "p < m" "q < m"
  shows "p = q"
proof -
  have le: "x = y" if "(b + x) mod m = (b + y) mod m" "x < m" "y < m" "x \<le> y" for x y
  proof -
    have "m dvd (b + y) - (b + x)" using that(1,4) by (subst mod_eq_dvd_iff_nat [symmetric]) simp_all
    then have "m dvd y - x" by simp
    then show "x = y" using that(3,4) by (auto dest: dvd_imp_le)
  qed
  show ?thesis using le [of p q] le [of q p] assms by (cases "p \<le> q") auto
qed

lemma indices_inject:
  assumes r: "range_ok st" "total_pages st \<le> 2 ^ 27" and p: "p < total_pages st" "q < total_pages st"
    and e: "indices (addr_at st p) = indices (addr_at st q)"
  shows "p = q"
proof -
  obtain b where b: "unat (lo_address st) = 4096 * b" using r(1) by (auto simp: range_ok_def elim: dvdE)
  have page: "unat (addr_at st p) div 4096 = b + p" if "p < total_pages st" for p
    using unat_addr_at [OF r(1), of p] that b by (simp add: div_add [of 4096, simplified])
  have m: "(b + p) mod 2 ^ 27 = (b + q) mod 2 ^ 27"
    using indices_page [OF e] page p by simp
  have "p < 2 ^ 27" "q < 2 ^ 27" using r(2) p by simp_all
  with m show ?thesis by (rule mod_shift_eq)
qed

section \<open>The loops\<close>

definition page :: "uaddr \<Rightarrow> nat \<Rightarrow> uaddr" where
  "page lo k = lo + of_nat (4096 * k)"

definition add_pages :: "uaddr \<Rightarrow> nat \<Rightarrow> nat list \<Rightarrow> (nat \<times> nat \<times> nat \<rightharpoonup> pte) \<Rightarrow> nat \<times> nat \<times> nat \<rightharpoonup> pte" where
  "add_pages lo q ks M = fold (\<lambda>k M. M(indices (page lo k) \<mapsto> page_entry (q + 4096 * k) PGPERM_KRW)) ks M"

definition del_pages :: "uaddr \<Rightarrow> nat list \<Rightarrow> (nat \<times> nat \<times> nat \<rightharpoonup> pte) \<Rightarrow> nat \<times> nat \<times> nat \<rightharpoonup> pte" where
  "del_pages lo ks M = fold (\<lambda>k M. M(indices (page lo k) := None)) ks M"

lemma add_pages_other: "x \<notin> (\<lambda>k. indices (page lo k)) ` set ks \<Longrightarrow> add_pages lo q ks M x = M x"
  by (induction ks arbitrary: M) (auto simp: add_pages_def)

lemma add_pages_at:
  "k \<in> set ks \<Longrightarrow> inj_on (\<lambda>k. indices (page lo k)) (set ks) \<Longrightarrow>
     add_pages lo q ks M (indices (page lo k)) = Some (page_entry (q + 4096 * k) PGPERM_KRW)"
proof (induction ks arbitrary: M)
  case (Cons j ks)
  show ?case
  proof (cases "k \<in> set ks")
    case True
    then show ?thesis using Cons by (simp add: add_pages_def)
  next
    case False
    then have "indices (page lo k) \<notin> (\<lambda>k. indices (page lo k)) ` set ks" "k = j"
      using Cons.prems by (auto dest: inj_onD)
    then show ?thesis using add_pages_other [of "indices (page lo k)" lo ks q] by (simp add: add_pages_def)
  qed
qed simp

lemma del_pages_apply: "del_pages lo ks M x = (if x \<in> (\<lambda>k. indices (page lo k)) ` set ks then None else M x)"
  by (induction ks arbitrary: M) (auto simp: del_pages_def)

lemma pages_step:
  assumes "n < 2 ^ 52" "j < n"
  shows "(of_nat (4096 * j) :: usize) < of_nat (4096 * n)" "(of_nat (4096 * j) :: usize) + PAGE_SIZE = of_nat (4096 * Suc j)"
    "unat (of_nat (4096 * j) :: usize) = 4096 * j"
proof -
  have "4096 * n < 2 ^ 64" "4096 * j < 2 ^ 64" using assms by simp_all
  then show "(of_nat (4096 * j) :: usize) < of_nat (4096 * n)"
    using assms(2) by (simp only: of_nat_less_iff_small)
  show "unat (of_nat (4096 * j) :: usize) = 4096 * j"
    by (rule unat_of_nat_small) (use \<open>4096 * j < 2 ^ 64\<close> in simp)
  show "(of_nat (4096 * j) :: usize) + PAGE_SIZE = of_nat (4096 * Suc j)"
    by (simp add: PAGE_SIZE_def PAGE_BITS_def push_bit_eq_mult)
qed

text \<open>A run of \<open>n\<close> pages that can be mapped to the frames from \<open>q\<close> on.\<close>

definition mappable :: "uaddr \<Rightarrow> nat \<Rightarrow> nat \<Rightarrow> bool" where
  "mappable lo q n \<longleftrightarrow> n < 2 ^ 52 \<and> 4096 dvd q \<and> q + 4096 * n \<le> 2 ^ 56 \<and>
     (\<forall>k < n. walkable (page lo k)) \<and> inj_on (\<lambda>k. indices (page lo k)) {..<n}"

lemma small_page_same: "large s' = large s \<Longrightarrow> small_page s' va = small_page s va"
  by (simp add: small_page_def)

lemma iomem_map_pages_spec:
  assumes run: "mappable lo q n" and j: "j \<le> n"
    and inv: "paging_inv s F" and new: "\<forall>k \<in> {j..<n}. mapping s (indices (page lo k)) = None"
    and small: "\<forall>k \<in> {j..<n}. small_page s (page lo k)"
  shows "\<exists>r s' F'. iomem_map_pages s lo (paddr_at q) (of_nat (4096 * n)) (of_nat (4096 * j)) = Some (r, s') \<and> paging_inv s' F' \<and>
    large s' = large s \<and> F' \<subseteq> F \<and> F' \<union> table_frames s' = F \<union> table_frames s \<and>
    (case r of None \<Rightarrow> mapping s' = add_pages lo q [j..<n] (mapping s)
     | Some i \<Rightarrow> \<exists>m. j \<le> m \<and> m < n \<and> i = of_nat (4096 * m) \<and> card F < 2 * (n - j) \<and> mapping s' = add_pages lo q [j..<m] (mapping s))"
  using j inv new small
proof (induction "n - j" arbitrary: j s F rule: less_induct)
  case less
  show ?case
  proof (cases "j < n")
    case False
    then have "j = n" using less.prems by simp
    then show ?thesis
      using less.prems by (subst iomem_map_pages.simps) (simp add: add_pages_def exI [of _ F])
  next
    case True
    have n: "n < 2 ^ 52" and q: "4096 dvd q" "q + 4096 * n \<le> 2 ^ 56" and w: "walkable (page lo j)"
      using run True by (simp_all add: mappable_def)
    note st = pages_step [OF n True]
    have qj: "q + 4096 * j < 2 ^ 56" "page_paddr (q + 4096 * j)" using q True by (simp_all add: page_paddr_def)
    have pa: "paddr_offset (paddr_at q) (of_nat (4096 * j)) = Some (paddr_at (q + 4096 * j))"
      using qj(1) by (subst paddr_offset_at) (simp_all add: st(3) del: of_nat_mult)
    have u: "iomem_map_pages s lo (paddr_at q) (of_nat (4096 * n)) (of_nat (4096 * j)) = do {
        (ok, s) \<leftarrow> mm_paging_map s (page lo j) (paddr_at (q + 4096 * j)) PGPERM_KRW;
        if \<not> ok then Some (Some (of_nat (4096 * j)), s)
        else iomem_map_pages s lo (paddr_at q) (of_nat (4096 * n)) (of_nat (4096 * Suc j)) }"
      unfolding st(2) [symmetric] using st(1) pa by (subst iomem_map_pages.simps) (simp add: page_def del: of_nat_mult)
    have sm: "small_page s (page lo j)" and "mapping s (indices (page lo j)) = None" using less.prems(3,4) True by simp_all
    from mm_paging_map_cases [OF less.prems(2) w sm qj(2) this(2), of PGPERM_KRW] show ?thesis
    proof
      assume "\<exists>s'. mm_paging_map s (page lo j) (paddr_at (q + 4096 * j)) PGPERM_KRW = Some (False, s') \<and> grown s F s' {} \<and> card F \<le> 1"
      then obtain s' where s': "mm_paging_map s (page lo j) (paddr_at (q + 4096 * j)) PGPERM_KRW = Some (False, s')"
        "paging_inv s' {}" "mapping s' = mapping s" "large s' = large s" "table_frames s' = F \<union> table_frames s" "card F \<le> 1"
        by (auto simp: grown_def)
      show ?thesis
        by (rule exI [of _ "Some (of_nat (4096 * j))"], rule exI [of _ s'], rule exI [of _ "{}"])
          (use s' True in \<open>simp add: u add_pages_def exI [of _ j] del: of_nat_mult\<close>)
    next
      assume "\<exists>s' F'. mm_paging_map s (page lo j) (paddr_at (q + 4096 * j)) PGPERM_KRW = Some (True, s') \<and> paging_inv s' F' \<and>
        mapping s' = (mapping s)(indices (page lo j) \<mapsto> page_entry (q + 4096 * j) PGPERM_KRW) \<and> large s' = large s \<and>
        F' \<subseteq> F \<and> F' \<union> table_frames s' = F \<union> table_frames s \<and> card F \<le> card F' + 2"
      then obtain s1 F1 where s1: "mm_paging_map s (page lo j) (paddr_at (q + 4096 * j)) PGPERM_KRW = Some (True, s1)"
        "paging_inv s1 F1" "mapping s1 = (mapping s)(indices (page lo j) \<mapsto> page_entry (q + 4096 * j) PGPERM_KRW)"
        "card F \<le> card F1 + 2" "large s1 = large s" "F1 \<subseteq> F" "F1 \<union> table_frames s1 = F \<union> table_frames s"
        by blast
      have "indices (page lo k) \<noteq> indices (page lo j)" if "k \<in> {Suc j..<n}" for k
        using run that True inj_onD [of "\<lambda>k. indices (page lo k)" "{..<n}" k j] by (auto simp: mappable_def)
      then have "\<forall>k \<in> {Suc j..<n}. mapping s1 (indices (page lo k)) = None" using less.prems(3) s1(3) by auto
      note new1 = this
      have small1: "\<forall>k \<in> {Suc j..<n}. small_page s1 (page lo k)" using less.prems(4) small_page_same [OF s1(5)] by simp
      have less1: "n - Suc j < n - j" "Suc j \<le> n" using True by simp_all
      from less.hyps [OF less1 s1(2) new1 small1] obtain r s' F' where
        all: "iomem_map_pages s1 lo (paddr_at q) (of_nat (4096 * n)) (of_nat (4096 * Suc j)) = Some (r, s') \<and>
        paging_inv s' F' \<and> large s' = large s1 \<and> F' \<subseteq> F1 \<and> F' \<union> table_frames s' = F1 \<union> table_frames s1 \<and>
        (case r of None \<Rightarrow> mapping s' = add_pages lo q [Suc j..<n] (mapping s1)
         | Some i \<Rightarrow> \<exists>m. Suc j \<le> m \<and> m < n \<and> i = of_nat (4096 * m) \<and> card F1 < 2 * (n - Suc j) \<and> mapping s' = add_pages lo q [Suc j..<m] (mapping s1))"
        by (elim exE) (rule that)
      note s' = conjunct1 [OF all] conjunct2 [OF all]
      note s'3 = s'(2) [THEN conjunct2, THEN conjunct2, THEN conjunct2, THEN conjunct2]
      have add: "add_pages lo q [Suc j..<m] (mapping s1) = add_pages lo q [j..<m] (mapping s)" if "j < m" for m
        using that by (simp add: add_pages_def upt_conv_Cons s1(3))
      have "iomem_map_pages s lo (paddr_at q) (of_nat (4096 * n)) (of_nat (4096 * j)) = Some (r, s')"
        using s1(1) s'(1) by (simp add: u del: of_nat_mult of_nat_Suc)
      moreover have "case r of None \<Rightarrow> mapping s' = add_pages lo q [j..<n] (mapping s)
         | Some i \<Rightarrow> \<exists>m. j \<le> m \<and> m < n \<and> i = of_nat (4096 * m) \<and> card F < 2 * (n - j) \<and> mapping s' = add_pages lo q [j..<m] (mapping s)"
        using s'3 s1(4) True by (cases r) (auto simp: add intro: exI dest: Suc_leD)
      moreover have "paging_inv s' F'" "large s' = large s" "F' \<subseteq> F" "F' \<union> table_frames s' = F \<union> table_frames s"
        using s'(2) s1(5-7) by auto
      ultimately show ?thesis by (intro exI [of _ r] exI [of _ s'] exI [of _ F'] conjI)
    qed
  qed
qed

lemma iomem_unmap_pages_spec:
  assumes run: "mappable lo q n" and m: "m \<le> n" and j: "j \<le> m"
    and inv: "paging_inv s F" and old: "\<forall>k \<in> {j..<m}. mapping s (indices (page lo k)) \<noteq> None"
    and small: "\<forall>k \<in> {j..<m}. small_page s (page lo k)"
  shows "\<exists>s'. iomem_unmap_pages s lo (of_nat (4096 * m)) (of_nat (4096 * j)) = Some s' \<and> paging_inv s' F \<and>
    large s' = large s \<and> table_frames s' = table_frames s \<and>
    mapping s' = del_pages lo [j..<m] (mapping s)"
  using j inv old small
proof (induction "m - j" arbitrary: j s rule: less_induct)
  case less
  show ?case
  proof (cases "j < m")
    case False
    then have "j = m" using less.prems by simp
    then show ?thesis using less.prems by (subst iomem_unmap_pages.simps) (simp add: del_pages_def)
  next
    case True
    have n: "m < 2 ^ 52" and w: "walkable (page lo j)" using run True m by (simp_all add: mappable_def)
    note st = pages_step [OF n True]
    obtain e where "mapping s (indices (page lo j)) = Some e" using less.prems(3) True by fastforce
    moreover have sm: "small_page s (page lo j)" using less.prems(4) True by simp
    ultimately obtain s1 pa where s1: "mm_paging_unmap s (page lo j) = Some ((True, pa), s1)"
      "paging_inv s1 F" "mapping s1 = (mapping s)(indices (page lo j) := None)" "large s1 = large s" "table_frames s1 = table_frames s"
      using mm_paging_unmap_cases [OF less.prems(2) w sm] by auto
    have "iomem_unmap_pages s lo (of_nat (4096 * m)) (of_nat (4096 * j)) =
        iomem_unmap_pages s1 lo (of_nat (4096 * m)) (of_nat (4096 * Suc j))"
      unfolding st(2) [symmetric] using st(1) s1(1) by (subst iomem_unmap_pages.simps) (simp add: page_def del: of_nat_mult)
    moreover have "indices (page lo k) \<noteq> indices (page lo j)" if "k \<in> {Suc j..<m}" for k
      using run that True m inj_onD [of "\<lambda>k. indices (page lo k)" "{..<n}" k j] by (auto simp: mappable_def)
    then have "\<forall>k \<in> {Suc j..<m}. mapping s1 (indices (page lo k)) \<noteq> None" using less.prems(3) s1(3) by auto
    moreover have "del_pages lo [Suc j..<m] (mapping s1) = del_pages lo [j..<m] (mapping s)"
      using True by (simp add: del_pages_def upt_conv_Cons s1(3))
    moreover have "\<forall>k \<in> {Suc j..<m}. small_page s1 (page lo k)" using less.prems(4) small_page_same [OF s1(4)] by simp
    ultimately show ?thesis using less.hyps [of "Suc j" s1] s1(2,4,5) True by simp
  qed
qed

section \<open>Mapping a device\<close>

text \<open>The number of pages of a region, from its first to its last byte.\<close>

definition region_pages :: "nat \<Rightarrow> usize \<Rightarrow> nat" where
  "region_pages q sz = (q mod 4096 + unat sz + 4095) div 4096"

lemma region_size:
  assumes "q < 2 ^ 56" "q + unat sz + 4095 \<le> 2 ^ 56"
  shows "align_down_paddr (paddr_at q) PAGE_BITS = Some (paddr_at (q - q mod 4096))"
    "paddr_diff (paddr_at q) (paddr_at (q - q mod 4096)) = Some (of_nat (q mod 4096))"
    "drop_bit PAGE_BITS (align_up_uaddr (sz + of_nat (q mod 4096)) PAGE_BITS) = of_nat (region_pages q sz)"
    "q - q mod 4096 + 4096 * region_pages q sz \<le> 2 ^ 56" "4096 dvd q - q mod 4096"
proof -
  have b: "q - q mod 4096 = q div 4096 * 4096" using minus_mod_eq_div_mult [of q 4096] .
  show "align_down_paddr (paddr_at q) PAGE_BITS = Some (paddr_at (q - q mod 4096))"
    using assms(1) by (simp add: align_down_paddr_at PAGE_BITS_def b)
  show "paddr_diff (paddr_at q) (paddr_at (q - q mod 4096)) = Some (of_nat (q mod 4096))"
    using assms(1) by (subst paddr_diff_at) simp_all
  have r: "q mod 4096 < 4096" by simp
  have n: "unat (sz + of_nat (q mod 4096)) = unat sz + q mod 4096"
    using assms r by (subst unat_plus_small) (simp_all add: unat_of_nat_small)
  have "unat (align_up_uaddr (sz + of_nat (q mod 4096)) 12) = (unat sz + q mod 4096 + 2 ^ 12 - 1) div 2 ^ 12 * 2 ^ 12"
    unfolding n [symmetric] by (rule unat_align_up) (simp, unfold n, use assms(2) r in simp)
  moreover have "unat sz + q mod 4096 + 2 ^ 12 - 1 = q mod 4096 + unat sz + 4095" by simp
  ultimately have up: "unat (align_up_uaddr (sz + of_nat (q mod 4096)) 12) = region_pages q sz * 2 ^ 12"
    unfolding region_pages_def by simp
  have "unat (drop_bit 12 w) = unat w div 2 ^ 12" for w :: u64
    by (simp only: unsigned_drop_bit_eq) (simp add: drop_bit_eq_div take_bit_unat_64)
  then have "unat (drop_bit PAGE_BITS (align_up_uaddr (sz + of_nat (q mod 4096)) PAGE_BITS)) = region_pages q sz"
    using up by (simp add: PAGE_BITS_def)
  from arg_cong [OF this, of "of_nat :: nat \<Rightarrow> usize"]
  show "drop_bit PAGE_BITS (align_up_uaddr (sz + of_nat (q mod 4096)) PAGE_BITS) = of_nat (region_pages q sz)" by simp
  have "4096 * region_pages q sz \<le> q mod 4096 + unat sz + 4095"
    unfolding region_pages_def by (rule times_div_less_eq_dividend)
  then show "q - q mod 4096 + 4096 * region_pages q sz \<le> 2 ^ 56"
    using assms(2) mod_less_eq_dividend [of q 4096] by linarith
  show "4096 dvd q - q mod 4096" by (simp add: b)
qed

text \<open>
  The pages of the range that no VMA uses are not mapped, and the range lies beside the large pages, as the
  range of the kernel, from 0xffffffe000000000 to 0xffffffffc0000000, lies beside the window on physical
  memory; \<open>walkable\<close> says that the whole range can be mapped.
\<close>

definition io_ready :: "iomem_state \<Rightarrow> vptr list \<Rightarrow> nat set \<Rightarrow> bool" where
  "io_ready s xs F \<longleftrightarrow> va_inv (io_virtual s) xs \<and> good_draws (draws (io_virtual s)) \<and> paging_inv (io_paging s) F \<and>
     total_pages (io_virtual s) \<le> 2 ^ 27 \<and>
     (\<forall>p < total_pages (io_virtual s). walkable (addr_at (io_virtual s) p) \<and>
        small_page (io_paging s) (addr_at (io_virtual s) p) \<and>
        (free_run (used_vmas (io_virtual s) xs) p (p + 1) \<longrightarrow> mapping (io_paging s) (indices (addr_at (io_virtual s) p)) = None))"

text \<open>The outcome of a successful mapping: \<open>n\<close> pages that nothing used are mapped to the frames from \<open>b\<close> on.\<close>

definition newly_mapped :: "iomem_state \<Rightarrow> vptr list \<Rightarrow> iomem_state \<Rightarrow> vptr list \<Rightarrow> uaddr \<Rightarrow> nat \<Rightarrow> nat \<Rightarrow> bool" where
  "newly_mapped s xs s' xs' ptr b n \<longleftrightarrow> (\<exists>v p. ptr = addr_at (io_virtual s) p \<and> p + n \<le> total_pages (io_virtual s) \<and>
     vfree (io_virtual s) v \<and> free_run (used_vmas (io_virtual s) xs) p (p + n) \<and>
     used_vmas (io_virtual s') xs' = insert (v, p, n) (used_vmas (io_virtual s) xs) \<and>
     addr_at (io_virtual s') = addr_at (io_virtual s) \<and>
     mapping (io_paging s') = add_pages ptr b [0..<n] (mapping (io_paging s)))"

text \<open>
  The outcome of a mapping that failed: no page is mapped.  Either no run of pages was long enough and the
  allocator is as before, or the frames ran out, and then the run that was allocated stays a used VMA although
  nothing refers to it any more.
\<close>

definition iomem_failed :: "iomem_state \<Rightarrow> vptr list \<Rightarrow> nat set \<Rightarrow> iomem_state \<Rightarrow> vptr list \<Rightarrow> nat \<Rightarrow> bool" where
  "iomem_failed s xs F s' xs' n \<longleftrightarrow> mapping (io_paging s') = mapping (io_paging s) \<and>
     addr_at (io_virtual s') = addr_at (io_virtual s) \<and>
     (used_vmas (io_virtual s') xs' = used_vmas (io_virtual s) xs \<and>
        (\<forall>p. p + n \<le> total_pages (io_virtual s) \<longrightarrow> \<not> free_run (used_vmas (io_virtual s) xs) p (p + n)) \<or>
      card F < 2 * n \<and> (\<exists>v p. p + n \<le> total_pages (io_virtual s) \<and> free_run (used_vmas (io_virtual s) xs) p (p + n) \<and>
        used_vmas (io_virtual s') xs' = insert (v, p, n) (used_vmas (io_virtual s) xs)))"

text \<open>Every frame that left the free ones is a page table, and the large pages are the same.\<close>

definition frames_kept :: "iomem_state \<Rightarrow> nat set \<Rightarrow> iomem_state \<Rightarrow> nat set \<Rightarrow> bool" where
  "frames_kept s F s' F' \<longleftrightarrow> large (io_paging s') = large (io_paging s) \<and> F' \<subseteq> F \<and>
     F' \<union> table_frames (io_paging s') = F \<union> table_frames (io_paging s)"

lemma frames_kept_refl [simp]: "frames_kept s F s F"
  by (simp add: frames_kept_def)

lemma frames_kept_trans: "frames_kept s F s1 F1 \<Longrightarrow> frames_kept s1 F1 s2 F2 \<Longrightarrow> frames_kept s F s2 F2"
  by (auto simp: frames_kept_def)

lemma io_ready_mappable:
  assumes "io_ready s xs F" "p + n \<le> total_pages (io_virtual s)" "4096 dvd b" "b + 4096 * n \<le> 2 ^ 56"
  shows "mappable (addr_at (io_virtual s) p) b n" "page (addr_at (io_virtual s) p) k = addr_at (io_virtual s) (p + k)"
proof -
  let ?va = "io_virtual s"
  have ro: "range_ok ?va" "total_pages ?va \<le> 2 ^ 27" using assms(1) by (auto simp: io_ready_def va_inv_def va_core_def)
  have wk: "\<And>p. p < total_pages ?va \<Longrightarrow> walkable (addr_at ?va p)" using assms(1) by (simp add: io_ready_def)
  have pages: "page (addr_at ?va p) k = addr_at ?va (p + k)" for k by (simp add: page_def addr_at_def algebra_simps)
  then show "page (addr_at (io_virtual s) p) k = addr_at (io_virtual s) (p + k)" .
  have "inj_on (\<lambda>k. indices (addr_at ?va (p + k))) {..<n}"
  proof (rule inj_onI)
    fix i j assume "i \<in> {..<n}" "j \<in> {..<n}" "indices (addr_at ?va (p + i)) = indices (addr_at ?va (p + j))"
    then have "p + i = p + j" using assms(2) by (intro indices_inject [OF ro]) auto
    then show "i = j" by simp
  qed
  then show "mappable (addr_at (io_virtual s) p) b n"
    using assms wk ro(2) by (simp add: mappable_def pages)
qed

lemma io_ready_step:
  assumes ready: "io_ready s xs F" and va: "va_inv va' xs'" "good_draws (draws va')" "same_range (io_virtual s) va'"
      "addr_at va' = addr_at (io_virtual s)" and pg: "paging_inv pg' F'" "large pg' = large (io_paging s)"
    and new: "\<And>p. p < total_pages (io_virtual s) \<Longrightarrow> free_run (used_vmas va' xs') p (p + 1) \<Longrightarrow>
      mapping pg' (indices (addr_at (io_virtual s) p)) = None"
  shows "io_ready \<lparr>io_virtual = va', io_paging = pg'\<rparr> xs' F'"
  using assms same_range_pages [OF va(3)] small_page_same [OF pg(2)] by (auto simp: io_ready_def)

lemma io_ready_small: "io_ready s xs F \<Longrightarrow> p < total_pages (io_virtual s) \<Longrightarrow> small_page (io_paging s) (addr_at (io_virtual s) p)"
  by (simp add: io_ready_def)

lemma page_used_or_unmapped:
  assumes "io_ready s xs F" "free_run (used_vmas (io_virtual s) xs) p (p + 1)" "p < total_pages (io_virtual s)"
  shows "mapping (io_paging s) (indices (addr_at (io_virtual s) p)) = None"
  using assms by (simp add: io_ready_def)

lemma iomem_map_spec:
  assumes ready: "io_ready s xs F" and u: "shd (allocs (io_virtual s)) = Some u" "u \<notin> set xs"
    and q: "q < 2 ^ 56" "q + unat sz + 4095 \<le> 2 ^ 56" and n: "n = region_pages q sz" "0 < n" "n \<le> 2 ^ 26"
  shows "\<exists>r s' xs' F'. iomem_map s (paddr_at q) sz = Some (r, s') \<and>
    io_ready s' xs' F' \<and> frames_kept s F s' F' \<and>
    (case r of
       Some ptr \<Rightarrow> newly_mapped s xs s' xs' ptr (q - q mod 4096) n
     | None \<Rightarrow> iomem_failed s xs F s' xs' n)"
proof -
  let ?va = "io_virtual s" and ?pg = "io_paging s" and ?b = "q - q mod 4096"
  have va: "va_inv ?va xs" "good_draws (draws ?va)" and pg: "paging_inv ?pg F" and tp: "total_pages ?va \<le> 2 ^ 27"
    and wk: "\<And>p. p < total_pages ?va \<Longrightarrow> walkable (addr_at ?va p)"
    and unused: "\<And>p. p < total_pages ?va \<Longrightarrow> free_run (used_vmas ?va xs) p (p + 1) \<Longrightarrow> mapping ?pg (indices (addr_at ?va p)) = None"
    using ready by (auto simp: io_ready_def)
  note sz = region_size [OF q, folded n(1)]
  have ro: "range_ok ?va" using va(1) by (simp add: va_inv_def va_core_def)
  note run = iomem_map_def sz(1-3) Let_def
  from va(1) n(2,3) va(2) u show ?thesis
  proof (rule vma_alloc_used)
    assume "\<forall>p. p + n \<le> total_pages ?va \<longrightarrow> \<not> free_run (used_vmas ?va xs) p (p + n)" "vma_alloc ?va (of_nat n) = Some (None, ?va)"
    then show ?thesis using ready by (auto simp: run iomem_failed_def intro!: exI [of _ xs] exI [of _ F])
  next
    fix v st' xs' p k
    assume a: "vma_alloc ?va (of_nat n) = Some (Some v, st')" "va_inv st' xs'"
      "free_run (used_vmas ?va xs) p (p + n)" "p + n \<le> total_pages ?va"
      "used_vmas st' xs' = insert (v, p, n) (used_vmas ?va xs)" "addr_at st' = addr_at ?va"
      "good_draws (draws st')" "fits ?va n v"
    have range: "same_range ?va st'" by (rule vma_alloc_range [OF a(1)])
    have "(v, p, n) \<in> used_vmas st' xs'" using a(5) by simp
    then have v: "v \<in> set xs'" "first_page st' v = p" "pages_in st' v = n" by (auto simp: used_vmas_def)
    have "in_store st' v" using a(2) v(1) by (auto simp: va_inv_def intro: va_core_in_store)
    then have bounds: "vma_bounds st' v = Some (addr_at ?va p, addr_at ?va (p + n))"
      using vma_bounds_eq v a(6) by simp
    have len: "addr_at ?va (p + n) - addr_at ?va p = of_nat (4096 * n)" by (simp add: addr_at_def algebra_simps)
    let ?lo = "addr_at ?va p"
    have map: "mappable ?lo ?b n" and pages: "page ?lo k = addr_at ?va (p + k)" for k
      using io_ready_mappable [OF ready a(4) sz(5) sz(4)] by blast+
    have free: "free_run (used_vmas ?va xs) (p + k) (p + k + 1)" if "k < n" for k
      using a(3) that by (fastforce simp: free_run_def)
    have new: "\<forall>k \<in> {0..<n}. mapping ?pg (indices (page ?lo k)) = None"
      using unused free a(4) by (auto simp: pages)
    have small: "\<forall>k \<in> {0..<n}. small_page ?pg (page ?lo k)"
      using io_ready_small [OF ready] a(4) by (simp add: pages)
    obtain r pg1 F1 where m0: "iomem_map_pages ?pg ?lo (paddr_at ?b) (of_nat (4096 * n)) (of_nat (4096 * 0)) = Some (r, pg1)" "paging_inv pg1 F1"
      and fr: "large pg1 = large ?pg" "F1 \<subseteq> F" "F1 \<union> table_frames pg1 = F \<union> table_frames ?pg" and m1:
      "case r of None \<Rightarrow> mapping pg1 = add_pages ?lo ?b [0..<n] (mapping ?pg)
       | Some i \<Rightarrow> \<exists>m. 0 \<le> m \<and> m < n \<and> i = of_nat (4096 * m) \<and> card F < 2 * (n - 0) \<and> mapping pg1 = add_pages ?lo ?b [0..<m] (mapping ?pg)"
      using iomem_map_pages_spec [OF map le0 pg new small] by blast
    from m0 m1 have m: "iomem_map_pages ?pg ?lo (paddr_at ?b) (of_nat (4096 * n)) 0 = Some (r, pg1)" "paging_inv pg1 F1"
      "case r of None \<Rightarrow> mapping pg1 = add_pages ?lo ?b [0..<n] (mapping ?pg)
       | Some i \<Rightarrow> \<exists>m. 0 \<le> m \<and> m < n \<and> i = of_nat (4096 * m) \<and> card F < 2 * (n - 0) \<and> mapping pg1 = add_pages ?lo ?b [0..<m] (mapping ?pg)"
      by simp_all
    have inj: "inj_on (\<lambda>k. indices (page ?lo k)) (set [0..<m])" if "m \<le> n" for m
      using map that by (auto simp: mappable_def intro: inj_on_subset)
    show ?thesis
    proof (cases r)
      case None
      have run1: "iomem_map s (paddr_at q) sz = Some (Some ?lo, \<lparr>io_virtual = st', io_paging = pg1\<rparr>)"
        using a(1) bounds m(1) None by (simp add: run len del: of_nat_mult)
      moreover have "mapping pg1 (indices (addr_at ?va x)) = None"
        if x: "x < total_pages ?va" "free_run (used_vmas st' xs') x (x + 1)" for x
      proof -
        have fx: "free_run (used_vmas ?va xs) x (x + 1)" "\<not> (p \<le> x \<and> x < p + n)"
          using x(2) by (auto simp: a(5) free_run_def)
        have "indices (addr_at ?va x) \<notin> (\<lambda>k. indices (page ?lo k)) ` set [0..<n]"
        proof
          assume "indices (addr_at ?va x) \<in> (\<lambda>k. indices (page ?lo k)) ` set [0..<n]"
          then obtain k where k: "k < n" "indices (addr_at ?va x) = indices (addr_at ?va (p + k))" by (auto simp: pages)
          then have "x = p + k" using a(4) by (intro indices_inject [OF ro tp x(1)]) auto
          then show False using fx(2) k(1) by simp
        qed
        then show ?thesis using m(3) None unused [OF x(1) fx(1)] add_pages_other by simp
      qed
      then have "io_ready \<lparr>io_virtual = st', io_paging = pg1\<rparr> xs' F1"
        by (intro io_ready_step [OF ready a(2,7) range a(6) m(2) fr(1)])
      moreover have "newly_mapped s xs \<lparr>io_virtual = st', io_paging = pg1\<rparr> xs' ?lo ?b n"
        using a m(3) None unfolding newly_mapped_def fits_def by (intro exI [of _ v] exI [of _ p]) simp
      ultimately show ?thesis by (intro exI [of _ "Some ?lo"] exI [of _ "\<lparr>io_virtual = st', io_paging = pg1\<rparr>"] exI [of _ xs'] exI [of _ F1])
          (simp add: frames_kept_def fr)
    next
      case (Some i)
      then obtain mm where mm: "mm < n" "i = of_nat (4096 * mm)" "mapping pg1 = add_pages ?lo ?b [0..<mm] (mapping ?pg)" "card F < 2 * n"
        using m(3) by auto
      have "\<forall>k \<in> {0..<mm}. mapping pg1 (indices (page ?lo k)) \<noteq> None"
        using add_pages_at [OF _ inj [of mm]] mm by simp
      moreover have "\<forall>k \<in> {0..<mm}. small_page pg1 (page ?lo k)" using small mm(1) small_page_same [OF fr(1)] by simp
      ultimately obtain pg2 where
        pg2: "iomem_unmap_pages pg1 ?lo (of_nat (4096 * mm)) 0 = Some pg2" "paging_inv pg2 F1"
        "mapping pg2 = del_pages ?lo [0..<mm] (mapping pg1)" "large pg2 = large ?pg" "table_frames pg2 = table_frames pg1"
        using iomem_unmap_pages_spec [OF map _ _ m(2), of mm 0] mm(1) fr(1) by auto
      have "mapping pg2 x = mapping ?pg x" for x
      proof (cases "x \<in> (\<lambda>k. indices (page ?lo k)) ` set [0..<mm]")
        case True
        then show ?thesis using new mm(1) by (auto simp: pg2(3) del_pages_apply)
      next
        case False
        then show ?thesis using add_pages_other [OF False] by (simp add: pg2(3) del_pages_apply mm(3))
      qed
      then have "mapping pg2 = mapping ?pg" by blast
      moreover have "iomem_map s (paddr_at q) sz = Some (None, \<lparr>io_virtual = st', io_paging = pg2\<rparr>)"
        using a(1) bounds m(1) Some pg2(1) mm(2) by (simp add: run len del: of_nat_mult)
      moreover have "io_ready \<lparr>io_virtual = st', io_paging = pg2\<rparr> xs' F1"
      proof (rule io_ready_step [OF ready a(2,7) range a(6) pg2(2,4)])
        fix x assume x: "x < total_pages ?va" "free_run (used_vmas st' xs') x (x + 1)"
        then have "free_run (used_vmas ?va xs) x (x + 1)" by (simp add: a(5) free_run_def)
        then show "mapping pg2 (indices (addr_at ?va x)) = None" using unused [OF x(1)] \<open>mapping pg2 = mapping ?pg\<close> by simp
      qed
      moreover have "iomem_failed s xs F \<lparr>io_virtual = st', io_paging = pg2\<rparr> xs' n"
        unfolding iomem_failed_def using a(3-6) mm(4) \<open>mapping pg2 = mapping ?pg\<close> by auto
      moreover have "frames_kept s F \<lparr>io_virtual = st', io_paging = pg2\<rparr> F1" by (simp add: frames_kept_def fr pg2(4,5))
      ultimately show ?thesis
        by (intro exI [of _ None] exI [of _ "\<lparr>io_virtual = st', io_paging = pg2\<rparr>"] exI [of _ xs'] exI [of _ F1]) simp
    qed
  qed
qed

text \<open>Unmapping a used VMA whose pages are all mapped, by the address of its first page.\<close>

lemma iomem_unmap_spec:
  assumes ready: "io_ready s xs F" and v: "(v, p, n) \<in> used_vmas (io_virtual s) xs"
    and old: "\<forall>k < n. mapping (io_paging s) (indices (page (addr_at (io_virtual s) p) k)) \<noteq> None"
  shows "\<exists>s' xs'. iomem_unmap s (Some (addr_at (io_virtual s) p)) sz = Some s' \<and> io_ready s' xs' F \<and> frames_kept s F s' F \<and>
    used_vmas (io_virtual s') xs' = used_vmas (io_virtual s) xs - {(v, p, n)} \<and>
    mapping (io_paging s') = del_pages (addr_at (io_virtual s) p) [0..<n] (mapping (io_paging s))"
proof -
  let ?va = "io_virtual s" and ?pg = "io_paging s"
  have inv: "va_inv ?va xs" "good_draws (draws ?va)" "paging_inv ?pg F" and tp: "total_pages ?va \<le> 2 ^ 27"
    using ready by (simp_all add: io_ready_def)
  have core: "va_core ?va xs" using inv(1) by (simp add: va_inv_def)
  have vd: "v \<in> set xs" "first_page ?va v = p" "pages_in ?va v = n" "\<not> vfree ?va v" using used_vmasD [OF v] by auto
  have b: "p + n \<le> total_pages ?va" "0 < n" using va_core_bounds [OF core vd(1)] pages_pos [of ?va v] vd(2,3) by simp_all
  have find: "vma_find ?va (addr_at ?va p) = Some v"
  proof (rule find_page [OF core])
    show "p < total_pages ?va" using b by simp
    fix w assume w: "w \<in> set xs" "vma_find ?va (addr_at ?va p) = Some w"
      "first_page ?va w \<le> p" "p < first_page ?va w + pages_in ?va w"
    have "w = v" by (rule tiling_same [OF va_coreD(6) [OF core] w(1) vd(1) w(3,4)]) (use vd b(2) in simp_all)
    then show ?thesis using w(2) by simp
  qed
  have bounds: "vma_bounds ?va v = Some (addr_at ?va p, addr_at ?va (p + n))"
    using vma_bounds_eq [OF va_core_in_store [OF core vd(1)]] vd(2,3) by simp
  have len: "addr_at ?va (p + n) - addr_at ?va p = of_nat (4096 * n)" by (simp add: addr_at_def algebra_simps)
  have "4096 dvd (0 :: nat)" "0 + 4096 * n \<le> 2 ^ 56" using b tp by simp_all
  note map = io_ready_mappable(1) [OF ready b(1) this] and pages = io_ready_mappable(2) [OF ready b(1) this]
  obtain pg' where pg: "iomem_unmap_pages ?pg (addr_at ?va p) (of_nat (4096 * n)) 0 = Some pg'" "paging_inv pg' F"
    "mapping pg' = del_pages (addr_at ?va p) [0..<n] (mapping ?pg)" "large pg' = large ?pg" "table_frames pg' = table_frames ?pg"
    using iomem_unmap_pages_spec [OF map le_refl le0 inv(3)] old io_ready_small [OF ready] b(1) by (auto simp: pages)
  show ?thesis
  proof (rule vma_free_spec [OF inv(1) vd(1,4) inv(2)])
    fix va' xs' assume f: "vma_free ?va (Some v) = Some va'" "va_inv va' xs'"
      "used_vmas va' xs' = used_vmas ?va xs - {(v, first_page ?va v, pages_in ?va v)}" "good_draws (draws va')"
      "addr_at va' = addr_at ?va"
    have "mapping pg' (indices (addr_at ?va x)) = None"
      if x: "x < total_pages ?va" "free_run (used_vmas va' xs') x (x + 1)" for x
    proof (cases "p \<le> x \<and> x < p + n")
      case True
      then have "indices (addr_at ?va x) \<in> (\<lambda>k. indices (page (addr_at ?va p) k)) ` set [0..<n]"
        by (intro image_eqI [of _ _ "x - p"]) (auto simp: pages)
      then show ?thesis by (simp add: pg(3) del_pages_apply)
    next
      case False
      then have "free_run (used_vmas ?va xs) x (x + 1)" using x(2) by (fastforce simp: f(3) [unfolded vd(2,3)] free_run_def)
      then show ?thesis using page_used_or_unmapped [OF ready _ x(1)] by (simp add: pg(3) del_pages_apply)
    qed
    then have "io_ready \<lparr>io_virtual = va', io_paging = pg'\<rparr> xs' F"
      by (intro io_ready_step [OF ready f(2,4) vma_free_range [OF f(1)] f(5) pg(2,4)])
    moreover have "iomem_unmap s (Some (addr_at ?va p)) sz = Some \<lparr>io_virtual = va', io_paging = pg'\<rparr>"
      using find bounds pg(1) f(1) by (simp add: iomem_unmap_def len del: of_nat_mult)
    ultimately show ?thesis using pg(3-5) f(3) vd(2,3) unfolding frames_kept_def
      by (intro exI [of _ "\<lparr>io_virtual = va', io_paging = pg'\<rparr>"] exI [of _ xs']) simp
  qed
qed

lemma newly_mapped_undo:
  assumes ready: "io_ready s xs F" and ready1: "io_ready s1 xs1 F1" and new: "newly_mapped s xs s1 xs1 ptr b n"
    and b: "4096 dvd b" "b + 4096 * n \<le> 2 ^ 56"
  shows "\<exists>s' xs'. iomem_unmap s1 (Some ptr) sz = Some s' \<and> io_ready s' xs' F1 \<and> frames_kept s1 F1 s' F1 \<and>
    used_vmas (io_virtual s') xs' = used_vmas (io_virtual s) xs \<and> mapping (io_paging s') = mapping (io_paging s)"
proof -
  let ?va = "io_virtual s" and ?M = "mapping (io_paging s)"
  obtain v p where v: "ptr = addr_at ?va p" "p + n \<le> total_pages ?va" "vfree ?va v"
    "free_run (used_vmas ?va xs) p (p + n)" "used_vmas (io_virtual s1) xs1 = insert (v, p, n) (used_vmas ?va xs)"
    "addr_at (io_virtual s1) = addr_at ?va" "mapping (io_paging s1) = add_pages ptr b [0..<n] ?M"
    using new unfolding newly_mapped_def by blast
  note map = io_ready_mappable(1) [OF ready v(2) b] and pages = io_ready_mappable(2) [OF ready v(2) b]
  have inj: "inj_on (\<lambda>k. indices (page ptr k)) (set [0..<n])"
    using map v(1) by (simp add: mappable_def lessThan_atLeast0)
  have mem: "(v, p, n) \<in> used_vmas (io_virtual s1) xs1" using v(5) by simp
  have "\<forall>k < n. mapping (io_paging s1) (indices (page (addr_at (io_virtual s1) p) k)) \<noteq> None"
    using add_pages_at [OF _ inj] v(1,6,7) by simp
  from iomem_unmap_spec [OF ready1 mem this, of sz] obtain s' xs' where
    s': "iomem_unmap s1 (Some ptr) sz = Some s'" "io_ready s' xs' F1 \<and> frames_kept s1 F1 s' F1"
    "used_vmas (io_virtual s') xs' = insert (v, p, n) (used_vmas ?va xs) - {(v, p, n)}"
    "mapping (io_paging s') = del_pages ptr [0..<n] (mapping (io_paging s1))"
    unfolding v(1,5,6) by blast
  have "(v, p, n) \<notin> used_vmas ?va xs" using used_vmasD [of v p n ?va xs] v(3) by blast
  then have "used_vmas (io_virtual s') xs' = used_vmas ?va xs" using s'(3) by simp
  moreover have "mapping (io_paging s') x = ?M x" for x
  proof (cases "x \<in> (\<lambda>k. indices (page ptr k)) ` set [0..<n]")
    case True
    then obtain k where k: "k < n" "x = indices (addr_at ?va (p + k))" by (auto simp: v(1) pages)
    have "free_run (used_vmas ?va xs) (p + k) (p + k + 1)" using v(4) k(1) by (fastforce simp: free_run_def)
    then show ?thesis using page_used_or_unmapped [OF ready] k v(2) True by (simp add: s'(4) del_pages_apply)
  next
    case False
    then show ?thesis using add_pages_other [OF False] v(7) by (simp add: s'(4) del_pages_apply)
  qed
  ultimately show ?thesis using s'(1,2) by blast
qed

section \<open>An example\<close>

text \<open>
  The range \<^verbatim>\<open>main.c\<close> gives to the allocator, from 0xffffffe000000000 to 0xffffffffc0000000: its pages
  can be mapped, are addresses the hardware accepts, and lie below entries 384 to 510 of the root, beside
  the window on physical memory.
\<close>

lemma high_bits:
  fixes y :: u64
  assumes y: "unat y < 2 ^ 37" and n: "37 \<le> n" "n < 64"
  shows "bit (0xffffffe000000000 + y) n"
proof -
  have "y = take_bit 37 y" using y by (simp add: word_unat_eq_iff unsigned_take_bit_eq take_bit_nat_eq_self)
  then have e: "bit y n = bit (take_bit 37 y) n" for n by simp
  have low: "\<not> bit y n" if "37 \<le> n" for n using e [of n] that by (simp add: bit_take_bit_iff)
  have "(0xffffffe000000000 :: u64) = NOT (mask 37)" by (simp add: mask_eq_exp_minus_1)
  moreover have "NOT (mask 37) + y = NOT (mask 37) OR y"
    using low by (intro disjunctive_add) (auto simp: bit_not_iff bit_mask_iff)
  ultimately have "0xffffffe000000000 + y = NOT (mask 37) OR y" by (simp only:)
  then show ?thesis using n by (simp only: bit_or_iff) (simp add: bit_not_iff bit_mask_iff)
qed

lemma high_canonical:
  fixes va :: u64
  assumes "\<And>n. 37 \<le> n \<Longrightarrow> n < 64 \<Longrightarrow> bit va n"
  shows "canonical va" "sv39_canonical va"
proof -
  have "signed_drop_bit 39 va = - 1" "signed_drop_bit 38 va = - 1"
    by (rule bit_word_eqI; simp add: bit_signed_drop_bit_iff assms)+
  then show "canonical va" "sv39_canonical va" by (simp_all add: canonical_def sv39_canonical_def)
qed

lemma kernel_root_entry:
  fixes p :: nat
  assumes "p < 33292288"
  shows "(18446743936270598144 + 4096 * p) div 2 ^ 30 mod 512 = 384 + p div 2 ^ 18" "p div 2 ^ 18 < 127"
proof -
  show l: "p div 2 ^ 18 < 127" using assms by (intro less_mult_imp_div_less) simp
  have "18446743936270598144 + 4096 * p = 4096 * (4503599593816064 + p)" by simp
  then have "(18446743936270598144 + 4096 * p) div 2 ^ 30 = (4503599593816064 + p) div 2 ^ 18"
    using div_mult2_eq [of "4096 * (4503599593816064 + p)" 4096 "2 ^ 18"] by simp
  also have "4503599593816064 + p = p + 17179869056 * 2 ^ 18" by simp
  finally have "(18446743936270598144 + 4096 * p) div 2 ^ 30 = 384 + p div 2 ^ 18 + 33554431 * 512" by simp
  moreover have "(384 + p div 2 ^ 18) mod 512 = 384 + p div 2 ^ 18" using l by simp
  ultimately show "(18446743936270598144 + 4096 * p) div 2 ^ 30 mod 512 = 384 + p div 2 ^ 18"
    by (simp only: mod_mult_self1)
qed

lemma kernel_page:
  fixes p :: nat
  assumes p: "p < 33292288"
  defines "va \<equiv> 0xffffffe000000000 + of_nat (4096 * p) :: uaddr"
  shows "walkable va" "sv39_canonical va" "384 \<le> vpn 2 va" "vpn 2 va < 511"
proof -
  have y: "unat (of_nat (4096 * p) :: uaddr) = 4096 * p" using p by (intro unat_of_nat_small) simp
  then have "unat (of_nat (4096 * p) :: uaddr) < 2 ^ 37" using p by simp
  then have "bit va n" if "37 \<le> n" "n < 64" for n unfolding va_def using that by (rule high_bits)
  note c = high_canonical [OF this]
  from c(2) show "sv39_canonical va" by simp
  have u: "unat va = 18446743936270598144 + 4096 * p"
    unfolding va_def using y p by (subst unat_plus_small) (simp_all del: of_nat_mult)
  have "4096 dvd unat va" unfolding u by (intro dvd_add) simp_all
  then show "walkable va" using c(1) by (simp add: walkable_def is_aligned_iff_dvd PAGE_BITS_def)
  have "vpn 2 va = unat va div 2 ^ 30 mod 512" by (simp add: vpn_div)
  then have "vpn 2 va = 384 + p div 2 ^ 18" by (simp only: u kernel_root_entry(1) [OF p])
  then show "384 \<le> vpn 2 va" "vpn 2 va < 511" using kernel_root_entry(2) [OF p] by simp_all
qed

definition kernel_va :: va_state where
  "kernel_va = snd (the (vma_allocator_init blank_va 0xffffffe000000000 0xffffffffc0000000))"

lemma kernel_init:
  obtains "va_inv kernel_va [7]" "used_vmas kernel_va [7] = {}" "lo_address kernel_va = 0xffffffe000000000"
    "total_pages kernel_va = 33292288" "good_draws (draws kernel_va)" "allocs kernel_va = smap Some (siterate Suc 8)"
proof (rule vma_allocator_init_spec [of "0xffffffe000000000" "0xffffffffc0000000" blank_va 7])
  show "is_aligned_uaddr 0xffffffe000000000 12" "is_aligned_uaddr 0xffffffffc0000000 12" by (simp_all add: is_aligned_iff_dvd)
  show "shd (allocs blank_va) = Some 7" by (simp add: blank_va_def)
  fix st'
  assume i: "vma_allocator_init blank_va 0xffffffe000000000 0xffffffffc0000000 = Some (True, st')" "va_inv st' [7]" "vfree st' 7"
    "used_vmas st' [7] = {}" "lo_address st' = 0xffffffe000000000" "hi_address st' = 0xffffffffc0000000" "good_draws (draws st')"
    "allocs st' = stl (allocs blank_va)"
  moreover have "st' = kernel_va" using i(1) by (simp add: kernel_va_def)
  moreover have "total_pages st' = 33292288" by (simp add: total_pages_def i(5,6))
  moreover have "allocs st' = smap Some (siterate Suc 8)" using i(8) by (simp add: blank_va_def eval_nat_numeral)
  ultimately show thesis using that by blast
qed (use good_blank in simp_all)

text \<open>
  The registers of a serial port at \<^verbatim>\<open>0x10000000\<close>, with the range of the kernel, three free frames and
  a root table that has the window on physical memory.
\<close>

lemma example_io:
  obtains s where "io_ready \<lparr>io_virtual = kernel_va, io_paging = s\<rparr> [7] {2147487744, 2147491840, 2147495936}"
    "mapping s = Map.empty" "large s = window_pages"
proof (rule kernel_init)
  assume v: "va_inv kernel_va [7]" "used_vmas kernel_va [7] = {}" "lo_address kernel_va = 0xffffffe000000000"
    "good_draws (draws kernel_va)" "total_pages kernel_va = 33292288"
  obtain s where s: "paging_inv s {2147487744, 2147491840, 2147495936}" "mapping s = Map.empty" "large s = window_pages"
    using example_paging_state by blast
  have "addr_at kernel_va p = 0xffffffe000000000 + of_nat (4096 * p)" for p by (simp add: addr_at_def v(3) del: of_nat_mult)
  moreover have "small_page s (0xffffffe000000000 + of_nat (4096 * p))" if "p < 33292288" for p
    using kernel_page(3) [OF that] s(3) by (simp add: small_page_def window_pages_def)
  ultimately have "io_ready \<lparr>io_virtual = kernel_va, io_paging = s\<rparr> [7] {2147487744, 2147491840, 2147495936}"
    unfolding io_ready_def using v(1,4,5) s(1,2) kernel_page(1) by simp
  then show thesis using s(2,3) by (rule that)
qed

lemma example_io_room:
  "shd (allocs kernel_va) = Some 8" "(8 :: nat) \<notin> set [7]" "region_pages 0x10000000 0x100 = 1"
  "\<not> (card {2147487744, 2147491840, 2147495936 :: nat} < 2 * 1 \<or>
    (\<forall>p. p + 1 \<le> total_pages kernel_va \<longrightarrow> \<not> free_run (used_vmas kernel_va [7]) p (p + 1)))"
proof -
  show "shd (allocs kernel_va) = Some 8" by (rule kernel_init) simp
  have tp: "total_pages kernel_va = 33292288" by (rule kernel_init)
  have "used_vmas kernel_va [7] = {}" by (rule kernel_init)
  then show "\<not> (card {2147487744, 2147491840, 2147495936 :: nat} < 2 * 1 \<or>
      (\<forall>p. p + 1 \<le> total_pages kernel_va \<longrightarrow> \<not> free_run (used_vmas kernel_va [7]) p (p + 1)))"
    by (simp add: free_run_def tp exI [of _ 0])
qed (simp_all add: region_pages_def)

lemma example_io_succeeds:
  "\<not> iomem_failed \<lparr>io_virtual = kernel_va, io_paging = pg\<rparr> [7] {2147487744, 2147491840, 2147495936} s' xs' 1"
  unfolding iomem_failed_def using example_io_room(4) by (simp del: card.empty)

section \<open>Properties\<close>

text \<open>
  \<open>C37\<close>.  Mapping the registers of a device takes a run of pages nothing used and maps each of
  them to the frame of the region at the same distance, readable and writable by the kernel only;
  everything else stays as it was.  It returns null only if there is no such run of pages, and then
  the allocator is unchanged, or if there were fewer than two free frames per page; then no page is mapped, but
  the run that was allocated stays used (the code does not free it).  In all cases the frames taken are page
  tables and the invariant, that a page is mapped only if a used VMA has it, holds again.
\<close>

theorem iomem_map_correct:
  assumes "io_ready s xs F" "shd (allocs (io_virtual s)) = Some u" "u \<notin> set xs"
    and "q < 2 ^ 56" "q + unat sz + 4095 \<le> 2 ^ 56" "n = region_pages q sz" "0 < n" "n \<le> 2 ^ 26"
  shows "\<exists>r s' xs' F'. iomem_map s (paddr_at q) sz = Some (r, s') \<and> io_ready s' xs' F' \<and>
    frames_kept s F s' F' \<and>
    (case r of
       Some ptr \<Rightarrow> newly_mapped s xs s' xs' ptr (q - q mod 4096) n
     | None \<Rightarrow> iomem_failed s xs F s' xs' n)"
  by (rule iomem_map_spec [OF assms])

theorem iomem_map_correct_witness:
  "\<exists>s ptr s' xs'. iomem_map s (paddr_at 0x10000000) 0x100 = Some (Some ptr, s') \<and> newly_mapped s [7] s' xs' ptr 0x10000000 1"
proof (rule example_io)
  fix pg assume ready: "io_ready \<lparr>io_virtual = kernel_va, io_paging = pg\<rparr> [7] {2147487744, 2147491840, 2147495936}"
  let ?s = "\<lparr>io_virtual = kernel_va, io_paging = pg\<rparr>"
  have u: "shd (allocs (io_virtual ?s)) = Some 8" using example_io_room(1) by simp
  from iomem_map_correct [OF ready u example_io_room(2) _ _ example_io_room(3) [symmetric]] obtain r s' xs' where
    r: "iomem_map ?s (paddr_at 0x10000000) 0x100 = Some (r, s')"
    "case r of Some ptr \<Rightarrow> newly_mapped ?s [7] s' xs' ptr (0x10000000 - 0x10000000 mod 4096) 1
      | None \<Rightarrow> iomem_failed ?s [7] {2147487744, 2147491840, 2147495936} s' xs' 1" by auto
  then obtain ptr where "r = Some ptr" using example_io_succeeds by (cases r) auto
  then show ?thesis using r by (intro exI [of _ ?s] exI [of _ ptr] exI [of _ s'] exI [of _ xs']) simp
qed

text \<open>
  \<open>C38\<close>.  Unmapping the pointer that mapping a device gave returns the pages to the allocator and
  removes exactly their entries: the used VMAs and the mapping of the kernel are again what they
  were, whatever size is passed, and the frames that were taken meanwhile are page tables.
\<close>

theorem iomem_round_trip:
  assumes "io_ready s xs F" "shd (allocs (io_virtual s)) = Some u" "u \<notin> set xs"
    and "q < 2 ^ 56" "q + unat sz + 4095 \<le> 2 ^ 56" "0 < region_pages q sz" "region_pages q sz \<le> 2 ^ 26"
    and "iomem_map s (paddr_at q) sz = Some (Some ptr, s1)"
  shows "\<exists>s2 xs2 F2. iomem_unmap s1 (Some ptr) sz' = Some s2 \<and> io_ready s2 xs2 F2 \<and> frames_kept s F s2 F2 \<and>
    used_vmas (io_virtual s2) xs2 = used_vmas (io_virtual s) xs \<and> mapping (io_paging s2) = mapping (io_paging s)"
proof -
  from iomem_map_spec [OF assms(1-5) refl assms(6,7)] assms(8) obtain xs1 F1 where
    r1: "io_ready s1 xs1 F1" "newly_mapped s xs s1 xs1 ptr (q - q mod 4096) (region_pages q sz)" and k: "frames_kept s F s1 F1" by auto
  from newly_mapped_undo [OF assms(1) r1 region_size(5,4) [OF assms(4,5)]] frames_kept_trans [OF k] show ?thesis by blast
qed

theorem iomem_round_trip_witness:
  "\<exists>s s1 ptr s2. iomem_map s (paddr_at 0x10000000) 0x100 = Some (Some ptr, s1) \<and>
    iomem_unmap s1 (Some ptr) 0x100 = Some s2 \<and> mapping (io_paging s2) = mapping (io_paging s)"
proof (rule example_io)
  fix pg assume ready: "io_ready \<lparr>io_virtual = kernel_va, io_paging = pg\<rparr> [7] {2147487744, 2147491840, 2147495936}"
  let ?s = "\<lparr>io_virtual = kernel_va, io_paging = pg\<rparr>"
  have u: "shd (allocs (io_virtual ?s)) = Some 8" using example_io_room(1) by simp
  from iomem_map_spec [OF ready u example_io_room(2) _ _ example_io_room(3) [symmetric]] obtain r s1 xs1 where
    r: "iomem_map ?s (paddr_at 0x10000000) 0x100 = Some (r, s1)"
    "case r of Some ptr \<Rightarrow> newly_mapped ?s [7] s1 xs1 ptr (0x10000000 - 0x10000000 mod 4096) 1
      | None \<Rightarrow> iomem_failed ?s [7] {2147487744, 2147491840, 2147495936} s1 xs1 1" by auto
  then obtain ptr where ptr: "r = Some ptr" using example_io_succeeds by (cases r) auto
  have "0 < region_pages 0x10000000 0x100" "region_pages 0x10000000 0x100 \<le> 2 ^ 26"
    unfolding example_io_room(3) by simp_all
  from iomem_round_trip [OF ready u example_io_room(2) _ _ this r(1) [unfolded ptr], of "0x100"] obtain s2 where
    "iomem_unmap s1 (Some ptr) 0x100 = Some s2" "mapping (io_paging s2) = mapping (io_paging ?s)" by auto
  then show ?thesis using r(1) ptr by (intro exI [of _ ?s] exI [of _ s1] exI [of _ ptr] exI [of _ s2]) simp
qed

end
