(* ===== verification/Ns16550a.thy ===== *)
theory Ns16550a
  imports Devicetree Iomem
begin

unbundle bit_operations_syntax

text \<open>
  Serial ports, \<^verbatim>\<open>devices/uart.h\<close> and the driver \<^verbatim>\<open>drivers/ns16550a.c\<close>: the layout of its registers,
  writing a byte, and the handler that makes a device of a node of the device tree, which composes
  the device tree, the devices, the lists and the mapping of registers.
\<close>

section \<open>Registers\<close>

text \<open>The bit fields, from the lowest bit up.\<close>

record ns16550a_ier =
  erbfi :: bool
  etbei :: bool
  elsi :: bool
  edssi :: bool
  ier_rsvd :: "4 word"

record ns16550a_iir =
  interrupt_pending :: bool
  interrupt_id :: "3 word"
  iir_rsvd :: "2 word"
  fifo_working :: bool
  fifo_enabled :: bool

record ns16550a_lsr =
  data_ready :: bool
  overrun_error :: bool
  parity_error :: bool
  framing_error :: bool
  break_interrupt :: bool
  empty_transmitter_holding_register :: bool
  empty_data_holding_registers :: bool
  error_in_received_fifo :: bool

definition ier_of_byte :: "u8 \<Rightarrow> ns16550a_ier" where
  "ier_of_byte b = \<lparr>erbfi = bit b 0, etbei = bit b 1, elsi = bit b 2, edssi = bit b 3, ier_rsvd = ucast (drop_bit 4 b)\<rparr>"

definition iir_of_byte :: "u8 \<Rightarrow> ns16550a_iir" where
  "iir_of_byte b = \<lparr>interrupt_pending = bit b 0, interrupt_id = ucast (drop_bit 1 b), iir_rsvd = ucast (drop_bit 4 b),
     fifo_working = bit b 6, fifo_enabled = bit b 7\<rparr>"

definition lsr_of_byte :: "u8 \<Rightarrow> ns16550a_lsr" where
  "lsr_of_byte b = \<lparr>data_ready = bit b 0, overrun_error = bit b 1, parity_error = bit b 2, framing_error = bit b 3,
     break_interrupt = bit b 4, empty_transmitter_holding_register = bit b 5, empty_data_holding_registers = bit b 6,
     error_in_received_fifo = bit b 7\<rparr>"

text \<open>The members of \<^verbatim>\<open>struct ns16550a_regs\<close> and where they are in it; unions share an offset.\<close>

datatype ns16550a_regs = Rbr | Thr | Dll | Ier | Dlh | Iir | Fcr | Lcr | Mcr | Lsr | Msr | Sr

fun reg_offset :: "ns16550a_regs \<Rightarrow> usize" where
  "reg_offset Rbr = 0" | "reg_offset Thr = 0" | "reg_offset Dll = 0"
| "reg_offset Ier = 1" | "reg_offset Dlh = 1"
| "reg_offset Iir = 2" | "reg_offset Fcr = 2"
| "reg_offset Lcr = 3"
| "reg_offset Mcr = 4"
| "reg_offset Lsr = 5"
| "reg_offset Msr = 6"
| "reg_offset Sr = 7"

definition SIZEOF_REGS :: usize where "SIZEOF_REGS = 8"

section \<open>State\<close>

text \<open>
  The hardware: what the next reads of registers are going to give, and the accesses so far, from
  the last one on.
\<close>

datatype access = Read_Once uaddr u8 | Write_Once uaddr u8

record mmio =
  readings :: "u8 stream"
  accesses :: "access list"

definition read_once :: "uaddr \<Rightarrow> mmio \<Rightarrow> u8 \<times> mmio" where
  "read_once addr m = (shd (readings m), m\<lparr>readings := stl (readings m), accesses := Read_Once addr (shd (readings m)) # accesses m\<rparr>)"

definition write_once :: "uaddr \<Rightarrow> u8 \<Rightarrow> mmio \<Rightarrow> mmio" where
  "write_once addr b m = m\<lparr>accesses := Write_Once addr b # accesses m\<rparr>"

text \<open>A \<^verbatim>\<open>struct uart\<close>, and the struct of the driver that contains it; the latter is known by its address.\<close>

datatype uart_ops = Ns16550a_Uart_Ops

record uart =
  uart_vtable :: uart_ops
  uart_device :: device_ptr

record ns16550a =
  ns_uart :: uart
  ns_regs :: "uaddr option"

datatype uart_head = Uarts | Uart uaddr

record uart_state =
  uart_dt :: dt_state
  uart_io :: iomem_state
  uart_mmio :: mmio
  ns16550as :: "uaddr \<rightharpoonup> ns16550a"
  uart_links :: "uart_head links"

text \<open>The list of all serial ports before any is found.\<close>

definition init_uarts :: "uart_state \<Rightarrow> uart_state" where
  "init_uarts s = s\<lparr>uart_links := (uart_links s)(Uarts \<mapsto> LIST_INIT Uarts)\<rparr>"

section \<open>Operations\<close>

text \<open>The busy-wait loop.  \<open>None\<close> is a loop that does not end.\<close>

partial_function (option) wait_transmitter :: "uaddr \<Rightarrow> mmio \<Rightarrow> mmio option" where
  "wait_transmitter regs m =
     (let (b, m) = read_once (regs + reg_offset Lsr) m in
      if \<not> empty_transmitter_holding_register (lsr_of_byte b) then wait_transmitter regs m else Some m)"

definition ns16550a_write_byte :: "uart_state \<Rightarrow> uaddr \<Rightarrow> u8 \<Rightarrow> uart_state option" where
  "ns16550a_write_byte s p b = do {
     dev \<leftarrow> ns16550as s p;
     regs \<leftarrow> ns_regs dev;
     m \<leftarrow> wait_transmitter regs (uart_mmio s);
     Some (s\<lparr>uart_mmio := write_once (regs + reg_offset Thr) b m\<rparr>)
   }"

text \<open>The call \<^verbatim>\<open>uart->ops->write_byte\<close>.\<close>

fun uart_write_byte :: "uart_state \<Rightarrow> uart_ops \<Rightarrow> uaddr \<Rightarrow> u8 \<Rightarrow> uart_state option" where
  "uart_write_byte s Ns16550a_Uart_Ops p b = ns16550a_write_byte s p b"

text \<open>The end of the struct's life: the device, its list heads and the entry in the list of serial ports.\<close>

definition ns16550a_release :: "uart_state \<Rightarrow> uaddr \<Rightarrow> uart_state" where
  "ns16550a_release s p = s\<lparr>ns16550as := (ns16550as s)(p := None), uart_links := (uart_links s)(Uart p := None),
     uart_dt := (uart_dt s)\<lparr>devices := (devices (uart_dt s))(Driver_Device p := None),
       device_links := (device_links (uart_dt s))(Parent_Children (Driver_Device p) := None, Device_Children (Driver_Device p) := None)\<rparr>\<rparr>"

definition ns16550a_enumerate_dt :: "uart_state \<Rightarrow> uaddr \<Rightarrow> (device_ptr option \<times> uart_state) option" where
  "ns16550a_enumerate_dt s node = do {
     (reg, d) \<leftarrow> devicetree_reg (uart_dt s) node 0;
     (case reg of None \<Rightarrow> Some (None, s\<lparr>uart_dt := d\<rparr>)
      | Some (reg_addr, reg_size) \<Rightarrow>
        if reg_size < SIZEOF_REGS then Some (None, s\<lparr>uart_dt := d\<rparr>)
        else (let (p, d) = dt_alloc d in case p of None \<Rightarrow> Some (None, s\<lparr>uart_dt := d\<rparr>)
          | Some p \<Rightarrow> do {
              (name, d) \<leftarrow> dt_format d (''ns16550a@'' @ ''{paddr}'') [Va_Paddr reg_addr];
              let d = DEVICE_INIT d (Driver_Device p) name;
              (regs, io) \<leftarrow> iomem_map (uart_io s) reg_addr reg_size;
              let s = s\<lparr>uart_dt := d, uart_io := io,
                ns16550as := (ns16550as s)(p \<mapsto> \<lparr>ns_uart = \<lparr>uart_vtable = Ns16550a_Uart_Ops, uart_device = Driver_Device p\<rparr>, ns_regs = regs\<rparr>),
                uart_links := (uart_links s)(Uart p \<mapsto> LIST_INIT (Uart p))\<rparr>;
              if name = None \<or> regs = None then do {
                io \<leftarrow> iomem_unmap (uart_io s) regs reg_size;
                Some (None, ns16550a_release (s\<lparr>uart_io := io\<rparr>) p)
              } else do {
                h \<leftarrow> list_push (uart_links s) Uarts (Uart p);
                Some (Some (Driver_Device p), s\<lparr>uart_links := h\<rparr>)
              }
            }))
   }"

text \<open>The initializer of the driver; \<open>handler\<close> is the address of \<open>ns16550a_enumerate_dt\<close>.\<close>

definition register_ns16550a :: "dt_state \<Rightarrow> uaddr \<Rightarrow> dt_state option" where
  "register_ns16550a d handler = devicetree_register d ''ns16550a'' handler"

section \<open>Waiting for the transmitter\<close>

text \<open>The loop reads the Line Status Register up to and including the first value with bit 5 set.\<close>

definition read_until :: "uaddr \<Rightarrow> nat \<Rightarrow> mmio \<Rightarrow> mmio" where
  "read_until regs k m = m\<lparr>readings := sdrop (Suc k) (readings m),
     accesses := rev (map (Read_Once (regs + reg_offset Lsr)) (stake (Suc k) (readings m))) @ accesses m\<rparr>"

lemma wait_step:
  "wait_transmitter regs m = (if bit (shd (readings m)) 5 then Some (read_until regs 0 m)
     else wait_transmitter regs (read_until regs 0 m))"
  by (subst wait_transmitter.simps) (simp add: read_once_def lsr_of_byte_def read_until_def)

lemma read_until_Suc: "read_until regs k (read_until regs 0 m) = read_until regs (Suc k) m"
  by (simp add: read_until_def)

lemma wait_transmitter_ready:
  "bit (readings m !! k) 5 \<Longrightarrow> (\<And>j. j < k \<Longrightarrow> \<not> bit (readings m !! j) 5) \<Longrightarrow>
     wait_transmitter regs m = Some (read_until regs k m)"
proof (induction k arbitrary: m)
  case 0
  then show ?case by (subst wait_step) simp
next
  case (Suc k)
  have "\<not> bit (shd (readings m)) 5" using Suc.prems(2) [of 0] by simp
  then have "wait_transmitter regs m = wait_transmitter regs (read_until regs 0 m)" by (subst wait_step) simp
  also have "\<dots> = Some (read_until regs k (read_until regs 0 m))"
  proof (rule Suc.IH)
    show "bit (readings (read_until regs 0 m) !! k) 5" using Suc.prems(1) by (simp add: read_until_def)
    show "\<not> bit (readings (read_until regs 0 m) !! j) 5" if "j < k" for j
      using Suc.prems(2) [of "Suc j"] that by (simp add: read_until_def)
  qed
  finally show ?case by (simp add: read_until_Suc)
qed

lemma wait_transmitter_ends:
  assumes "wait_transmitter regs m = Some m'"
  shows "\<exists>k. bit (readings m !! k) 5"
proof (rule wait_transmitter.raw_induct [OF _ assms])
  fix wait and regs :: uaddr and m m' :: mmio
  assume ih: "\<And>regs m m'. wait regs m = Some m' \<Longrightarrow> \<exists>k. bit (readings m !! k) 5"
    and run: "(let (b, m) = read_once (regs + reg_offset Lsr) m in
      if \<not> empty_transmitter_holding_register (lsr_of_byte b) then wait regs m else Some m) = Some m'"
  show "\<exists>k. bit (readings m !! k) 5"
  proof (cases "bit (shd (readings m)) 5")
    case True
    then show ?thesis by (intro exI [of _ 0]) simp
  next
    case False
    then have "wait regs (read_until regs 0 m) = Some m'"
      using run by (simp add: read_once_def lsr_of_byte_def read_until_def)
    from ih [OF this] have "\<exists>k. bit (stl (readings m) !! k) 5" by (simp add: read_until_def)
    then obtain k where "bit (stl (readings m) !! k) 5" ..
    then show ?thesis by (intro exI [of _ "Suc k"]) simp
  qed
qed

text \<open>So the loop ends exactly if the transmitter gets empty at some read.\<close>

lemma wait_transmitter_spec:
  "wait_transmitter regs m = (if \<exists>k. bit (readings m !! k) 5
     then Some (read_until regs (LEAST k. bit (readings m !! k) 5) m) else None)"
proof (cases "\<exists>k. bit (readings m !! k) 5")
  case True
  then have "bit (readings m !! (LEAST k. bit (readings m !! k) 5)) 5" by (rule LeastI_ex)
  from wait_transmitter_ready [OF this] show ?thesis
    using True not_less_Least [of _ "\<lambda>k. bit (readings m !! k) 5"] by simp
next
  case False
  then show ?thesis using wait_transmitter_ends [of regs m] by (cases "wait_transmitter regs m") auto
qed

text \<open>
  The bytes that were written to the Transmitter Holding Register, in order, and those of them that the
  port takes: a byte that is written while the register may still be full is lost, so a write counts only
  if the access right before it read the Line Status Register and found bit 5, the register is empty.
\<close>

fun transmitted :: "uaddr \<Rightarrow> access list \<Rightarrow> u8 list" where
  "transmitted regs [] = []"
| "transmitted regs (Read_Once addr b # as) = transmitted regs as"
| "transmitted regs (Write_Once addr b # as) = transmitted regs as @ (if addr = regs + reg_offset Thr then [b] else [])"

fun transmitter_ready :: "uaddr \<Rightarrow> access list \<Rightarrow> bool" where
  "transmitter_ready regs (Read_Once addr b # as) \<longleftrightarrow> addr = regs + reg_offset Lsr \<and> bit b 5"
| "transmitter_ready regs as \<longleftrightarrow> False"

fun received :: "uaddr \<Rightarrow> access list \<Rightarrow> u8 list" where
  "received regs [] = []"
| "received regs (Read_Once addr b # as) = received regs as"
| "received regs (Write_Once addr b # as) =
     received regs as @ (if addr = regs + reg_offset Thr \<and> transmitter_ready regs as then [b] else [])"

lemma received_reads: "received regs (rev (map (Read_Once addr) bs) @ as) = received regs as"
  by (induction bs arbitrary: as) simp_all

lemma read_until_ready:
  "bit (readings m !! k) 5 \<Longrightarrow> transmitter_ready regs (accesses (read_until regs k m))"
  by (simp add: read_until_def stake_Suc del: stake.simps)

lemma transmitted_reads: "transmitted regs (rev (map (Read_Once addr) bs) @ as) = transmitted regs as"
  by (induction bs arbitrary: as) simp_all

lemma write_byte_step:
  assumes dev: "ns16550as s p = Some dev" "ns_regs dev = Some regs"
    and live: "\<forall>n. \<exists>k \<ge> n. bit (readings (uart_mmio s) !! k) 5"
  shows "\<exists>s'. ns16550a_write_byte s p b = Some s' \<and> ns16550as s' = ns16550as s \<and>
    (\<forall>n. \<exists>k \<ge> n. bit (readings (uart_mmio s') !! k) 5) \<and>
    transmitted regs (accesses (uart_mmio s')) = transmitted regs (accesses (uart_mmio s)) @ [b] \<and>
    received regs (accesses (uart_mmio s')) = received regs (accesses (uart_mmio s)) @ [b]"
proof -
  define k where "k = (LEAST k. bit (readings (uart_mmio s) !! k) 5)"
  have ex: "\<exists>k. bit (readings (uart_mmio s) !! k) 5" using live by blast
  then have "bit (readings (uart_mmio s) !! k) 5" unfolding k_def by (rule LeastI_ex)
  note ready = read_until_ready [OF this, of regs]
  from ex have w: "wait_transmitter regs (uart_mmio s) = Some (read_until regs k (uart_mmio s))"
    by (simp add: wait_transmitter_spec k_def)
  have live': "\<exists>j \<ge> n. bit (sdrop (Suc k) (readings (uart_mmio s)) !! j) 5" for n
  proof -
    obtain i where i: "Suc k + n \<le> i" "bit (readings (uart_mmio s) !! i) 5" using live by blast
    then have "bit (sdrop (Suc k) (readings (uart_mmio s)) !! (i - Suc k)) 5" by (simp only: sdrop_snth) simp
    then show ?thesis using i(1) by (intro exI [of _ "i - Suc k"]) simp
  qed
  define m where "m = read_until regs k (uart_mmio s)"
  have r: "readings m = sdrop (Suc k) (readings (uart_mmio s))" by (simp add: m_def read_until_def)
  have tr: "transmitted regs (accesses m) = transmitted regs (accesses (uart_mmio s))"
    "received regs (accesses m) = received regs (accesses (uart_mmio s))"
    by (simp_all add: m_def read_until_def transmitted_reads received_reads del: stake.simps)
  have "\<forall>n. \<exists>j \<ge> n. bit (readings m !! j) 5" using live' unfolding r by blast
  then show ?thesis
    using w [folded m_def] dev tr ready [folded m_def] by (simp add: ns16550a_write_byte_def write_once_def)
qed

section \<open>The handler\<close>

text \<open>A node whose \<^verbatim>\<open>reg\<close> property starts with the entry of \<open>sz\<close> bytes at \<open>q\<close>.\<close>

definition node_reg :: "dt_state \<Rightarrow> uaddr \<Rightarrow> nat \<Rightarrow> usize \<Rightarrow> bool" where
  "node_reg d node q sz \<longleftrightarrow> (\<exists>ps p pr dn par a s es. node_props d node ps \<and>
     find (\<lambda>p. prop_name (the (dt_props d p)) = ''reg'') ps = Some p \<and> dt_props d p = Some pr \<and>
     dt_nodes d (prop_node pr) = Some dn \<and> node_parent dn = Some par \<and> node_cells d par a s \<and>
     (a = 1 \<or> a = 2) \<and> (s = 1 \<or> s = 2) \<and> q < 2 ^ 56 \<and> reg_value pr a s ((of_nat q, sz) # es))"

lemma devicetree_reg_spec:
  assumes "node_reg d node q sz"
  shows "devicetree_reg d node 0 = Some (Some (paddr_at q, sz), d)"
proof -
  obtain ps p pr dn par a s es where n: "node_props d node ps"
    "find (\<lambda>p. prop_name (the (dt_props d p)) = ''reg'') ps = Some p" "dt_props d p = Some pr"
    "dt_nodes d (prop_node pr) = Some dn" "node_parent dn = Some par" "node_cells d par a s"
    "a = 1 \<or> a = 2" "s = 1 \<or> s = 2" "q < 2 ^ 56" "reg_value pr a s ((of_nat q, sz) # es)"
    using assms unfolding node_reg_def by blast
  have "unat (of_nat q :: u64) = q" using n(9) by (intro unat_of_nat_small) simp
  then show ?thesis
    using prop_reg_spec [OF n(3-8,10), of 0] find_prop_spec [OF n(1), of "''reg''"] n(2)
    by (simp add: devicetree_reg_def)
qed

definition ns16550a_name :: "nat \<Rightarrow> string" where
  "ns16550a_name q = ''ns16550a@'' @ format_number ''#018x'' False (of_nat q)"

lemma format_ns16550a_name:
  assumes "q < 2 ^ 56"
  shows "vfprint (''ns16550a@'' @ ''{paddr}'') [Va_Paddr (paddr_at q)] = Some (ns16550a_name q)"
proof -
  let ?ps = "[Text ''ns16550a@'', Hole F_paddr []]"
  have "concat (map render ?ps) = ''ns16550a@'' @ ''{paddr}''" "list_all well_formed ?ps" by simp_all
  from vfprint_pieces [OF this(2), of "[Va_Paddr (paddr_at q)]", unfolded this(1)] show ?thesis
    using assms by (simp add: format_paddr_def address_args_def bits_of_paddr_at ns16550a_name_def)
qed

text \<open>What the handler leaves when it makes a device, and when it does not.\<close>

definition uart_found :: "uart_state \<Rightarrow> uaddr list \<Rightarrow> uart_state \<Rightarrow> uaddr \<Rightarrow> nat \<Rightarrow> uaddr \<Rightarrow> bool" where
  "uart_found s us s' p q ptr \<longleftrightarrow> shd (dt_allocs (uart_dt s)) = Some p \<and>
     is_list (uart_links s') Uarts (map Uart (us @ [p])) \<and>
     ns16550as s' = (ns16550as s)(p \<mapsto> \<lparr>ns_uart = \<lparr>uart_vtable = Ns16550a_Uart_Ops, uart_device = Driver_Device p\<rparr>, ns_regs = Some ptr\<rparr>) \<and>
     devices (uart_dt s') = (devices (uart_dt s))(Driver_Device p \<mapsto> \<lparr>device_name = Some (ns16550a_name q), device_parent = None\<rparr>)"

definition uart_absent :: "uart_state \<Rightarrow> uaddr list \<Rightarrow> uart_state \<Rightarrow> bool" where
  "uart_absent s us s' \<longleftrightarrow> is_list (uart_links s') Uarts (map Uart us) \<and> ns16550as s' = ns16550as s \<and>
     devices (uart_dt s') = devices (uart_dt s) \<and> mapping (io_paging (uart_io s')) = mapping (io_paging (uart_io s))"

text \<open>
  The memory at \<open>p\<close> that the allocator is going to give belongs to nothing yet; the devices
  form a tree that starts at the root device.
\<close>

definition uart_inv :: "uart_state \<Rightarrow> uaddr list \<Rightarrow> device_ptr rose \<Rightarrow> vptr list \<Rightarrow> nat set \<Rightarrow> uaddr option \<Rightarrow> bool" where
  "uart_inv s us t xs F r \<longleftrightarrow> io_ready (uart_io s) xs F \<and> is_list (uart_links s) Uarts (map Uart us) \<and>
     device_tree (uart_dt s) t \<and> all_named (uart_dt s) \<and> Root_Device \<in> set (rose_nodes t) \<and>
     (\<forall>p. r = Some p \<longrightarrow> p \<notin> set us \<and> ns16550as s p = None \<and> devices (uart_dt s) (Driver_Device p) = None)"

lemma uart_links_init:
  assumes "is_list h Uarts (map Uart us)" "p \<notin> set us"
  shows "is_list (h(Uart p \<mapsto> LIST_INIT (Uart p))) Uarts (map Uart us)" "is_list (h(Uart p := None)) Uarts (map Uart us)"
    "\<exists>h'. list_push (h(Uart p \<mapsto> LIST_INIT (Uart p))) Uarts (Uart p) = Some h' \<and> is_list h' Uarts (map Uart (us @ [p]))"
proof -
  show "is_list (h(Uart p := None)) Uarts (map Uart us)"
    using assms by (subst is_list_cong [where h = h]) auto
  show i: "is_list (h(Uart p \<mapsto> LIST_INIT (Uart p))) Uarts (map Uart us)"
    using assms by (subst is_list_cong [where h = h]) auto
  show "\<exists>h'. list_push (h(Uart p \<mapsto> LIST_INIT (Uart p))) Uarts (Uart p) = Some h' \<and> is_list h' Uarts (map Uart (us @ [p]))"
    using list_push_spec [OF i, of "Uart p"] assms(2) by (auto simp: self_linked_def LIST_INIT_def)
qed

text \<open>
  Why there is no device: the region is too small or there is no memory for the struct or the name, and then the
  used VMAs are what they were; or the registers could not be mapped.
\<close>

definition uart_reason :: "uart_state \<Rightarrow> vptr list \<Rightarrow> nat set \<Rightarrow> uart_state \<Rightarrow> vptr list \<Rightarrow> usize \<Rightarrow> nat \<Rightarrow> bool" where
  "uart_reason s xs F s' xs' sz n \<longleftrightarrow>
     used_vmas (io_virtual (uart_io s')) xs' = used_vmas (io_virtual (uart_io s)) xs \<and>
       (sz < SIZEOF_REGS \<or> None \<in> set (stake 2 (dt_allocs (uart_dt s)))) \<or>
     SIZEOF_REGS \<le> sz \<and> iomem_failed (uart_io s) xs F (uart_io s') xs' n"

lemma ns16550a_enumerate_spec:
  assumes inv: "uart_inv s us t xs F (shd (dt_allocs (uart_dt s)))"
    and nr: "node_reg (uart_dt s) node q sz"
    and q0: "q + unat sz + 4095 \<le> 2 ^ 56" "region_pages q sz \<le> 2 ^ 26"
    and u: "shd (allocs (io_virtual (uart_io s))) = Some u" "u \<notin> set xs"
  shows "\<exists>r s' xs' F'. ns16550a_enumerate_dt s node = Some (r, s') \<and>
    io_ready (uart_io s') xs' F' \<and> frames_kept (uart_io s) F (uart_io s') F' \<and> same_tree (uart_dt s) (uart_dt s') \<and>
    (case r of
       Some dev \<Rightarrow> SIZEOF_REGS \<le> sz \<and> (\<exists>p ptr d. dev = Driver_Device p \<and> uart_found s us s' p q ptr \<and>
         newly_mapped (uart_io s) xs (uart_io s') xs' ptr (q - q mod 4096) (region_pages q sz) \<and>
         device_add (uart_dt s') Root_Device dev = Some d \<and> device_tree d (add_leaf Root_Device dev t))
     | None \<Rightarrow> uart_absent s us s' \<and> uart_reason s xs F s' xs' sz (region_pages q sz))"
proof -
  note reg = devicetree_reg_spec [OF nr]
  have "q < 2 ^ 56" using nr by (auto simp: node_reg_def)
  note q = this q0
  let ?d = "uart_dt s" and ?io = "uart_io s" and ?n = "region_pages q sz" and ?b = "q - q mod 4096"
  have i: "io_ready ?io xs F" "is_list (uart_links s) Uarts (map Uart us)" "device_tree ?d t" "all_named ?d"
    "Root_Device \<in> set (rose_nodes t)"
    and fresh: "\<And>p. shd (dt_allocs ?d) = Some p \<Longrightarrow> p \<notin> set us \<and> ns16550as s p = None \<and> devices ?d (Driver_Device p) = None"
    using inv by (auto simp: uart_inv_def)
  note run = ns16550a_enumerate_dt_def reg dt_alloc_def Let_def
  show ?thesis
  proof (cases "sz < SIZEOF_REGS \<or> shd (dt_allocs ?d) = None")
    case True
    define s' where "s' = (if sz < SIZEOF_REGS then s else s\<lparr>uart_dt := ?d\<lparr>dt_allocs := stl (dt_allocs ?d)\<rparr>\<rparr>)"
    have "ns16550a_enumerate_dt s node = Some (None, s')" using True unfolding run s'_def by auto
    moreover have "uart_io s' = ?io" "uart_absent s us s'" "same_tree ?d (uart_dt s')"
      using i(2) by (simp_all add: s'_def uart_absent_def same_tree_def)
    moreover have "uart_reason s xs F s' xs sz ?n" using True by (auto simp: uart_reason_def s'_def eval_nat_numeral)
    ultimately show ?thesis using i(1) by (intro exI [of _ None] exI [of _ s'] exI [of _ xs] exI [of _ F]) (simp del: stake.simps)
  next
    case False
    then obtain p where p: "shd (dt_allocs ?d) = Some p" and sz: "SIZEOF_REGS \<le> sz" "\<not> sz < SIZEOF_REGS" by auto
    note f = fresh [OF p]
    have pos: "0 < ?n" using sz(1) by (simp add: region_pages_def SIZEOF_REGS_def word_le_nat_alt)
    define nam where "nam = map_option (\<lambda>_. ns16550a_name q) (shd (stl (dt_allocs ?d)))"
    define d0 where "d0 = ?d\<lparr>dt_allocs := stl (stl (dt_allocs ?d))\<rparr>"
    define d1 where "d1 = DEVICE_INIT d0 (Driver_Device p) nam"
    have fmt: "dt_format (?d\<lparr>dt_allocs := stl (dt_allocs ?d)\<rparr>) (''ns16550a@'' @ ''{paddr}'') [Va_Paddr (paddr_at q)] = Some (nam, d0)"
      unfolding dt_format_def format_ns16550a_name [OF q(1)] by (simp add: dt_alloc_def nam_def d0_def)
    obtain r io xs' F' where m: "iomem_map ?io (paddr_at q) sz = Some (r, io)" "io_ready io xs' F'"
      "case r of Some ptr \<Rightarrow> newly_mapped ?io xs io xs' ptr ?b ?n | None \<Rightarrow> iomem_failed ?io xs F io xs' ?n"
      and fk: "frames_kept ?io F io F'"
      using iomem_map_spec [OF i(1) u q(1,2) refl pos q(3)] by blast
    define s1 where "s1 = s\<lparr>uart_dt := d1, uart_io := io,
      ns16550as := (ns16550as s)(p \<mapsto> \<lparr>ns_uart = \<lparr>uart_vtable = Ns16550a_Uart_Ops, uart_device = Driver_Device p\<rparr>, ns_regs = r\<rparr>),
      uart_links := (uart_links s)(Uart p \<mapsto> LIST_INIT (Uart p))\<rparr>"
    have run1: "ns16550a_enumerate_dt s node = (if nam = None \<or> r = None then do {
        io \<leftarrow> iomem_unmap io r sz; Some (None, ns16550a_release (s1\<lparr>uart_io := io\<rparr>) p)
      } else do { h \<leftarrow> list_push (uart_links s1) Uarts (Uart p); Some (Some (Driver_Device p), s1\<lparr>uart_links := h\<rparr>) })"
      using sz(2) p fmt m(1) unfolding run by (simp add: d1_def s1_def del: append.simps)
    note l = uart_links_init [OF i(2) conjunct1 [OF f]]
    have dd: "devices d1 = (devices ?d)(Driver_Device p \<mapsto> \<lparr>device_name = nam, device_parent = None\<rparr>)" "same_tree ?d d1"
      by (simp_all add: d1_def d0_def DEVICE_INIT_def same_tree_def)
    have gone: "uart_absent s us (ns16550a_release (s1\<lparr>uart_io := io'\<rparr>) p)" "same_tree ?d (uart_dt (ns16550a_release (s1\<lparr>uart_io := io'\<rparr>) p))"
        "uart_io (ns16550a_release (s1\<lparr>uart_io := io'\<rparr>) p) = io'"
      if "mapping (io_paging io') = mapping (io_paging ?io)" for io'
      using that f l(2) dd by (auto simp: uart_absent_def ns16550a_release_def s1_def same_tree_def fun_upd_idem)
    show ?thesis
    proof (cases r)
      case None
      then have "ns16550a_enumerate_dt s node = Some (None, ns16550a_release (s1\<lparr>uart_io := io\<rparr>) p)"
        by (simp add: run1 iomem_unmap_def)
      moreover have fl: "iomem_failed ?io xs F io xs' ?n" using m(3) None by simp
      moreover have "mapping (io_paging io) = mapping (io_paging ?io)" using fl by (simp add: iomem_failed_def)
      ultimately show ?thesis using gone [of io] m(2) sz(1) fk unfolding uart_reason_def
        by (intro exI [of _ None] exI [of _ "ns16550a_release (s1\<lparr>uart_io := io\<rparr>) p"] exI [of _ xs'] exI [of _ F']) simp
    next
      case (Some ptr)
      have nm: "newly_mapped ?io xs io xs' ptr ?b ?n" using m(3) Some by simp
      show ?thesis
      proof (cases "nam")
        case None
        obtain io' xs2 where un: "iomem_unmap io (Some ptr) sz = Some io'" "io_ready io' xs2 F'"
          "mapping (io_paging io') = mapping (io_paging ?io)"
          "used_vmas (io_virtual io') xs2 = used_vmas (io_virtual ?io) xs" "frames_kept io F' io' F'"
          using newly_mapped_undo [OF i(1) m(2) nm region_size(5,4) [OF q(1,2)]] by blast
        have "ns16550a_enumerate_dt s node = Some (None, ns16550a_release (s1\<lparr>uart_io := io'\<rparr>) p)"
          using un(1) None Some by (simp add: run1)
        moreover have "shd (stl (dt_allocs ?d)) = None" using None by (simp add: nam_def)
        then have "None \<in> set (stake 2 (dt_allocs ?d))" by (simp add: eval_nat_numeral)
        ultimately show ?thesis using gone [OF un(3)] un(2,4) frames_kept_trans [OF fk un(5)] unfolding uart_reason_def
          by (intro exI [of _ None] exI [of _ "ns16550a_release (s1\<lparr>uart_io := io'\<rparr>) p"] exI [of _ xs2] exI [of _ F']) (simp del: stake.simps)
      next
        case (Some nm')
        then have n: "nam = Some (ns16550a_name q)" by (auto simp: nam_def)
        obtain h where h: "list_push (uart_links s1) Uarts (Uart p) = Some h" "is_list h Uarts (map Uart (us @ [p]))"
          using l(3) by (auto simp: s1_def)
        have e: "ns16550a_enumerate_dt s node = Some (Some (Driver_Device p), s1\<lparr>uart_links := h\<rparr>)"
          using h(1) n \<open>r = Some ptr\<close> by (simp add: run1)
        have dt: "device_tree d0 t" "all_named d0" "devices d0 (Driver_Device p) = None"
          using i(3,4) f by (simp_all add: d0_def device_tree_def all_named_def)
        obtain d where d: "device_add d1 Root_Device (Driver_Device p) = Some d" "device_tree d (add_leaf Root_Device (Driver_Device p) t)"
          using device_init_add [OF dt(1,2) i(5) dt(3), of "ns16550a_name q"] n by (auto simp: d1_def)
        have "uart_found s us (s1\<lparr>uart_links := h\<rparr>) p q ptr"
          using h(2) dd(1) n p \<open>r = Some ptr\<close> by (simp add: uart_found_def s1_def)
        then show ?thesis
          using sz(1) m(2) nm d dd(2) fk
          by (intro exI [of _ "Some (Driver_Device p)"] exI [of _ "s1\<lparr>uart_links := h\<rparr>"] exI [of _ xs'] exI [of _ F'])
            (simp add: e s1_def, blast)
      qed
    qed
  qed
qed

section \<open>Properties\<close>

text \<open>
  \<open>C39\<close>.  If the transmitter gets empty again and again, then every sequence of bytes that is
  written through the operations of a serial port is written, whatever the port does in between:
  each call returns, the bytes are written once each and in order, and the port takes all of them, since each is
  written right after a read of the Line Status Register that found the transmitter empty.
\<close>

theorem serial_port_delivers:
  assumes "ns16550as s p = Some dev" "ns_regs dev = Some regs"
    and "\<forall>n. \<exists>k \<ge> n. empty_transmitter_holding_register (lsr_of_byte (readings (uart_mmio s) !! k))"
  shows "\<exists>s'. each_call (\<lambda>s b. uart_write_byte s (uart_vtable (ns_uart dev)) p b) s bs = Some s' \<and>
    transmitted regs (accesses (uart_mmio s')) = transmitted regs (accesses (uart_mmio s)) @ bs \<and>
    received regs (accesses (uart_mmio s')) = received regs (accesses (uart_mmio s)) @ bs"
  using assms
proof (induction bs arbitrary: s)
  case (Cons b bs)
  have v: "uart_write_byte s v p b = ns16550a_write_byte s p b" for s v b by (cases v) simp
  have "\<forall>n. \<exists>k \<ge> n. bit (readings (uart_mmio s) !! k) 5" using Cons.prems(3) by (simp add: lsr_of_byte_def)
  from write_byte_step [OF Cons.prems(1,2) this, of b] obtain s1 where s1:
    "ns16550a_write_byte s p b = Some s1" "ns16550as s1 = ns16550as s"
    "\<forall>n. \<exists>k \<ge> n. empty_transmitter_holding_register (lsr_of_byte (readings (uart_mmio s1) !! k))"
    "transmitted regs (accesses (uart_mmio s1)) = transmitted regs (accesses (uart_mmio s)) @ [b]"
    "received regs (accesses (uart_mmio s1)) = received regs (accesses (uart_mmio s)) @ [b]"
    by (auto simp: lsr_of_byte_def)
  then show ?case using Cons.IH [of s1] Cons.prems(1,2) by (simp add: v)
qed simp

text \<open>A serial port in the device tree of the example: the first entry of the property 12 of node 2.\<close>

definition example_dt_alloc :: dt_state where
  "example_dt_alloc = init_root_device (example_dt\<lparr>dt_allocs := sconst (Some 4096)\<rparr>) (Some ''root-device'')"

lemma example_node_reg: "node_reg example_dt_alloc 2 0x80000000 0x1000"
proof -
  let ?pr = "\<lparr>prop_node = 2, prop_name = ''reg'', value_len = 12, prop_value = [0, 0, 0, 0, 128, 0, 0, 0, 0, 0, 16, 0]\<rparr>"
  have same: "dt_props example_dt_alloc = dt_props example_dt" "dt_nodes example_dt_alloc = dt_nodes example_dt"
    "dt_links example_dt_alloc = dt_links example_dt"
    by (simp_all add: example_dt_alloc_def init_root_device_def DEVICE_INIT_def)
  have "rev (le_bytes (0x80000000 :: u64)) = [0, 0, 0, 0, 128, 0, 0, 0]" "rev (le_bytes (ucast (0x1000 :: u64) :: u32)) = [0, 0, 16, 0]"
    by code_simp+
  then have "reg_entry 2 1 (0x80000000, 0x1000) = [0, 0, 0, 0, 128, 0, 0, 0, 0, 0, 16, 0]"
    by (simp add: reg_entry_def be_cells_def)
  then have es: "reg_value ?pr 2 1 [(of_nat 0x80000000, 0x1000)]" by (simp add: reg_value_def fits_cells_def)
  have cells: "node_cells example_dt_alloc 1 2 1"
    using example_cells by (simp add: node_cells_def node_props_def cell_prop_def same)
  have props: "node_props example_dt_alloc 2 [12]"
    unfolding node_props_def same by (simp add: example_dt_def example_links_def is_list_def)
  have "find (\<lambda>p. prop_name (the (dt_props example_dt_alloc p)) = ''reg'') [12] = Some 12"
    "dt_props example_dt_alloc 12 = Some ?pr" "dt_nodes example_dt_alloc (prop_node ?pr) = Some \<lparr>node_parent = Some 1, node_name = ''soc''\<rparr>"
    unfolding same by (simp_all add: example_dt_def)
  then show ?thesis
    unfolding node_reg_def using props cells es
    by (intro exI [of _ "[12]"] exI [of _ 12] exI [of _ ?pr] exI [of _ "\<lparr>node_parent = Some 1, node_name = ''soc''\<rparr>"]
      exI [of _ 1] exI [of _ 2] exI [of _ 1] exI [of _ "[]"]) simp
qed

definition example_uarts :: "paging_state \<Rightarrow> uart_state" where
  "example_uarts pg = init_uarts \<lparr>uart_dt = example_dt_alloc, uart_io = \<lparr>io_virtual = kernel_va, io_paging = pg\<rparr>,
     uart_mmio = \<lparr>readings = sconst 0x20, accesses = []\<rparr>, ns16550as = Map.empty, uart_links = Map.empty\<rparr>"

theorem serial_port_delivers_witness:
  "\<exists>s s'. each_call (\<lambda>s b. uart_write_byte s Ns16550a_Uart_Ops 4096 b) s [104, 105] = Some s' \<and>
    received 0x1000 (accesses (uart_mmio s')) = [104, 105]"
proof -
  let ?dev = "\<lparr>ns_uart = \<lparr>uart_vtable = Ns16550a_Uart_Ops, uart_device = Driver_Device 4096\<rparr>, ns_regs = Some 0x1000\<rparr>"
  let ?s = "(example_uarts undefined)\<lparr>ns16550as := [4096 \<mapsto> ?dev]\<rparr>"
  have "\<forall>n. \<exists>k \<ge> n. empty_transmitter_holding_register (lsr_of_byte (readings (uart_mmio ?s) !! k))"
    by (auto simp: example_uarts_def init_uarts_def lsr_of_byte_def bit_numeral_simps)
  from serial_port_delivers [OF _ _ this, of 4096 ?dev "0x1000" "[104, 105]"] show ?thesis
    by (auto simp: example_uarts_def init_uarts_def)
qed

text \<open>
  \<open>C40\<close>.  The outcomes of the driver on a node of the device tree.  When it makes a device, the registers are
  newly mapped, it is the last of the serial ports, and adding it extends the tree of devices.  When it makes none, the
  devices, the serial ports and the mapping of the kernel are as before; then the region was too small for the
  registers or there was no memory for the struct or the name, and no address stays allocated, or the registers could
  not be mapped, which leaves the run of addresses allocated if the cause was a lack of frames.  The device
  tree stays as it is and the frames that were taken are page tables.
\<close>

theorem ns16550a_enumerate_outcome:
  assumes "uart_inv s us t xs F (shd (dt_allocs (uart_dt s)))" "node_reg (uart_dt s) node q sz"
    and "q + unat sz + 4095 \<le> 2 ^ 56" "region_pages q sz \<le> 2 ^ 26"
    and "shd (allocs (io_virtual (uart_io s))) = Some u" "u \<notin> set xs"
  shows "\<exists>r s' xs' F'. ns16550a_enumerate_dt s node = Some (r, s') \<and>
    io_ready (uart_io s') xs' F' \<and> frames_kept (uart_io s) F (uart_io s') F' \<and> same_tree (uart_dt s) (uart_dt s') \<and>
    (case r of
       Some dev \<Rightarrow> SIZEOF_REGS \<le> sz \<and> (\<exists>p ptr d. dev = Driver_Device p \<and> uart_found s us s' p q ptr \<and>
         newly_mapped (uart_io s) xs (uart_io s') xs' ptr (q - q mod 4096) (region_pages q sz) \<and>
         device_add (uart_dt s') Root_Device dev = Some d \<and> device_tree d (add_leaf Root_Device dev t))
     | None \<Rightarrow> uart_absent s us s' \<and> uart_reason s xs F s' xs' sz (region_pages q sz))"
  by (rule ns16550a_enumerate_spec [OF assms])


lemma example_uarts_fields [simp]:
  "uart_dt (example_uarts pg) = example_dt_alloc" "uart_io (example_uarts pg) = \<lparr>io_virtual = kernel_va, io_paging = pg\<rparr>"
  "ns16550as (example_uarts pg) = Map.empty" "uart_links (example_uarts pg) = [Uarts \<mapsto> LIST_INIT Uarts]"
  "dt_allocs example_dt_alloc = sconst (Some 4096)"
  "device_tree example_dt_alloc (Rose Root_Device [])" "all_named example_dt_alloc" "devices example_dt_alloc (Driver_Device p) = None"
  by (simp_all add: example_uarts_def init_uarts_def is_list_Nil device_tree_def all_named_def
      example_dt_alloc_def init_root_device_def DEVICE_INIT_def LIST_INIT_def example_dt_def)

theorem ns16550a_enumerate_outcome_witness:
  "\<exists>s s' d. ns16550a_enumerate_dt s 2 = Some (Some (Driver_Device 4096), s') \<and>
    device_add (uart_dt s') Root_Device (Driver_Device 4096) = Some d \<and>
    device_tree d (Rose Root_Device [Rose (Driver_Device 4096) []])"
proof (rule example_io)
  fix pg assume io: "io_ready \<lparr>io_virtual = kernel_va, io_paging = pg\<rparr> [7] {2147487744, 2147491840, 2147495936}"
  let ?s = "example_uarts pg" and ?F = "{2147487744, 2147491840, 2147495936} :: nat set"
  have inv: "uart_inv ?s [] (Rose Root_Device []) [7] ?F (shd (dt_allocs (uart_dt ?s)))"
    using io by (simp add: uart_inv_def is_list_Nil)
  have n: "region_pages 0x80000000 0x1000 = 1" by (simp add: region_pages_def)
  have sz: "\<not> (0x1000 :: usize) < SIZEOF_REGS" by (simp add: SIZEOF_REGS_def)
  have room: "\<not> uart_reason ?s [7] ?F s' xs' 0x1000 1" for s' xs'
    unfolding uart_reason_def iomem_failed_def using example_io_room(4) sz
    by (simp add: numeral_2_eq_2 del: card.empty)
  have reg: "node_reg (uart_dt ?s) 2 0x80000000 0x1000" using example_node_reg by simp
  have u: "shd (allocs (io_virtual (uart_io ?s))) = Some 8" "(8 :: nat) \<notin> set [7]"
    using example_io_room(1,2) by simp_all
  obtain r s' where r: "ns16550a_enumerate_dt ?s 2 = Some (r, s')"
    "case r of Some dev \<Rightarrow> SIZEOF_REGS \<le> 0x1000 \<and> (\<exists>p ptr d. dev = Driver_Device p \<and> uart_found ?s [] s' p 0x80000000 ptr \<and>
        (\<exists>xs'. newly_mapped (uart_io ?s) [7] (uart_io s') xs' ptr (0x80000000 - 0x80000000 mod 4096) 1) \<and>
        device_add (uart_dt s') Root_Device dev = Some d \<and> device_tree d (add_leaf Root_Device dev (Rose Root_Device [])))
      | None \<Rightarrow> \<exists>xs'. uart_reason ?s [7] ?F s' xs' 0x1000 1"
  proof -
    from ns16550a_enumerate_outcome [OF inv reg _ _ u, unfolded n] obtain r s' xs' where
      r: "ns16550a_enumerate_dt ?s 2 = Some (r, s')"
      "case r of Some dev \<Rightarrow> SIZEOF_REGS \<le> 0x1000 \<and> (\<exists>p ptr d. dev = Driver_Device p \<and> uart_found ?s [] s' p 0x80000000 ptr \<and>
          newly_mapped (uart_io ?s) [7] (uart_io s') xs' ptr (0x80000000 - 0x80000000 mod 4096) 1 \<and>
          device_add (uart_dt s') Root_Device dev = Some d \<and> device_tree d (add_leaf Root_Device dev (Rose Root_Device [])))
        | None \<Rightarrow> uart_absent ?s [] s' \<and> uart_reason ?s [7] ?F s' xs' 0x1000 1"
      by auto
    then show thesis by (intro that [of r s']) (auto split: option.splits)
  qed
  have p: "shd (dt_allocs (uart_dt ?s)) = Some 4096" by simp
  show ?thesis
  proof (cases r)
    case None
    then show ?thesis using r(2) room by simp
  next
    case (Some dev)
    then obtain d where "dev = Driver_Device 4096" "device_add (uart_dt s') Root_Device dev = Some d"
      "device_tree d (add_leaf Root_Device dev (Rose Root_Device []))"
      using r(2) p by (auto simp: uart_found_def)
    then show ?thesis using r(1) Some by (intro exI [of _ ?s] exI [of _ s'] exI [of _ d]) simp
  qed
qed

end
