(* ===== verification/Selftests.thy ===== *)
theory Selftests
  imports Chacha Blake2 Swar Device
begin

unbundle bit_operations_syntax

text \<open>
  The self-tests that the kernel runs while it boots: \<^verbatim>\<open>selftest.c\<close> and the tests in \<^verbatim>\<open>selftest.c\<close>,
  \<^verbatim>\<open>swar_test.c\<close>, \<^verbatim>\<open>rfc7539.c\<close> and \<^verbatim>\<open>rfc7693.c\<close>.  A test whose assertions hold is \<open>Some ()\<close>.  The
  test vectors of the quarter round, the ChaCha20 block and BLAKE2s are evaluated on the model of
  the functions; those that take many blocks are defined only.
\<close>

section \<open>Running the tests\<close>

record selftest =
  test_func :: uaddr
  test_file :: string
  test_line :: usize

text \<open>\<open>call f s\<close> is the call of the function at address \<open>f\<close> in the state \<open>s\<close>.\<close>

primrec run_tests :: "(uaddr \<Rightarrow> 'a device_state_scheme \<Rightarrow> 'a device_state_scheme option) \<Rightarrow> selftest list \<Rightarrow>
    'a device_state_scheme \<Rightarrow> 'a device_state_scheme option" where
  "run_tests call [] s = Some s"
| "run_tests call (t # ts) s = do {
     s \<leftarrow> console_print s ''  {cstr}:{usize}'' [Va_Cstr (test_file t), Va_Long (test_line t)];
     s \<leftarrow> call (test_func t) s;
     run_tests call ts s
   }"

definition run_selftests :: "(uaddr \<Rightarrow> 'a device_state_scheme \<Rightarrow> 'a device_state_scheme option) \<Rightarrow> selftest list \<Rightarrow>
    'a device_state_scheme \<Rightarrow> 'a device_state_scheme option" where
  "run_selftests call tests s = do {
     let len = (of_nat (length tests) :: usize);
     assert_that (\<not> len <s 0);
     s \<leftarrow> console_print s ''Found {isize} selftests.'' [Va_Long len];
     s \<leftarrow> run_tests call tests s;
     console_print s ''All {isize} selftests passed.'' [Va_Long len]
   }"

section \<open>The tests\<close>

definition selftest_example :: "unit option" where
  "selftest_example = assert_that ((1 :: 32 word) + 1 = 2)"

definition selftest_swar :: "unit option" where
  "selftest_swar = do {
     assert_that (u8x8_broadcast 0x12 = 0x1212121212121212);
     assert_that (u8x8_find_first_zero 0x0000000000000000 = 1);
     assert_that (u8x8_find_first_zero 0x0034567890abcd00 = 1);
     assert_that (u8x8_find_first_zero 0x0034567890abcdef = 8);
     assert_that (u8x8_find_first_zero 0x1200567800abcdef = 4);
     assert_that (u8x8_find_first_zero 0x1234567800abcdef = 4);
     assert_that (u8x8_find_first_zero 0x1234567890abcd00 = 1);
     assert_that (u8x8_find_first_zero 0x1234567890abcdef = 0);
     assert_that (u8x8_find_first_zero 0x7f7f7f7f7f7f7f7f = 0);
     assert_that (u8x8_find_first_zero 0x8080808080808080 = 0);
     assert_that (u8x8_find_first_zero 0x8181818181818181 = 0);
     assert_that (u8x8_find_first_zero 0xffffffffffffffff = 0)
   }"

text \<open>The vectors of RFC 7539.  Assertions on the words of an array one by one are an equation of lists.\<close>

definition selftest_quarter_round :: "unit option" where
  "selftest_quarter_round = do {
     let words = [0x11111111, 0x1020304, 0x9b8d6f43, 0x1234567] @ replicate 12 0;
     let words = chacha20_quarter_round words 0 1 2 3;
     assert_that (take 4 words = [0xea2a92f4, 0xcb1cf8ce, 0x4581472e, 0x5881c4bb])
   }"

definition selftest_quarter_round_state :: "unit option" where
  "selftest_quarter_round_state = do {
     let words = [0x879531e0, 0xc5ecf37d, 0x516461b1, 0xc9a62f8a, 0x44c20ef3, 0x3390af7f, 0xd9fc690b, 0x2a5f714c,
     0x53372767, 0xb00a5631, 0x974c541a, 0x359e9963, 0x5c971061, 0x3d631689, 0x2098d9d6, 0x91dbd320];
     let words = chacha20_quarter_round words 2 7 8 13;
     assert_that (words = [0x879531e0, 0xc5ecf37d, 0xbdb886dc, 0xc9a62f8a, 0x44c20ef3, 0x3390af7f, 0xd9fc690b, 0xcfacafd2,
     0xe46bea80, 0xb00a5631, 0x974c541a, 0x359e9963, 0x5c971061, 0xccc07c79, 0x2098d9d6, 0x91dbd320])
   }"

definition rfc7539_key :: "u8 list" where
  "rfc7539_key = [0x0, 0x1, 0x2, 0x3, 0x4, 0x5, 0x6, 0x7, 0x8, 0x9, 0xa, 0xb, 0xc, 0xd, 0xe, 0xf,
     0x10, 0x11, 0x12, 0x13, 0x14, 0x15, 0x16, 0x17, 0x18, 0x19, 0x1a, 0x1b, 0x1c, 0x1d, 0x1e, 0x1f]"

definition selftest_chacha20_block :: "unit option" where
  "selftest_chacha20_block = do {
     let st = chacha20_state_init rfc7539_key 1 [0x09000000, 0x4a000000, 0];
     assert_that (st = [0x61707865, 0x3320646e, 0x79622d32, 0x6b206574, 0x3020100, 0x7060504, 0xb0a0908, 0xf0e0d0c,
     0x13121110, 0x17161514, 0x1b1a1918, 0x1f1e1d1c, 0x1, 0x9000000, 0x4a000000, 0x0]);
     let st = chacha20_block st;
     assert_that (st = [0xe4e7f110, 0x15593bd1, 0x1fdd0f50, 0xc47120a3, 0xc7f4d1c7, 0x368c033, 0x9aaa2204, 0x4e6cd4c3,
     0x466482d2, 0x9aa9f07, 0x5d7c214, 0xa2028bd9, 0xd19c12b5, 0xb94e16de, 0xe883d0cb, 0x4e3c50a2])
   }"

definition selftest_chacha20_encrypt :: "unit option" where
  "selftest_chacha20_encrypt = do {
     let text_bytes = map of_char
       (''Ladies and Gentlemen of the class of '' @ CHR 0x27 # ''99: If I could offer you only one tip for the future, sunscreen would be it.'');
     let out = chacha20_encrypt rfc7539_key 1 [0, 0x4a000000, 0] text_bytes;
     assert_that (out = [0x6e, 0x2e, 0x35, 0x9a, 0x25, 0x68, 0xf9, 0x80, 0x41, 0xba, 0x7, 0x28,
     0xdd, 0xd, 0x69, 0x81, 0xe9, 0x7e, 0x7a, 0xec, 0x1d, 0x43, 0x60, 0xc2,
     0xa, 0x27, 0xaf, 0xcc, 0xfd, 0x9f, 0xae, 0xb, 0xf9, 0x1b, 0x65, 0xc5,
     0x52, 0x47, 0x33, 0xab, 0x8f, 0x59, 0x3d, 0xab, 0xcd, 0x62, 0xb3, 0x57,
     0x16, 0x39, 0xd6, 0x24, 0xe6, 0x51, 0x52, 0xab, 0x8f, 0x53, 0xc, 0x35,
     0x9f, 0x8, 0x61, 0xd8, 0x7, 0xca, 0xd, 0xbf, 0x50, 0xd, 0x6a, 0x61,
     0x56, 0xa3, 0x8e, 0x8, 0x8a, 0x22, 0xb6, 0x5e, 0x52, 0xbc, 0x51, 0x4d,
     0x16, 0xcc, 0xf8, 0x6, 0x81, 0x8c, 0xe9, 0x1a, 0xb7, 0x79, 0x37, 0x36,
     0x5a, 0xf9, 0xb, 0xbf, 0x74, 0xa3, 0x5b, 0xe6, 0xb4, 0xb, 0x8e, 0xed,
     0xf2, 0x78, 0x5e, 0x42, 0x87, 0x4d])
   }"

text \<open>The vectors of RFC 7693; \<open>buf\<close> is what is on the stack.\<close>

definition selftest_blake2b_abc :: "unit option" where
  "selftest_blake2b_abc = do {
     hash \<leftarrow> blake2b_hash 64 [] [97, 98, 99];
     assert_that (hash = [0xba, 0x80, 0xa5, 0x3f, 0x98, 0x1c, 0x4d, 0xd, 0x6a, 0x27, 0x97, 0xb6,
     0x9f, 0x12, 0xf6, 0xe9, 0x4c, 0x21, 0x2f, 0x14, 0x68, 0x5a, 0xc4, 0xb7,
     0x4b, 0x12, 0xbb, 0x6f, 0xdb, 0xff, 0xa2, 0xd1, 0x7d, 0x87, 0xc5, 0x39,
     0x2a, 0xab, 0x79, 0x2d, 0xc2, 0x52, 0xd5, 0xde, 0x45, 0x33, 0xcc, 0x95,
     0x18, 0xd3, 0x8a, 0xa8, 0xdb, 0xf1, 0x92, 0x5a, 0xb9, 0x23, 0x86, 0xed,
     0xd4, 0x0, 0x99, 0x23])
   }"

definition selftest_blake2s_abc :: "u8 list \<Rightarrow> unit option" where
  "selftest_blake2s_abc buf = do {
     hash \<leftarrow> blake2s_hash buf 32 [] [97, 98, 99];
     assert_that (hash = [0x50, 0x8c, 0x5e, 0x8c, 0x32, 0x7c, 0x14, 0xe2, 0xe1, 0xa7, 0x2b, 0xa3,
     0x4e, 0xeb, 0x45, 0x2f, 0x37, 0x45, 0x8b, 0x20, 0x9e, 0xd6, 0x3a, 0x29,
     0x4d, 0x99, 0x9b, 0x4c, 0x86, 0x67, 0x59, 0x82])
   }"

text \<open>The sequence of Appendix E, and the tests that hash all their hashes.\<close>

fun seq_from :: "nat \<Rightarrow> u32 \<Rightarrow> u32 \<Rightarrow> u8 list" where
  "seq_from 0 a b = []"
| "seq_from (Suc n) a b = (let t = a + b; a = b; b = t in ucast (drop_bit 24 t) # seq_from n a b)"

definition selftest_seq :: "nat \<Rightarrow> u32 \<Rightarrow> u8 list" where
  "selftest_seq len seed = seq_from len (0xdead4bad * seed) 1"

fun selftest_hashes :: "(usize \<Rightarrow> u8 list \<Rightarrow> u8 list \<Rightarrow> u8 list option) \<Rightarrow> (nat \<times> nat) list \<Rightarrow> u8 list option" where
  "selftest_hashes hash [] = Some []"
| "selftest_hashes hash ((out_len, data_len) # lens) = do {
     let bytes = selftest_seq data_len (of_nat data_len);
     plain \<leftarrow> hash (of_nat out_len) [] bytes;
     let key = selftest_seq out_len (of_nat out_len);
     keyed \<leftarrow> hash (of_nat out_len) key bytes;
     rest \<leftarrow> selftest_hashes hash lens;
     Some (plain @ keyed @ rest)
   }"

definition selftest_blake2b :: "unit option" where
  "selftest_blake2b = do {
     hashes \<leftarrow> selftest_hashes blake2b_hash (List.product [20, 32, 48, 64] [0, 3, 128, 129, 255, 1024]);
     assert_that (length hashes = 1968);
     hash \<leftarrow> blake2b_hash 32 [] hashes;
     assert_that (hash = [0xc2, 0x3a, 0x78, 0x0, 0xd9, 0x81, 0x23, 0xbd, 0x10, 0xf5, 0x6, 0xc6,
     0x1e, 0x29, 0xda, 0x56, 0x3, 0xd7, 0x63, 0xb8, 0xbb, 0xad, 0x2e, 0x73,
     0x7f, 0x5e, 0x76, 0x5a, 0x7b, 0xcc, 0xd4, 0x75])
   }"

definition selftest_blake2s :: "u8 list \<Rightarrow> unit option" where
  "selftest_blake2s buf = do {
     hashes \<leftarrow> selftest_hashes (blake2s_hash buf) (List.product [16, 20, 28, 32] [0, 3, 64, 65, 255, 1024]);
     assert_that (length hashes = 1152);
     hash \<leftarrow> blake2s_hash buf 32 [] hashes;
     assert_that (hash = [0x6a, 0x41, 0x1f, 0x8, 0xce, 0x25, 0xad, 0xcd, 0xfb, 0x2, 0xab, 0xa6,
     0x41, 0x45, 0x1c, 0xec, 0x53, 0xc5, 0x98, 0xb2, 0x4f, 0x4f, 0xc7, 0x87,
     0xfb, 0xdc, 0x88, 0x79, 0x7f, 0x4c, 0x1d, 0xfe])
   }"

section \<open>Evaluating the block functions\<close>

text \<open>One double round at a time.\<close>

lemma double_round_0: "chacha20_double_round [0x61707865, 0x3320646e, 0x79622d32, 0x6b206574, 0x3020100, 0x7060504, 0xb0a0908, 0xf0e0d0c,
     0x13121110, 0x17161514, 0x1b1a1918, 0x1f1e1d1c, 0x1, 0x9000000, 0x4a000000, 0x0] =
     [0xcd52e917, 0x85ab03b4, 0xb3457395, 0xf96de7dd, 0xc4b7cd22, 0x5c2e187a, 0xc95eb461, 0x316c801a,
     0x7bf7d740, 0x7eddd644, 0xf1a1bdf5, 0x761246ca, 0x6b0d58a3, 0x6798471a, 0xd737f167, 0xf173888d]"
  by code_simp

lemma double_round_1: "chacha20_double_round [0xcd52e917, 0x85ab03b4, 0xb3457395, 0xf96de7dd, 0xc4b7cd22, 0x5c2e187a, 0xc95eb461, 0x316c801a,
     0x7bf7d740, 0x7eddd644, 0xf1a1bdf5, 0x761246ca, 0x6b0d58a3, 0x6798471a, 0xd737f167, 0xf173888d] =
     [0xcf1a7584, 0x48927ec, 0x54051fda, 0xc244ff28, 0x901d2f40, 0x7974b81c, 0x378dcfb4, 0xcd47fd0e,
     0x2dafb216, 0x27c89cd6, 0xcd3c9aa0, 0x79fc89c7, 0x10aef18d, 0x16218765, 0x68f76705, 0x4d6ee22]"
  by code_simp

lemma double_round_2: "chacha20_double_round [0xcf1a7584, 0x48927ec, 0x54051fda, 0xc244ff28, 0x901d2f40, 0x7974b81c, 0x378dcfb4, 0xcd47fd0e,
     0x2dafb216, 0x27c89cd6, 0xcd3c9aa0, 0x79fc89c7, 0x10aef18d, 0x16218765, 0x68f76705, 0x4d6ee22] =
     [0x3a14032, 0x66b15927, 0x9d6b6b42, 0xb84c4109, 0xa7143ae0, 0xa09b33dd, 0xa5daaf88, 0x2fd91a73,
     0xc90c6b18, 0x5a202413, 0xc20e01b6, 0x72cd6b74, 0xba35d777, 0xb360f1bf, 0x8178315b, 0x2cd11b1a]"
  by code_simp

lemma double_round_3: "chacha20_double_round [0x3a14032, 0x66b15927, 0x9d6b6b42, 0xb84c4109, 0xa7143ae0, 0xa09b33dd, 0xa5daaf88, 0x2fd91a73,
     0xc90c6b18, 0x5a202413, 0xc20e01b6, 0x72cd6b74, 0xba35d777, 0xb360f1bf, 0x8178315b, 0x2cd11b1a] =
     [0x9a2d3589, 0xb23fc4e, 0x40af3b6b, 0xceea8144, 0xa1bffc6, 0x5e5993f7, 0x9904c2e7, 0xd334718,
     0xe46c6354, 0xc9503229, 0x4fef5aa, 0xf8933f72, 0x2687d476, 0x54e65231, 0x3594ffc5, 0x2b3bb2ca]"
  by code_simp

lemma double_round_4: "chacha20_double_round [0x9a2d3589, 0xb23fc4e, 0x40af3b6b, 0xceea8144, 0xa1bffc6, 0x5e5993f7, 0x9904c2e7, 0xd334718,
     0xe46c6354, 0xc9503229, 0x4fef5aa, 0xf8933f72, 0x2687d476, 0x54e65231, 0x3594ffc5, 0x2b3bb2ca] =
     [0xc53318c5, 0xca325d96, 0x7e7d11cb, 0x3404e2ca, 0x26d7cf73, 0x6088d379, 0xc0f0e9bd, 0xe310cdb9,
     0xae2ca8db, 0x42f67c72, 0x71669aca, 0x975c171d, 0x9e5ec228, 0x7d85a9f3, 0x201d0756, 0x63fa6953]"
  by code_simp

lemma double_round_5: "chacha20_double_round [0xc53318c5, 0xca325d96, 0x7e7d11cb, 0x3404e2ca, 0x26d7cf73, 0x6088d379, 0xc0f0e9bd, 0xe310cdb9,
     0xae2ca8db, 0x42f67c72, 0x71669aca, 0x975c171d, 0x9e5ec228, 0x7d85a9f3, 0x201d0756, 0x63fa6953] =
     [0x4a3131a, 0x66176309, 0x415bab1, 0x61b880a2, 0x36cc86c7, 0xbf8a4465, 0xf77dd720, 0xfc0bdc90,
     0x7d13aca, 0xeb0be9af, 0x61599491, 0x918512dc, 0x33b6686d, 0x795cc671, 0xc0049972, 0xa0a81bde]"
  by code_simp

lemma double_round_6: "chacha20_double_round [0x4a3131a, 0x66176309, 0x415bab1, 0x61b880a2, 0x36cc86c7, 0xbf8a4465, 0xf77dd720, 0xfc0bdc90,
     0x7d13aca, 0xeb0be9af, 0x61599491, 0x918512dc, 0x33b6686d, 0x795cc671, 0xc0049972, 0xa0a81bde] =
     [0x9b70f51f, 0x7ea8ac11, 0x21e54da9, 0xca393b2f, 0x93b08686, 0x6a4c50ae, 0x19212a5a, 0x9b032958,
     0xd839165e, 0x4c06e28a, 0xd3fde99e, 0x26acc13d, 0xa609f555, 0x2c246549, 0x95151853, 0x2c847a0d]"
  by code_simp

lemma double_round_7: "chacha20_double_round [0x9b70f51f, 0x7ea8ac11, 0x21e54da9, 0xca393b2f, 0x93b08686, 0x6a4c50ae, 0x19212a5a, 0x9b032958,
     0xd839165e, 0x4c06e28a, 0xd3fde99e, 0x26acc13d, 0xa609f555, 0x2c246549, 0x95151853, 0x2c847a0d] =
     [0xca5c85dd, 0x93a4f90e, 0xd9f0df58, 0x26dd82dd, 0x982563f8, 0x712aa9ff, 0x279a61e8, 0x970f72bd,
     0x1c25931a, 0x5180bb10, 0x779c27e7, 0x54077e08, 0xa9b751fb, 0x382f3ce2, 0x8db1757d, 0xcc38080b]"
  by code_simp

lemma double_round_8: "chacha20_double_round [0xca5c85dd, 0x93a4f90e, 0xd9f0df58, 0x26dd82dd, 0x982563f8, 0x712aa9ff, 0x279a61e8, 0x970f72bd,
     0x1c25931a, 0x5180bb10, 0x779c27e7, 0x54077e08, 0xa9b751fb, 0x382f3ce2, 0x8db1757d, 0xcc38080b] =
     [0xb6b87de6, 0x9a016148, 0x93859815, 0x4915e6cc, 0xdc33c122, 0x98e18fa3, 0x5ffbe8fc, 0xf7154b8b,
     0x28c1fcb3, 0xc4b38f9d, 0x83e2f5d7, 0x7d24b98b, 0x21078b22, 0xb193e7a3, 0xb2f49389, 0x6cde6026]"
  by code_simp

lemma double_round_9: "chacha20_double_round [0xb6b87de6, 0x9a016148, 0x93859815, 0x4915e6cc, 0xdc33c122, 0x98e18fa3, 0x5ffbe8fc, 0xf7154b8b,
     0x28c1fcb3, 0xc4b38f9d, 0x83e2f5d7, 0x7d24b98b, 0x21078b22, 0xb193e7a3, 0xb2f49389, 0x6cde6026] =
     [0x837778ab, 0xe238d763, 0xa67ae21e, 0x5950bb2f, 0xc4f2d0c7, 0xfc62bb2f, 0x8fa018fc, 0x3f5ec7b7,
     0x335271c2, 0xf29489f3, 0xeabda8fc, 0x82e46ebd, 0xd19c12b4, 0xb04e16de, 0x9e83d0cb, 0x4e3c50a2]"
  by code_simp

definition abc_chunk :: "u32 list" where
  "abc_chunk = 0x636261 # replicate 15 0"

lemma mix_double_round_0: "blake2s_mix_double_round [0x6b08e647, 0xbb67ae85, 0x3c6ef372, 0xa54ff53a, 0x510e527f, 0x9b05688c, 0x1f83d9ab, 0x5be0cd19,
     0x6a09e667, 0xbb67ae85, 0x3c6ef372, 0xa54ff53a, 0x510e527c, 0x9b05688c, 0xe07c2654, 0x5be0cd19] abc_chunk 0 =
     [0x16a3242e, 0xd7b5e238, 0xce8ce24b, 0x927aede1, 0xa7b430d9, 0x93a4a14e, 0xa44e7c31, 0x41d4759b,
     0x95bf33d3, 0x9a99c181, 0x608a3a6b, 0xb666383e, 0x7a8dd50f, 0xbe378ed7, 0x353d1ee6, 0x3bb44c6b]"
  by code_simp

lemma mix_double_round_1: "blake2s_mix_double_round [0x16a3242e, 0xd7b5e238, 0xce8ce24b, 0x927aede1, 0xa7b430d9, 0x93a4a14e, 0xa44e7c31, 0x41d4759b,
     0x95bf33d3, 0x9a99c181, 0x608a3a6b, 0xb666383e, 0x7a8dd50f, 0xbe378ed7, 0x353d1ee6, 0x3bb44c6b] abc_chunk 1 =
     [0x3ae30fe3, 0x982a96b, 0xe88185b4, 0x3e339b16, 0xf24338cd, 0xe66d326, 0xe005ed0c, 0xd591a277,
     0x180b1f3a, 0xfcf43914, 0x30db62d6, 0x4847831c, 0x7f00c58e, 0xfb847886, 0xc544e836, 0x524ab0e2]"
  by code_simp

lemma mix_double_round_2: "blake2s_mix_double_round [0x3ae30fe3, 0x982a96b, 0xe88185b4, 0x3e339b16, 0xf24338cd, 0xe66d326, 0xe005ed0c, 0xd591a277,
     0x180b1f3a, 0xfcf43914, 0x30db62d6, 0x4847831c, 0x7f00c58e, 0xfb847886, 0xc544e836, 0x524ab0e2] abc_chunk 2 =
     [0x7a3be783, 0x997546c1, 0xd45246df, 0xedb5f821, 0x7f98a742, 0x10e864e2, 0xd4ab70d0, 0xc63cb1ab,
     0x6038da9e, 0x414594b0, 0xf2c218b5, 0x8da0dcb7, 0xd7cd7af5, 0xab4909df, 0x85031a52, 0xc4edfc98]"
  by code_simp

lemma mix_double_round_3: "blake2s_mix_double_round [0x7a3be783, 0x997546c1, 0xd45246df, 0xedb5f821, 0x7f98a742, 0x10e864e2, 0xd4ab70d0, 0xc63cb1ab,
     0x6038da9e, 0x414594b0, 0xf2c218b5, 0x8da0dcb7, 0xd7cd7af5, 0xab4909df, 0x85031a52, 0xc4edfc98] abc_chunk 3 =
     [0x2a8b8cb7, 0x1aca82b2, 0x14045d7f, 0xcc7258ed, 0x383cf67c, 0xe090e7f9, 0x3025d276, 0x57d04de4,
     0x994bacf0, 0xf0982759, 0xf17ee300, 0xd48fc2d5, 0xdc854c10, 0x523898a9, 0xc03a0f89, 0x47d6cd88]"
  by code_simp

lemma mix_double_round_4: "blake2s_mix_double_round [0x2a8b8cb7, 0x1aca82b2, 0x14045d7f, 0xcc7258ed, 0x383cf67c, 0xe090e7f9, 0x3025d276, 0x57d04de4,
     0x994bacf0, 0xf0982759, 0xf17ee300, 0xd48fc2d5, 0xdc854c10, 0x523898a9, 0xc03a0f89, 0x47d6cd88] abc_chunk 4 =
     [0xc4aa2ddb, 0x111343a3, 0xd54a700a, 0x574a00a9, 0x857d5a48, 0xb1e11989, 0x6f5c52df, 0xdd2c53a3,
     0x678e5f8e, 0x9718d4e9, 0x622cb684, 0x92976076, 0xe41a517, 0x359dc2be, 0x87a87ddd, 0x643f9cec]"
  by code_simp

lemma mix_double_round_5: "blake2s_mix_double_round [0xc4aa2ddb, 0x111343a3, 0xd54a700a, 0x574a00a9, 0x857d5a48, 0xb1e11989, 0x6f5c52df, 0xdd2c53a3,
     0x678e5f8e, 0x9718d4e9, 0x622cb684, 0x92976076, 0xe41a517, 0x359dc2be, 0x87a87ddd, 0x643f9cec] abc_chunk 5 =
     [0x3453921c, 0xd7595ee1, 0x592e776d, 0x3ed6a974, 0x4d997cb3, 0xde9212c3, 0x35adf5c9, 0x9916fd65,
     0x96562e89, 0x4ead0792, 0xebfc2712, 0x2385f5b2, 0xf34600fb, 0xd7bc20fb, 0xeb452a7b, 0xece1aa40]"
  by code_simp

lemma mix_double_round_6: "blake2s_mix_double_round [0x3453921c, 0xd7595ee1, 0x592e776d, 0x3ed6a974, 0x4d997cb3, 0xde9212c3, 0x35adf5c9, 0x9916fd65,
     0x96562e89, 0x4ead0792, 0xebfc2712, 0x2385f5b2, 0xf34600fb, 0xd7bc20fb, 0xeb452a7b, 0xece1aa40] abc_chunk 6 =
     [0xbe851b2d, 0xa85f6358, 0x81e6fc3b, 0xbb28000, 0xfa55a33a, 0x87be1fad, 0x4119370f, 0x1e2261aa,
     0xa1318fd3, 0xf4329816, 0x71783c2, 0x6e536a8d, 0x9a81a601, 0xe7ec80f1, 0xacc09948, 0xf849a584]"
  by code_simp

lemma mix_double_round_7: "blake2s_mix_double_round [0xbe851b2d, 0xa85f6358, 0x81e6fc3b, 0xbb28000, 0xfa55a33a, 0x87be1fad, 0x4119370f, 0x1e2261aa,
     0xa1318fd3, 0xf4329816, 0x71783c2, 0x6e536a8d, 0x9a81a601, 0xe7ec80f1, 0xacc09948, 0xf849a584] abc_chunk 7 =
     [0x7e5b85a, 0x69cc164, 0xf9de3141, 0xa56f4680, 0x9e440ad2, 0x9ab659ea, 0x3c84b971, 0x21dbd9cf,
     0x46699f8c, 0x765257ec, 0xaf1d998c, 0x75e4c3b6, 0x523878dc, 0x30715015, 0x397fee81, 0x4f1fa799]"
  by code_simp

lemma mix_double_round_8: "blake2s_mix_double_round [0x7e5b85a, 0x69cc164, 0xf9de3141, 0xa56f4680, 0x9e440ad2, 0x9ab659ea, 0x3c84b971, 0x21dbd9cf,
     0x46699f8c, 0x765257ec, 0xaf1d998c, 0x75e4c3b6, 0x523878dc, 0x30715015, 0x397fee81, 0x4f1fa799] abc_chunk 8 =
     [0x435148c4, 0xa5aa2d11, 0x4b354173, 0xd543bc9e, 0xbda2591c, 0xbf1d2569, 0x4fcb3120, 0x707ada48,
     0x565b3fde, 0x32c9c916, 0xeaf4a1ab, 0xb1018f28, 0x8078d978, 0x68ade4b5, 0x9778fda3, 0x2863b92e]"
  by code_simp

lemma mix_double_round_9: "blake2s_mix_double_round [0x435148c4, 0xa5aa2d11, 0x4b354173, 0xd543bc9e, 0xbda2591c, 0xbf1d2569, 0x4fcb3120, 0x707ada48,
     0x565b3fde, 0x32c9c916, 0xeaf4a1ab, 0xb1018f28, 0x8078d978, 0x68ade4b5, 0x9778fda3, 0x2863b92e] abc_chunk 9 =
     [0xd9c994aa, 0xcfec3aa6, 0x700d0ab2, 0x2c38670e, 0xaf6a1f66, 0x1d023ef3, 0x1d9ec27d, 0x945357a5,
     0x3e9ffebd, 0x969fe811, 0xef485e21, 0xa632797a, 0xdeef082e, 0xaf3d80e1, 0x4e86829b, 0x4deafd3a]"
  by code_simp

lemmas double_rounds = double_round_0 double_round_1 double_round_2 double_round_3 double_round_4 double_round_5 double_round_6 double_round_7 double_round_8 double_round_9
lemmas mix_double_rounds = mix_double_round_0 mix_double_round_1 mix_double_round_2 mix_double_round_3 mix_double_round_4 mix_double_round_5 mix_double_round_6 mix_double_round_7 mix_double_round_8 mix_double_round_9

section \<open>The tests pass\<close>

lemma selftest_swar_passes: "selftest_swar = Some ()"
  by (simp only: selftest_swar_def, code_simp)

lemma selftest_quarter_round_passes: "selftest_quarter_round = Some ()"
  by code_simp

lemma selftest_quarter_round_state_passes: "selftest_quarter_round_state = Some ()"
  by code_simp

lemma funpow_10: "(f ^^ 10) x = f (f (f (f (f (f (f (f (f (f x)))))))))"
  by (simp add: numeral_eq_Suc)

lemma selftest_chacha20_block_passes: "selftest_chacha20_block = Some ()"
proof -
  have i: "chacha20_state_init rfc7539_key 1 [0x09000000, 0x4a000000, 0] = [0x61707865, 0x3320646e, 0x79622d32, 0x6b206574, 0x3020100, 0x7060504, 0xb0a0908, 0xf0e0d0c,
     0x13121110, 0x17161514, 0x1b1a1918, 0x1f1e1d1c, 0x1, 0x9000000, 0x4a000000, 0x0]"
    by code_simp
  show ?thesis
    by (simp add: selftest_chacha20_block_def i chacha20_block_def funpow_10 double_rounds assert_that_def)
qed

lemma selftest_blake2s_abc_passes:
  assumes "length buf = 64"
  shows "selftest_blake2s_abc buf = Some ()"
proof -
  let ?h = "[0x6b08e647, 0xbb67ae85, 0x3c6ef372, 0xa54ff53a, 0x510e527f, 0x9b05688c, 0x1f83d9ab, 0x5be0cd19] :: u32 list"
  have r: "[0..<10] = [0, 1, 2, 3, 4, 5, 6, 7, 8, 9]" by (simp add: upt_rec)
  have neg: "(- 528734636 :: u32) = 3766232660" by simp
  have c: "blake2s_compress ?h abc_chunk 3 0 True = [0x8c5e8c50, 0xe2147c32, 0xa32ba7e1, 0x2f45eb4e, 0x208b4537, 0x293ad69e, 0x4c9b994d, 0x82596786]"
    unfolding blake2s_compress_def r by (simp add: blake2s_iv_def Let_def neg mix_double_rounds [unfolded One_nat_def])
  have chunk: "words_of_bytes 16 (splice (replicate 64 0) 0 [97, 98, 99]) = abc_chunk"
    by code_simp
  have init: "blake2s_init buf 32 [] = Some \<lparr>buffer = buf, hash_state = ?h, byte_count_lo = 0, byte_count_hi = 0, buffer_len = 0, hash_len = 32\<rparr>"
    by (simp add: blake2s_init_def blake2s_iv_def assert_that_def)
  have upd: "blake2s_update \<lparr>buffer = buf, hash_state = ?h, byte_count_lo = 0, byte_count_hi = 0, buffer_len = 0, hash_len = 32\<rparr> [97, 98, 99] =
      Some \<lparr>buffer = splice buf 0 [97, 98, 99], hash_state = ?h, byte_count_lo = 0, byte_count_hi = 0, buffer_len = 3, hash_len = 32\<rparr>"
    by (simp add: blake2s_update_def update_loop.simps assert_that_def)
  have t: "take 3 (splice buf 0 [97, 98, 99]) = [97, 98, 99]" using assms by (simp add: splice_def)
  have out: "take 32 (bytes_of_words ([0x8c5e8c50, 0xe2147c32, 0xa32ba7e1, 0x2f45eb4e, 0x208b4537, 0x293ad69e, 0x4c9b994d, 0x82596786] :: u32 list)) = [0x50, 0x8c, 0x5e, 0x8c, 0x32, 0x7c, 0x14, 0xe2, 0xe1, 0xa7, 0x2b, 0xa3, 0x4e, 0xeb, 0x45, 0x2f,
     0x37, 0x45, 0x8b, 0x20, 0x9e, 0xd6, 0x3a, 0x29, 0x4d, 0x99, 0x9b, 0x4c, 0x86, 0x67, 0x59, 0x82]" by code_simp
  show ?thesis
    by (simp add: selftest_blake2s_abc_def blake2s_hash_def init upd blake2s_finish_def t chunk count_bytes_def ckd_add_def c out assert_that_def)
qed

section \<open>Running returns exactly if the tests pass\<close>

lemma console_prints:
  "list_all well_formed ps \<Longrightarrow> written ps ap = Some out \<Longrightarrow>
     console_print s (concat (map render ps)) ap = Some (s\<lparr>console := console s @ out @ [CHR 0x0A]\<rparr>)"
  by (simp add: console_print_def print_def vfprint_pieces)

lemma test_messages:
  "\<exists>s'. console_print s ''Found {isize} selftests.'' [Va_Long n] = Some s'"
  "\<exists>s'. console_print s ''All {isize} selftests passed.'' [Va_Long n] = Some s'"
  "\<exists>s'. console_print s ''  {cstr}:{usize}'' [Va_Cstr f, Va_Long n] = Some s'"
  using console_prints [of "[Text ''Found '', Hole F_isize [], Text '' selftests.'']" "[Va_Long n]" _ s]
    console_prints [of "[Text ''All '', Hole F_isize [], Text '' selftests passed.'']" "[Va_Long n]" _ s]
    console_prints [of "[Text ''  '', Hole F_cstr [], Text '':'', Hole F_usize []]" "[Va_Cstr f, Va_Long n]" _ s]
  by (simp_all add: format_isize_def format_usize_def format_cstr_def)

lemma run_tests_returns:
  assumes "\<And>f s. call f s = (if passes f then Some s else None)"
  shows "run_tests call ts s \<noteq> None \<longleftrightarrow> (\<forall>t \<in> set ts. passes (test_func t))"
proof (induction ts arbitrary: s)
  case (Cons t ts)
  obtain s' where "console_print s ''  {cstr}:{usize}'' [Va_Cstr (test_file t), Va_Long (test_line t)] = Some s'"
    using test_messages(3) by blast
  then show ?case using Cons [of s'] by (simp add: assms)
qed simp

lemma run_selftests_returns:
  assumes "\<And>f s. call f s = (if passes f then Some s else None)" "length tests < 2 ^ 63"
  shows "run_selftests call tests s \<noteq> None \<longleftrightarrow> (\<forall>t \<in> set tests. passes (test_func t))"
proof -
  have "signed_take_bit 63 (int (length tests)) = int (length tests)"
    using assms(2) by (simp add: signed_take_bit_int_eq_self)
  then have n: "\<not> (of_nat (length tests) :: usize) <s 0" by (simp add: word_sless_alt signed_of_nat)
  obtain s1 where s1: "console_print s ''Found {isize} selftests.'' [Va_Long (of_nat (length tests))] = Some s1"
    using test_messages(1) by blast
  have "run_selftests call tests s = do { s \<leftarrow> run_tests call tests s1;
      console_print s ''All {isize} selftests passed.'' [Va_Long (of_nat (length tests))] }"
    using n s1 by (simp add: run_selftests_def assert_that_def)
  then show ?thesis
    using run_tests_returns [of call passes tests s1, OF assms(1)] test_messages(2) [of _ "of_nat (length tests)"]
    by (cases "run_tests call tests s1") auto
qed

section \<open>Properties\<close>

text \<open>
  The model of the code passes the kernel's own tests of the byte vectors, the ChaCha20 quarter round and
  block function and BLAKE2s, with the published test vectors, whatever is on the stack.
\<close>

theorem selftests_pass:
  assumes "length buf = 64"
  shows "do { selftest_example; selftest_swar; selftest_quarter_round; selftest_quarter_round_state;
    selftest_chacha20_block; selftest_blake2s_abc buf } = Some ()"
  using selftest_blake2s_abc_passes [OF assms]
  by (simp add: selftest_swar_passes selftest_quarter_round_passes selftest_quarter_round_state_passes
    selftest_chacha20_block_passes selftest_example_def assert_that_def)

theorem selftests_pass_witness:
  "do { selftest_example; selftest_swar; selftest_quarter_round; selftest_quarter_round_state;
    selftest_chacha20_block; selftest_blake2s_abc (replicate 64 7) } = Some ()"
  by (rule selftests_pass) simp

end
