(* ===== verification/Spec2Isabelle.thy ===== *)
theory Spec2Isabelle
  imports Prelude Machine Physical Lists Physical_Alloc Paging Treap Virtual_Alloc Address_Space Chacha Blake2 Rng Swar Size_Classes Heap Heap_Pages Print Init Symbolicate Trees Device Builtins Devicetree Physical_Boot Iomem Ns16550a Selftests
begin

text \<open>
  A model of the ukoOS kernel, a higher-half kernel for 64-bit RISC-V with Sv39 paging, and theorems
  about its parts.  All sources named here are under \<^verbatim>\<open>src/src/kernel/\<close>.

  \<^bold>\<open>The program.\<close>  The firmware hands a flattened device tree to the boot code, which turns on paging with
  tables made at build time and calls \<^verbatim>\<open>main.c\<close>.  That parses the device tree, collects entropy, frees the
  memory of the machine to the physical allocator, initializes the allocator of kernel addresses, runs the
  initializers (which register the drivers), enumerates the devices of the tree, prints them and runs the
  self-tests.  The heap takes segments from the virtual and the physical allocator through the page tables
  and shuffles its free lists with the random number generator; the virtual allocator takes its structs from
  the heap and its priorities from the generator.

  \<^bold>\<open>Conventions\<close> (theory \<open>Prelude\<close>).  Integers have their width, \<open>u64\<close> is \<open>64 word\<close>.  A function that can stop
  (a failed assertion, a panic, a \<^verbatim>\<open>TODO\<close>, a wild dereference, a loop that does not end) has an option type with
  \<open>None\<close> for that; an error the code returns is a value.  Structs are records in a store indexed by
  their addresses, lists and trees are linked through such stores as in the code, and a relation
  (\<open>is_list\<close>, \<open>treap_seq\<close>, \<open>tree_at\<close>, \<open>phys_inv\<close>, \<open>va_inv\<close>, \<open>page_lists\<close>, \<open>tables_ok\<close>) gives the sequence, tree, set
  or map they represent.  A loop that may not end is a \<open>partial_function (option)\<close>, and a theorem about
  it says that it returns; the other loops are structural or have a termination proof.  Nothing is bounded by fuel.

  \<^bold>\<open>Theories and sources.\<close>
  \<^item> \<open>Machine\<close>: \<^verbatim>\<open>include/align.h\<close>, \<^verbatim>\<open>endian.h\<close>, \<^verbatim>\<open>physical.h\<close>, \<^verbatim>\<open>types.h\<close>: alignment, byte order, the bit-field
    \<^verbatim>\<open>paddr\<close>.  \<open>Physical\<close>: \<^verbatim>\<open>arch/riscv64/physical.c\<close>, access to a byte memory through the window of 128 GiB.
  \<^item> \<open>Lists\<close>: \<^verbatim>\<open>include/list.h\<close>; every operation refines one on sequences and changes no other list.
  \<^item> \<open>Physical_Alloc\<close>: \<^verbatim>\<open>mm/physical_alloc.c\<close> with its free lists inside the free frames; \<open>phys_inv s F\<close> says
    that exactly the frames \<open>F\<close> are free.  A locale states the contract of an allocator of frames, is interpreted
    on these functions and gives the properties of repeated allocation.  \<open>Physical_Boot\<close>: the rest of the file, which
    fills the lists from the device tree.
  \<^item> \<open>Paging\<close>: \<^verbatim>\<open>arch/riscv64/paging.c\<close>.  \<open>mapping s\<close> is the map from table indices to the leaf entries of
    4 KiB pages, \<open>large s\<close> the large pages of the upper levels, \<open>paging_inv s F\<close> the invariant: SATP points to a
    tree of distinct tables outside the free frames.  \<open>sv39_access\<close> is the hardware: canonical check, walk
    with large pages, reserved bits, permission check.  \<open>page_entry\<close> and \<open>permits\<close> say what the permissions mean.
    The properties are about addresses outside large pages (\<open>small_page\<close>), because the walk does not ask whether a
    valid entry is a leaf and would use the frame of a large page as a table (\<open>walk_step_large\<close>); the kernel's
    root has 128 large pages, the window on physical memory, and the root of the examples has the same.
  \<^item> \<open>Treap\<close>, \<open>Virtual_Alloc\<close>, \<open>Address_Space\<close>: \<^verbatim>\<open>mm/virtual_alloc.c\<close>: the treaps that order the free VMAs by address
    and by size, the VMAs and their list, and what the operations do to the used VMAs (\<open>used_vmas\<close>) and the runs
    of free pages (\<open>free_run\<close>) under the invariant \<open>va_inv\<close>.
  \<^item> \<open>Iomem\<close>: \<^verbatim>\<open>iomem_map\<close> and \<^verbatim>\<open>iomem_unmap\<close>, the two allocators and the page tables together.  The invariant
    \<open>io_ready\<close> says that an address is mapped only if a used VMA has it; its example is the range \<^verbatim>\<open>main.c\<close> uses.
  \<^item> \<open>Size_Classes\<close>, \<open>Heap\<close>, \<open>Heap_Pages\<close>: \<^verbatim>\<open>mm/alloc.c\<close> and \<^verbatim>\<open>mm/alloc/\<close>: size classes, segments, pages of blocks whose
    free lists run through the blocks in encoded form, allocation, release and reallocation.
  \<^item> \<open>Chacha\<close>, \<open>Blake2\<close>, \<open>Rng\<close>: \<^verbatim>\<open>crypto/subtle/\<close> and \<^verbatim>\<open>random.c\<close>: the cipher, the hashes against a reference, the entropy
    pool and the generator of one hart.  \<open>Swar\<close>: \<^verbatim>\<open>include/swar.h\<close>, searching the bytes of a word without a loop.
  \<^item> \<open>Print\<close>: \<^verbatim>\<open>print.c\<close>, against a meaning of formats as pieces.  \<open>Init\<close>: \<^verbatim>\<open>init.c\<close>.  \<open>Symbolicate\<close>: \<^verbatim>\<open>symbolicate.c\<close>.
    \<open>Builtins\<close>: \<^verbatim>\<open>builtins/\<close>.  \<open>Selftests\<close>: \<^verbatim>\<open>selftest.c\<close> and the tests, evaluated on the model.
  \<^item> \<open>Trees\<close>, \<open>Device\<close>, \<open>Devicetree\<close>: \<^verbatim>\<open>device.c\<close> and \<^verbatim>\<open>devicetree.c\<close>: trees linked by parent pointers and list heads, and
    the loops without a stack that walk them; parsing, reservations, lookups, enumeration.
  \<^item> \<open>Ns16550a\<close>: \<^verbatim>\<open>devices/uart.h\<close> and \<^verbatim>\<open>drivers/ns16550a.c\<close>: waiting for the transmitter, writing bytes, and the
    handler that makes a device of a node, over all the parts above.

  \<^bold>\<open>Parameters.\<close>  What one component asks of another in a cycle, and of the hardware, is a stream of answers in its
  state: the memory for VMA structs (\<open>allocs\<close>) and for device tree structs (\<open>dt_allocs\<close>), the random numbers of the
  treaps (\<open>draws\<close>), the readings of device registers (\<open>readings\<close>).  The theorems assume of them that the memory
  given is not in use and, for the treaps, that no draw has its low 31 bits zero (\<open>good_draws\<close>); the code only
  checks that the whole draw is not zero (\<open>zero_priority_is_stuck\<close>).  Handlers, initializers and tests, which the
  code calls through pointers, are functions the model takes as arguments.

  \<^bold>\<open>What the theorems show of defects.\<close>  Some theorems and lemmas are about inputs on which the code does not do what it
  means to: reservations in ascending order, empty reservations, regions that end at 4 GiB and \<^verbatim>\<open>reg\<close> properties with
  two entries (\<open>Physical_Alloc\<close>, \<open>Physical_Boot\<close>), addresses that pass the canonical check and that the hardware
  rejects (\<open>Paging\<close>), removals that lose the heap order (\<open>Treap\<close>), a class whose only page got empty
  (\<open>Heap_Pages\<close>), the addresses that stay allocated when a device cannot be mapped (\<open>Iomem\<close>).  The sign of a number
  stands before the marker of the base, unlike \<^verbatim>\<open>doc/kernel/print.md\<close> says (\<open>Print\<close>), and the enumeration
  leaves out the root node (\<open>Devicetree\<close>).

  \<^bold>\<open>Not modelled.\<close>  The boot code (\<^verbatim>\<open>start.S\<close>, \<^verbatim>\<open>bootstub.S\<close>, \<^verbatim>\<open>generate_bootstub.py\<close>, \<^verbatim>\<open>main.c\<close>), panics and backtraces, inline
  assembly and firmware calls, interrupts and several harts: they are assembly, output, or have no state the
  parts above depend on.  Debug output without an effect on the state, the clearing of stack copies by
  \<^verbatim>\<open>explicit_bzero\<close>, and the release of the temporary array in \<^verbatim>\<open>mm_init_physical\<close> are left out.  Pointers are
  addresses without provenance; \<^verbatim>\<open>devicetree_prop_reg\<close> compares offsets where the code compares pointers.
\<close>

end
